(* ===== verification/Prelude.thy ===== *)
theory Prelude
  imports Main "HOL-Library.Word" "HOL-Library.Char_ord" "HOL-Library.List_Lexorder" "HOL-Library.AList"
begin

text \<open>
  What every component shares: the machine integers of the program and the casts between them,
  the result type of a fallible call with its sequencing, and the generic facts about lists and
  association lists the component proofs rest on.

  A Rust \<open>u64\<close> (and \<open>usize\<close>, on the 64-bit targets the program is built for) is a \<open>64 word\<close>, whose
  \<open>+\<close> wraps. A Rust \<open>i64\<close> and an SQLite \<open>INTEGER\<close> is an \<open>int\<close> between \<open>i64_min\<close> and \<open>i64_max\<close>.
  A Rust \<open>String\<close> is the list of the bytes of its UTF-8 encoding, so the ordering of
  \<open>HOL-Library.List_Lexorder\<close> is the bytewise ordering of Rust's \<open>Ord\<close> and of SQLite's
  \<open>BINARY\<close> collation.
\<close>

section \<open>Machine integers\<close>

type_synonym u64 = "64 word"
type_synonym usize = "64 word"
type_synonym i64 = int
type_synonym rust_string = string

definition i64_max :: i64 where
  "i64_max = 2 ^ 63 - 1"

definition i64_min :: i64 where
  "i64_min = - (2 ^ 63)"

definition as_i64 :: "u64 \<Rightarrow> i64" where
  "as_i64 w = sint w"

definition as_u64 :: "i64 \<Rightarrow> u64" where
  "as_u64 i = word_of_int i"

definition i64_try_from :: "u64 \<Rightarrow> i64 option" where
  "i64_try_from w = (if uint w \<le> i64_max then Some (uint w) else None)"

definition usize_of :: "nat \<Rightarrow> usize" where
  "usize_of n = word_of_nat n"

named_theorems int_simps

lemma as_u64_as_i64 [simp, int_simps]: "as_u64 (as_i64 w) = w"
  by (simp add: as_u64_def as_i64_def)

lemma as_i64_as_u64: "i64_min \<le> i \<Longrightarrow> i \<le> i64_max \<Longrightarrow> as_i64 (as_u64 i) = i"
  by (simp add: as_u64_def as_i64_def i64_min_def i64_max_def sint_sbintrunc'
      signed_take_bit_int_eq_self)

lemma as_i64_inject [simp]: "as_i64 v = as_i64 w \<longleftrightarrow> v = w"
  by (metis as_u64_as_i64)

lemma as_i64_range: "i64_min \<le> as_i64 w" "as_i64 w \<le> i64_max"
  using sint_ge [of w] sint_lt [of w] by (simp_all add: as_i64_def i64_min_def i64_max_def)

lemma uint_as_u64: "0 \<le> i \<Longrightarrow> i \<le> i64_max \<Longrightarrow> uint (as_u64 i) = i"
  by (simp add: as_u64_def i64_max_def uint_word_of_int)

lemma uint_lt_2p64: "uint (w :: u64) < 2 ^ 64"
  using uint_bounded [of w] by simp

lemma as_i64_small: "uint w \<le> i64_max \<Longrightarrow> as_i64 w = uint w"
  by (metis as_i64_as_u64 as_u64_def dual_order.trans i64_min_def neg_le_0_iff_le
      uint_nonnegative word_of_int_uint zero_le_numeral zero_le_power)

lemma as_i64_big: "i64_max < uint w \<Longrightarrow> as_i64 w = uint w - 2 ^ 64"
proof -
  assume big: "i64_max < uint w"
  have "as_u64 (uint w - 2 ^ 64) = w"
    by (simp add: as_u64_def)
  moreover have "i64_min \<le> uint w - 2 ^ 64" "uint w - 2 ^ 64 \<le> i64_max"
    using big uint_lt_2p64 [of w] by (simp_all add: i64_min_def i64_max_def)
  ultimately show ?thesis
    by (metis as_i64_as_u64)
qed

lemma as_i64_cases:
  "as_i64 w = (if uint w \<le> i64_max then uint w else uint w - 2 ^ 64)"
  by (simp add: as_i64_small as_i64_big)

lemma as_u64_suc: "0 \<le> i \<Longrightarrow> i < i64_max \<Longrightarrow> as_u64 i + 1 = as_u64 (i + 1)"
  by (simp add: as_u64_def)

section \<open>Fallible results\<close>

text \<open>
  A \<open>Result<T, E>\<close> is a sum, \<open>Inl\<close> the error and \<open>Inr\<close> the value. \<open>rbind\<close> is the \<open>?\<close> operator,
  \<open>rmap\<close> is \<open>Result::map\<close>, and \<open>traverse\<close> is \<open>collect\<close> into a \<open>Result<Vec<_>>\<close>: it stops at the
  first error.
\<close>

fun rbind :: "'e + 'a \<Rightarrow> ('a \<Rightarrow> 'e + 'b) \<Rightarrow> 'e + 'b" where
  "rbind (Inl e) f = Inl e"
| "rbind (Inr x) f = f x"

fun rmap :: "('a \<Rightarrow> 'b) \<Rightarrow> 'e + 'a \<Rightarrow> 'e + 'b" where
  "rmap f (Inl e) = Inl e"
| "rmap f (Inr x) = Inr (f x)"

fun traverse :: "('a \<Rightarrow> 'e + 'b) \<Rightarrow> 'a list \<Rightarrow> 'e + 'b list" where
  "traverse f [] = Inr []"
| "traverse f (x # xs) = rbind (f x) (\<lambda>y. rbind (traverse f xs) (\<lambda>ys. Inr (y # ys)))"

definition is_ok :: "'e + 'a \<Rightarrow> bool" where
  "is_ok r = (case r of Inl _ \<Rightarrow> False | Inr _ \<Rightarrow> True)"

named_theorems result_simps

lemma rbind_Inr [result_simps]: "rbind m f = Inr y \<longleftrightarrow> (\<exists>x. m = Inr x \<and> f x = Inr y)"
  by (cases m) auto

lemma rbind_Inl [result_simps]:
  "rbind m f = Inl e \<longleftrightarrow> m = Inl e \<or> (\<exists>x. m = Inr x \<and> f x = Inl e)"
  by (cases m) auto

lemma rmap_Inr [result_simps]: "rmap f m = Inr y \<longleftrightarrow> (\<exists>x. m = Inr x \<and> y = f x)"
  by (cases m) auto

lemma rmap_Inl [result_simps]: "rmap f m = Inl e \<longleftrightarrow> m = Inl e"
  by (cases m) auto

lemma rbind_assoc: "rbind (rbind m f) g = rbind m (\<lambda>x. rbind (f x) g)"
  by (cases m) auto

lemma is_ok_simps [simp]: "\<not> is_ok (Inl e)" "is_ok (Inr x)"
  by (simp_all add: is_ok_def)

lemma is_ok_iff: "is_ok r \<longleftrightarrow> (\<exists>x. r = Inr x)"
  by (cases r) (auto simp: is_ok_def)

lemma unit_result_cases: "(r :: 'e + unit) = Inr () \<or> (\<exists>e. r = Inl e)"
  by (cases r) auto

lemma traverse_Inr: "traverse f xs = Inr ys \<longleftrightarrow> list_all2 (\<lambda>x y. f x = Inr y) xs ys"
proof (induction xs arbitrary: ys)
  case Nil
  then show ?case by auto
next
  case (Cons x xs)
  then show ?case
    by (cases ys) (auto simp: result_simps)
qed

lemma traverse_pure: "(\<And>x. x \<in> set xs \<Longrightarrow> f x = Inr (g x)) \<Longrightarrow> traverse f xs = Inr (map g xs)"
  by (induction xs) auto

lemma traverse_length: "traverse f xs = Inr ys \<Longrightarrow> length ys = length xs"
  by (auto simp: traverse_Inr dest: list_all2_lengthD)

lemma traverse_append:
  "traverse f (xs @ ys) = rbind (traverse f xs) (\<lambda>as. rbind (traverse f ys) (\<lambda>bs. Inr (as @ bs)))"
proof (induction xs)
  case Nil
  then show ?case by (cases "traverse f ys") auto
next
  case (Cons x xs)
  then show ?case by (simp add: rbind_assoc)
qed

lemma traverse_map: "traverse f (map g xs) = traverse (f \<circ> g) xs"
  by (induction xs) auto

section \<open>Lists\<close>

text \<open>\<open>filter_map\<close> keeps what the function answers with \<open>Some\<close>, as Rust's iterator adaptor does.\<close>

definition filter_map :: "('a \<Rightarrow> 'b option) \<Rightarrow> 'a list \<Rightarrow> 'b list" where
  "filter_map f xs = List.map_filter f xs"

lemma filter_map_simps [simp]:
  "filter_map f [] = []"
  "filter_map f (x # xs) = (case f x of None \<Rightarrow> filter_map f xs | Some y \<Rightarrow> y # filter_map f xs)"
  "filter_map f (xs @ ys) = filter_map f xs @ filter_map f ys"
  by (simp_all add: filter_map_def map_filter_simps map_filter_def split: option.splits)

lemma sorted_wrt_less_distinct: "sorted_wrt (<) (xs :: 'a :: order list) \<Longrightarrow> distinct xs"
  by (induction xs) auto

lemma sorted_wrt_filter_map:
  "sorted_wrt (<) (map f xs) \<Longrightarrow> sorted_wrt (<) (map f (filter P xs))"
  by (induction xs) auto

lemma last_of_sorted:
  fixes f :: "'a \<Rightarrow> 'b :: order"
  assumes "sorted_wrt (<) (map f xs)" and "x \<in> set xs"
  shows "f x \<le> f (last xs)"
  using assms
proof (induction xs)
  case (Cons y ys)
  show ?case
  proof (cases "ys = []")
    case False
    then have "f y < f (last ys)" using Cons.prems(1) by simp
    then show ?thesis using Cons False by (auto intro: less_imp_le)
  qed (use Cons.prems in simp)
qed simp

lemma filter_gt_sorted_append:
  fixes f :: "'a \<Rightarrow> 'b :: linorder"
  assumes "sorted_wrt (<) (map f xs)" and "k \<le> length xs" and "0 < k"
  shows "filter (\<lambda>x. f (xs ! (k - 1)) < f x) xs = drop k xs"
proof -
  have split: "xs = take k xs @ drop k xs" by simp
  have nth: "xs ! (k - 1) = last (take k xs)"
    using assms(2,3) by (subst last_conv_nth) (auto simp: min_def)
  have "sorted_wrt (<) (map f (take k xs) @ map f (drop k xs))"
    using assms(1) by (simp flip: map_append)
  then have st: "sorted_wrt (<) (map f (take k xs))"
    and lt: "\<And>a b. a \<in> set (take k xs) \<Longrightarrow> b \<in> set (drop k xs) \<Longrightarrow> f a < f b"
    by (auto simp: sorted_wrt_append)
  have "take k xs \<noteq> []" using assms(2,3) by auto
  then have "last (take k xs) \<in> set (take k xs)" by simp
  then have "filter (\<lambda>x. f (last (take k xs)) < f x) (drop k xs) = drop k xs"
    using lt by (intro filter_True) auto
  moreover have "filter (\<lambda>x. f (last (take k xs)) < f x) (take k xs) = []"
    using last_of_sorted [OF st] by (auto simp: filter_empty_conv not_less)
  ultimately show ?thesis
    using nth by (subst split) (simp del: append_take_drop_id)
qed

section \<open>Association lists as keyed tables\<close>

text \<open>\<open>AList.update\<close> is the upsert of a table with a primary key: replace in place or append.\<close>

lemma distinct_fst_update: "distinct (map fst m) \<Longrightarrow> distinct (map fst (AList.update k v m))"
  by (rule distinct_update)

lemma map_of_update: "map_of (AList.update k v m) = (map_of m)(k \<mapsto> v)"
  by (rule update_conv')

end
