(* ===== verification/Errors.thy ===== *)
theory Errors
  imports Prelude
begin

text \<open>
  The error vocabulary: \<open>crates/eventsdb-core/src/error.rs\<close> (the public \<open>Error\<close>, whose variants
  divide failures by what a caller can do about them), \<open>Expected\<close> of
  \<open>crates/eventsdb-core/src/store.rs\<close> (a payload of one variant), and the one place of the backend
  where a failure of SQLite or of the connection thread is given a class: \<open>is_contention\<close>,
  \<open>classify\<close> and \<open>map_isle\<close> of \<open>crates/eventsdb-sqlite/src/shared.rs\<close>.

  A message is represented by a constructor with the values its format string interpolates, one
  constructor for each format string of the code, grouped by the part of the program that says it.
\<close>

section \<open>Failures below the program\<close>

text \<open>
  The errors of \<open>rusqlite\<close> and of the connection thread (\<open>rusqlite_isle\<close>), as far as the program
  matches on them. The string is the text the error renders as; a conversion failure carries the column and
  the position its text names. \<open>IsleOther\<close> carries the answer of
  the library's own \<open>is_busy\<close>.
\<close>

datatype error_code =
    DatabaseBusy | DatabaseLocked | OperationInterrupted | DatabaseCorrupt | NotADatabase
  | ConstraintViolation | DiskFull | OtherCode

datatype rusqlite_error =
    SqliteFailure error_code rust_string
  | QueryReturnedNoRows
  | FromSqlConversionFailure rust_string i64
  | InvalidParameterName rust_string
  | InvalidParameterCount nat nat
  | OtherSqlError rust_string

datatype isle_error =
    IsleSqlite rusqlite_error
  | IsleTimeout
  | IsleClosed
  | IsleOther bool rust_string

section \<open>The public error\<close>

datatype expected = Unwritten | Seq u64

datatype envelope_reason =
    KeyRequired rust_string
  | KeyEmpty rust_string
  | KeyNotString rust_string rust_string
  | KeyNotObject rust_string rust_string
  | KeyNotUnsigned rust_string rust_string
  | UnknownKey rust_string
  | UnknownStoredKey rust_string
  | MetaNotScalar rust_string rust_string
  | StoredMustCarry rust_string

datatype decoding_reason =
    NotJsonObject
  | NoKindAfterUpcasting
  | NoSeqAfterUpcasting
  | NoVersionAfterUpcasting
  | StampedWithout rust_string
  | CannotSerialize rust_string

datatype query_reason =
    FilterMetaNull rust_string
  | FilterMetaNotScalar rust_string rust_string
  | EmptyMetaKey
  | QuotedMetaKey rust_string
  | PositionBeyondRange u64
  | TooManyPlaceholders nat rust_string

datatype transfer_reason =
    RecordNotObject
  | StreamRequired
  | PositionUnreadable
  | EventRequired
  | RenderingExport
  | WritingExport rust_string
  | FlushingExport rust_string

datatype retention_reason =
    CutoffBeyondRange u64
  | NoExportReceipt u64
  | ZeroPageSize

datatype runner_reason =
    RunnerAlreadyLive rust_string
  | RunnerLost

datatype hatch_reason =
    NotAuthorizedInHatch
  | StatementWrites
  | AuthorizerNotInstalled rust_string
  | AuthorizerNotRemoved rust_string
  | Panicked rust_string
  | ParameterUnbound rust_string
  | ParameterPositional nat
  | IntegerUnbindable u64
  | CellNotFinite rust_string
  | CellNotUtf8 rust_string
  | CellIsBlob rust_string

datatype file_reason =
    NewerUserVersion i64
  | ForeignTable rust_string
  | DestinationExists rust_string
  | DestinationUnclaimable rust_string rust_string
  | BackupLocked rust_string
  | BackupUnfinished rust_string

datatype spi_reason =
    NoOtherTime
  | NoHeadCheck
  | NoDetachedWrite
  | NoSqlAnswer
  | NoStatementBound
  | NoStoredForm
  | NoImportAsOneWrite

datatype engine_reason =
    NoSuchParameter rust_string
  | ParameterCount nat nat
  | StoreClosed
  | IsleDeadline
  | IsleText rust_string
  | SqliteText rusqlite_error

datatype reason =
    Envelope envelope_reason
  | Decoding decoding_reason
  | Query query_reason
  | Transferring transfer_reason
  | Retaining retention_reason
  | Running runner_reason
  | InHatch hatch_reason
  | InFile file_reason
  | Spi spi_reason
  | Engine engine_reason

datatype error =
    Validation reason
  | Busy reason
  | Timeout reason
  | Storage reason
  | Corruption reason
  | Unsupported reason
  | Truncated u64 u64
  | HeadMismatch expected expected
  | ConsumerBehind rust_string u64 u64
  | NotExported u64 u64

type_synonym 'a result = "error + 'a"

fun is_busy :: "error \<Rightarrow> bool" where
  "is_busy (Busy _) = True"
| "is_busy _ = False"

fun is_timeout :: "error \<Rightarrow> bool" where
  "is_timeout (Timeout _) = True"
| "is_timeout _ = False"

fun is_corruption :: "error \<Rightarrow> bool" where
  "is_corruption (Corruption _) = True"
| "is_corruption _ = False"

section \<open>Giving a failure its class\<close>

fun is_contention :: "rusqlite_error \<Rightarrow> bool" where
  "is_contention (SqliteFailure code _) = (code = DatabaseBusy \<or> code = DatabaseLocked)"
| "is_contention _ = False"

definition classify :: "rusqlite_error \<Rightarrow> error" where
  "classify e =
     (if is_contention e then Busy (Engine (SqliteText e))
      else case e of
        SqliteFailure OperationInterrupted _ \<Rightarrow> Timeout (Engine (SqliteText e))
      | SqliteFailure DatabaseCorrupt _ \<Rightarrow> Corruption (Engine (SqliteText e))
      | SqliteFailure NotADatabase _ \<Rightarrow> Corruption (Engine (SqliteText e))
      | FromSqlConversionFailure _ _ \<Rightarrow> Corruption (Engine (SqliteText e))
      | InvalidParameterName name \<Rightarrow> Validation (Engine (NoSuchParameter name))
      | InvalidParameterCount given declared \<Rightarrow> Validation (Engine (ParameterCount given declared))
      | _ \<Rightarrow> Storage (Engine (SqliteText e)))"

fun other_is_busy :: "isle_error \<Rightarrow> bool" where
  "other_is_busy (IsleOther busy _) = busy"
| "other_is_busy _ = False"

fun isle_text :: "isle_error \<Rightarrow> rust_string" where
  "isle_text (IsleOther _ text) = text"
| "isle_text _ = []"

definition map_isle :: "isle_error \<Rightarrow> error" where
  "map_isle e =
     (case e of
        IsleSqlite inner \<Rightarrow> classify inner
      | IsleTimeout \<Rightarrow> Timeout (Engine IsleDeadline)
      | IsleClosed \<Rightarrow> Storage (Engine StoreClosed)
      | IsleOther _ _ \<Rightarrow>
          if other_is_busy e then Busy (Engine (IsleText (isle_text e))) else Storage (Engine (IsleText (isle_text e))))"

lemma classify_cases:
  "classify e = Busy (Engine (SqliteText e)) \<or> classify e = Timeout (Engine (SqliteText e))
     \<or> classify e = Corruption (Engine (SqliteText e)) \<or> classify e = Storage (Engine (SqliteText e))
     \<or> (\<exists>r. classify e = Validation r)"
  by (auto simp: classify_def split: rusqlite_error.splits error_code.splits)

lemma is_busy_classify [simp]: "is_busy (classify e) = is_contention e"
  by (cases e; simp add: classify_def split: error_code.splits)

text \<open>
  No failure of SQLite reads as a refusal of the store: a truncated history, a moved head, a
  consumer left behind and an uncovered removal are only ever answered by the program's own checks.
\<close>

fun is_refusal :: "error \<Rightarrow> bool" where
  "is_refusal (Truncated _ _) = True"
| "is_refusal (HeadMismatch _ _) = True"
| "is_refusal (ConsumerBehind _ _ _) = True"
| "is_refusal (NotExported _ _) = True"
| "is_refusal (Unsupported _) = True"
| "is_refusal _ = False"

lemma classify_not_refusal [simp]: "\<not> is_refusal (classify e)"
  using classify_cases [of e] by auto

lemma map_isle_not_refusal [simp]: "\<not> is_refusal (map_isle e)"
  by (cases e) (auto simp: map_isle_def)

text \<open>
  A failure below the program is reported as \<open>Busy\<close>, the one class a write is retried on, exactly
  when it is contention: the two SQLite codes for a held lock, or the connection thread's own word
  for it. A deadline, a corrupt file, a conversion that failed, a parameter that does not match the
  statement and every other failure is another class.
\<close>

theorem map_isle_busy_iff_contention:
  "is_busy (map_isle e) \<longleftrightarrow>
     (\<exists>code text. e = IsleSqlite (SqliteFailure code text) \<and> code \<in> {DatabaseBusy, DatabaseLocked})
     \<or> (\<exists>text. e = IsleOther True text)"
proof (cases e)
  case (IsleSqlite inner)
  then show ?thesis by (cases inner) (auto simp: map_isle_def)
qed (auto simp: map_isle_def)

end
