(* ===== verification/Json.thy ===== *)
theory Json
  imports Errors
begin

text \<open>
  The JSON values the program passes around: the \<open>Value\<close>, \<open>Number\<close> and \<open>Map\<close> of \<open>serde_json\<close>, as
  the program builds and reads them. The workspace does not enable \<open>preserve_order\<close>, so a \<open>Map\<close> is a
  \<open>BTreeMap\<close>: one entry for each key, iterated in the bytewise order of the keys. It is modelled by
  the list of its entries in that order; \<open>map_ok\<close> says that a list is one. A number is an unsigned
  64-bit integer, a negative 64-bit one, or a float, whose 64 bits are kept uninterpreted.
\<close>

datatype number = PosInt u64 | NegInt i64 | Float u64

datatype json =
    JNull
  | JBool bool
  | JNumber number
  | JString rust_string
  | JArray "json list"
  | JObject "(rust_string \<times> json) list"

type_synonym json_map = "(rust_string \<times> json) list"

section \<open>Readers of a value\<close>

fun is_object :: "json \<Rightarrow> bool" where
  "is_object (JObject _) = True"
| "is_object _ = False"

fun is_string :: "json \<Rightarrow> bool" where
  "is_string (JString _) = True"
| "is_string _ = False"

fun is_u64 :: "json \<Rightarrow> bool" where
  "is_u64 (JNumber (PosInt _)) = True"
| "is_u64 _ = False"

fun as_u64_value :: "json \<Rightarrow> u64 option" where
  "as_u64_value (JNumber (PosInt n)) = Some n"
| "as_u64_value _ = None"

fun as_str :: "json \<Rightarrow> rust_string option" where
  "as_str (JString s) = Some s"
| "as_str _ = None"

fun number_as_i64 :: "number \<Rightarrow> i64 option" where
  "number_as_i64 (PosInt n) = i64_try_from n"
| "number_as_i64 (NegInt i) = Some i"
| "number_as_i64 (Float _) = None"

abbreviation from_u64 :: "u64 \<Rightarrow> json" where
  "from_u64 n \<equiv> JNumber (PosInt n)"

fun is_scalar :: "json \<Rightarrow> bool" where
  "is_scalar (JString _) = True"
| "is_scalar (JNumber _) = True"
| "is_scalar (JBool _) = True"
| "is_scalar _ = False"

lemma is_u64_iff: "is_u64 v \<longleftrightarrow> (\<exists>n. v = from_u64 n)"
  by (cases v rule: is_u64.cases) auto

lemma as_u64_value_Some: "as_u64_value v = Some n \<longleftrightarrow> v = from_u64 n"
  by (cases v rule: as_u64_value.cases) auto

lemma as_u64_value_None: "as_u64_value v = None \<longleftrightarrow> \<not> is_u64 v"
  by (cases v rule: as_u64_value.cases) auto

lemma as_str_Some: "as_str v = Some s \<longleftrightarrow> v = JString s"
  by (cases v) auto

lemma as_str_None: "as_str v = None \<longleftrightarrow> \<not> is_string v"
  by (cases v) auto

lemma is_string_iff: "is_string v \<longleftrightarrow> (\<exists>s. v = JString s)"
  by (cases v) auto

lemma is_object_iff: "is_object v \<longleftrightarrow> (\<exists>m. v = JObject m)"
  by (cases v) auto

section \<open>The ordered map\<close>

definition map_ok :: "json_map \<Rightarrow> bool" where
  "map_ok m \<longleftrightarrow> sorted_wrt (<) (map fst m)"

fun map_insert :: "rust_string \<Rightarrow> json \<Rightarrow> json_map \<Rightarrow> json_map" where
  "map_insert k v [] = [(k, v)]"
| "map_insert k v ((k', v') # m) =
     (if k < k' then (k, v) # (k', v') # m
      else if k = k' then (k, v) # m
      else (k', v') # map_insert k v m)"

text \<open>\<open>map.entry(k).or_insert_with(|| v)\<close>: the value goes in only where the key is absent.\<close>

definition or_insert :: "rust_string \<Rightarrow> json \<Rightarrow> json_map \<Rightarrow> json_map" where
  "or_insert k v m = (case map_of m k of None \<Rightarrow> map_insert k v m | Some _ \<Rightarrow> m)"

definition map_remove :: "rust_string \<Rightarrow> json_map \<Rightarrow> json_map" where
  "map_remove k m = filter (\<lambda>(k', _). k' \<noteq> k) m"

lemma map_ok_Nil [simp]: "map_ok []"
  by (simp add: map_ok_def)

lemma map_ok_Cons: "map_ok ((k, v) # m) \<longleftrightarrow> (\<forall>k' \<in> fst ` set m. k < k') \<and> map_ok m"
  by (simp add: map_ok_def)

lemma map_ok_distinct: "map_ok m \<Longrightarrow> distinct (map fst m)"
  by (simp add: map_ok_def sorted_wrt_less_distinct)

lemma set_map_insert_subset: "set (map_insert k v m) \<subseteq> insert (k, v) (set m)"
  by (induction k v m rule: map_insert.induct) auto

lemma fst_set_map_insert [simp]: "fst ` set (map_insert k v m) = insert k (fst ` set m)"
  by (induction k v m rule: map_insert.induct) auto

lemma map_ok_insert [simp]: "map_ok m \<Longrightarrow> map_ok (map_insert k v m)"
proof (induction m)
  case (Cons p m)
  obtain k' v' where p: "p = (k', v')" by force
  show ?case
  proof (cases "k < k'")
    case True
    then show ?thesis using Cons.prems p by (auto simp: map_ok_Cons)
  next
    case False
    then have "k = k' \<or> k' < k" by auto
    then show ?thesis using Cons p False by (auto simp: map_ok_Cons)
  qed
qed (simp add: map_ok_Cons)

lemma map_of_insert [simp]:
  "map_ok m \<Longrightarrow> map_of (map_insert k v m) = (map_of m)(k \<mapsto> v)"
proof (induction m)
  case (Cons p m)
  obtain k' v' where p: "p = (k', v')" by force
  show ?case
    using Cons p by (auto simp: map_ok_Cons fun_eq_iff)
qed simp

lemma map_ok_or_insert [simp]: "map_ok m \<Longrightarrow> map_ok (or_insert k v m)"
  by (simp add: or_insert_def split: option.splits)

lemma map_of_or_insert:
  "map_ok m \<Longrightarrow> map_of (or_insert k v m) k' =
     (if k' = k \<and> map_of m k = None then Some v else map_of m k')"
  by (auto simp: or_insert_def split: option.splits)

lemma map_of_remove [simp]: "map_of (map_remove k m) k' = (if k' = k then None else map_of m k')"
  by (induction m) (auto simp: map_remove_def)

lemma map_ok_remove [simp]: "map_ok m \<Longrightarrow> map_ok (map_remove k m)"
  by (simp add: map_remove_def map_ok_def sorted_wrt_filter_map)

text \<open>Two ordered maps with the same lookups are the same list.\<close>

lemma map_ok_eqI:
  assumes "map_ok m" and "map_ok m'" and "map_of m = map_of m'"
  shows "m = m'"
proof -
  have "set m = set m'"
    using assms map_ok_distinct by (metis map_of_inject_set)
  moreover have "sorted (map fst m)" "sorted (map fst m')"
    using assms(1,2) by (auto simp: map_ok_def strict_sorted_iff)
  ultimately show ?thesis
    using assms(1,2) map_ok_distinct map_sorted_distinct_set_unique
    by (metis distinct_map inf.idem set_map sup.idem)
qed

lemma map_of_mem: "map_ok m \<Longrightarrow> (k, v) \<in> set m \<longleftrightarrow> map_of m k = Some v"
  using map_ok_distinct by fastforce

end
