(* ===== verification/Event.thy ===== *)
theory Event
  imports Json
begin

text \<open>
  The event envelope of \<open>crates/eventsdb-core/src/event.rs\<close>: what a caller may write (\<open>validate\<close>),
  what the store stamps (\<open>stamp\<close>), what an event that already carries the store's fields must look
  like (\<open>validate_stored\<close>) and how it is given a sequence number in a new log (\<open>restamp\<close>). The loops
  over a map's entries are recursions over the entry list in key order, so the first refusal of the
  code is the first refusal of the model.
\<close>

section \<open>Keys\<close>

abbreviation FIELD_KIND :: rust_string where "FIELD_KIND \<equiv> ''kind''"
abbreviation FIELD_META :: rust_string where "FIELD_META \<equiv> ''meta''"
abbreviation FIELD_DATA :: rust_string where "FIELD_DATA \<equiv> ''data''"
abbreviation FIELD_SEQ :: rust_string where "FIELD_SEQ \<equiv> ''seq''"
abbreviation FIELD_EPOCH_MS :: rust_string where "FIELD_EPOCH_MS \<equiv> ''epoch_ms''"
abbreviation FIELD_SCHEMA_VERSION :: rust_string where "FIELD_SCHEMA_VERSION \<equiv> ''_schema_version''"

definition CALLER_FIELDS :: "rust_string list" where
  "CALLER_FIELDS = [FIELD_KIND, FIELD_META, FIELD_DATA, FIELD_SCHEMA_VERSION]"

definition DEFAULT_SCHEMA_VERSION :: u64 where
  "DEFAULT_SCHEMA_VERSION = 1"

section \<open>Checking the envelope\<close>

fun type_name :: "json \<Rightarrow> rust_string" where
  "type_name JNull = ''null''"
| "type_name (JBool _) = ''a boolean''"
| "type_name (JNumber _) = ''a number''"
| "type_name (JString _) = ''a string''"
| "type_name (JArray _) = ''an array''"
| "type_name (JObject _) = ''an object''"

fun validate_meta_values :: "json_map \<Rightarrow> unit result" where
  "validate_meta_values [] = Inr ()"
| "validate_meta_values ((key, value) # rest) =
     (case value of
        JString _ \<Rightarrow> validate_meta_values rest
      | JNumber _ \<Rightarrow> validate_meta_values rest
      | JBool _ \<Rightarrow> validate_meta_values rest
      | other \<Rightarrow> Inl (Validation (Envelope (MetaNotScalar key (type_name other)))))"

definition validate_meta :: "json \<Rightarrow> unit result" where
  "validate_meta meta =
     (case meta of
        JObject object \<Rightarrow> validate_meta_values object
      | _ \<Rightarrow> Inl (Validation (Envelope (KeyNotObject FIELD_META (type_name meta)))))"

fun validate_keys :: "json_map \<Rightarrow> unit result" where
  "validate_keys [] = Inr ()"
| "validate_keys ((key, value) # rest) =
     (if key \<notin> set CALLER_FIELDS then Inl (Validation (Envelope (UnknownKey key)))
      else if key = FIELD_META then rbind (validate_meta value) (\<lambda>_. validate_keys rest)
      else if key = FIELD_DATA \<and> \<not> is_object value then
        Inl (Validation (Envelope (KeyNotObject FIELD_DATA (type_name value))))
      else if key = FIELD_SCHEMA_VERSION \<and> \<not> is_u64 value then
        Inl (Validation (Envelope (KeyNotUnsigned FIELD_SCHEMA_VERSION (type_name value))))
      else validate_keys rest)"

definition validate :: "json_map \<Rightarrow> unit result" where
  "validate event =
     (case map_of event FIELD_KIND of
        None \<Rightarrow> Inl (Validation (Envelope (KeyRequired FIELD_KIND)))
      | Some (JString kind) \<Rightarrow>
          if kind = [] then Inl (Validation (Envelope (KeyEmpty FIELD_KIND)))
          else validate_keys event
      | Some other \<Rightarrow> Inl (Validation (Envelope (KeyNotString FIELD_KIND (type_name other)))))"

text \<open>
  \<open>validate_stored\<close> walks the keys, which here include the store's three, and then looks for what a
  stored event cannot be without. A sequence number is not among them: it is reassigned.
\<close>

fun validate_stored_keys :: "json_map \<Rightarrow> unit result" where
  "validate_stored_keys [] = Inr ()"
| "validate_stored_keys ((key, value) # rest) =
     (if \<not> (key \<in> set CALLER_FIELDS \<or> key \<in> {FIELD_SEQ, FIELD_EPOCH_MS, FIELD_SCHEMA_VERSION}) then
        Inl (Validation (Envelope (UnknownStoredKey key)))
      else if key = FIELD_META then rbind (validate_meta value) (\<lambda>_. validate_stored_keys rest)
      else if key = FIELD_DATA \<and> \<not> is_object value then
        Inl (Validation (Envelope (KeyNotObject FIELD_DATA (type_name value))))
      else if key \<in> {FIELD_EPOCH_MS, FIELD_SCHEMA_VERSION, FIELD_SEQ} \<and> \<not> is_u64 value then
        Inl (Validation (Envelope (KeyNotUnsigned key (type_name value))))
      else validate_stored_keys rest)"

fun require_fields :: "rust_string list \<Rightarrow> json_map \<Rightarrow> unit result" where
  "require_fields [] event = Inr ()"
| "require_fields (required # rest) event =
     (case map_of event required of
        Some value \<Rightarrow>
          if is_u64 value then require_fields rest event
          else Inl (Validation (Envelope (StoredMustCarry required)))
      | None \<Rightarrow> Inl (Validation (Envelope (StoredMustCarry required))))"

definition has_kind :: "json_map \<Rightarrow> bool" where
  "has_kind event =
     (case map_of event FIELD_KIND of Some (JString kind) \<Rightarrow> kind \<noteq> [] | _ \<Rightarrow> False)"

definition validate_stored :: "json_map \<Rightarrow> unit result" where
  "validate_stored event =
     rbind (validate_stored_keys event) (\<lambda>_.
       if has_kind event then require_fields [FIELD_EPOCH_MS, FIELD_SCHEMA_VERSION] event
       else Inl (Validation (Envelope (KeyRequired FIELD_KIND))))"

section \<open>Stamping\<close>

definition fill_objects :: "json_map \<Rightarrow> json_map" where
  "fill_objects event = or_insert FIELD_DATA (JObject []) (or_insert FIELD_META (JObject []) event)"

definition stamp :: "json_map \<Rightarrow> u64 \<Rightarrow> u64 \<Rightarrow> json_map result" where
  "stamp event seq epoch_ms =
     rbind (validate event) (\<lambda>_.
       let event = fill_objects event;
           event = map_insert FIELD_SEQ (from_u64 seq) event;
           event = map_insert FIELD_EPOCH_MS (from_u64 epoch_ms) event
       in Inr (or_insert FIELD_SCHEMA_VERSION (from_u64 DEFAULT_SCHEMA_VERSION) event))"

definition restamp :: "json_map \<Rightarrow> u64 \<Rightarrow> json_map result" where
  "restamp stored seq =
     rbind (validate_stored stored) (\<lambda>_.
       Inr (map_insert FIELD_SEQ (from_u64 seq) (fill_objects stored)))"

text \<open>\<open>now_ms\<close> saturates: a clock before the epoch reads as 0. The clock is an argument.\<close>

definition now_ms :: "i64 \<Rightarrow> u64" where
  "now_ms clock = (if clock < 0 then 0 else word_of_int clock)"

section \<open>What the checks accept\<close>

text \<open>
  The envelope contract as a predicate on the event, without an order of checks: \<open>meta\<close> is an object
  of scalars, \<open>data\<close> an object, the version an unsigned integer, the kind a non-empty string, and
  no other key is there.
\<close>

definition meta_ok :: "json \<Rightarrow> bool" where
  "meta_ok v = (case v of JObject object \<Rightarrow> (\<forall>p \<in> set object. is_scalar (snd p)) | _ \<Rightarrow> False)"

definition entry_ok :: "rust_string \<Rightarrow> json \<Rightarrow> bool" where
  "entry_ok key value \<longleftrightarrow>
     (key = FIELD_META \<longrightarrow> meta_ok value) \<and> (key = FIELD_DATA \<longrightarrow> is_object value)
     \<and> (key \<in> {FIELD_SCHEMA_VERSION, FIELD_SEQ, FIELD_EPOCH_MS} \<longrightarrow> is_u64 value)"

definition well_formed :: "json_map \<Rightarrow> bool" where
  "well_formed event \<longleftrightarrow>
     has_kind event \<and> (\<forall>p \<in> set event. fst p \<in> set CALLER_FIELDS \<and> entry_ok (fst p) (snd p))"

definition well_formed_stored :: "json_map \<Rightarrow> bool" where
  "well_formed_stored event \<longleftrightarrow>
     has_kind event
     \<and> (\<forall>p \<in> set event. fst p \<in> insert FIELD_SEQ (insert FIELD_EPOCH_MS (set CALLER_FIELDS))
                         \<and> entry_ok (fst p) (snd p))
     \<and> (\<exists>t. map_of event FIELD_EPOCH_MS = Some (from_u64 t))
     \<and> (\<exists>v. map_of event FIELD_SCHEMA_VERSION = Some (from_u64 v))"

lemma validate_meta_values_iff:
  "validate_meta_values m = Inr () \<longleftrightarrow> (\<forall>p \<in> set m. is_scalar (snd p))"
  by (induction m rule: validate_meta_values.induct) (auto split: json.splits)

lemma validate_meta_iff: "validate_meta v = Inr () \<longleftrightarrow> meta_ok v"
  by (auto simp: validate_meta_def meta_ok_def validate_meta_values_iff split: json.splits)

lemma CALLER_FIELDS_simps [simp]:
  "key \<in> set CALLER_FIELDS \<longleftrightarrow> key \<in> {FIELD_KIND, FIELD_META, FIELD_DATA, FIELD_SCHEMA_VERSION}"
  by (auto simp: CALLER_FIELDS_def)

lemma validate_keys_iff:
  "validate_keys m = Inr ()
     \<longleftrightarrow> (\<forall>p \<in> set m. fst p \<in> set CALLER_FIELDS \<and> entry_ok (fst p) (snd p))"
  by (induction m rule: validate_keys.induct)
    (auto simp: result_simps validate_meta_iff entry_ok_def)

lemma validate_iff: "validate event = Inr () \<longleftrightarrow> well_formed event"
  by (auto simp: validate_def well_formed_def has_kind_def validate_keys_iff
      simp del: CALLER_FIELDS_simps split: option.splits json.splits)

lemma validate_stored_keys_iff:
  "validate_stored_keys m = Inr ()
     \<longleftrightarrow> (\<forall>p \<in> set m. fst p \<in> insert FIELD_SEQ (insert FIELD_EPOCH_MS (set CALLER_FIELDS))
                     \<and> entry_ok (fst p) (snd p))"
  by (induction m rule: validate_stored_keys.induct)
    (auto simp: result_simps validate_meta_iff entry_ok_def)

lemma require_fields_iff:
  "require_fields fs event = Inr () \<longleftrightarrow> (\<forall>f \<in> set fs. \<exists>n. map_of event f = Some (from_u64 n))"
  by (induction fs) (auto simp: is_u64_iff split: option.splits)

lemma validate_stored_iff: "validate_stored event = Inr () \<longleftrightarrow> well_formed_stored event"
  by (auto simp: validate_stored_def well_formed_stored_def result_simps validate_stored_keys_iff
      require_fields_iff simp del: CALLER_FIELDS_simps require_fields.simps)

text \<open>Every refusal of the envelope is a \<open>Validation\<close> that names the offending key.\<close>

definition refuses_envelope :: "'a result \<Rightarrow> bool" where
  "refuses_envelope r \<longleftrightarrow> (\<forall>e. r = Inl e \<longrightarrow> (\<exists>x. e = Validation (Envelope x)))"

lemma refuses_envelope_intros [simp]:
  "refuses_envelope (Inr x)"
  "refuses_envelope (Inl (Validation (Envelope y)))"
  by (simp_all add: refuses_envelope_def)

lemma refuses_envelope_if:
  "refuses_envelope r \<Longrightarrow> refuses_envelope s \<Longrightarrow> refuses_envelope (if b then r else s)"
  by simp

lemma refuses_envelope_rbind:
  "refuses_envelope m \<Longrightarrow> (\<And>x. refuses_envelope (f x)) \<Longrightarrow> refuses_envelope (rbind m f)"
  by (cases m) (auto simp: refuses_envelope_def)

lemmas refuses_envelope_rules =
  refuses_envelope_intros refuses_envelope_if refuses_envelope_rbind

lemma validate_meta_values_error: "refuses_envelope (validate_meta_values m)"
  by (induction m rule: validate_meta_values.induct) (auto split: json.splits)

lemma validate_meta_error: "refuses_envelope (validate_meta v)"
  by (auto simp: validate_meta_def validate_meta_values_error split: json.splits)

lemma validate_keys_error: "refuses_envelope (validate_keys m)"
proof (induction m)
  case (Cons p m)
  then show ?case
    by (cases p) (simp only: validate_keys.simps, intro refuses_envelope_rules validate_meta_error)
qed simp

lemma validate_error: "validate event = Inl e \<Longrightarrow> \<exists>r. e = Validation (Envelope r)"
  using validate_keys_error [of event]
  by (auto simp: validate_def refuses_envelope_def split: option.splits json.splits if_splits)

lemma validate_stored_keys_error: "refuses_envelope (validate_stored_keys m)"
proof (induction m)
  case (Cons p m)
  then show ?case
    by (cases p)
      (simp only: validate_stored_keys.simps, intro refuses_envelope_rules validate_meta_error)
qed simp

lemma require_fields_error: "refuses_envelope (require_fields fs m)"
  by (induction fs) (auto split: option.splits)

lemma validate_stored_error: "validate_stored event = Inl e \<Longrightarrow> \<exists>r. e = Validation (Envelope r)"
proof -
  have "refuses_envelope (validate_stored event)"
    unfolding validate_stored_def
    by (intro refuses_envelope_rules validate_stored_keys_error require_fields_error)
  then show "validate_stored event = Inl e \<Longrightarrow> \<exists>r. e = Validation (Envelope r)"
    by (simp add: refuses_envelope_def)
qed

lemma validate_cases:
  obtains "validate event = Inr ()" "well_formed event"
  | r where "validate event = Inl (Validation (Envelope r))" "\<not> well_formed event"
proof (cases "validate event")
  case (Inl e)
  then obtain r where "e = Validation (Envelope r)" using validate_error by blast
  moreover have "\<not> well_formed event" using Inl validate_iff [of event] by simp
  ultimately show ?thesis using Inl that(2) by simp
next
  case (Inr u)
  then show ?thesis using that(1) validate_iff [of event] by simp
qed

section \<open>The stored form\<close>

text \<open>
  Every event the store writes has exactly the six keys of the envelope; in key order it is
  \<open>event_object\<close>. The four readers below give the caller's part of an event its defaults.
\<close>

definition event_object :: "rust_string \<Rightarrow> json \<Rightarrow> json \<Rightarrow> u64 \<Rightarrow> u64 \<Rightarrow> u64 \<Rightarrow> json_map" where
  "event_object kind meta data seq epoch_ms version =
     [(FIELD_SCHEMA_VERSION, from_u64 version), (FIELD_DATA, data),
      (FIELD_EPOCH_MS, from_u64 epoch_ms), (FIELD_KIND, JString kind), (FIELD_META, meta),
      (FIELD_SEQ, from_u64 seq)]"

definition kind_of :: "json_map \<Rightarrow> rust_string" where
  "kind_of event = (case map_of event FIELD_KIND of Some (JString kind) \<Rightarrow> kind | _ \<Rightarrow> [])"

definition object_of :: "rust_string \<Rightarrow> json_map \<Rightarrow> json" where
  "object_of key event = (case map_of event key of Some v \<Rightarrow> v | None \<Rightarrow> JObject [])"

definition version_of :: "json_map \<Rightarrow> u64" where
  "version_of event =
     (case map_of event FIELD_SCHEMA_VERSION of
        Some (JNumber (PosInt v)) \<Rightarrow> v | _ \<Rightarrow> DEFAULT_SCHEMA_VERSION)"

definition u64_of :: "rust_string \<Rightarrow> json_map \<Rightarrow> u64" where
  "u64_of key event = (case map_of event key of Some (JNumber (PosInt v)) \<Rightarrow> v | _ \<Rightarrow> 0)"

lemma map_of_event_object:
  "map_of (event_object kind meta data seq epoch_ms version) k =
     (if k = FIELD_KIND then Some (JString kind) else if k = FIELD_META then Some meta
      else if k = FIELD_DATA then Some data else if k = FIELD_SEQ then Some (from_u64 seq)
      else if k = FIELD_EPOCH_MS then Some (from_u64 epoch_ms)
      else if k = FIELD_SCHEMA_VERSION then Some (from_u64 version) else None)"
  by (auto simp: event_object_def)

lemma map_ok_event_object [simp]: "map_ok (event_object kind meta data seq epoch_ms version)"
  by (simp add: event_object_def map_ok_def)

lemma kind_of_event_object [simp]:
  "kind_of (event_object kind meta data seq epoch_ms version) = kind"
  by (simp add: kind_of_def event_object_def)

lemma u64_of_event_object [simp]:
  "u64_of FIELD_SEQ (event_object k m d s t v) = s"
  "u64_of FIELD_EPOCH_MS (event_object k m d s t v) = t"
  "version_of (event_object k m d s t v) = v"
  "object_of FIELD_META (event_object k m d s t v) = m"
  "object_of FIELD_DATA (event_object k m d s t v) = d"
  by (simp_all add: u64_of_def version_of_def object_of_def event_object_def)

lemma map_of_well_formed:
  assumes "map_ok event" and "well_formed event"
  shows "map_of event FIELD_KIND = Some (JString (kind_of event))"
    and "k \<notin> set CALLER_FIELDS \<Longrightarrow> map_of event k = None"
    and "map_of event FIELD_SCHEMA_VERSION = None
           \<or> map_of event FIELD_SCHEMA_VERSION = Some (from_u64 (version_of event))"
proof -
  show "map_of event FIELD_KIND = Some (JString (kind_of event))"
    using assms(2) by (auto simp: well_formed_def has_kind_def kind_of_def
        split: option.splits json.splits)
  show "map_of event k = None" if "k \<notin> set CALLER_FIELDS"
  proof (rule ccontr)
    assume "map_of event k \<noteq> None"
    then obtain v where "(k, v) \<in> set event" by (auto dest: map_of_SomeD)
    then show False using assms(2) that by (force simp: well_formed_def)
  qed
  show "map_of event FIELD_SCHEMA_VERSION = None
           \<or> map_of event FIELD_SCHEMA_VERSION = Some (from_u64 (version_of event))"
  proof (cases "map_of event FIELD_SCHEMA_VERSION")
    case (Some v)
    then have "(FIELD_SCHEMA_VERSION, v) \<in> set event" by (rule map_of_SomeD)
    then have "is_u64 v" using assms(2) by (force simp: well_formed_def entry_ok_def)
    then show ?thesis using Some by (auto simp: version_of_def is_u64_iff)
  qed simp
qed

lemma map_ok_fill_objects [simp]: "map_ok m \<Longrightarrow> map_ok (fill_objects m)"
  by (simp add: fill_objects_def)

lemma map_of_fill_objects:
  "map_ok m \<Longrightarrow> map_of (fill_objects m) k =
     (if k \<in> {FIELD_META, FIELD_DATA} then Some (object_of k m) else map_of m k)"
  by (auto simp: fill_objects_def map_of_or_insert object_of_def split: option.splits)

lemma version_of_absent:
  "map_of event FIELD_SCHEMA_VERSION = None \<Longrightarrow> version_of event = DEFAULT_SCHEMA_VERSION"
  by (simp add: version_of_def)

lemma stamp_eq:
  assumes ok: "map_ok event"
  shows "stamp event seq epoch_ms = Inr r \<longleftrightarrow>
     well_formed event \<and>
     r = event_object (kind_of event) (object_of FIELD_META event) (object_of FIELD_DATA event)
           seq epoch_ms (version_of event)"
proof -
  let ?s = "or_insert FIELD_SCHEMA_VERSION (from_u64 DEFAULT_SCHEMA_VERSION)
    (map_insert FIELD_EPOCH_MS (from_u64 epoch_ms)
      (map_insert FIELD_SEQ (from_u64 seq) (fill_objects event)))"
  let ?o = "event_object (kind_of event) (object_of FIELD_META event) (object_of FIELD_DATA event)
              seq epoch_ms (version_of event)"
  have "?s = ?o" if wf: "well_formed event"
  proof (rule map_ok_eqI)
    show "map_of ?s = map_of ?o"
    proof
      fix k
      show "map_of ?s k = map_of ?o k"
        using map_of_well_formed(1,3) [OF ok wf] map_of_well_formed(2) [OF ok wf, of k] ok
        by (auto simp: map_of_or_insert map_of_fill_objects map_of_event_object version_of_absent)
    qed
  qed (use ok in simp_all)
  then show ?thesis
    by (auto simp: stamp_def result_simps validate_iff)
qed

lemma map_of_well_formed_stored:
  assumes "map_ok event" and "well_formed_stored event"
  shows "map_of event FIELD_KIND = Some (JString (kind_of event))"
    and "map_of event FIELD_EPOCH_MS = Some (from_u64 (u64_of FIELD_EPOCH_MS event))"
    and "map_of event FIELD_SCHEMA_VERSION = Some (from_u64 (version_of event))"
    and "k \<notin> set CALLER_FIELDS \<union> {FIELD_SEQ, FIELD_EPOCH_MS} \<Longrightarrow> map_of event k = None"
proof -
  show "map_of event FIELD_KIND = Some (JString (kind_of event))"
    using assms(2) by (auto simp: well_formed_stored_def has_kind_def kind_of_def
        split: option.splits json.splits)
  show "map_of event FIELD_EPOCH_MS = Some (from_u64 (u64_of FIELD_EPOCH_MS event))"
    and "map_of event FIELD_SCHEMA_VERSION = Some (from_u64 (version_of event))"
    using assms(2) by (auto simp: well_formed_stored_def u64_of_def version_of_def)
  show "map_of event k = None" if "k \<notin> set CALLER_FIELDS \<union> {FIELD_SEQ, FIELD_EPOCH_MS}"
  proof (rule ccontr)
    assume "map_of event k \<noteq> None"
    then obtain v where "(k, v) \<in> set event" by (auto dest: map_of_SomeD)
    then show False using assms(2) that by (force simp: well_formed_stored_def)
  qed
qed

lemma restamp_eq:
  assumes ok: "map_ok stored"
  shows "restamp stored seq = Inr r \<longleftrightarrow>
     well_formed_stored stored \<and>
     r = event_object (kind_of stored) (object_of FIELD_META stored) (object_of FIELD_DATA stored)
           seq (u64_of FIELD_EPOCH_MS stored) (version_of stored)"
proof -
  let ?s = "map_insert FIELD_SEQ (from_u64 seq) (fill_objects stored)"
  let ?o = "event_object (kind_of stored) (object_of FIELD_META stored)
              (object_of FIELD_DATA stored) seq (u64_of FIELD_EPOCH_MS stored) (version_of stored)"
  have "?s = ?o" if wf: "well_formed_stored stored"
  proof (rule map_ok_eqI)
    show "map_of ?s = map_of ?o"
    proof
      fix k
      show "map_of ?s k = map_of ?o k"
        using map_of_well_formed_stored(1,2,3) [OF ok wf] map_of_well_formed_stored(4) [OF ok wf, of k] ok
        by (auto simp: map_of_fill_objects map_of_event_object)
    qed
  qed (use ok in simp_all)
  then show ?thesis
    by (auto simp: restamp_def result_simps validate_stored_iff)
qed

lemma stamp_error: "stamp event seq epoch_ms = Inl e \<longleftrightarrow> validate event = Inl e"
  by (auto simp: stamp_def result_simps Let_def)

lemma restamp_error: "restamp stored seq = Inl e \<longleftrightarrow> validate_stored stored = Inl e"
  by (auto simp: restamp_def result_simps)

lemma restamp_of_stamped:
  assumes "map_ok event" and "stamp event seq epoch_ms = Inr stored"
  shows "validate_stored stored = Inr ()
     \<and> restamp stored seq' = Inr (map_insert FIELD_SEQ (from_u64 seq') stored)
     \<and> stamp event seq' epoch_ms = restamp stored seq'"
proof -
  have wf: "well_formed event" and stored: "stored = event_object (kind_of event)
      (object_of FIELD_META event) (object_of FIELD_DATA event) seq epoch_ms (version_of event)"
    using assms stamp_eq by auto
  have meta: "meta_ok (object_of FIELD_META event)" and data: "is_object (object_of FIELD_DATA event)"
    using wf by (auto simp: well_formed_def entry_ok_def object_of_def meta_ok_def
        split: option.splits dest!: map_of_SomeD)
  have "kind_of event \<noteq> []"
    using wf by (auto simp: well_formed_def has_kind_def kind_of_def split: option.splits json.splits)
  then have wfs: "well_formed_stored stored"
    using meta data
    by (simp add: stored well_formed_stored_def has_kind_def event_object_def entry_ok_def)
  have ok: "map_ok stored" by (simp add: stored)
  have "restamp stored seq' = Inr (event_object (kind_of event) (object_of FIELD_META event)
      (object_of FIELD_DATA event) seq' epoch_ms (version_of event))"
    using restamp_eq [OF ok] wfs
    by (simp add: stored object_of_def u64_of_def version_of_def map_of_event_object)
  moreover have "map_insert FIELD_SEQ (from_u64 seq') stored = event_object (kind_of event)
      (object_of FIELD_META event) (object_of FIELD_DATA event) seq' epoch_ms (version_of event)"
    by (simp add: stored event_object_def)
  ultimately show ?thesis
    using wfs wf assms(1) by (simp add: validate_stored_iff stamp_eq)
qed

section \<open>The contract of the envelope\<close>

text \<open>
  The gate every write goes through accepts exactly the events of the envelope contract: a
  non-empty string kind, \<open>meta\<close> an object of scalars, \<open>data\<close> an object, an unsigned version, and no key
  beside these. Everything else is refused as a \<open>Validation\<close> of the envelope, in particular an event
  that already carries the store's \<open>seq\<close> or \<open>epoch_ms\<close>.
\<close>

theorem validate_accepts_exactly_the_contract:
  "(if well_formed event then validate event = Inr ()
    else (\<exists>r. validate event = Inl (Validation (Envelope r))))
   \<and> \<not> (validate event = Inr () \<and> map_of event FIELD_SEQ \<noteq> None)
   \<and> \<not> (validate event = Inr () \<and> map_of event FIELD_EPOCH_MS \<noteq> None)"
proof -
  have store_field: "\<not> (well_formed event \<and> map_of event f \<noteq> None)" if "f \<in> {FIELD_SEQ, FIELD_EPOCH_MS}" for f
    using that by (force simp: well_formed_def dest: map_of_SomeD)
  show ?thesis
    using store_field [of FIELD_SEQ] store_field [of FIELD_EPOCH_MS]
    by (cases rule: validate_cases [of event]) (auto simp: validate_iff)
qed

text \<open>
  Stamping gives every accepted event the stored form: exactly the six keys, the caller's kind,
  \<open>meta\<close>, \<open>data\<close> and schema version kept (empty objects and version 1 where they were left out), the
  sequence number and the time the store's. A refused event is not stamped, and the refusal is the
  gate's.
\<close>

theorem stamp_gives_the_stored_form:
  assumes "map_ok event"
  shows "stamp event seq epoch_ms =
     (if well_formed event
      then Inr (event_object (kind_of event) (object_of FIELD_META event) (object_of FIELD_DATA event)
                  seq epoch_ms (version_of event))
      else rmap (\<lambda>_. []) (validate event))"
proof (cases rule: validate_cases [of event])
  case 1
  then show ?thesis using stamp_eq [OF assms] by auto
next
  case (2 r)
  then show ?thesis using stamp_error [of event seq epoch_ms] by auto
qed

theorem stamp_gives_the_stored_form_witness:
  "stamp [(''kind'', JString ''paid'')] 3 9 =
     Inr (event_object ''paid'' (JObject []) (JObject []) 3 9 1)"
proof -
  have ok: "map_ok [(''kind'', JString ''paid'')]" by (simp add: map_ok_def)
  have "well_formed [(''kind'', JString ''paid'')]"
    by (simp add: well_formed_def has_kind_def entry_ok_def)
  then show ?thesis
    using stamp_gives_the_stored_form [OF ok, of 3 9]
    by (simp add: kind_of_def object_of_def version_of_def DEFAULT_SCHEMA_VERSION_def)
qed

text \<open>
  What one log stamped, another can take in. Every stamped event passes the check for stored
  events, and restamping it changes its sequence number and nothing else: the time and the schema
  version it was written under travel unchanged.
\<close>

theorem restamp_keeps_time_and_version:
  assumes "map_ok event" and "stamp event seq epoch_ms = Inr stored"
  shows "validate_stored stored = Inr ()
     \<and> restamp stored seq' = Inr (map_insert FIELD_SEQ (from_u64 seq') stored)
     \<and> stamp event seq' epoch_ms = restamp stored seq'"
  using restamp_of_stamped [OF assms] by blast

theorem restamp_keeps_time_and_version_witness:
  "restamp (event_object ''paid'' (JObject []) (JObject []) 3 9 1) 8 =
     Inr (event_object ''paid'' (JObject []) (JObject []) 8 9 1)"
proof -
  have ok: "map_ok [(''kind'', JString ''paid'')]" by (simp add: map_ok_def)
  have "stamp [(''kind'', JString ''paid'')] 3 9 = Inr (event_object ''paid'' (JObject []) (JObject []) 3 9 1)"
    using ok by (subst stamp_eq)
      (simp_all add: well_formed_def has_kind_def entry_ok_def kind_of_def object_of_def version_of_def
        DEFAULT_SCHEMA_VERSION_def)
  from restamp_keeps_time_and_version [OF ok this, of 8] show ?thesis
    by (simp add: event_object_def)
qed

end
