(* ===== verification/Upcast.thy ===== *)
theory Upcast
  imports Event
begin

text \<open>
  Reading old events in their present shape: \<open>crates/eventsdb-core/src/upcast.rs\<close>. An upcaster is
  the caller's code, a function on events; a chain is a list of them, run over each event in
  registration order. \<open>from_upcasted\<close> is the check that turns what comes out into a \<open>Current\<close>, on
  whose presence of a kind, a sequence number and a version every reader relies.
\<close>

type_synonym upcaster = "json \<Rightarrow> json"
type_synonym upcast_chain = "upcaster list"

datatype current = Current (into_inner: json_map)

definition apply_chain :: "upcast_chain \<Rightarrow> json list \<Rightarrow> json list" where
  "apply_chain chain events =
     (if chain = [] then events
      else map (\<lambda>event. fold (\<lambda>step event. step event) chain event) events)"

definition from_upcasted :: "json \<Rightarrow> current result" where
  "from_upcasted event =
     (case event of
        JObject object \<Rightarrow>
          if \<not> (case map_of object FIELD_KIND of Some v \<Rightarrow> is_string v | None \<Rightarrow> False) then
            Inl (Corruption (Decoding NoKindAfterUpcasting))
          else if \<not> (case map_of object FIELD_SEQ of Some v \<Rightarrow> is_u64 v | None \<Rightarrow> False) then
            Inl (Corruption (Decoding NoSeqAfterUpcasting))
          else if \<not> (case map_of object FIELD_SCHEMA_VERSION of Some v \<Rightarrow> is_u64 v | None \<Rightarrow> False) then
            Inl (Corruption (Decoding NoVersionAfterUpcasting))
          else Inr (Current object)
      | _ \<Rightarrow> Inl (Corruption (Decoding NotJsonObject)))"

definition assume_current :: "json_map \<Rightarrow> current" where
  "assume_current event = Current event"

text \<open>The two readers \<open>expect\<close> what the constructor checked: \<open>None\<close> is their panic.\<close>

definition current_kind :: "current \<Rightarrow> rust_string option" where
  "current_kind c = Option.bind (map_of (into_inner c) FIELD_KIND) as_str"

definition current_seq :: "current \<Rightarrow> u64 option" where
  "current_seq c = Option.bind (map_of (into_inner c) FIELD_SEQ) as_u64_value"

text \<open>Upcasting a list of rows and checking each result, the first failure ending it.\<close>

definition upcast_rows :: "upcast_chain \<Rightarrow> json list \<Rightarrow> current list result" where
  "upcast_rows chain rows = traverse from_upcasted (apply_chain chain rows)"

section \<open>Lemmas\<close>

lemma apply_chain_map: "apply_chain chain events = map (\<lambda>event. fold id chain event) events"
  by (simp add: apply_chain_def id_def)

lemma apply_chain_Nil [simp]: "apply_chain [] events = events"
  by (simp add: apply_chain_def)

lemma length_apply_chain [simp]: "length (apply_chain chain events) = length events"
  by (simp add: apply_chain_def)

lemma apply_chain_append [simp]:
  "apply_chain chain (xs @ ys) = apply_chain chain xs @ apply_chain chain ys"
  by (simp add: apply_chain_def)

lemma upcast_rows_append:
  "upcast_rows chain (xs @ ys) =
     rbind (upcast_rows chain xs) (\<lambda>as. rbind (upcast_rows chain ys) (\<lambda>bs. Inr (as @ bs)))"
  by (simp add: upcast_rows_def traverse_append)

lemma from_upcasted_Inr:
  "from_upcasted event = Inr c \<longleftrightarrow>
     (\<exists>object kind seq version. event = JObject object \<and> c = Current object
        \<and> map_of object FIELD_KIND = Some (JString kind)
        \<and> map_of object FIELD_SEQ = Some (from_u64 seq)
        \<and> map_of object FIELD_SCHEMA_VERSION = Some (from_u64 version))"
  by (auto simp: from_upcasted_def is_string_iff is_u64_iff split: json.splits option.splits)

lemma from_upcasted_event_object [simp]:
  "from_upcasted (JObject (event_object kind meta data seq epoch_ms version)) =
     Inr (Current (event_object kind meta data seq epoch_ms version))"
  by (subst from_upcasted_Inr) (simp add: map_of_event_object)

lemma upcast_rows_no_chain:
  "upcast_rows [] (map (\<lambda>(k, m, d, s, t, v). JObject (event_object k m d s t v)) xs)
     = Inr (map (\<lambda>(k, m, d, s, t, v). Current (event_object k m d s t v)) xs)"
  by (induction xs) (auto simp: upcast_rows_def)

text \<open>
  What a reader of a \<open>Current\<close> relies on. A value passes the check after the chain exactly when
  both readers return (neither of their panics can happen) and the version is there to select on;
  anything else is reported as corruption, never dropped.
\<close>

theorem from_upcasted_readers_never_panic:
  "from_upcasted event =
     (case event of
        JObject object \<Rightarrow>
          if current_kind (Current object) \<noteq> None \<and> current_seq (Current object) \<noteq> None
             \<and> Option.bind (map_of object FIELD_SCHEMA_VERSION) as_u64_value \<noteq> None
          then Inr (Current object)
          else Inl (Corruption (Decoding
            (if current_kind (Current object) = None then NoKindAfterUpcasting
             else if current_seq (Current object) = None then NoSeqAfterUpcasting
             else NoVersionAfterUpcasting)))
      | _ \<Rightarrow> Inl (Corruption (Decoding NotJsonObject)))"
proof (cases event)
  case (JObject object)
  have str: "Option.bind m as_str = None \<longleftrightarrow> \<not> (case m of Some v \<Rightarrow> is_string v | None \<Rightarrow> False)"
    for m by (cases m) (auto simp: as_str_None)
  have num: "Option.bind m as_u64_value = None \<longleftrightarrow> \<not> (case m of Some v \<Rightarrow> is_u64 v | None \<Rightarrow> False)"
    for m by (cases m) (auto simp: as_u64_value_None)
  show ?thesis
    by (simp add: JObject from_upcasted_def current_kind_def current_seq_def str num)
qed (simp_all add: from_upcasted_def)

text \<open>
  Upcasting is one event at a time, in registration order: reading with a chain and then with a
  second one registered after it is reading once with the concatenation, and no event's result
  depends on the events beside it.
\<close>

theorem apply_chain_compose:
  "apply_chain (chain @ later) events = apply_chain later (apply_chain chain events)
     \<and> apply_chain chain (events @ more) = apply_chain chain events @ apply_chain chain more
     \<and> apply_chain [step] [event] = [step event]"
  by (simp add: apply_chain_map)

end
