(* ===== verification/Coordinates.thy ===== *)
theory Coordinates
  imports Upcast
begin

text \<open>
  Where an event sits: \<open>crates/eventsdb-core/src/position.rs\<close>. A \<open>Position\<close> is a newtype over the
  global coordinate, so it cannot be mixed up with a per-stream \<open>seq\<close>; \<open>as_stored\<close> is its value as
  SQLite's signed integer, or \<open>None\<close> where that does not exist.
\<close>

datatype position = Position (get: u64)

definition BEGINNING :: position where
  "BEGINNING = Position 0"

definition as_stored :: "position \<Rightarrow> i64 option" where
  "as_stored p = i64_try_from (get p)"

record committed =
  committed_seq :: u64
  committed_epoch_ms :: u64
  committed_position :: "position option"

record recorded =
  recorded_position :: position
  recorded_stream :: rust_string
  recorded_event :: current

text \<open>The derived ordering of the newtype.\<close>

instantiation position :: linorder
begin

definition less_eq_position :: "position \<Rightarrow> position \<Rightarrow> bool" where
  "p \<le> q \<longleftrightarrow> get p \<le> get q"

definition less_position :: "position \<Rightarrow> position \<Rightarrow> bool" where
  "p < q \<longleftrightarrow> get p < get q"

instance
  by standard (auto simp: less_eq_position_def less_position_def position.expand)

end

lemma BEGINNING_least [simp]: "BEGINNING \<le> p"
  by (simp add: BEGINNING_def less_eq_position_def)

lemma position_less_uint: "p < q \<longleftrightarrow> uint (get p) < uint (get q)"
  by (simp add: less_position_def word_less_def)

lemma position_le_uint: "p \<le> q \<longleftrightarrow> uint (get p) \<le> uint (get q)"
  by (simp add: less_eq_position_def word_le_def)

text \<open>
  A stored position read back: the rowids the store assigns lie between 1 and \<open>i64_max\<close>, and on
  that range reading is the inverse of storing and keeps the order.
\<close>

definition position_of_stored :: "i64 \<Rightarrow> position" where
  "position_of_stored i = Position (as_u64 i)"

lemma as_stored_of_stored:
  "0 \<le> i \<Longrightarrow> i \<le> i64_max \<Longrightarrow> as_stored (position_of_stored i) = Some i"
  by (simp add: as_stored_def position_of_stored_def i64_try_from_def uint_as_u64)

lemma as_stored_Some:
  "as_stored p = Some i \<longleftrightarrow> uint (get p) = i \<and> i \<le> i64_max"
  by (auto simp: as_stored_def i64_try_from_def)

lemma of_stored_as_stored: "as_stored p = Some i \<Longrightarrow> position_of_stored i = p"
  by (cases p) (auto simp: as_stored_Some position_of_stored_def as_u64_def)

lemma position_of_stored_less:
  assumes "0 \<le> i" "i \<le> i64_max" "0 \<le> j" "j \<le> i64_max"
  shows "position_of_stored i < position_of_stored j \<longleftrightarrow> i < j"
  using assms by (simp add: position_of_stored_def position_less_uint uint_as_u64)

lemma position_of_stored_le:
  assumes "0 \<le> i" "i \<le> i64_max" "0 \<le> j" "j \<le> i64_max"
  shows "position_of_stored i \<le> position_of_stored j \<longleftrightarrow> i \<le> j"
  using assms by (simp add: position_of_stored_def position_le_uint uint_as_u64)

lemma position_of_stored_inject:
  assumes "0 \<le> i" "i \<le> i64_max" "0 \<le> j" "j \<le> i64_max"
  shows "position_of_stored i = position_of_stored j \<longleftrightarrow> i = j"
  using assms position_of_stored_less [of i j] position_of_stored_less [of j i] by force

end
