(* ===== verification/Store_Spi.thy ===== *)
theory Store_Spi
  imports Coordinates "HOL-Library.Sublist"
begin

text \<open>
  The per-stream interface: the trait \<open>EventStore\<close> of \<open>crates/eventsdb-core/src/store.rs\<close>. First what a
  stream promises, on an abstract stream of two parts, its events and the number its next one gets; then
  the trait as the locale \<open>event_store\<close>: the operations both backends provide, the laws each is held to
  (a failure leaves the stream as it was; without one the operation is the abstract one), and what the
  trait's default methods and any client's run of appends get from the laws alone.

  An operation of the trait may panic, which is \<open>None\<close>; the laws say that it does not.
\<close>

section \<open>The abstract stream\<close>

type_synonym stream_view = "json_map list \<times> u64"

definition coordinates :: "committed \<Rightarrow> u64 \<times> u64" where
  "coordinates c = (committed_seq c, committed_epoch_ms c)"

definition spec_append :: "u64 \<Rightarrow> json_map \<Rightarrow> stream_view \<Rightarrow> (u64 \<times> u64) result \<times> stream_view" where
  "spec_append t event = (\<lambda>(events, n).
     case stamp event n t of
       Inl e \<Rightarrow> (Inl e, (events, n))
     | Inr stored \<Rightarrow> (Inr (n, t), (events @ [stored], n + 1)))"

definition kind_in :: "rust_string list option \<Rightarrow> rust_string \<Rightarrow> bool" where
  "kind_in kinds kind = (case kinds of None \<Rightarrow> True | Some ks \<Rightarrow> kind \<in> set ks)"

text \<open>What a read of a stream selects from its events, and answers.\<close>

definition selected :: "rust_string list option \<Rightarrow> u64 \<Rightarrow> json_map list \<Rightarrow> json_map list" where
  "selected kinds from_seq events =
     filter (\<lambda>e. from_seq \<le> u64_of FIELD_SEQ e \<and> kind_in kinds (kind_of e)) events"

definition spec_read ::
  "upcast_chain \<Rightarrow> rust_string list option \<Rightarrow> u64 \<Rightarrow> usize \<Rightarrow> stream_view \<Rightarrow> current list result" where
  "spec_read chain kinds from_seq limit = (\<lambda>(events, n).
     upcast_rows chain (map JObject (take (unat limit) (selected kinds from_seq events))))"

definition spec_append_if ::
  "upcast_chain \<Rightarrow> u64 \<Rightarrow> rust_string list option \<Rightarrow> (current list \<Rightarrow> json_map option) \<Rightarrow> stream_view
     \<Rightarrow> (u64 \<times> u64) option result \<times> stream_view" where
  "spec_append_if chain t kinds decide view =
     (case spec_read chain kinds 0 (- 1) view of
        Inl e \<Rightarrow> (Inl e, view)
      | Inr seen \<Rightarrow>
          (case decide seen of
             None \<Rightarrow> (Inr None, view)
           | Some event \<Rightarrow> (let (r, view') = spec_append t event view in (rmap Some r, view'))))"

definition spec_head :: "stream_view \<Rightarrow> u64 option" where
  "spec_head = (\<lambda>(events, n). if events = [] then None else Some (u64_of FIELD_SEQ (last events)))"

text \<open>Numbered: the events carry ascending numbers, all of them below the next one.\<close>

definition numbered :: "stream_view \<Rightarrow> bool" where
  "numbered = (\<lambda>(events, n).
     sorted_wrt (<) (map (u64_of FIELD_SEQ) events) \<and> (\<forall>e \<in> set events. u64_of FIELD_SEQ e < n)
     \<and> int (length events) \<le> 2 ^ 64 - 1)"

fun spec_run :: "(u64 \<times> json_map) list \<Rightarrow> stream_view \<Rightarrow> (u64 \<times> u64) result list \<times> stream_view" where
  "spec_run [] view = ([], view)"
| "spec_run ((t, event) # script) view =
     (let (r, view') = spec_append t event view; (rs, view'') = spec_run script view' in (r # rs, view''))"

lemma spec_append_Inl: "(Inl e, v') = spec_append t event v \<Longrightarrow> v' = v"
  by (cases v) (auto simp: spec_append_def split: sum.splits)

lemma unat_usize_max: "unat (- 1 :: usize) = 2 ^ 64 - 1"
proof -
  have "uint (- 1 :: usize) = 2 ^ 64 - 1"
    by (simp add: uint_word_ariths)
  then have "int (unat (- 1 :: usize)) = int (2 ^ 64 - 1)" by simp
  then show ?thesis by linarith
qed

lemma spec_read_all:
  assumes "numbered view"
  shows "spec_read chain None 0 (- 1) view = upcast_rows chain (map JObject (fst view))"
proof -
  have "length (fst view) \<le> unat (- 1 :: usize)"
    using assms unfolding unat_usize_max by (auto simp: numbered_def split: prod.splits)
  then show ?thesis
    by (cases view) (simp add: spec_read_def selected_def kind_in_def)
qed

lemma upcast_rows_drop: "upcast_rows chain rows = Inr events \<Longrightarrow> upcast_rows chain (drop k rows) = Inr (drop k events)"
proof -
  assume "upcast_rows chain rows = Inr events"
  then have "list_all2 (\<lambda>row event. from_upcasted row = Inr event) (apply_chain chain rows) events"
    by (simp add: upcast_rows_def traverse_Inr)
  then have "list_all2 (\<lambda>row event. from_upcasted row = Inr event) (drop k (apply_chain chain rows)) (drop k events)"
    by (rule list_all2_dropI)
  then show ?thesis by (simp add: upcast_rows_def traverse_Inr apply_chain_map drop_map)
qed

text \<open>The answers of a run that were accepted.\<close>

definition oks :: "('e + 'a) list \<Rightarrow> 'a list" where
  "oks rs = filter_map (case_sum (\<lambda>_. None) Some) rs"

lemma oks_simps [simp]: "oks [] = []" "oks (Inl e # rs) = oks rs" "oks (Inr v # rs) = v # oks rs"
  by (simp_all add: oks_def)

section \<open>The default methods\<close>

text \<open>
  A backend with no transaction appends one at a time; one with no better way reads everything and
  throws the front away; and the methods a backend may decline answer \<open>Unsupported\<close>.
\<close>

fun default_append_many ::
  "(json_map \<Rightarrow> 's \<Rightarrow> committed result \<times> 's) \<Rightarrow> json_map list \<Rightarrow> 's \<Rightarrow> committed list result \<times> 's" where
  "default_append_many append_one [] s = (Inr [], s)"
| "default_append_many append_one (event # events) s =
     (case append_one event s of
        (Inl e, s') \<Rightarrow> (Inl e, s')
      | (Inr c, s') \<Rightarrow> (let (r, s'') = default_append_many append_one events s' in (rmap ((#) c) r, s'')))"

definition default_read_last ::
  "(u64 \<Rightarrow> usize \<Rightarrow> current list result option) \<Rightarrow> usize \<Rightarrow> current list result option" where
  "default_read_last read n =
     map_option (rmap (\<lambda>all. if length all > unat n then drop (length all - unat n) all else all)) (read 0 (- 1))"

definition default_is_empty :: "u64 option result \<Rightarrow> bool result" where
  "default_is_empty h = rmap (\<lambda>h. h = None) h"

definition default_append_at :: "u64 \<Rightarrow> json_map \<Rightarrow> committed result" where
  "default_append_at epoch_ms event = Inl (Unsupported (Spi NoOtherTime))"

definition default_append_expecting :: "expected \<Rightarrow> json_map \<Rightarrow> committed result" where
  "default_append_expecting wanted event = Inl (Unsupported (Spi NoHeadCheck))"

definition default_detach_append :: "json_map \<Rightarrow> unit result" where
  "default_detach_append event = Inl (Unsupported (Spi NoDetachedWrite))"

definition default_database :: "rust_string option" where
  "default_database = None"

definition default_query :: "rust_string \<Rightarrow> json list \<Rightarrow> json_map list result" where
  "default_query sql params = Inl (Unsupported (Spi NoSqlAnswer))"

definition default_query_timeout :: "rust_string \<Rightarrow> json list \<Rightarrow> u64 \<Rightarrow> json_map list result" where
  "default_query_timeout sql params timeout = Inl (Unsupported (Spi NoStatementBound))"

text \<open>A client's run of appends, refused ones and failed ones included, and what it answered.\<close>

fun run_script ::
  "('env \<Rightarrow> json_map \<Rightarrow> 's \<Rightarrow> committed result \<times> 's) \<Rightarrow> ('env \<times> json_map) list \<Rightarrow> 's
     \<Rightarrow> committed result list \<times> 's" where
  "run_script append_op [] s = ([], s)"
| "run_script append_op ((env, event) # script) s =
     (let (r, s') = append_op env event s; (rs, s'') = run_script append_op script s' in (r # rs, s''))"

lemma seq_of_stamped:
  assumes "map_ok event" and "stamp event n t = Inr e"
  shows "u64_of FIELD_SEQ e = n"
  using assms by (auto simp: stamp_eq)

lemma spec_run_accepted:
  assumes "spec_run accepted (events, n) = (map Inr cs, (events', n'))" and "\<forall>p \<in> set accepted. map_ok (snd p)"
  shows "map fst cs = map (\<lambda>i. n + word_of_nat i) [0..<length accepted]
     \<and> n' = n + word_of_nat (length accepted)
     \<and> (\<exists>stored. events' = events @ stored \<and> map (u64_of FIELD_SEQ) stored = map fst cs)"
  using assms
proof (induction accepted arbitrary: events n cs)
  case (Cons p accepted)
  obtain t event where p: "p = (t, event)" by force
  obtain c cs' where cs: "cs = c # cs'" "spec_append t event (events, n) = (Inr c, snd (spec_append t event (events, n)))"
    "spec_run accepted (snd (spec_append t event (events, n))) = (map Inr cs', (events', n'))"
    using Cons.prems(1) by (cases cs) (auto simp: p Let_def split: prod.splits)
  then obtain e where e: "stamp event n t = Inr e" "c = (n, t)"
    "spec_run accepted (events @ [e], n + 1) = (map Inr cs', (events', n'))"
    by (auto simp: spec_append_def split: sum.splits)
  have "\<forall>p \<in> set accepted. map_ok (snd p)" and "map_ok event" using Cons.prems(2) p by auto
  from Cons.IH [OF e(3) this(1)] seq_of_stamped [OF this(2) e(1)] show ?case
    by (auto simp: cs(1) e(2) map_upt_Suc simp del: upt_Suc)
qed simp

section \<open>The trait\<close>

locale event_store =
  fixes inv :: "'s \<Rightarrow> bool"
    and admissible :: "json_map \<Rightarrow> bool"
    and room :: "nat \<Rightarrow> 's \<Rightarrow> bool"
    and view :: "'s \<Rightarrow> stream_view"
    and chain_of :: "'s \<Rightarrow> upcast_chain"
    and calm_env :: "'env \<Rightarrow> i64 \<Rightarrow> bool"
    and append_op :: "'env \<Rightarrow> json_map \<Rightarrow> 's \<Rightarrow> committed result \<times> 's"
    and append_if_op :: "'env \<Rightarrow> rust_string list option \<Rightarrow> (current list \<Rightarrow> json_map option) \<Rightarrow> 's
          \<Rightarrow> committed option result option \<times> 's"
    and read_op :: "'env \<Rightarrow> rust_string list option \<Rightarrow> u64 \<Rightarrow> usize \<Rightarrow> 's \<Rightarrow> current list result option"
    and read_last_op :: "'env \<Rightarrow> usize \<Rightarrow> 's \<Rightarrow> current list result option"
    and head_op :: "'env \<Rightarrow> 's \<Rightarrow> u64 option result option"
  assumes inv_numbered: "inv s \<Longrightarrow> room 1 s \<Longrightarrow> numbered (view s)"
    and room_less: "room (Suc n) s \<Longrightarrow> room n s"
    and append_refines: "inv s \<Longrightarrow> admissible event \<Longrightarrow> room 1 s \<Longrightarrow> calm_env env t \<Longrightarrow>
          append_op env event s = (r, s') \<Longrightarrow>
          (rmap coordinates r, view s') = spec_append (now_ms t) event (view s)"
    and append_safe: "inv s \<Longrightarrow> admissible event \<Longrightarrow> room 1 s \<Longrightarrow> append_op env event s = (r, s') \<Longrightarrow>
          inv s' \<and> chain_of s' = chain_of s \<and>
          ((\<exists>e. r = Inl e) \<and> view s' = view s \<or> (\<exists>t. (rmap coordinates r, view s') = spec_append t event (view s)))"
    and append_room: "room (Suc n) s \<Longrightarrow> inv s \<Longrightarrow> admissible event \<Longrightarrow> append_op env event s = (r, s') \<Longrightarrow> room n s'"
    and append_if_refines: "inv s \<Longrightarrow> (\<And>seen event. decide seen = Some event \<Longrightarrow> admissible event) \<Longrightarrow>
          room 1 s \<Longrightarrow> calm_env env t \<Longrightarrow> append_if_op env kinds decide s = (outcome, s') \<Longrightarrow>
          (map_option (rmap (map_option coordinates)) outcome, view s') =
            map_prod Some id (spec_append_if (chain_of s) (now_ms t) kinds decide (view s))"
    and read_refines: "inv s \<Longrightarrow> room 1 s \<Longrightarrow> calm_env env t \<Longrightarrow> uint from_seq \<le> i64_max \<Longrightarrow>
          read_op env kinds from_seq limit s = Some (spec_read (chain_of s) kinds from_seq limit (view s))"
    and read_last_refines: "inv s \<Longrightarrow> room 1 s \<Longrightarrow> calm_env env t \<Longrightarrow>
          read_last_op env count s = Some (upcast_rows (chain_of s) (map JObject
            (drop (length (fst (view s)) - unat count) (fst (view s)))))"
    and head_refines: "inv s \<Longrightarrow> room 1 s \<Longrightarrow> calm_env env t \<Longrightarrow> head_op env s = Some (Inr (spec_head (view s)))"
begin

lemma run_refines:
  assumes "inv s" "room (length script) s"
    and "list_all2 (\<lambda>(env, event) (t, event'). event' = event \<and> admissible event \<and> calm_env env t) script timed"
  shows "(map (rmap coordinates) (fst (run_script append_op script s)), view (snd (run_script append_op script s))) =
     spec_run (map (\<lambda>(t, event). (now_ms t, event)) timed) (view s)"
  using assms
proof (induction script arbitrary: s timed)
  case (Cons p script)
  obtain env event where p: "p = (env, event)" by force
  obtain t timed' where timed: "timed = (t, event) # timed'" "admissible event" "calm_env env t"
    "list_all2 (\<lambda>(env, event) (t, event'). event' = event \<and> admissible event \<and> calm_env env t) script timed'"
    using Cons.prems(3) p by (auto simp: list_all2_Cons1)
  obtain r s' where step: "append_op env event s = (r, s')" by force
  have room1: "room 1 s"
    using Cons.prems(2) by (induction script) (auto intro: room_less)
  have "inv s'" "room (length script) s'"
    using append_safe [OF Cons.prems(1) timed(2) room1 step] append_room [OF _ Cons.prems(1) timed(2) step]
      Cons.prems(2) by auto
  from Cons.IH [OF this timed(4)] append_refines [OF Cons.prems(1) timed(2) room1 timed(3) step]
  show ?case
    by (auto simp: p timed(1) step Let_def split: prod.splits)
qed simp

text \<open>
  Whatever fails on the way, a run leaves the stream that the accepted events alone, in their order, make
  of it: the abstract stream answers to them what the run answered.
\<close>

lemma run_safe:
  assumes "inv s" "room (length script) s" "\<forall>p \<in> set script. admissible (snd p)"
  shows "\<exists>accepted. subseq (map snd accepted) (map snd script)
     \<and> spec_run accepted (view s) = (map Inr (map coordinates (oks (fst (run_script append_op script s)))), view (snd (run_script append_op script s)))
     \<and> inv (snd (run_script append_op script s))"
  using assms
proof (induction script arbitrary: s)
  case Nil
  then show ?case by (intro exI [of _ "[]"]) simp
next
  case (Cons p script)
  obtain env event where p: "p = (env, event)" by force
  obtain r s' where step: "append_op env event s = (r, s')" by force
  have adm: "admissible event" using Cons.prems(3) p by simp
  have room1: "room 1 s"
    using Cons.prems(2) by (induction script) (auto intro: room_less)
  note safe = append_safe [OF Cons.prems(1) adm room1 step]
  have "room (length script) s'"
    using append_room [OF _ Cons.prems(1) adm step] Cons.prems(2) by simp
  with Cons.IH [of s'] safe Cons.prems(3) obtain accepted where IH: "subseq (map snd accepted) (map snd script)"
    "spec_run accepted (view s') = (map Inr (map coordinates (oks (fst (run_script append_op script s')))), view (snd (run_script append_op script s')))"
    "inv (snd (run_script append_op script s'))"
    by auto
  show ?case
  proof (cases r)
    case (Inl e)
    then have "view s' = view s"
      using safe by (auto dest: spec_append_Inl)
    then show ?thesis
      using IH Inl by (auto simp: p step split: prod.splits intro!: exI [of _ accepted])
  next
    case (Inr c)
    then obtain t where "(Inr (coordinates c), view s') = spec_append t event (view s)"
      using safe by auto
    then show ?thesis
      using IH Inr by (auto simp: p step Let_def split: prod.splits intro!: exI [of _ "(t, event) # accepted"])
  qed
qed

text \<open>The trait's default \<open>read_last\<close> is what a backend's own answers, wherever the default answers.\<close>

lemma default_read_last_agrees:
  assumes "inv s" "room 1 s" "calm_env env t" "default_read_last (\<lambda>from limit. read_op env None from limit s) n = Some (Inr events)"
  shows "read_last_op env n s = Some (Inr events)"
proof -
  have all: "read_op env None 0 (- 1) s = Some (upcast_rows (chain_of s) (map JObject (fst (view s))))"
    using read_refines [OF assms(1-3), of 0 None "- 1"] spec_read_all [OF inv_numbered [OF assms(1,2)]]
    by (simp add: i64_max_def)
  obtain whole where whole: "upcast_rows (chain_of s) (map JObject (fst (view s))) = Inr whole"
    "events = drop (length whole - unat n) whole"
    using assms(4) by (auto simp: default_read_last_def all result_simps)
  have "length whole = length (fst (view s))"
    using traverse_length [OF whole(1) [unfolded upcast_rows_def]] by simp
  then show ?thesis
    using read_last_refines [OF assms(1-3), of n] upcast_rows_drop [OF whole(1)] whole(2)
    by (simp add: drop_map)
qed

text \<open>And the default batch, one append at a time, stops at the first event that is not accepted.\<close>

lemma default_append_many_safe:
  assumes "inv s" "room (length events) s" "\<forall>event \<in> set events. admissible event"
    and "default_append_many (append_op env) events s = (r, s')"
  shows "\<exists>accepted cs. spec_run accepted (view s) = (map Inr (map coordinates cs), view s')
     \<and> prefix (map snd accepted) events \<and> inv s' \<and> (\<forall>out. r = Inr out \<longrightarrow> out = cs \<and> map snd accepted = events)"
  using assms
proof (induction events arbitrary: s r s')
  case Nil
  then show ?case by (auto intro!: exI [of _ "[]"])
next
  case (Cons event events)
  obtain r1 s1 where step: "append_op env event s = (r1, s1)" by force
  have room1: "room 1 s"
    using Cons.prems(2) by (induction events) (auto intro: room_less)
  note safe = append_safe [OF Cons.prems(1) _ room1 step]
  have inv1: "inv s1" and room1: "room (length events) s1"
    using safe append_room [OF _ Cons.prems(1) _ step] Cons.prems(2,3) by auto
  show ?case
  proof (cases r1)
    case (Inl e)
    then have "view s1 = view s" "r = Inl e" "s' = s1"
      using safe Cons.prems(3,4) step by (auto dest: spec_append_Inl)
    then show ?thesis
      using inv1 by (intro exI [of _ "[]"]) simp
  next
    case (Inr c)
    obtain r2 s2 where rest: "default_append_many (append_op env) events s1 = (r2, s2)" by force
    obtain t where t: "(Inr (coordinates c), view s1) = spec_append t event (view s)"
      using safe Inr Cons.prems(3) by auto
    have res: "s' = s2" "r = rmap ((#) c) r2"
      using Cons.prems(4) by (auto simp: step Inr rest)
    have "\<forall>event \<in> set events. admissible event" using Cons.prems(3) by simp
    from Cons.IH [OF inv1 room1 this rest] obtain accepted cs where
      IH: "spec_run accepted (view s1) = (map Inr (map coordinates cs), view s2)"
      "prefix (map snd accepted) events" "inv s2" "\<forall>out. r2 = Inr out \<longrightarrow> out = cs \<and> map snd accepted = events"
      by blast
    show ?thesis
      using IH t res
      by (intro exI [of _ "(t, event) # accepted"] exI [of _ "c # cs"])
        (auto simp: result_simps split: prod.splits)
  qed
qed

end

end
