(* ===== verification/Sql.thy ===== *)
theory Sql
  imports Store_Spi
begin

text \<open>
  The database the SQLite backend keeps and the way its functions run against it. The tables are those
  of the migration ladder (\<open>STEP_1\<close> to \<open>STEP_5\<close> of \<open>crates/eventsdb-sqlite/src/schema.rs\<close>), each a
  list of rows; what a caller keeps beside them in the same file is the parameter \<open>'m\<close>.

  A statement of the program is a function on these tables. What SQLite does beside it, failing, is an
  input: a connection carries the list of the failures its next statements meet, and the clock
  readings its next \<open>now_ms()\<close> calls return. A job threads the connection and ends in a result; a
  transaction gives back the tables as they were unless its end is a commit that succeeds.
\<close>

section \<open>Tables\<close>

record event_row =
  row_position :: i64
  row_stream :: rust_string
  row_seq :: i64
  row_epoch_ms :: i64
  row_kind :: rust_string
  row_schema_version :: i64
  row_meta :: rust_string
  row_data :: rust_string

record checkpoint_row =
  checkpoint_position :: i64
  checkpoint_updated_ms :: i64

record retention_row =
  retention_id :: i64
  retention_applied_ms :: i64
  retention_plan :: rust_string
  retention_removed_count :: i64
  retention_highest_removed :: i64

record export_row =
  export_id :: i64
  export_taken_ms :: i64
  export_from_position :: i64
  export_through :: i64
  export_count :: i64
  export_whole :: bool
  export_landed_ms :: "i64 option"

text \<open>
  The three \<open>AUTOINCREMENT\<close> counters are the rows of \<open>sqlite_sequence\<close>. \<open>tbl_events\<close> is in the order
  of its primary key, since a row is only ever inserted above every position handed out before.
\<close>

record 'm database =
  tbl_events :: "event_row list"
  events_auto :: i64
  tbl_stream_seq :: "(rust_string \<times> i64) list"
  tbl_checkpoints :: "(rust_string \<times> checkpoint_row) list"
  tbl_retention :: "retention_row list"
  retention_auto :: i64
  tbl_exports :: "export_row list"
  exports_auto :: i64
  caller_tables :: 'm

definition empty_database :: "'m \<Rightarrow> 'm database" where
  "empty_database m = \<lparr> tbl_events = [], events_auto = 0, tbl_stream_seq = [], tbl_checkpoints = [],
     tbl_retention = [], retention_auto = 0, tbl_exports = [], exports_auto = 0, caller_tables = m \<rparr>"

lemma empty_database_sel [simp]:
  "tbl_events (empty_database m) = []" "events_auto (empty_database m) = 0"
  "tbl_stream_seq (empty_database m) = []" "tbl_checkpoints (empty_database m) = []"
  "tbl_retention (empty_database m) = []" "retention_auto (empty_database m) = 0"
  "tbl_exports (empty_database m) = []" "exports_auto (empty_database m) = 0"
  "caller_tables (empty_database m) = m"
  by (simp_all add: empty_database_def)

section \<open>Connections and jobs\<close>

record 'm conn =
  conn_db :: "'m database"
  faults :: "(error_code \<times> rust_string) option list"
  clock :: "i64 list"

type_synonym ('m, 'e, 'a) job = "'m conn \<Rightarrow> ('e + 'a) \<times> 'm conn"

definition jreturn :: "'a \<Rightarrow> ('m, 'e, 'a) job" where
  "jreturn x = (\<lambda>c. (Inr x, c))"

text \<open>A plain \<open>Result\<close> inside a job: the \<open>?\<close> on a call that does not touch the database.\<close>

definition jlift :: "'e + 'a \<Rightarrow> ('m, 'e, 'a) job" where
  "jlift r = (\<lambda>c. (r, c))"

definition jbind :: "('m, 'e, 'a) job \<Rightarrow> ('a \<Rightarrow> ('m, 'e, 'b) job) \<Rightarrow> ('m, 'e, 'b) job" where
  "jbind m f = (\<lambda>c. case m c of (Inl e, c') \<Rightarrow> (Inl e, c') | (Inr x, c') \<Rightarrow> f x c')"

definition map_err :: "('e \<Rightarrow> 'f) \<Rightarrow> ('m, 'e, 'a) job \<Rightarrow> ('m, 'f, 'a) job" where
  "map_err h m = (\<lambda>c. case m c of (Inl e, c') \<Rightarrow> (Inl (h e), c') | (Inr x, c') \<Rightarrow> (Inr x, c'))"

definition or_else :: "('m, 'e, 'a) job \<Rightarrow> ('e \<Rightarrow> 'f + 'a) \<Rightarrow> ('m, 'f, 'a) job" where
  "or_else m h = (\<lambda>c. case m c of (Inl e, c') \<Rightarrow> (h e, c') | (Inr x, c') \<Rightarrow> (Inr x, c'))"

fun jtraverse :: "('a \<Rightarrow> ('m, 'e, 'b) job) \<Rightarrow> 'a list \<Rightarrow> ('m, 'e, 'b list) job" where
  "jtraverse f [] = jreturn []"
| "jtraverse f (x # xs) = jbind (f x) (\<lambda>y. jbind (jtraverse f xs) (\<lambda>ys. jreturn (y # ys)))"

definition read_clock :: "('m, 'e, u64) job" where
  "read_clock = (\<lambda>c. case clock c of [] \<Rightarrow> (Inr 0, c) | t # ts \<Rightarrow> (Inr (now_ms t), c\<lparr>clock := ts\<rparr>))"

definition next_fault :: "'m conn \<Rightarrow> rusqlite_error option \<times> 'm conn" where
  "next_fault c =
     (case faults c of
        [] \<Rightarrow> (None, c)
      | f # fs \<Rightarrow> (map_option (\<lambda>(code, text). SqliteFailure code text) f, c\<lparr>faults := fs\<rparr>))"

text \<open>One statement: it fails with the connection's next fault, or acts on the tables.\<close>

definition statement :: "('m database \<Rightarrow> rusqlite_error + 'a \<times> 'm database) \<Rightarrow> ('m, rusqlite_error, 'a) job"
  where
  "statement f =
     (\<lambda>c. case next_fault c of
        (Some e, c') \<Rightarrow> (Inl e, c')
      | (None, c') \<Rightarrow>
          (case f (conn_db c') of
             Inl e \<Rightarrow> (Inl e, c')
           | Inr (x, d) \<Rightarrow> (Inr x, c'\<lparr>conn_db := d\<rparr>)))"

definition query_row :: "('m database \<Rightarrow> 'a option) \<Rightarrow> ('m, rusqlite_error, 'a) job" where
  "query_row f = statement (\<lambda>d. case f d of None \<Rightarrow> Inl QueryReturnedNoRows | Some x \<Rightarrow> Inr (x, d))"

definition query_map ::
  "('m database \<Rightarrow> 'r list) \<Rightarrow> ('r \<Rightarrow> rusqlite_error + 'a) \<Rightarrow> ('m, rusqlite_error, 'a list) job" where
  "query_map f read_row = statement (\<lambda>d. rmap (\<lambda>xs. (xs, d)) (traverse read_row (f d)))"

definition execute :: "('m database \<Rightarrow> rusqlite_error + 'm database) \<Rightarrow> ('m, rusqlite_error, unit) job" where
  "execute f = statement (\<lambda>d. rmap (\<lambda>d'. ((), d')) (f d))"

section \<open>Transactions\<close>

text \<open>
  How a transaction ends when its body did not fail: by \<open>tx.commit()\<close>, or by being dropped, which rolls
  it back.
\<close>

datatype 'a tx_end = Commit 'a | Dropped 'a

definition transaction :: "('m, error, 'a tx_end) job \<Rightarrow> ('m, error, 'a) job" where
  "transaction body =
     (\<lambda>c. case next_fault c of
        (Some e, c1) \<Rightarrow> (Inl (classify e), c1)
      | (None, c1) \<Rightarrow>
          (case body c1 of
             (Inl e, c2) \<Rightarrow> (Inl e, c2\<lparr>conn_db := conn_db c\<rparr>)
           | (Inr (Dropped x), c2) \<Rightarrow> (Inr x, c2\<lparr>conn_db := conn_db c\<rparr>)
           | (Inr (Commit x), c2) \<Rightarrow>
               (case next_fault c2 of
                  (Some e, c3) \<Rightarrow> (Inl (classify e), c3\<lparr>conn_db := conn_db c\<rparr>)
                | (None, c3) \<Rightarrow> (Inr x, c3))))"

definition committing :: "('m, error, 'a) job \<Rightarrow> ('m, error, 'a) job" where
  "committing body = transaction (jbind body (\<lambda>x. jreturn (Commit x)))"

section \<open>The connection thread\<close>

text \<open>
  One submission of a job: what the thread itself may answer instead of running it, what the job's
  statements and clock readings will meet when it does, and on which of the failing steps of a caller's
  transaction SQLite rolls the whole of it back by itself, as it may where the disk is full, an I/O fails,
  memory runs out or the statement is interrupted.
\<close>

record attempt =
  isle_fault :: "isle_error option"
  stmt_faults :: "(error_code \<times> rust_string) option list"
  readings :: "i64 list"
  engine_aborts :: "bool list"

definition isle_call :: "attempt \<Rightarrow> ('m, error, 'a) job \<Rightarrow> 'm database \<Rightarrow> 'a result \<times> 'm database" where
  "isle_call a job d =
     (case isle_fault a of
        Some e \<Rightarrow> (Inl (map_isle e), d)
      | None \<Rightarrow>
          let (r, c) = job \<lparr> conn_db = d, faults = stmt_faults a, clock = readings a \<rparr>
          in (r, conn_db c))"

definition calm_at :: "i64 \<Rightarrow> attempt" where
  "calm_at t = \<lparr> isle_fault = None, stmt_faults = [], readings = [t], engine_aborts = [] \<rparr>"

section \<open>Running without faults\<close>

text \<open>
  \<open>calm\<close> drops the failures a connection is going to meet. A job is \<open>transparent\<close> when a failure of
  SQLite can only end it, with an error of the class \<open>F\<close>: whatever else it answers, it answers and does
  without the failures too. So a property of a job's successful runs need only be shown of calm ones.
\<close>

definition calm :: "'m conn \<Rightarrow> 'm conn" where
  "calm c = c\<lparr>faults := []\<rparr>"

definition transparent :: "('e \<Rightarrow> bool) \<Rightarrow> ('m, 'e, 'a) job \<Rightarrow> bool" where
  "transparent F m \<longleftrightarrow>
     (\<forall>c r c'. m c = (r, c') \<longrightarrow>
        ((\<exists>e. r = Inl e \<and> F e) \<or> m (calm c) = (r, calm c')) \<and> (faults c = [] \<longrightarrow> faults c' = []))"

definition engine_fault :: "rusqlite_error \<Rightarrow> bool" where
  "engine_fault e = (case e of SqliteFailure _ _ \<Rightarrow> True | _ \<Rightarrow> False)"

definition surfaced :: "error \<Rightarrow> bool" where
  "surfaced e \<longleftrightarrow> (\<exists>code msg. e = classify (SqliteFailure code msg))"

named_theorems transparent_intros
named_theorems job_simps

lemma calm_simps [simp]:
  "faults (calm c) = []" "conn_db (calm c) = conn_db c" "clock (calm c) = clock c"
  "calm (calm c) = calm c"
  "calm (c\<lparr>conn_db := d\<rparr>) = (calm c)\<lparr>conn_db := d\<rparr>" "calm (c\<lparr>clock := ts\<rparr>) = (calm c)\<lparr>clock := ts\<rparr>"
  "calm (c\<lparr>faults := fs\<rparr>) = calm c"
  by (simp_all add: calm_def)

lemma calm_id: "faults c = [] \<Longrightarrow> calm c = c"
  by (simp add: calm_def)

lemma next_fault_calm [simp]: "faults c = [] \<Longrightarrow> next_fault c = (None, c)"
  by (simp add: next_fault_def)

lemma next_fault_cases:
  obtains c' where "next_fault c = (None, c')" "calm c' = calm c" "conn_db c' = conn_db c"
    "faults c = [] \<Longrightarrow> faults c' = []"
  | code msg c' where "next_fault c = (Some (SqliteFailure code msg), c')" "calm c' = calm c"
      "conn_db c' = conn_db c" "faults c \<noteq> []"
proof (cases "faults c")
  case Nil
  then show ?thesis using that(1) by simp
next
  case (Cons f fs)
  show ?thesis
  proof (cases f)
    case None
    then show ?thesis using that(1) [of "c\<lparr>faults := fs\<rparr>"] Cons by (simp add: next_fault_def)
  next
    case (Some p)
    then show ?thesis
      using that(2) [of "fst p" "snd p" "c\<lparr>faults := fs\<rparr>"] Cons
      by (cases p) (simp add: next_fault_def)
  qed
qed

lemma transparentI:
  assumes "\<And>c r c'. m c = (r, c') \<Longrightarrow> (\<exists>e. r = Inl e \<and> F e) \<or> m (calm c) = (r, calm c')"
    and "\<And>c r c'. m c = (r, c') \<Longrightarrow> faults c = [] \<Longrightarrow> faults c' = []"
  shows "transparent F m"
  using assms by (simp add: transparent_def)

lemma transparentD:
  "transparent F m \<Longrightarrow> m c = (r, c') \<Longrightarrow> (\<exists>e. r = Inl e \<and> F e) \<or> m (calm c) = (r, calm c')"
  by (simp add: transparent_def)

lemma transparent_stays_calm:
  "transparent F m \<Longrightarrow> m c = (r, c') \<Longrightarrow> faults c = [] \<Longrightarrow> faults c' = []"
  by (simp add: transparent_def)

lemma transparent_return [transparent_intros]: "transparent F (jreturn x)"
  by (simp add: transparent_def jreturn_def)

lemma transparent_lift [transparent_intros]: "transparent F (jlift r)"
  by (simp add: transparent_def jlift_def)

lemma transparent_clock [transparent_intros]: "transparent F read_clock"
  by (simp add: transparent_def read_clock_def split: list.splits)

lemma transparent_bind [transparent_intros]:
  assumes m: "transparent F m" and f: "\<And>x. transparent F (f x)"
  shows "transparent F (jbind m f)"
proof (rule transparentI)
  fix c r c'
  assume run: "jbind m f c = (r, c')"
  obtain r1 c1 where r1: "m c = (r1, c1)" by force
  show "(\<exists>e. r = Inl e \<and> F e) \<or> jbind m f (calm c) = (r, calm c')"
    using transparentD [OF m r1] transparentD [OF f, of _ c1 r c'] run
    by (cases r1) (auto simp: jbind_def r1)
  show "faults c' = []" if "faults c = []"
    using transparent_stays_calm [OF m r1 that] transparent_stays_calm [OF f, of _ c1 r c'] run
    by (cases r1) (auto simp: jbind_def r1)
qed

lemma transparent_map_err:
  "transparent F m \<Longrightarrow> (\<And>e. F e \<Longrightarrow> G (h e)) \<Longrightarrow> transparent G (map_err h m)"
  by (fastforce simp: transparent_def map_err_def split: sum.splits prod.splits)

lemma transparent_or_else:
  "transparent F m \<Longrightarrow> (\<And>e. F e \<Longrightarrow> \<exists>e'. h e = Inl e' \<and> G e') \<Longrightarrow> transparent G (or_else m h)"
  by (fastforce simp: transparent_def or_else_def split: sum.splits prod.splits)

lemma transparent_traverse [transparent_intros]:
  "(\<And>x. transparent F (f x)) \<Longrightarrow> transparent F (jtraverse f xs)"
  by (induction xs) (auto intro: transparent_intros)

lemma transparent_statement [transparent_intros]: "transparent engine_fault (statement f)"
proof (rule transparentI)
  fix c :: "'a conn" and r c'
  assume run: "statement f c = (r, c')"
  show "(\<exists>e. r = Inl e \<and> engine_fault e) \<or> statement f (calm c) = (r, calm c')"
    by (rule next_fault_cases [of c])
      (use run in \<open>auto simp: statement_def engine_fault_def split: sum.splits prod.splits\<close>)
  show "faults c' = []" if "faults c = []"
    using run that by (auto simp: statement_def split: sum.splits prod.splits)
qed

lemma transparent_query_row [transparent_intros]: "transparent engine_fault (query_row f)"
  and transparent_query_map [transparent_intros]: "transparent engine_fault (query_map f' g)"
  and transparent_execute [transparent_intros]: "transparent engine_fault (execute f'')"
  by (simp_all add: query_row_def query_map_def execute_def transparent_statement)

lemma surfaced_classify [simp]: "engine_fault e \<Longrightarrow> surfaced (classify e)"
  by (auto simp: engine_fault_def surfaced_def split: rusqlite_error.splits)

lemma transparent_classify [transparent_intros]:
  "transparent engine_fault m \<Longrightarrow> transparent surfaced (map_err classify m)"
  by (erule transparent_map_err) simp

lemma transparent_prod [transparent_intros]:
  "(\<And>a b. transparent F (f a b)) \<Longrightarrow> transparent F (case p of (a, b) \<Rightarrow> f a b)"
  by (cases p) simp

lemma transparent_if [transparent_intros]:
  "transparent F m \<Longrightarrow> transparent F m' \<Longrightarrow> transparent F (if b then m else m')"
  by simp

lemma transparent_option [transparent_intros]:
  "transparent F m \<Longrightarrow> (\<And>x. transparent F (f x)) \<Longrightarrow>
     transparent F (case opt of None \<Rightarrow> m | Some x \<Rightarrow> f x)"
  by (cases opt) auto

lemma transparent_transaction [transparent_intros]:
  assumes body: "transparent surfaced body"
  shows "transparent surfaced (transaction body)"
proof (rule transparentI)
  fix c r c'
  assume run: "transaction body c = (r, c')"
  show "(\<exists>e. r = Inl e \<and> surfaced e) \<or> transaction body (calm c) = (r, calm c')"
  proof (rule next_fault_cases [of c])
    fix c1 assume c1: "next_fault c = (None, c1)" "calm c1 = calm c" "conn_db c1 = conn_db c"
    obtain r2 c2 where r2: "body c1 = (r2, c2)" by force
    show ?thesis
      using transparentD [OF body r2]
    proof
      assume "\<exists>e. r2 = Inl e \<and> surfaced e"
      then show ?thesis using run c1 r2 by (auto simp: transaction_def)
    next
      assume calm: "body (calm c1) = (r2, calm c2)"
      show ?thesis
        by (rule next_fault_cases [of c2])
          (use run c1 r2 calm in
            \<open>auto simp: transaction_def surfaced_def split: sum.splits tx_end.splits\<close>)
    qed
  next
    fix code msg c1 assume "next_fault c = (Some (SqliteFailure code msg), c1)"
    then show ?thesis using run by (auto simp: transaction_def surfaced_def)
  qed
  show "faults c' = []" if "faults c = []"
    using run that transparent_stays_calm [OF body, of c]
    by (auto simp: transaction_def split: sum.splits tx_end.splits prod.splits)
qed

lemma transparent_committing [transparent_intros]:
  "transparent surfaced body \<Longrightarrow> transparent surfaced (committing body)"
  unfolding committing_def by (intro transparent_intros)

section \<open>What a transaction leaves\<close>

lemma transaction_Inl: "transaction body c = (Inl e, c') \<Longrightarrow> conn_db c' = conn_db c"
  by (rule next_fault_cases [of c])
    (auto simp: transaction_def split: sum.splits prod.splits tx_end.splits option.splits)

lemma committing_Inl: "committing body c = (Inl e, c') \<Longrightarrow> conn_db c' = conn_db c"
  unfolding committing_def by (rule transaction_Inl)

lemma job_calm [job_simps]:
  "jbind m f c = (case m c of (Inl e, c') \<Rightarrow> (Inl e, c') | (Inr x, c') \<Rightarrow> f x c')"
  "jreturn x c = (Inr x, c)"
  "jlift r c = (r, c)"
  "map_err h m c = (case m c of (Inl e, c') \<Rightarrow> (Inl (h e), c') | (Inr x, c') \<Rightarrow> (Inr x, c'))"
  "or_else m g c = (case m c of (Inl e, c') \<Rightarrow> (g e, c') | (Inr x, c') \<Rightarrow> (Inr x, c'))"
  by (simp_all add: jbind_def jreturn_def jlift_def map_err_def or_else_def)

lemma statement_calm [job_simps]:
  "faults c = [] \<Longrightarrow> statement f c =
     (case f (conn_db c) of Inl e \<Rightarrow> (Inl e, c) | Inr (x, d) \<Rightarrow> (Inr x, c\<lparr>conn_db := d\<rparr>))"
  by (simp add: statement_def)

lemma query_row_calm [job_simps]:
  "faults c = [] \<Longrightarrow> query_row f c =
     ((case f (conn_db c) of None \<Rightarrow> Inl QueryReturnedNoRows | Some x \<Rightarrow> Inr x), c)"
  by (simp add: query_row_def statement_calm split: option.splits)

lemma query_map_calm [job_simps]:
  "faults c = [] \<Longrightarrow> query_map f g c = (traverse g (f (conn_db c)), c)"
  by (cases "traverse g (f (conn_db c))") (simp_all add: query_map_def statement_calm)

lemma execute_calm [job_simps]:
  "faults c = [] \<Longrightarrow> execute f c =
     (case f (conn_db c) of Inl e \<Rightarrow> (Inl e, c) | Inr d \<Rightarrow> (Inr (), c\<lparr>conn_db := d\<rparr>))"
  by (cases "f (conn_db c)") (simp_all add: execute_def statement_calm)

lemma committing_calm:
  assumes "faults c = []" and "transparent surfaced body"
  shows "committing body c =
     (case body c of
        (Inl e, c') \<Rightarrow> (Inl e, c'\<lparr>conn_db := conn_db c\<rparr>)
      | (Inr x, c') \<Rightarrow> (Inr x, c'))"
  using assms transparent_stays_calm [OF assms(2), of c]
  by (auto simp: committing_def transaction_def job_calm split: sum.splits prod.splits)

lemma isle_call_calm:
  "isle_call (calm_at t) job d =
     (let (r, c) = job \<lparr> conn_db = d, faults = [], clock = [t] \<rparr> in (r, conn_db c))"
  by (simp add: isle_call_def calm_at_def)

section \<open>Jobs that only read\<close>

definition reads_only :: "('m, 'e, 'a) job \<Rightarrow> bool" where
  "reads_only m \<longleftrightarrow> (\<forall>c. conn_db (snd (m c)) = conn_db c)"

named_theorems reads_intros

lemma next_fault_db: "next_fault c = (f, c') \<Longrightarrow> conn_db c' = conn_db c"
  by (auto simp: next_fault_def split: list.splits)

lemma reads_only_basic [reads_intros]:
  "reads_only (jreturn v)" "reads_only (jlift r)" "reads_only read_clock"
  by (simp_all add: reads_only_def jreturn_def jlift_def read_clock_def split: list.splits)

lemma reads_only_statement:
  "(\<And>d v d'. f d = Inr (v, d') \<Longrightarrow> d' = d) \<Longrightarrow> reads_only (statement f)"
  by (auto simp: reads_only_def statement_def next_fault_db split: prod.splits option.splits sum.splits)

lemma reads_only_query_row [reads_intros]: "reads_only (query_row f)"
  and reads_only_query_map [reads_intros]: "reads_only (query_map g h)"
  unfolding query_row_def query_map_def
  by (rule reads_only_statement, auto simp: result_simps split: option.splits)+

lemma reads_only_bind [reads_intros]:
  "reads_only m \<Longrightarrow> (\<And>v. reads_only (f v)) \<Longrightarrow> reads_only (jbind m f)"
  by (auto simp: reads_only_def jbind_def split: prod.splits sum.splits) (metis snd_conv)+

lemma reads_only_map_err [reads_intros]: "reads_only m \<Longrightarrow> reads_only (map_err h m)"
  and reads_only_or_else [reads_intros]: "reads_only m' \<Longrightarrow> reads_only (or_else m' h')"
  by (auto simp: reads_only_def map_err_def or_else_def split: prod.splits sum.splits) (metis snd_conv)+

lemma reads_only_if [reads_intros]: "reads_only m \<Longrightarrow> reads_only m' \<Longrightarrow> reads_only (if b then m else m')"
  by simp

lemma reads_only_prod [reads_intros]:
  "(\<And>a b. reads_only (f a b)) \<Longrightarrow> reads_only (case p of (a, b) \<Rightarrow> f a b)"
  by (cases p) simp

lemma reads_only_option [reads_intros]:
  "reads_only m \<Longrightarrow> (\<And>v. reads_only (f v)) \<Longrightarrow> reads_only (case opt of None \<Rightarrow> m | Some v \<Rightarrow> f v)"
  by (cases opt) auto

text \<open>What succeeded among failures would have succeeded without them, and to the same tables.\<close>

lemma calm_success:
  "transparent surfaced job \<Longrightarrow> job c = (Inr v, c') \<Longrightarrow> job (calm c) = (Inr v, calm c')"
  by (drule transparentD) auto

lemma read_success:
  assumes "transparent surfaced job" and "reads_only job" and "job c = (Inr v, c')"
  shows "conn_db c' = conn_db c" and "fst (job (calm c)) = Inr v"
  using calm_success [OF assms(1,3)] assms(2,3) unfolding reads_only_def by (metis snd_conv, metis fst_conv)

end
