(* ===== verification/Rows.thy ===== *)
theory Rows
  imports Sql
begin

text \<open>
  Events into rows and rows back into events: \<open>crates/eventsdb-sqlite/src/row.rs\<close>. The envelope is
  columns and the two JSON levels are text. The JSON text itself is \<open>serde_json\<close>'s: \<open>ext\<close> holds its
  writer and reader, the conversion of a number to a float, SQLite's \<open>json_extract\<close> and its comparison
  of numbers of which one is a float, as functions the definitions take.
\<close>

datatype sql_value = SqlNull | SqlInteger i64 | SqlReal u64 | SqlText rust_string | SqlBlob rust_string

record ext =
  to_text :: "json \<Rightarrow> rust_string option"
  from_text :: "rust_string \<Rightarrow> json option"
  json_extract :: "rust_string \<Rightarrow> rust_string \<Rightarrow> sql_value"
  as_f64 :: "number \<Rightarrow> u64"
  numeric_eq :: "sql_value \<Rightarrow> sql_value \<Rightarrow> bool"

record stored_row =
  stored_at :: u64
  stored_stream :: rust_string
  stored_event :: json

definition parse :: "ext \<Rightarrow> rust_string \<Rightarrow> rust_string \<Rightarrow> i64 \<Rightarrow> rusqlite_error + json" where
  "parse x source field position =
     (case from_text x source of
        Some v \<Rightarrow> Inr v
      | None \<Rightarrow> Inl (FromSqlConversionFailure field position))"

definition read_row :: "ext \<Rightarrow> event_row \<Rightarrow> rusqlite_error + stored_row" where
  "read_row x row =
     (let event = map_insert FIELD_KIND (JString (row_kind row)) []
      in rbind (parse x (row_meta row) FIELD_META (row_position row)) (\<lambda>meta.
           let event = map_insert FIELD_META meta event
           in rbind (parse x (row_data row) FIELD_DATA (row_position row)) (\<lambda>data.
                let event = map_insert FIELD_DATA data event;
                    event = map_insert FIELD_SEQ (from_u64 (as_u64 (row_seq row))) event;
                    event = map_insert FIELD_EPOCH_MS (from_u64 (as_u64 (row_epoch_ms row))) event;
                    event = map_insert FIELD_SCHEMA_VERSION (from_u64 (as_u64 (row_schema_version row))) event
                in Inr \<lparr> stored_at = as_u64 (row_position row), stored_stream = row_stream row,
                         stored_event = JObject event \<rparr>)))"

definition get_or_null :: "rust_string \<Rightarrow> json_map \<Rightarrow> json" where
  "get_or_null field event = (case map_of event field of Some v \<Rightarrow> v | None \<Rightarrow> JNull)"

definition json_columns :: "ext \<Rightarrow> json_map \<Rightarrow> (rust_string \<times> rust_string) result" where
  "json_columns x event =
     (case to_text x (get_or_null FIELD_META event) of
        None \<Rightarrow> Inl (Storage (Decoding (CannotSerialize FIELD_META)))
      | Some meta \<Rightarrow>
          (case to_text x (get_or_null FIELD_DATA event) of
             None \<Rightarrow> Inl (Storage (Decoding (CannotSerialize FIELD_DATA)))
           | Some data \<Rightarrow> Inr (meta, data)))"

definition required_u64 :: "json_map \<Rightarrow> rust_string \<Rightarrow> u64 result" where
  "required_u64 event field =
     (case Option.bind (map_of event field) as_u64_value of
        Some n \<Rightarrow> Inr n
      | None \<Rightarrow> Inl (Storage (Decoding (StampedWithout field))))"

definition envelope_columns :: "json_map \<Rightarrow> (rust_string \<times> u64 \<times> u64 \<times> u64) result" where
  "envelope_columns event =
     (case Option.bind (map_of event FIELD_KIND) as_str of
        None \<Rightarrow> Inl (Storage (Decoding (StampedWithout FIELD_KIND)))
      | Some kind \<Rightarrow>
          rbind (required_u64 event FIELD_SEQ) (\<lambda>seq.
            rbind (required_u64 event FIELD_EPOCH_MS) (\<lambda>epoch_ms.
              rbind (required_u64 event FIELD_SCHEMA_VERSION) (\<lambda>schema_version.
                Inr (kind, seq, epoch_ms, schema_version)))))"

section \<open>The round trip\<close>

text \<open>
  What the rows rely on of the JSON library, for one value: it has a text and the text reads back. It
  is asked of the two objects of an event, not of every value.
\<close>

definition round_trips :: "ext \<Rightarrow> json \<Rightarrow> bool" where
  "round_trips x v \<longleftrightarrow> Option.bind (to_text x v) (from_text x) = Some v"

definition storable :: "ext \<Rightarrow> json_map \<Rightarrow> bool" where
  "storable x event \<longleftrightarrow>
     map_ok event \<and> round_trips x (object_of FIELD_META event) \<and> round_trips x (object_of FIELD_DATA event)"

text \<open>The object a readable row reads as; every unreadable row is one SQLite or a hand has damaged.\<close>

definition row_object :: "ext \<Rightarrow> event_row \<Rightarrow> json_map" where
  "row_object x row =
     event_object (row_kind row) (the (from_text x (row_meta row))) (the (from_text x (row_data row)))
       (as_u64 (row_seq row)) (as_u64 (row_epoch_ms row)) (as_u64 (row_schema_version row))"

definition readable :: "ext \<Rightarrow> event_row \<Rightarrow> bool" where
  "readable x row \<longleftrightarrow> from_text x (row_meta row) \<noteq> None \<and> from_text x (row_data row) \<noteq> None"

definition row_of :: "ext \<Rightarrow> rust_string \<Rightarrow> json_map \<Rightarrow> i64 \<Rightarrow> event_row" where
  "row_of x stream event position =
     \<lparr> row_position = position, row_stream = stream, row_seq = as_i64 (u64_of FIELD_SEQ event),
       row_epoch_ms = as_i64 (u64_of FIELD_EPOCH_MS event), row_kind = kind_of event,
       row_schema_version = as_i64 (version_of event),
       row_meta = the (to_text x (object_of FIELD_META event)),
       row_data = the (to_text x (object_of FIELD_DATA event)) \<rparr>"

lemma read_row_readable:
  "readable x row \<Longrightarrow> read_row x row =
     Inr \<lparr> stored_at = as_u64 (row_position row), stored_stream = row_stream row,
           stored_event = JObject (row_object x row) \<rparr>"
  by (auto simp: readable_def read_row_def parse_def row_object_def event_object_def Let_def)

lemma read_row_unreadable:
  "\<not> readable x row \<Longrightarrow> \<exists>field. read_row x row = Inl (FromSqlConversionFailure field (row_position row))"
  by (auto simp: readable_def read_row_def parse_def Let_def split: option.splits)

lemma round_trips_alt:
  "round_trips x v \<longleftrightarrow> (\<exists>s. to_text x v = Some s \<and> from_text x s = Some v)"
  by (cases "to_text x v") (auto simp: round_trips_def)

lemma envelope_columns_event_object [simp]:
  "envelope_columns (event_object k m d s t v) = Inr (k, s, t, v)"
  by (simp add: envelope_columns_def required_u64_def map_of_event_object)

lemma json_columns_event_object:
  "round_trips x m \<Longrightarrow> round_trips x d \<Longrightarrow>
     json_columns x (event_object k m d s t v) = Inr (the (to_text x m), the (to_text x d))"
  by (auto simp: json_columns_def get_or_null_def map_of_event_object round_trips_alt)

lemma row_of_event_object:
  assumes "round_trips x m" "round_trips x d"
  shows "readable x (row_of x stream (event_object k m d s t v) position)"
    and "row_object x (row_of x stream (event_object k m d s t v) position) = event_object k m d s t v"
  using assms by (auto simp: readable_def row_object_def row_of_def round_trips_alt)

lemma row_of_sel [simp]:
  "row_position (row_of x stream event position) = position"
  "row_stream (row_of x stream event position) = stream"
  "row_kind (row_of x stream event position) = kind_of event"
  "row_seq (row_of x stream event position) = as_i64 (u64_of FIELD_SEQ event)"
  "row_epoch_ms (row_of x stream event position) = as_i64 (u64_of FIELD_EPOCH_MS event)"
  by (simp_all add: row_of_def)

text \<open>
  A row holds its event exactly. For an event whose two objects the JSON library can write and read
  back, the columns computed from it and the row read back from them give the same object, whatever the
  sequence number, the time and the schema version are: the 64-bit values above \<open>i64_max\<close> go through
  SQLite's signed column and come back.
\<close>

theorem row_round_trip:
  assumes "round_trips x meta" and "round_trips x data"
  shows "\<exists>m d. json_columns x (event_object kind meta data seq epoch_ms version) = Inr (m, d)
     \<and> envelope_columns (event_object kind meta data seq epoch_ms version) = Inr (kind, seq, epoch_ms, version)
     \<and> read_row x \<lparr> row_position = position, row_stream = stream, row_seq = as_i64 seq,
           row_epoch_ms = as_i64 epoch_ms, row_kind = kind, row_schema_version = as_i64 version,
           row_meta = m, row_data = d \<rparr>
       = Inr \<lparr> stored_at = as_u64 position, stored_stream = stream,
               stored_event = JObject (event_object kind meta data seq epoch_ms version) \<rparr>"
  using assms
  by (auto simp: json_columns_event_object round_trips_alt readable_def row_object_def
      intro!: read_row_readable [THEN trans])

text \<open>A library that writes the empty object and one string, enough for the concrete inputs below.\<close>

definition toy_ext :: ext where
  "toy_ext = \<lparr> to_text = (\<lambda>v. case v of JObject [] \<Rightarrow> Some ''{}'' | JString s \<Rightarrow> Some (CHR ''s'' # s) | _ \<Rightarrow> None),
     from_text = (\<lambda>t. case t of CHR ''s'' # s \<Rightarrow> Some (JString s) | _ \<Rightarrow> if t = ''{}'' then Some (JObject []) else None),
     json_extract = (\<lambda>_ _. SqlNull), as_f64 = (\<lambda>_. 0), numeric_eq = (\<lambda>a b. a = b) \<rparr>"

lemma toy_ext_empty [simp]: "round_trips toy_ext (JObject [])"
  by (simp add: round_trips_def toy_ext_def)

theorem row_round_trip_witness:
  "\<exists>m d. json_columns toy_ext (event_object ''paid'' (JObject []) (JObject []) 7 (2 ^ 63 + 5) 1) = Inr (m, d)"
  using row_round_trip [OF toy_ext_empty toy_ext_empty, of "''paid''" 7 "2 ^ 63 + 5" 1 3 "''s''"] by blast

end
