(* ===== verification/Shared.thy ===== *)
theory Shared
  imports Rows
begin

text \<open>
  What a log and every stream handle it issues share: \<open>crates/eventsdb-sqlite/src/shared.rs\<close>, and the
  submission of jobs to the connection threads from \<open>crates/eventsdb-sqlite/src/store.rs\<close>
  (\<open>write_retrying\<close>, \<open>read_job\<close>, \<open>writer_job\<close>).

  The writer and the readers are connections to one database, so \<open>isle_db\<close> is the committed state all of
  them see; which reader serves a read is \<open>reader\<close>. A failed submission may be repeated; what other
  connections commit in between is part of the state the next submission finds, and since a failed
  write leaves no trace it is modelled as happening before the whole call.
\<close>

record 'm shared =
  isle_db :: "'m database"
  readers :: usize
  next_reader :: usize
  database_id :: rust_string
  upcasters :: upcast_chain
  notify :: position
  poll_interval :: u64
  live_runners :: "rust_string set"

definition MAX_BUSY_RETRIES :: nat where
  "MAX_BUSY_RETRIES = 4"

text \<open>Milliseconds before retry \<open>attempt\<close>; both operations saturate at the width of a \<open>u64\<close>.\<close>

definition saturate :: "nat \<Rightarrow> nat" where
  "saturate n = min n (2 ^ 64 - 1)"

definition backoff :: "nat \<Rightarrow> nat" where
  "backoff attempt = saturate (saturate (2 ^ attempt) * 5)"

datatype connection = Writer | Reader usize

definition reader :: "'m shared \<Rightarrow> connection \<times> 'm shared" where
  "reader s =
     (if readers s = 0 then (Writer, s)
      else (Reader (next_reader s mod readers s), s\<lparr>next_reader := next_reader s + 1\<rparr>))"

definition publish :: "position \<Rightarrow> 'm shared \<Rightarrow> 'm shared" where
  "publish position s = (if position > notify s then s\<lparr>notify := position\<rparr> else s)"

definition publish_committed :: "position option \<Rightarrow> 'm shared \<Rightarrow> 'm shared" where
  "publish_committed p s = (case p of None \<Rightarrow> s | Some position \<Rightarrow> publish position s)"

function write_retrying_from ::
  "(nat \<Rightarrow> attempt) \<Rightarrow> ('m, error, 'a) job \<Rightarrow> nat \<Rightarrow> 'm database \<Rightarrow> 'a result \<times> 'm database" where
  "write_retrying_from env job attempt d =
     (let (outcome, d') = isle_call (env attempt) job d
      in case outcome of
           Inl e \<Rightarrow>
             if is_busy e \<and> attempt < MAX_BUSY_RETRIES
             then write_retrying_from env job (attempt + 1) d' else (Inl e, d')
         | Inr value \<Rightarrow> (Inr value, d'))"
  by pat_completeness auto
termination
  by (relation "measure (\<lambda>(env, job, attempt, d). MAX_BUSY_RETRIES - attempt)") auto

declare write_retrying_from.simps [simp del]

definition write_retrying ::
  "(nat \<Rightarrow> attempt) \<Rightarrow> ('m, error, 'a) job \<Rightarrow> 'm database \<Rightarrow> 'a result \<times> 'm database" where
  "write_retrying env job d = write_retrying_from env job 0 d"

text \<open>A read and a single submission to the writer differ only in the connection they go to.\<close>

definition read_job :: "attempt \<Rightarrow> ('m, error, 'a) job \<Rightarrow> 'm shared \<Rightarrow> 'a result" where
  "read_job a job s = fst (isle_call a job (isle_db s))"

definition writer_job :: "attempt \<Rightarrow> ('m, error, 'a) job \<Rightarrow> 'm shared \<Rightarrow> 'a result \<times> 'm shared" where
  "writer_job a job s = (let (r, d) = isle_call a job (isle_db s) in (r, s\<lparr>isle_db := d\<rparr>))"

text \<open>A log over given tables, with no readers and nobody subscribed: the concrete state of the examples.\<close>

definition sample_log :: "'m database \<Rightarrow> 'm shared" where
  "sample_log d = \<lparr> isle_db = d, readers = 0, next_reader = 0, database_id = ''memory:0'', upcasters = [],
     notify = BEGINNING, poll_interval = 100, live_runners = {} \<rparr>"

lemma sample_log_sel [simp]: "isle_db (sample_log d) = d" "upcasters (sample_log d) = []"
  by (simp_all add: sample_log_def)

definition sample_event :: "rust_string \<Rightarrow> json_map" where
  "sample_event kind = [(FIELD_KIND, JString kind)]"

lemma sample_event_ok [simp]:
  "storable toy_ext (sample_event kind)" "map_ok (sample_event kind)" "kind_of (sample_event kind) = kind"
  "well_formed (sample_event (c # kind))" "validate (sample_event (c # kind)) = Inr ()"
  by (simp_all add: sample_event_def storable_def object_of_def map_ok_def well_formed_def has_kind_def
      entry_ok_def kind_of_def flip: validate_iff) (simp add: validate_def)

section \<open>Submitting a job\<close>

definition atomic :: "('m, 'e, 'a) job \<Rightarrow> bool" where
  "atomic job \<longleftrightarrow> (\<forall>c e c'. job c = (Inl e, c') \<longrightarrow> conn_db c' = conn_db c)"

lemma atomicD: "atomic job \<Longrightarrow> job c = (Inl e, c') \<Longrightarrow> conn_db c' = conn_db c"
  by (simp add: atomic_def)

lemma atomic_transaction [simp]: "atomic (transaction body)"
  by (auto simp: atomic_def dest: transaction_Inl)

lemma atomic_committing [simp]: "atomic (committing body)"
  by (simp add: committing_def)

lemma atomic_reads_only: "reads_only job \<Longrightarrow> atomic job"
  by (auto simp: atomic_def reads_only_def) (metis snd_conv)

lemma isle_call_Inl: "atomic job \<Longrightarrow> isle_call a job d = (Inl e, d') \<Longrightarrow> d' = d"
  by (auto simp: isle_call_def Let_def split: option.splits prod.splits dest: atomicD)

text \<open>What a job answers and leaves when nothing fails, at a list of clock readings.\<close>

definition calm_run :: "('m, error, 'a) job \<Rightarrow> i64 list \<Rightarrow> 'm database \<Rightarrow> 'a result \<times> 'm database" where
  "calm_run job ts d =
     (let (r, c) = job \<lparr> conn_db = d, faults = [], clock = ts \<rparr> in (r, conn_db c))"

definition isle_surfaced :: "error \<Rightarrow> bool" where
  "isle_surfaced e \<longleftrightarrow> surfaced e \<or> (\<exists>i. e = map_isle i)"

lemma isle_call_calm_or_fault:
  assumes "transparent surfaced job" and "atomic job"
  shows "(\<exists>e. isle_call a job d = (Inl e, d) \<and> isle_surfaced e) \<or> isle_call a job d = calm_run job (readings a) d"
proof (cases "isle_fault a")
  case (Some e)
  then show ?thesis by (auto simp: isle_call_def isle_surfaced_def)
next
  case None
  let ?c = "\<lparr> conn_db = d, faults = stmt_faults a, clock = readings a \<rparr>"
  obtain r c' where run: "job ?c = (r, c')" by force
  have calm: "calm ?c = \<lparr> conn_db = d, faults = [], clock = readings a \<rparr>" by (simp add: calm_def)
  show ?thesis
    using transparentD [OF assms(1) run] atomicD [OF assms(2), of ?c _ c'] run None
    by (auto simp: isle_call_def calm_run_def calm isle_surfaced_def)
qed

lemma read_job_calm_or_fault:
  assumes "transparent surfaced job" and "atomic job"
  shows "(\<exists>e. read_job a job s = Inl e \<and> isle_surfaced e)
     \<or> read_job a job s = fst (calm_run job (readings a) (isle_db s))"
  using isle_call_calm_or_fault [OF assms, of a "isle_db s"] by (auto simp: read_job_def)

lemma write_retrying_from_spec:
  assumes "atomic job"
  shows "\<exists>k. attempt \<le> k \<and> k \<le> max attempt MAX_BUSY_RETRIES
     \<and> (\<forall>i. attempt \<le> i \<and> i < k \<longrightarrow> (\<exists>e. fst (isle_call (env i) job d) = Inl e \<and> is_busy e))
     \<and> write_retrying_from env job attempt d = isle_call (env k) job d
     \<and> ((\<exists>e. fst (isle_call (env k) job d) = Inl e \<and> is_busy e) \<longrightarrow> MAX_BUSY_RETRIES \<le> k)"
  using assms
proof (induction env job attempt d rule: write_retrying_from.induct)
  case (1 env job attempt d)
  obtain outcome d' where call: "isle_call (env attempt) job d = (outcome, d')" by force
  show ?case
  proof (cases "\<exists>e. outcome = Inl e \<and> is_busy e \<and> attempt < MAX_BUSY_RETRIES")
    case True
    then obtain e where e: "outcome = Inl e" "is_busy e" "attempt < MAX_BUSY_RETRIES" by blast
    have "d' = d" using isle_call_Inl [OF 1(2)] call e(1) by simp
    then obtain k where k: "attempt + 1 \<le> k" "k \<le> max (attempt + 1) MAX_BUSY_RETRIES"
      "\<forall>i. attempt + 1 \<le> i \<and> i < k \<longrightarrow> (\<exists>e. fst (isle_call (env i) job d) = Inl e \<and> is_busy e)"
      "write_retrying_from env job (attempt + 1) d = isle_call (env k) job d"
      "(\<exists>e. fst (isle_call (env k) job d) = Inl e \<and> is_busy e) \<longrightarrow> MAX_BUSY_RETRIES \<le> k"
      using 1(1) [OF call [symmetric] refl e(1)] e(2,3) 1(2) by auto
    have "write_retrying_from env job attempt d = isle_call (env k) job d"
      using k(4) call e \<open>d' = d\<close> by (subst write_retrying_from.simps) simp
    moreover have "\<forall>i. attempt \<le> i \<and> i < k \<longrightarrow> (\<exists>e. fst (isle_call (env i) job d) = Inl e \<and> is_busy e)"
      using k(3) call e by (metis Suc_eq_plus1 fst_conv le_eq_less_or_eq Suc_leI)
    ultimately show ?thesis using k(1,2,5) e(3) by (intro exI [of _ k]) auto
  next
    case False
    then show ?thesis
      using call
      by (intro exI [of _ attempt]) (subst write_retrying_from.simps, auto split: sum.splits)
  qed
qed

lemma write_retrying_spec:
  assumes "atomic job"
  shows "\<exists>k \<le> MAX_BUSY_RETRIES.
     (\<forall>i<k. \<exists>e. fst (isle_call (env i) job d) = Inl e \<and> is_busy e)
     \<and> write_retrying env job d = isle_call (env k) job d
     \<and> ((\<exists>e. fst (isle_call (env k) job d) = Inl e \<and> is_busy e) \<longrightarrow> k = MAX_BUSY_RETRIES)"
  using write_retrying_from_spec [OF assms, of 0 env d] by (fastforce simp: write_retrying_def)

lemma write_retrying_calm_or_fault:
  assumes "transparent surfaced job" and "atomic job"
  shows "(\<exists>e. write_retrying env job d = (Inl e, d) \<and> isle_surfaced e)
     \<or> (\<exists>ts. write_retrying env job d = calm_run job ts d)"
  using write_retrying_spec [OF assms(2), of env d] isle_call_calm_or_fault [OF assms] by metis

lemma calm_run_committing:
  assumes "transparent surfaced body"
  shows "calm_run (committing body) ts d =
     (case calm_run body ts d of (Inl e, d') \<Rightarrow> (Inl e, d) | (Inr x, d') \<Rightarrow> (Inr x, d'))"
  using committing_calm [OF _ assms, of "\<lparr> conn_db = d, faults = [], clock = ts \<rparr>"]
  by (auto simp: calm_run_def Let_def split: prod.splits sum.splits)

lemma calm_at_sel [simp]: "isle_fault (calm_at t) = None" "stmt_faults (calm_at t) = []" "readings (calm_at t) = [t]"
  "engine_aborts (calm_at t) = []"
  by (simp_all add: calm_at_def)

lemma isle_call_calm_at: "isle_call (calm_at t) job d = calm_run job [t] d"
  by (simp add: isle_call_calm calm_run_def)

lemma write_retrying_calm:
  assumes "calm_run job [t] d = (r, d')" and "\<And>e. r = Inl e \<Longrightarrow> \<not> is_busy e"
  shows "write_retrying (\<lambda>_. calm_at t) job d = (r, d')"
  using assms
  by (simp add: write_retrying_def write_retrying_from.simps isle_call_calm_at split: sum.splits)

lemma surfaced_isle [simp]: "surfaced e \<Longrightarrow> isle_surfaced e"
  by (simp add: isle_surfaced_def)

lemma isle_surfaced_not_refusal: "isle_surfaced e \<Longrightarrow> \<not> is_refusal e"
  by (auto simp: isle_surfaced_def surfaced_def)

lemma publish_committed_db [simp]: "isle_db (publish_committed p s) = isle_db s"
  and publish_committed_upcasters [simp]: "upcasters (publish_committed p s) = upcasters s"
  by (auto simp: publish_committed_def publish_def split: option.splits)

text \<open>
  A write is submitted again only while it is busy, and at most four times. The answer and the
  tables are those of one submission, the first that was not busy or the fifth; every one before it
  failed busy and left no trace, so a write that is retried is still made once. Holds for every job
  that leaves the tables alone when it fails, which every transaction does.
\<close>

theorem write_retrying_applies_once:
  "\<exists>k. k \<le> 4
     \<and> (\<forall>i. i < k \<longrightarrow> (\<exists>e. isle_call (env i) (transaction body) d = (Inl e, d) \<and> is_busy e))
     \<and> write_retrying env (transaction body) d = isle_call (env k) (transaction body) d
     \<and> (k < 4 \<longrightarrow> (\<nexists>e. fst (write_retrying env (transaction body) d) = Inl e \<and> is_busy e))"
proof -
  obtain k where k: "k \<le> MAX_BUSY_RETRIES"
    "\<forall>i<k. \<exists>e. fst (isle_call (env i) (transaction body) d) = Inl e \<and> is_busy e"
    "write_retrying env (transaction body) d = isle_call (env k) (transaction body) d"
    "(\<exists>e. fst (isle_call (env k) (transaction body) d) = Inl e \<and> is_busy e) \<longrightarrow> k = MAX_BUSY_RETRIES"
    using write_retrying_spec [of "transaction body" env d] by auto
  have "\<exists>e. isle_call (env i) (transaction body) d = (Inl e, d) \<and> is_busy e" if "i < k" for i
    using k(2) that isle_call_Inl [of "transaction body" "env i" d] by (metis atomic_transaction prod.collapse)
  then show ?thesis
    using k by (intro exI [of _ k]) (auto simp: MAX_BUSY_RETRIES_def)
qed

theorem write_retrying_applies_once_witness:
  "\<exists>k::nat. k \<le> 4 \<and> write_retrying (\<lambda>i. (calm_at 0)\<lparr>isle_fault := Some (IsleOther True ''busy'')\<rparr>)
      (transaction (jreturn (Commit ()))) (empty_database ()) =
      isle_call ((calm_at 0)\<lparr>isle_fault := Some (IsleOther True ''busy'')\<rparr>)
      (transaction (jreturn (Commit ()))) (empty_database ())"
  using write_retrying_applies_once
    [of "\<lambda>i. (calm_at 0)\<lparr>isle_fault := Some (IsleOther True ''busy'')\<rparr>" "jreturn (Commit ())"
      "empty_database ()"] by blast

text \<open>
  The published position never goes back and never claims more than was committed: after any
  sequence of publications it is the highest of them and of where it started, and every other part of
  the shared state is untouched.
\<close>

theorem publish_keeps_highest:
  "fold publish ps s = s\<lparr>notify := fold max ps (notify s)\<rparr>"
  by (induction ps arbitrary: s) (auto simp: publish_def max_def not_less)

end
