(* ===== verification/Sqlite_Store.thy ===== *)
theory Sqlite_Store
  imports Shared
begin

text \<open>
  The durable per-stream backend: \<open>crates/eventsdb-sqlite/src/store.rs\<close>. First the functions that run
  inside a transaction the caller opened, each one statement or two; then the write and read operations
  of the stream handle, each the whole of its method: the check before the database, the job with its
  transaction, the retries, and the publication of the committed position. An operation takes the
  JSON library \<open>x\<close>, what its submissions will meet, and the shared state, which it returns.
\<close>

section \<open>Inside a transaction\<close>

definition next_seq :: "rust_string \<Rightarrow> ('m, error, u64) job" where
  "next_seq stream =
     or_else (query_row (\<lambda>d. map_option as_u64 (map_of (tbl_stream_seq d) stream)))
       (\<lambda>e. case e of QueryReturnedNoRows \<Rightarrow> Inr 1 | other \<Rightarrow> Inl (classify other))"

definition upsert_counter :: "rust_string \<Rightarrow> i64 \<Rightarrow> 'm database \<Rightarrow> 'm database" where
  "upsert_counter stream next d = d\<lparr>tbl_stream_seq := AList.update stream next (tbl_stream_seq d)\<rparr>"

definition set_next_seq :: "rust_string \<Rightarrow> u64 \<Rightarrow> ('m, error, unit) job" where
  "set_next_seq stream next = map_err classify (execute (\<lambda>d. Inr (upsert_counter stream (as_i64 next) d)))"

text \<open>
  \<open>INSERT INTO events\<close>: the position is one above every position ever assigned, so the insert fails when
  the last one is the largest rowid there is; \<open>UNIQUE (stream, seq)\<close> refuses a second row for one pair.
\<close>

definition insert_event :: "event_row \<Rightarrow> 'm database \<Rightarrow> rusqlite_error + i64 \<times> 'm database" where
  "insert_event row d =
     (if events_auto d \<ge> i64_max then Inl (SqliteFailure DiskFull ''database or disk is full'')
      else if list_ex (\<lambda>r. row_stream r = row_stream row \<and> row_seq r = row_seq row) (tbl_events d) then
        Inl (SqliteFailure ConstraintViolation ''UNIQUE constraint failed: events.stream, events.seq'')
      else
        let position = events_auto d + 1
        in Inr (position, d\<lparr>tbl_events := tbl_events d @ [row\<lparr>row_position := position\<rparr>],
                            events_auto := position\<rparr>))"

definition insert_stamped :: "ext \<Rightarrow> rust_string \<Rightarrow> json_map \<Rightarrow> ('m, error, committed) job" where
  "insert_stamped x stream event =
     jbind (jlift (envelope_columns event)) (\<lambda>(kind, seq, epoch_ms, schema_version).
     jbind (jlift (json_columns x event)) (\<lambda>(meta, data).
     jbind (map_err classify (statement (insert_event
       \<lparr> row_position = 0, row_stream = stream, row_seq = as_i64 seq, row_epoch_ms = as_i64 epoch_ms,
         row_kind = kind, row_schema_version = as_i64 schema_version, row_meta = meta, row_data = data \<rparr>)))
       (\<lambda>last_insert_rowid. jreturn
         \<lparr> committed_seq = seq, committed_epoch_ms = epoch_ms,
           committed_position = Some (Position (as_u64 last_insert_rowid)) \<rparr>)))"

text \<open>
  SQLite's \<open>LIMIT\<close> is signed and a negative one means no limit, which is what a \<open>usize\<close> above the
  signed range is mapped to.
\<close>

definition clamp_limit :: "usize \<Rightarrow> i64" where
  "clamp_limit limit = (case i64_try_from limit of Some n \<Rightarrow> n | None \<Rightarrow> -1)"

definition sql_limit :: "i64 \<Rightarrow> 'a list \<Rightarrow> 'a list" where
  "sql_limit n xs = (if n < 0 then xs else take (nat n) xs)"

definition select_stream ::
  "ext \<Rightarrow> rust_string \<Rightarrow> rust_string list option \<Rightarrow> u64 \<Rightarrow> usize \<Rightarrow> ('m, error, json list) job" where
  "select_stream x stream kinds from_seq limit =
     (if kinds = Some [] then jreturn []
      else jbind
        (map_err classify (query_map
          (\<lambda>d. sql_limit (clamp_limit limit) (sort_key row_seq
             (filter (\<lambda>r. row_stream r = stream \<and> row_seq r \<ge> as_i64 from_seq \<and> kind_in kinds (row_kind r))
               (tbl_events d))))
          (read_row x)))
        (\<lambda>rows. jreturn (map stored_event rows)))"

section \<open>Writes\<close>

text \<open>The body of one stamped append: the counter, the stamp, the row, the counter's new value.\<close>

definition stamped_append :: "ext \<Rightarrow> rust_string \<Rightarrow> json_map \<Rightarrow> u64 \<Rightarrow> u64 \<Rightarrow> ('m, error, committed) job" where
  "stamped_append x stream event seq epoch_ms =
     jbind (jlift (stamp event seq epoch_ms)) (\<lambda>stamped.
     jbind (insert_stamped x stream stamped) (\<lambda>committed.
     jbind (set_next_seq stream (seq + 1)) (\<lambda>_. jreturn committed)))"

definition append_stamped_now :: "ext \<Rightarrow> rust_string \<Rightarrow> json_map \<Rightarrow> ('m, error, committed) job" where
  "append_stamped_now x stream event =
     committing (jbind (next_seq stream) (\<lambda>seq.
       jbind read_clock (\<lambda>now. stamped_append x stream event seq now)))"

definition append_at_job :: "ext \<Rightarrow> rust_string \<Rightarrow> u64 \<Rightarrow> json_map \<Rightarrow> ('m, error, committed) job" where
  "append_at_job x stream epoch_ms event =
     committing (jbind (next_seq stream) (\<lambda>seq. stamped_append x stream event seq epoch_ms))"

definition append_expecting_job ::
  "ext \<Rightarrow> rust_string \<Rightarrow> expected \<Rightarrow> json_map \<Rightarrow> ('m, error, committed) job" where
  "append_expecting_job x stream wanted event =
     committing (jbind (next_seq stream) (\<lambda>next.
       let actual = (if next = 1 then Unwritten else Seq (next - 1))
       in if actual \<noteq> wanted then jlift (Inl (HeadMismatch wanted actual))
          else jbind read_clock (\<lambda>now. stamped_append x stream event next now)))"

text \<open>One pass of the loop over a batch, at its offset.\<close>

definition batch_step :: "ext \<Rightarrow> rust_string \<Rightarrow> u64 \<Rightarrow> u64 \<Rightarrow> nat \<times> json_map \<Rightarrow> ('m, error, committed) job" where
  "batch_step x stream base_seq epoch_ms =
     (\<lambda>(offset, event). jbind (jlift (stamp event (base_seq + usize_of offset) epoch_ms)) (insert_stamped x stream))"

definition append_many_job :: "ext \<Rightarrow> rust_string \<Rightarrow> json_map list \<Rightarrow> ('m, error, committed list) job" where
  "append_many_job x stream events =
     committing (jbind (next_seq stream) (\<lambda>base_seq.
       jbind read_clock (\<lambda>epoch_ms.
       jbind (jtraverse (batch_step x stream base_seq epoch_ms) (List.enumerate 0 events)) (\<lambda>out.
       jbind (set_next_seq stream (base_seq + usize_of (length out))) (\<lambda>_. jreturn out)))))"

text \<open>
  The decision is the caller's function of the events it is shown. Deciding nothing drops the
  transaction; the count of events folded travels back beside the outcome.
\<close>

definition append_if_job ::
  "ext \<Rightarrow> upcast_chain \<Rightarrow> rust_string \<Rightarrow> rust_string list option \<Rightarrow> (current list \<Rightarrow> json_map option)
     \<Rightarrow> ('m, error, nat \<times> committed option) job" where
  "append_if_job x chain stream kinds decide =
     transaction (jbind (select_stream x stream kinds 0 (- 1)) (\<lambda>stored.
       jbind (jlift (upcast_rows chain stored)) (\<lambda>seen.
       case decide seen of
         None \<Rightarrow> jreturn (Dropped (length seen, None))
       | Some event \<Rightarrow>
           jbind (jlift (validate event)) (\<lambda>_.
           jbind (next_seq stream) (\<lambda>seq.
           jbind read_clock (\<lambda>now.
           jbind (stamped_append x stream event seq now) (\<lambda>committed.
             jreturn (Commit (length seen, Some committed)))))))))"

text \<open>What every awaited write does with its outcome: a committed position is published.\<close>

definition settle :: "('a \<Rightarrow> position option) \<Rightarrow> 'a result \<times> 'm database \<Rightarrow> 'm shared \<Rightarrow> 'a result \<times> 'm shared"
  where
  "settle landed outcome s =
     (case outcome of
        (Inl e, d) \<Rightarrow> (Inl e, s\<lparr>isle_db := d\<rparr>)
      | (Inr v, d) \<Rightarrow> (Inr v, publish_committed (landed v) (s\<lparr>isle_db := d\<rparr>)))"

definition append_store ::
  "ext \<Rightarrow> (nat \<Rightarrow> attempt) \<Rightarrow> rust_string \<Rightarrow> json_map \<Rightarrow> 'm shared \<Rightarrow> committed result \<times> 'm shared" where
  "append_store x env stream event s =
     (case validate event of
        Inl e \<Rightarrow> (Inl e, s)
      | Inr _ \<Rightarrow> settle committed_position (write_retrying env (append_stamped_now x stream event) (isle_db s)) s)"

definition append_at ::
  "ext \<Rightarrow> (nat \<Rightarrow> attempt) \<Rightarrow> rust_string \<Rightarrow> u64 \<Rightarrow> json_map \<Rightarrow> 'm shared \<Rightarrow> committed result \<times> 'm shared" where
  "append_at x env stream epoch_ms event s =
     (case validate event of
        Inl e \<Rightarrow> (Inl e, s)
      | Inr _ \<Rightarrow> settle committed_position (write_retrying env (append_at_job x stream epoch_ms event) (isle_db s)) s)"

definition append_expecting ::
  "ext \<Rightarrow> (nat \<Rightarrow> attempt) \<Rightarrow> rust_string \<Rightarrow> expected \<Rightarrow> json_map \<Rightarrow> 'm shared \<Rightarrow> committed result \<times> 'm shared"
  where
  "append_expecting x env stream wanted event s =
     (case validate event of
        Inl e \<Rightarrow> (Inl e, s)
      | Inr _ \<Rightarrow>
          settle committed_position (write_retrying env (append_expecting_job x stream wanted event) (isle_db s)) s)"

fun validate_all :: "json_map list \<Rightarrow> unit result" where
  "validate_all [] = Inr ()"
| "validate_all (event # events) = rbind (validate event) (\<lambda>_. validate_all events)"

definition last_position :: "committed list \<Rightarrow> position option" where
  "last_position cs = (if cs = [] then None else committed_position (last cs))"

definition append_many ::
  "ext \<Rightarrow> (nat \<Rightarrow> attempt) \<Rightarrow> rust_string \<Rightarrow> json_map list \<Rightarrow> 'm shared \<Rightarrow> committed list result \<times> 'm shared" where
  "append_many x env stream events s =
     (case validate_all events of
        Inl e \<Rightarrow> (Inl e, s)
      | Inr _ \<Rightarrow>
          if events = [] then (Inr [], s)
          else settle last_position (write_retrying env (append_many_job x stream events) (isle_db s)) s)"

definition append_if ::
  "ext \<Rightarrow> attempt \<Rightarrow> rust_string \<Rightarrow> rust_string list option \<Rightarrow> (current list \<Rightarrow> json_map option) \<Rightarrow> 'm shared
     \<Rightarrow> committed option result \<times> 'm shared" where
  "append_if x a stream kinds decide s =
     (case settle (\<lambda>(folded, committed). Option.bind committed committed_position)
             (isle_call a (append_if_job x (upcasters s) stream kinds decide) (isle_db s)) s of
        (Inl e, s') \<Rightarrow> (Inl e, s')
      | (Inr (folded, committed), s') \<Rightarrow> (Inr committed, s'))"

text \<open>
  The detached append answers before its job runs. The job's result is dropped and nothing is published;
  the thread runs it in the order of its queue, which is the order of the calls.
\<close>

definition detach_append ::
  "ext \<Rightarrow> attempt \<Rightarrow> rust_string \<Rightarrow> json_map \<Rightarrow> 'm shared \<Rightarrow> unit result \<times> 'm shared" where
  "detach_append x a stream event s =
     (case validate event of
        Inl e \<Rightarrow> (Inl e, s)
      | Inr _ \<Rightarrow> (Inr (), s\<lparr>isle_db := snd (isle_call a (append_stamped_now x stream event) (isle_db s))\<rparr>))"

section \<open>Reads\<close>

text \<open>\<open>conn.transaction()\<close> is \<open>DEFERRED\<close> and is dropped at the end of the read.\<close>

definition read_kinds ::
  "ext \<Rightarrow> attempt \<Rightarrow> rust_string \<Rightarrow> rust_string list option \<Rightarrow> u64 \<Rightarrow> usize \<Rightarrow> 'm shared \<Rightarrow> current list result"
  where
  "read_kinds x a stream kinds from_seq limit s =
     read_job a (transaction (jbind (select_stream x stream kinds from_seq limit) (\<lambda>stored.
       jbind (jlift (upcast_rows (upcasters s) stored)) (\<lambda>events. jreturn (Dropped events))))) s"

definition read_last :: "ext \<Rightarrow> attempt \<Rightarrow> rust_string \<Rightarrow> usize \<Rightarrow> 'm shared \<Rightarrow> current list result" where
  "read_last x a stream n s =
     read_job a (jbind
       (map_err classify (query_map
         (\<lambda>d. sql_limit (clamp_limit n) (rev (sort_key row_seq
            (filter (\<lambda>r. row_stream r = stream) (tbl_events d)))))
         (read_row x)))
       (\<lambda>rows. jlift (upcast_rows (upcasters s) (rev (map stored_event rows))))) s"

definition max_seq :: "rust_string \<Rightarrow> 'm database \<Rightarrow> i64 option" where
  "max_seq stream d =
     (case map row_seq (filter (\<lambda>r. row_stream r = stream) (tbl_events d)) of
        [] \<Rightarrow> None | seqs \<Rightarrow> Some (foldr max seqs (hd seqs)))"

definition head :: "attempt \<Rightarrow> rust_string \<Rightarrow> 'm shared \<Rightarrow> u64 option result" where
  "head a stream s =
     read_job a (map_err classify (query_row (\<lambda>d. Some (map_option as_u64 (max_seq stream d))))) s"

definition len :: "attempt \<Rightarrow> rust_string \<Rightarrow> 'm shared \<Rightarrow> usize result" where
  "len a stream s =
     read_job a (map_err classify (query_row (\<lambda>d.
       Some (as_u64 (int (length (filter (\<lambda>r. row_stream r = stream) (tbl_events d)))))))) s"

definition is_empty_store :: "attempt \<Rightarrow> rust_string \<Rightarrow> 'm shared \<Rightarrow> bool result" where
  "is_empty_store a stream s = rmap (\<lambda>h. h = None) (head a stream s)"

end
