(* ===== verification/Store_Invariant.thy ===== *)
theory Store_Invariant
  imports Sqlite_Store
begin

text \<open>
  The invariant of the event tables and what the transactions of \<open>Sqlite_Store\<close> do under it, when nothing
  fails. \<open>contents\<close> is the abstract view of a stream, the list of its stored events in order; \<open>next_of\<close> is
  the sequence number its next event gets, from the counter that outlives the rows.
\<close>

definition next_of :: "'m database \<Rightarrow> rust_string \<Rightarrow> u64" where
  "next_of d stream = (case map_of (tbl_stream_seq d) stream of Some n \<Rightarrow> as_u64 n | None \<Rightarrow> 1)"

definition stream_rows :: "'m database \<Rightarrow> rust_string \<Rightarrow> event_row list" where
  "stream_rows d stream = filter (\<lambda>r. row_stream r = stream) (tbl_events d)"

definition contents :: "ext \<Rightarrow> 'm database \<Rightarrow> rust_string \<Rightarrow> json_map list" where
  "contents x d stream = map (row_object x) (stream_rows d stream)"

definition row_ok :: "ext \<Rightarrow> 'm database \<Rightarrow> event_row \<Rightarrow> bool" where
  "row_ok x d r \<longleftrightarrow>
     1 \<le> row_position r \<and> row_position r \<le> events_auto d
     \<and> 1 \<le> row_seq r \<and> row_seq r < uint (next_of d (row_stream r)) \<and> readable x r"

definition db_ok :: "ext \<Rightarrow> 'm database \<Rightarrow> bool" where
  "db_ok x d \<longleftrightarrow>
     0 \<le> events_auto d \<and> events_auto d \<le> i64_max
     \<and> sorted_wrt (<) (map row_position (tbl_events d))
     \<and> sorted_wrt (\<lambda>r r'. row_stream r = row_stream r' \<longrightarrow> row_seq r < row_seq r') (tbl_events d)
     \<and> (\<forall>r \<in> set (tbl_events d). row_ok x d r)
     \<and> (\<forall>stream. 1 \<le> uint (next_of d stream) \<and> uint (next_of d stream) \<le> events_auto d + 1)"

lemma db_ok_empty [simp]: "db_ok x (empty_database m)"
  by (simp add: db_ok_def empty_database_def next_of_def i64_max_def)

section \<open>The counter\<close>

lemma next_of_upsert [simp]:
  "next_of (upsert_counter stream n d) s = (if s = stream then as_u64 n else next_of d s)"
  by (simp add: next_of_def upsert_counter_def map_of_update)

lemma upsert_counter_sel [simp]:
  "tbl_events (upsert_counter stream n d) = tbl_events d"
  "events_auto (upsert_counter stream n d) = events_auto d"
  "tbl_checkpoints (upsert_counter stream n d) = tbl_checkpoints d"
  "tbl_retention (upsert_counter stream n d) = tbl_retention d"
  "tbl_exports (upsert_counter stream n d) = tbl_exports d"
  "caller_tables (upsert_counter stream n d) = caller_tables d"
  by (simp_all add: upsert_counter_def)

lemma upsert_counter_twice [simp]:
  "upsert_counter s n (upsert_counter s m d) = upsert_counter s n d"
  by (simp add: upsert_counter_def)

lemma next_seq_calm [job_simps]:
  "faults c = [] \<Longrightarrow> next_seq stream c = (Inr (next_of (conn_db c) stream), c)"
  by (simp add: next_seq_def job_simps next_of_def split: option.splits)

lemma set_next_seq_calm [job_simps]:
  "faults c = [] \<Longrightarrow>
     set_next_seq stream n c = (Inr (), c\<lparr>conn_db := upsert_counter stream (as_i64 n) (conn_db c)\<rparr>)"
  by (simp add: set_next_seq_def job_simps)

lemma transparent_next_seq [transparent_intros]: "transparent surfaced (next_seq stream)"
  unfolding next_seq_def
  by (rule transparent_or_else [OF transparent_query_row])
    (auto simp: engine_fault_def surfaced_def split: rusqlite_error.splits)

lemma transparent_set_next_seq [transparent_intros]: "transparent surfaced (set_next_seq stream n)"
  unfolding set_next_seq_def by (intro transparent_intros)

section \<open>One row\<close>

text \<open>The tables with one more stamped event, and with its stream's counter moved past it.\<close>

definition push :: "ext \<Rightarrow> rust_string \<Rightarrow> json_map \<Rightarrow> 'm database \<Rightarrow> 'm database" where
  "push x stream event d =
     d\<lparr>tbl_events := tbl_events d @ [row_of x stream event (events_auto d + 1)],
       events_auto := events_auto d + 1\<rparr>"

definition appended :: "ext \<Rightarrow> rust_string \<Rightarrow> json_map \<Rightarrow> 'm database \<Rightarrow> 'm database" where
  "appended x stream event d =
     upsert_counter stream (as_i64 (u64_of FIELD_SEQ event + 1)) (push x stream event d)"

definition landed :: "json_map \<Rightarrow> i64 \<Rightarrow> committed" where
  "landed event prev =
     \<lparr> committed_seq = u64_of FIELD_SEQ event, committed_epoch_ms = u64_of FIELD_EPOCH_MS event,
       committed_position = Some (position_of_stored (prev + 1)) \<rparr>"

definition stored_form :: "ext \<Rightarrow> json_map \<Rightarrow> bool" where
  "stored_form x e \<longleftrightarrow> (\<exists>k m d s t v. e = event_object k m d s t v \<and> round_trips x m \<and> round_trips x d)"

lemma stored_formI:
  "round_trips x m \<Longrightarrow> round_trips x d \<Longrightarrow> stored_form x (event_object k m d s t v)"
  unfolding stored_form_def by blast

lemma push_sel [simp]:
  "events_auto (push x stream e d) = events_auto d + 1"
  "tbl_events (push x stream e d) = tbl_events d @ [row_of x stream e (events_auto d + 1)]"
  "tbl_stream_seq (push x stream e d) = tbl_stream_seq d"
  "tbl_checkpoints (push x stream e d) = tbl_checkpoints d"
  "tbl_retention (push x stream e d) = tbl_retention d"
  "tbl_exports (push x stream e d) = tbl_exports d"
  "caller_tables (push x stream e d) = caller_tables d"
  by (simp_all add: push_def)

lemma next_of_push [simp]: "next_of (push x stream e d) s = next_of d s"
  by (simp add: next_of_def)

lemma push_upsert: "push x stream e (upsert_counter s n d) = upsert_counter s n (push x stream e d)"
  by (simp add: push_def upsert_counter_def)

lemma appended_sel [simp]:
  "events_auto (appended x stream e d) = events_auto d + 1"
  "tbl_events (appended x stream e d) = tbl_events d @ [row_of x stream e (events_auto d + 1)]"
  "tbl_checkpoints (appended x stream e d) = tbl_checkpoints d"
  "tbl_retention (appended x stream e d) = tbl_retention d"
  "tbl_exports (appended x stream e d) = tbl_exports d"
  "caller_tables (appended x stream e d) = caller_tables d"
  by (simp_all add: appended_def)

lemma next_of_appended [simp]:
  "next_of (appended x stream e d) s = (if s = stream then u64_of FIELD_SEQ e + 1 else next_of d s)"
  by (simp add: appended_def)

definition no_clash :: "rust_string \<Rightarrow> u64 \<Rightarrow> 'm database \<Rightarrow> bool" where
  "no_clash stream seq d \<longleftrightarrow>
     (\<forall>r \<in> set (tbl_events d). row_stream r = stream \<longrightarrow> row_seq r \<noteq> as_i64 seq)"

lemma insert_stamped_calm:
  assumes "faults c = []" and "stored_form x e" and "events_auto (conn_db c) < i64_max"
    and "no_clash stream (u64_of FIELD_SEQ e) (conn_db c)"
  shows "insert_stamped x stream e c =
     (Inr (landed e (events_auto (conn_db c))), c\<lparr>conn_db := push x stream e (conn_db c)\<rparr>)"
proof -
  obtain k m d s t v where e: "e = event_object k m d s t v" and rt: "round_trips x m" "round_trips x d"
    using assms(2) by (auto simp: stored_form_def)
  have clash: "\<not> list_ex (\<lambda>r. row_stream r = stream \<and> row_seq r = as_i64 s) (tbl_events (conn_db c))"
    using assms(4) by (auto simp: no_clash_def e list_ex_iff)
  show ?thesis
    using assms(1,3) clash
    by (simp add: insert_stamped_def e job_simps json_columns_event_object [OF rt] insert_event_def
        landed_def push_def row_of_def position_of_stored_def Let_def)
qed

lemma transparent_insert_stamped [transparent_intros]: "transparent surfaced (insert_stamped x stream e)"
  unfolding insert_stamped_def by (intro transparent_intros)

lemma db_ok_auto: "db_ok x d \<Longrightarrow> 0 \<le> events_auto d \<and> events_auto d \<le> i64_max"
  by (simp add: db_ok_def)

lemma db_ok_next:
  "db_ok x d \<Longrightarrow> 1 \<le> uint (next_of d stream) \<and> uint (next_of d stream) \<le> events_auto d + 1"
  by (simp add: db_ok_def)

lemma db_ok_row: "db_ok x d \<Longrightarrow> r \<in> set (tbl_events d) \<Longrightarrow> row_ok x d r"
  by (simp add: db_ok_def)

lemma db_ok_no_clash:
  assumes "db_ok x d" and "events_auto d < i64_max"
  shows "no_clash stream (next_of d stream) d"
  using assms db_ok_next [OF assms(1), of stream] db_ok_row [OF assms(1)]
  by (force simp: no_clash_def row_ok_def as_i64_small)

lemma next_of_suc:
  assumes "db_ok x d" and "events_auto d < i64_max"
  shows "uint (next_of d stream + 1) = uint (next_of d stream) + 1"
proof -
  have "uint (next_of d stream) < 2 ^ 63"
    using db_ok_next [OF assms(1), of stream] assms(2) by (simp add: i64_max_def)
  then show ?thesis by (simp add: uint_plus_if_size word_size)
qed

lemma db_ok_appended:
  assumes ok: "db_ok x d" and room: "events_auto d < i64_max"
    and form: "stored_form x e" and seq: "u64_of FIELD_SEQ e = next_of d stream"
  shows "db_ok x (appended x stream e d)"
proof -
  let ?d = "appended x stream e d" and ?r = "row_of x stream e (events_auto d + 1)"
  note nx = db_ok_next [OF ok] and suc = next_of_suc [OF ok room, of stream]
  have seq_row: "as_i64 (next_of d stream) = uint (next_of d stream)"
    using nx [of stream] room by (simp add: as_i64_small)
  have old: "row_ok x ?d r \<and> row_position r < row_position ?r
      \<and> (row_stream r = stream \<longrightarrow> row_seq r < row_seq ?r)" if "r \<in> set (tbl_events d)" for r
    using db_ok_row [OF ok that] suc by (auto simp: row_ok_def seq seq_row)
  have new: "row_ok x ?d ?r"
    using form nx [of stream] suc seq_row db_ok_auto [OF ok] row_of_event_object(1)
    by (auto simp: row_ok_def stored_form_def seq)
  have counters: "1 \<le> uint (next_of ?d s) \<and> uint (next_of ?d s) \<le> events_auto ?d + 1" for s
    using nx [of s] nx [of stream] suc by (auto simp: seq)
  show ?thesis
    unfolding db_ok_def using ok old new counters room
    by (auto simp: db_ok_def sorted_wrt_append)
qed

lemma contents_appended:
  "contents x (appended x stream e d) s =
     contents x d s @ (if s = stream then [row_object x (row_of x stream e (events_auto d + 1))] else [])"
  by (simp add: contents_def stream_rows_def)

lemma row_object_row_of: "stored_form x e \<Longrightarrow> row_object x (row_of x stream e p) = e"
  by (auto simp: stored_form_def row_of_event_object)

lemma stored_form_stamp:
  assumes "storable x event" and "stamp event seq epoch_ms = Inr e"
  shows "stored_form x e" and "u64_of FIELD_SEQ e = seq" and "u64_of FIELD_EPOCH_MS e = epoch_ms"
  using assms stamp_eq [of event seq epoch_ms e] by (auto simp: storable_def intro: stored_formI)

lemma stored_form_restamp:
  assumes "storable x event" and "restamp event seq = Inr e"
  shows "stored_form x e" and "u64_of FIELD_SEQ e = seq"
    and "u64_of FIELD_EPOCH_MS e = u64_of FIELD_EPOCH_MS event"
  using assms restamp_eq [of event seq e] by (auto simp: storable_def intro: stored_formI)

lemma stamped_append_calm:
  assumes "faults c = []" and "db_ok x (conn_db c)" and "events_auto (conn_db c) < i64_max"
    and "storable x event" and "stamp event (next_of (conn_db c) stream) t = Inr e"
  shows "stamped_append x stream event (next_of (conn_db c) stream) t c =
     (Inr (landed e (events_auto (conn_db c))), c\<lparr>conn_db := appended x stream e (conn_db c)\<rparr>)"
  using assms stored_form_stamp [OF assms(4,5)] db_ok_no_clash [OF assms(2,3), of stream]
  by (simp add: stamped_append_def job_simps insert_stamped_calm appended_def)

lemma transparent_stamped_append [transparent_intros]:
  "transparent surfaced (stamped_append x stream event seq t)"
  unfolding stamped_append_def by (intro transparent_intros)

lemma insert_stamped_full:
  assumes "faults c = []" and "stored_form x e" and "\<not> events_auto (conn_db c) < i64_max"
  shows "insert_stamped x stream e c =
     (Inl (classify (SqliteFailure DiskFull ''database or disk is full'')), c)"
proof -
  obtain k m d s t v where e: "e = event_object k m d s t v" and rt: "round_trips x m" "round_trips x d"
    using assms(2) by (auto simp: stored_form_def)
  show ?thesis
    using assms(1,3)
    by (simp add: insert_stamped_def e job_simps json_columns_event_object [OF rt] insert_event_def)
qed

lemma surfaced_full [simp]: "surfaced (classify (SqliteFailure code msg))"
  by (auto simp: surfaced_def)

text \<open>The body of a single append, on every branch.\<close>

lemma stamped_append_cases:
  assumes calm: "faults c = []" and ok: "db_ok x (conn_db c)" and st: "storable x event"
    and d: "conn_db c = d"
  obtains e where "well_formed event" "stamp event (next_of d stream) t = Inr e"
      "events_auto d < i64_max"
      "stamped_append x stream event (next_of d stream) t c =
         (Inr (landed e (events_auto d)), c\<lparr>conn_db := appended x stream e d\<rparr>)"
  | "well_formed event" "\<not> events_auto d < i64_max"
      "stamped_append x stream event (next_of d stream) t c =
         (Inl (classify (SqliteFailure DiskFull ''database or disk is full'')), c)"
  | r where "\<not> well_formed event" "validate event = Inl (Validation (Envelope r))"
      "stamped_append x stream event (next_of d stream) t c = (Inl (Validation (Envelope r)), c)"
proof (cases rule: validate_cases [of event])
  case 1
  then obtain e where e: "stamp event (next_of d stream) t = Inr e"
    using stamp_eq st by (auto simp: storable_def)
  show ?thesis
  proof (cases "events_auto d < i64_max")
    case True
    then show ?thesis using that(1) [OF 1(2) e] stamped_append_calm [OF calm ok] st e d by auto
  next
    case False
    then show ?thesis
      using that(2) 1(2) insert_stamped_full [OF calm stored_form_stamp(1) [OF st e]] e d
      by (simp add: stamped_append_def job_simps)
  qed
next
  case (2 r)
  then have "stamp event (next_of d stream) t = Inl (Validation (Envelope r))"
    by (simp add: stamp_error)
  then show ?thesis
    using that(3) 2 by (simp add: stamped_append_def job_simps)
qed

section \<open>Runs of rows\<close>

fun landings :: "json_map list \<Rightarrow> i64 \<Rightarrow> committed list" where
  "landings [] prev = []"
| "landings (e # es) prev = landed e prev # landings es (prev + 1)"

definition appended_all :: "ext \<Rightarrow> (rust_string \<times> json_map) list \<Rightarrow> 'm database \<Rightarrow> 'm database" where
  "appended_all x ses d = fold (\<lambda>(stream, e). appended x stream e) ses d"

lemma appended_all_simps [simp]:
  "appended_all x [] d = d"
  "appended_all x ((stream, e) # ses) d = appended_all x ses (appended x stream e d)"
  by (simp_all add: appended_all_def)

lemma length_landings [simp]: "length (landings es prev) = length es"
  by (induction es prev rule: landings.induct) auto

lemma landings_nth:
  "i < length es \<Longrightarrow> landings es prev ! i = landed (es ! i) (prev + int i)"
  by (induction es arbitrary: i prev) (auto simp: nth_Cons' algebra_simps of_nat_diff)

lemma events_auto_appended_all [simp]:
  "events_auto (appended_all x ses d) = events_auto d + int (length ses)"
  by (induction ses arbitrary: d) auto

lemma other_tables_appended_all [simp]:
  "tbl_checkpoints (appended_all x ses d) = tbl_checkpoints d"
  "tbl_retention (appended_all x ses d) = tbl_retention d"
  "tbl_exports (appended_all x ses d) = tbl_exports d"
  "caller_tables (appended_all x ses d) = caller_tables d"
  by (induction ses arbitrary: d) auto

text \<open>
  A run of appends is \<open>consecutive\<close> when each event carries the sequence number its stream was at.
\<close>

fun consecutive :: "ext \<Rightarrow> (rust_string \<times> json_map) list \<Rightarrow> 'm database \<Rightarrow> bool" where
  "consecutive x [] d \<longleftrightarrow> True"
| "consecutive x ((stream, e) # ses) d \<longleftrightarrow>
     stored_form x e \<and> u64_of FIELD_SEQ e = next_of d stream \<and> consecutive x ses (appended x stream e d)"

lemma db_ok_appended_all:
  "db_ok x d \<Longrightarrow> consecutive x ses d \<Longrightarrow> events_auto d + int (length ses) \<le> i64_max \<Longrightarrow>
     db_ok x (appended_all x ses d)"
  by (induction x ses d rule: consecutive.induct) (auto simp: db_ok_appended)

lemma contents_appended_all:
  "consecutive x ses d \<Longrightarrow>
     contents x (appended_all x ses d) s = contents x d s @ map snd (filter (\<lambda>p. fst p = s) ses)"
  by (induction x ses d rule: consecutive.induct)
    (auto simp: contents_appended row_object_row_of)

lemma db_ok_cong:
  assumes "tbl_events d' = tbl_events d" "events_auto d' = events_auto d" "\<And>s. next_of d' s = next_of d s"
  shows "db_ok x d' = db_ok x d"
  using assms by (simp add: db_ok_def row_ok_def)

lemma db_ok_upsert_same: "db_ok x (upsert_counter s (as_i64 (next_of d s)) d) = db_ok x d"
  by (rule db_ok_cong) simp_all

lemma appended_upsert: "appended x s e (upsert_counter s n d) = appended x s e d"
  by (simp add: appended_def push_upsert)

end
