(* ===== verification/Stream_Theorems.thy ===== *)
theory Stream_Theorems
  imports Store_Invariant
begin

text \<open>
  What the operations of a stream handle do to the tables, on every branch and with every failure the
  connection may meet: they answer an error and leave the shared state as it was, or they do exactly
  what the abstract tables of \<open>Store_Invariant\<close> say.
\<close>

section \<open>The jobs are transparent\<close>

lemma transparent_jobs [transparent_intros]:
  "transparent surfaced (append_stamped_now x stream event)"
  "transparent surfaced (append_at_job x stream t event)"
  "transparent surfaced (append_expecting_job x stream wanted event)"
  unfolding append_stamped_now_def append_at_job_def append_expecting_job_def Let_def
  by (intro transparent_intros)+

lemma transparent_batch_step [transparent_intros]: "transparent surfaced (batch_step x stream base t p)"
  unfolding batch_step_def by (intro transparent_intros)

lemma transparent_append_many [transparent_intros]: "transparent surfaced (append_many_job x stream events)"
  unfolding append_many_job_def by (intro transparent_intros)

lemma transparent_select_stream [transparent_intros]:
  "transparent surfaced (select_stream x stream kinds from_seq limit)"
  unfolding select_stream_def by (intro transparent_intros)

lemma transparent_append_if [transparent_intros]:
  "transparent surfaced (append_if_job x chain stream kinds decide)"
  unfolding append_if_job_def by (intro transparent_intros)

section \<open>From a job to its operation\<close>

lemma settle_simps [simp]:
  "settle pos (Inl e, d) s = (Inl e, s\<lparr>isle_db := d\<rparr>)"
  "settle pos (Inr v, d) s = (Inr v, publish_committed (pos v) (s\<lparr>isle_db := d\<rparr>))"
  by (simp_all add: settle_def)

lemma write_outcome:
  assumes "transparent surfaced body"
  obtains e where "settle pos (write_retrying env (committing body) (isle_db s)) s = (Inl e, s)"
      "isle_surfaced e"
  | ts e d' where "calm_run body ts (isle_db s) = (Inl e, d')"
      "settle pos (write_retrying env (committing body) (isle_db s)) s = (Inl e, s)"
  | ts v d' where "calm_run body ts (isle_db s) = (Inr v, d')"
      "settle pos (write_retrying env (committing body) (isle_db s)) s =
         (Inr v, publish_committed (pos v) (s\<lparr>isle_db := d'\<rparr>))"
proof -
  consider e where "write_retrying env (committing body) (isle_db s) = (Inl e, isle_db s)" "isle_surfaced e"
    | ts where "write_retrying env (committing body) (isle_db s) = calm_run (committing body) ts (isle_db s)"
    using write_retrying_calm_or_fault [OF transparent_committing [OF assms] atomic_committing] by metis
  then show ?thesis
  proof cases
    case 1
    then show ?thesis using that(1) by simp
  next
    case (2 ts)
    obtain r d' where r: "calm_run body ts (isle_db s) = (r, d')" by force
    then show ?thesis
      using 2 calm_run_committing [OF assms, of ts "isle_db s"] that(2,3)
      by (cases r) auto
  qed
qed

lemma write_spec:
  assumes "transparent surfaced body"
    and "\<And>ts r d'. calm_run body ts (isle_db s) = (r, d') \<Longrightarrow> case r of Inl e \<Rightarrow> E e | Inr v \<Rightarrow> Q v d'"
    and "\<And>e. isle_surfaced e \<Longrightarrow> E e"
  shows "case settle pos (write_retrying env (committing body) (isle_db s)) s of
     (Inl e, s') \<Rightarrow> s' = s \<and> E e
   | (Inr v, s') \<Rightarrow> \<exists>d'. Q v d' \<and> s' = publish_committed (pos v) (s\<lparr>isle_db := d'\<rparr>)"
  by (rule write_outcome [OF assms(1), where s = s and env = env and pos = pos])
    (use assms(2,3) in fastforce)+

text \<open>The reading an awaited write stamps with, when the thread's clock gives \<open>ts\<close>.\<close>

definition first_reading :: "i64 list \<Rightarrow> u64" where
  "first_reading ts = (case ts of [] \<Rightarrow> 0 | t # _ \<Rightarrow> now_ms t)"

lemma read_clock_run [job_simps]:
  "read_clock c = (Inr (first_reading (clock c)), c\<lparr>clock := tl (clock c)\<rparr>)"
  by (cases "clock c"; cases c) (simp_all add: read_clock_def first_reading_def)

section \<open>A single append\<close>

text \<open>
  What a single append has done when it answered \<open>c\<close>: the event stamped with its stream's next sequence
  number is the last row, at the next position, and the counter has moved.
\<close>

definition appended_as :: "ext \<Rightarrow> rust_string \<Rightarrow> json_map \<Rightarrow> u64 \<Rightarrow> committed \<Rightarrow> 'm database \<Rightarrow> 'm database \<Rightarrow> bool"
  where
  "appended_as x stream event t c d d' \<longleftrightarrow>
     events_auto d < i64_max
     \<and> (\<exists>e. stamp event (next_of d stream) t = Inr e \<and> c = landed e (events_auto d) \<and> d' = appended x stream e d)"

lemma appended_as_facts:
  assumes "appended_as x stream event t c d d'" and "db_ok x d" and "storable x event"
  shows "db_ok x d'"
    and "committed_seq c = next_of d stream" and "committed_epoch_ms c = t"
    and "committed_position c = Some (position_of_stored (events_auto d + 1))"
    and "next_of d' stream = next_of d stream + 1"
    and "s \<noteq> stream \<Longrightarrow> contents x d' s = contents x d s \<and> next_of d' s = next_of d s"
    and "\<exists>e. stamp event (committed_seq c) (committed_epoch_ms c) = Inr e
           \<and> contents x d' stream = contents x d stream @ [e]"
  using assms stored_form_stamp [OF assms(3)]
  by (auto simp: appended_as_def landed_def db_ok_appended contents_appended row_object_row_of)

lemma calm_run_append:
  assumes "db_ok x d" and "storable x event"
    and "calm_run (jbind (next_seq stream) (\<lambda>seq. jbind read_clock (\<lambda>now. stamped_append x stream event seq now))) ts d = (r, d')"
  shows "(\<exists>e. r = Inl e \<and> (surfaced e \<or> validate event = Inl e))
     \<or> (\<exists>c. r = Inr c \<and> appended_as x stream event (first_reading ts) c d d')"
  using assms(3)
  by (rule_tac stamped_append_cases [of "\<lparr>conn_db = d, faults = [], clock = tl ts\<rparr>" x event d stream "first_reading ts"])
    (use assms(1,2) in \<open>auto simp: calm_run_def job_simps appended_as_def\<close>)

lemma calm_run_append_at:
  assumes "db_ok x d" and "storable x event"
    and "calm_run (jbind (next_seq stream) (\<lambda>seq. stamped_append x stream event seq t)) ts d = (r, d')"
  shows "(\<exists>e. r = Inl e \<and> (surfaced e \<or> validate event = Inl e))
     \<or> (\<exists>c. r = Inr c \<and> appended_as x stream event t c d d')"
  using assms(3)
  by (rule_tac stamped_append_cases [of "\<lparr>conn_db = d, faults = [], clock = ts\<rparr>" x event d stream t])
    (use assms(1,2) in \<open>auto simp: calm_run_def job_simps appended_as_def\<close>)

section \<open>The rows of a stream\<close>

lemma sorted_int_length:
  "sorted_wrt (<) (map f xs) \<Longrightarrow> \<forall>y \<in> set xs. 1 \<le> f y \<and> f y \<le> n \<Longrightarrow> 0 \<le> n \<Longrightarrow> int (length xs) \<le> n"
proof -
  assume a: "sorted_wrt (<) (map f xs)" "\<forall>y \<in> set xs. 1 \<le> f y \<and> f y \<le> n" "0 \<le> n"
  have "card (set (map f xs)) = length (map f xs)"
    by (rule distinct_card [OF sorted_wrt_less_distinct [OF a(1)]])
  then have "card (f ` set xs) = length xs" by simp
  moreover have "card (f ` set xs) \<le> card {1..n}"
    using a(2) by (intro card_mono) auto
  ultimately show ?thesis using a(3) by simp
qed

lemma length_events: "db_ok x d \<Longrightarrow> int (length (tbl_events d)) \<le> i64_max"
proof -
  assume ok: "db_ok x d"
  have "int (length (tbl_events d)) \<le> events_auto d"
  proof (rule sorted_int_length)
    show "sorted_wrt (<) (map row_position (tbl_events d))" "0 \<le> events_auto d"
      using ok by (simp_all add: db_ok_def)
    show "\<forall>r \<in> set (tbl_events d). 1 \<le> row_position r \<and> row_position r \<le> events_auto d"
      using db_ok_row [OF ok] by (simp add: row_ok_def)
  qed
  then show ?thesis using db_ok_auto [OF ok] by simp
qed

lemma nat_int_le: "int n \<le> k \<Longrightarrow> n \<le> nat k"
  by simp

lemma sql_limit_clamp:
  assumes "int (length xs) \<le> i64_max"
  shows "sql_limit (clamp_limit limit) xs = take (unat limit) xs"
proof (cases "uint limit \<le> i64_max")
  case False
  then have "int (length xs) \<le> uint limit" using assms by simp
  then have "length xs \<le> unat limit" unfolding unat_eq_nat_uint by (rule nat_int_le)
  then show ?thesis using False by (simp add: clamp_limit_def i64_try_from_def sql_limit_def)
qed (simp add: clamp_limit_def i64_try_from_def sql_limit_def)

lemma stream_rows_sorted:
  assumes "db_ok x d"
  shows "sorted_wrt (<) (map row_seq (stream_rows d stream))"
proof -
  have "sorted_wrt (\<lambda>r r'. row_stream r = row_stream r' \<longrightarrow> row_seq r < row_seq r') (stream_rows d stream)"
    using assms unfolding db_ok_def stream_rows_def by (intro sorted_wrt_filter) blast
  then show ?thesis
    unfolding sorted_wrt_map
    by (rule sorted_wrt_mono_rel [rotated]) (auto simp: stream_rows_def)
qed

lemma sort_key_stream:
  assumes "db_ok x d"
  shows "sort_key row_seq (filter P (stream_rows d stream)) = filter P (stream_rows d stream)"
  using sorted_wrt_filter_map [OF stream_rows_sorted [OF assms]]
  by (intro sort_key_id_if_sorted strict_sorted_imp_sorted)

lemma traverse_read_row:
  "(\<And>r. r \<in> set rows \<Longrightarrow> readable x r) \<Longrightarrow>
     traverse (read_row x) rows =
       Inr (map (\<lambda>r. \<lparr> stored_at = as_u64 (row_position r), stored_stream = row_stream r,
                      stored_event = JObject (row_object x r) \<rparr>) rows)"
  by (rule traverse_pure) (simp add: read_row_readable)

lemma stream_row_ok: "db_ok x d \<Longrightarrow> r \<in> set (stream_rows d stream) \<Longrightarrow> row_ok x d r"
  by (auto simp: stream_rows_def dest: db_ok_row)

lemma row_seq_small:
  assumes "db_ok x d" "row_ok x d r"
  shows "1 \<le> row_seq r \<and> row_seq r \<le> i64_max"
  using assms(2) db_ok_next [OF assms(1), of "row_stream r"] db_ok_auto [OF assms(1)]
  by (auto simp: row_ok_def)

lemma row_object_sel [simp]:
  "kind_of (row_object x r) = row_kind r"
  "u64_of FIELD_SEQ (row_object x r) = as_u64 (row_seq r)"
  by (simp_all add: row_object_def)

lemma selected_rows:
  assumes "db_ok x d" and "uint from_seq \<le> i64_max"
  shows "map (row_object x) (filter (\<lambda>r. row_seq r \<ge> as_i64 from_seq \<and> kind_in kinds (row_kind r))
      (stream_rows d stream)) = selected kinds from_seq (contents x d stream)"
proof -
  have "as_i64 from_seq \<le> row_seq r \<longleftrightarrow> from_seq \<le> as_u64 (row_seq r)"
    if "r \<in> set (stream_rows d stream)" for r
    using row_seq_small [OF assms(1) stream_row_ok [OF assms(1) that]] assms(2)
    by (simp add: word_le_def uint_as_u64 as_i64_small)
  then show ?thesis
    by (auto simp: selected_def contents_def filter_map o_def intro!: arg_cong [where f = "map _"] filter_cong)
qed

lemma select_stream_calm:
  assumes "faults c = []" and ok: "db_ok x (conn_db c)" and "uint from_seq \<le> i64_max"
  shows "select_stream x stream kinds from_seq limit c =
     (Inr (map JObject (take (unat limit) (selected kinds from_seq (contents x (conn_db c) stream)))), c)"
proof -
  let ?d = "conn_db c"
  let ?P = "\<lambda>r. row_seq r \<ge> as_i64 from_seq \<and> kind_in kinds (row_kind r)"
  let ?rows = "filter ?P (stream_rows ?d stream)"
  have split: "filter (\<lambda>r. row_stream r = stream \<and> row_seq r \<ge> as_i64 from_seq \<and> kind_in kinds (row_kind r))
      (tbl_events ?d) = ?rows"
    by (simp add: stream_rows_def conj_commute)
  have sorted: "sort_key row_seq ?rows = ?rows"
    by (rule sort_key_stream [OF ok])
  have "int (length ?rows) \<le> i64_max"
    using length_events [OF ok] by (simp add: stream_rows_def) (metis (no_types, lifting) filter_filter
        length_filter_le of_nat_le_iff order_trans)
  then have limit: "sql_limit (clamp_limit limit) ?rows = take (unat limit) ?rows"
    by (rule sql_limit_clamp)
  have "readable x r" if "r \<in> set (take (unat limit) ?rows)" for r
    using stream_row_ok [OF ok, of r stream] in_set_takeD [OF that] by (auto simp: row_ok_def)
  then have read: "traverse (read_row x) (take (unat limit) ?rows) =
      Inr (map (\<lambda>r. \<lparr> stored_at = as_u64 (row_position r), stored_stream = row_stream r,
                     stored_event = JObject (row_object x r) \<rparr>) (take (unat limit) ?rows))"
    by (rule traverse_read_row)
  have "map stored_event (map (\<lambda>r. \<lparr> stored_at = as_u64 (row_position r), stored_stream = row_stream r,
                     stored_event = JObject (row_object x r) \<rparr>) (take (unat limit) ?rows))
      = map JObject (take (unat limit) (selected kinds from_seq (contents x ?d stream)))"
    by (simp add: take_map o_def flip: selected_rows [OF ok assms(3)])
  moreover have "selected (Some []) from_seq es = []" for es
    by (simp add: selected_def kind_in_def)
  ultimately show ?thesis
    using assms(1) unfolding select_stream_def split
    by (simp add: job_simps split sorted limit read)
qed

section \<open>A batch\<close>

text \<open>
  The rows of a batch go in one after the other while the counter still stands where it was; setting it
  at the end gives the tables that appending the events one by one would have given.
\<close>

definition stamps :: "json_map list \<Rightarrow> u64 \<Rightarrow> u64 \<Rightarrow> json_map list \<Rightarrow> bool" where
  "stamps events base t es \<longleftrightarrow>
     length es = length events
     \<and> (\<forall>i < length events. stamp (events ! i) (base + usize_of i) t = Inr (es ! i))"

lemma usize_of_Suc: "usize_of (Suc n) = usize_of n + 1"
  by (simp add: usize_of_def)

lemma usize_of_0 [simp]: "usize_of 0 = 0"
  by (simp add: usize_of_def)

lemma stamps_Cons:
  "stamps (event # events) base t es \<longleftrightarrow>
     (\<exists>e es'. es = e # es' \<and> stamp event base t = Inr e \<and> stamps events (base + 1) t es')"
  by (cases es) (auto simp: stamps_def All_less_Suc2 usize_of_Suc algebra_simps)

lemma stamps_Nil [simp]: "stamps [] base t es \<longleftrightarrow> es = []"
  by (auto simp: stamps_def)

definition in_stream :: "rust_string \<Rightarrow> json_map list \<Rightarrow> (rust_string \<times> json_map) list" where
  "in_stream stream es = map (Pair stream) es"

lemma in_stream_simps [simp]:
  "in_stream stream [] = []" "in_stream stream (e # es) = (stream, e) # in_stream stream es"
  "length (in_stream stream es) = length es" "map snd (in_stream stream es) = es"
  by (simp_all add: in_stream_def o_def)

text \<open>One row of a run, inserted while the counter waits: the counter set past it gives the append.\<close>

lemma insert_pending:
  assumes calm: "faults c = []" and form: "stored_form x e" and seq: "u64_of FIELD_SEQ e = q"
    and ok: "db_ok x (upsert_counter stream (as_i64 q) (conn_db c))" and room: "events_auto (conn_db c) < i64_max"
  shows "insert_stamped x stream e c =
       (Inr (landed e (events_auto (conn_db c))), c\<lparr>conn_db := push x stream e (conn_db c)\<rparr>)"
    and "upsert_counter stream (as_i64 (q + 1)) (push x stream e (conn_db c))
       = appended x stream e (upsert_counter stream (as_i64 q) (conn_db c))"
    and "db_ok x (appended x stream e (upsert_counter stream (as_i64 q) (conn_db c)))"
proof -
  have "no_clash stream (u64_of FIELD_SEQ e) (conn_db c)"
    using db_ok_no_clash [OF ok, of stream] room seq by (simp add: no_clash_def)
  then show "insert_stamped x stream e c =
       (Inr (landed e (events_auto (conn_db c))), c\<lparr>conn_db := push x stream e (conn_db c)\<rparr>)"
    by (rule insert_stamped_calm [OF calm form room])
  show "upsert_counter stream (as_i64 (q + 1)) (push x stream e (conn_db c))
       = appended x stream e (upsert_counter stream (as_i64 q) (conn_db c))"
    by (simp add: appended_def push_upsert seq)
  show "db_ok x (appended x stream e (upsert_counter stream (as_i64 q) (conn_db c)))"
    using ok form room seq by (intro db_ok_appended) simp_all
qed

lemma insert_run:
  fixes c :: "'m conn"
  assumes "faults c = []" and "\<forall>event \<in> set events. storable x event \<and> validate event = Inr ()"
    and "db_ok x (upsert_counter stream (as_i64 (base + usize_of k)) (conn_db c))"
  shows "if events_auto (conn_db c) + int (length events) \<le> i64_max
     then \<exists>es d'. stamps events (base + usize_of k) t es
        \<and> jtraverse (batch_step x stream base t) (List.enumerate k events) c = (Inr (landings es (events_auto (conn_db c))), c\<lparr>conn_db := d'\<rparr>)
        \<and> consecutive x (in_stream stream es) (upsert_counter stream (as_i64 (base + usize_of k)) (conn_db c))
        \<and> upsert_counter stream (as_i64 (base + usize_of (k + length events))) d'
          = appended_all x (in_stream stream es) (upsert_counter stream (as_i64 (base + usize_of k)) (conn_db c))
     else \<exists>e c'. jtraverse (batch_step x stream base t) (List.enumerate k events) c = (Inl e, c' :: 'm conn) \<and> surfaced e"
  using assms
proof (induction events arbitrary: k c)
  case Nil
  then have "events_auto (conn_db c) \<le> i64_max" using db_ok_auto [OF Nil(3)] by simp
  then show ?case
    by (auto simp: job_simps intro!: exI [of _ "conn_db c"])
next
  case (Cons event events)
  let ?q = "base + usize_of k"
  let ?D = "upsert_counter stream (as_i64 ?q) (conn_db c)"
  have st: "storable x event" using Cons.prems(2) by simp
  obtain e where e: "stamp event ?q t = Inr e"
    using Cons.prems(2) stamp_eq [of event ?q t] by (force simp: validate_iff storable_def)
  note form = stored_form_stamp [OF st e]
  have head: "batch_step x stream base t (k, event) c = insert_stamped x stream e c"
    by (simp add: batch_step_def job_simps e)
  show ?case
  proof (cases "events_auto (conn_db c) < i64_max")
    case False
    then show ?thesis
      using insert_stamped_full [OF Cons.prems(1) form(1) False] by (simp add: job_simps head)
  next
    case True
    note one = insert_pending [OF Cons.prems(1) form(1,2) Cons.prems(3) True]
    let ?c = "c\<lparr>conn_db := push x stream e (conn_db c)\<rparr>"
    have q: "base + usize_of (Suc k) = ?q + 1" by (simp add: usize_of_Suc)
    have calm: "faults ?c = []" and rest: "\<forall>event \<in> set events. storable x event \<and> validate event = Inr ()"
      using Cons.prems(1,2) by simp_all
    have ok': "db_ok x (upsert_counter stream (as_i64 (base + usize_of (Suc k))) (conn_db ?c))"
      unfolding q using one(2,3) by simp
    have step: "upsert_counter stream (as_i64 (base + usize_of (Suc k))) (conn_db ?c) = appended x stream e ?D"
      unfolding q using one(2) by simp
    have "consecutive x (in_stream stream (e # es)) ?D = consecutive x (in_stream stream es) (appended x stream e ?D)"
      "stamps events (base + usize_of (Suc k)) t es \<Longrightarrow> stamps (event # events) ?q t (e # es)" for es
      using form e by (simp_all add: stamps_Cons q)
    with Cons.IH [OF calm rest ok', unfolded step] show ?thesis
      by (fastforce simp: job_simps head one(1) algebra_simps split: if_splits)
  qed
qed

text \<open>
  What a batch has done when it answered \<open>cs\<close>: every event stamped, in order and at one time, each with
  the sequence number after the one before it and at the position after the one before it.
\<close>

definition batch_as ::
  "ext \<Rightarrow> rust_string \<Rightarrow> json_map list \<Rightarrow> u64 \<Rightarrow> committed list \<Rightarrow> 'm database \<Rightarrow> 'm database \<Rightarrow> bool" where
  "batch_as x stream events t cs d d' \<longleftrightarrow>
     events_auto d + int (length events) \<le> i64_max
     \<and> (\<exists>es. stamps events (next_of d stream) t es \<and> cs = landings es (events_auto d)
          \<and> consecutive x (in_stream stream es) d \<and> d' = appended_all x (in_stream stream es) d)"

lemma appended_all_upsert:
  "es \<noteq> [] \<Longrightarrow> appended_all x (in_stream stream es) (upsert_counter stream n d) = appended_all x (in_stream stream es) d"
  by (cases es) (simp_all add: appended_upsert)

lemma consecutive_upsert:
  "es \<noteq> [] \<Longrightarrow> consecutive x (in_stream stream es) (upsert_counter stream (as_i64 (next_of d stream)) d)
     \<longleftrightarrow> consecutive x (in_stream stream es) d"
  by (cases es) (simp_all add: appended_upsert)

lemma calm_run_append_many:
  assumes ok: "db_ok x d" and ev: "\<forall>event \<in> set events. storable x event \<and> validate event = Inr ()"
    and ne: "events \<noteq> []"
  shows "if events_auto d + int (length events) \<le> i64_max
     then \<exists>cs d'. calm_run (jbind (next_seq stream) (\<lambda>base_seq.
       jbind read_clock (\<lambda>epoch_ms.
       jbind (jtraverse (batch_step x stream base_seq epoch_ms) (List.enumerate 0 events)) (\<lambda>out.
       jbind (set_next_seq stream (base_seq + usize_of (length out))) (\<lambda>_. jreturn out))))) ts d = (Inr cs, d')
       \<and> batch_as x stream events (first_reading ts) cs d d'
     else \<exists>e d'. calm_run (jbind (next_seq stream) (\<lambda>base_seq.
       jbind read_clock (\<lambda>epoch_ms.
       jbind (jtraverse (batch_step x stream base_seq epoch_ms) (List.enumerate 0 events)) (\<lambda>out.
       jbind (set_next_seq stream (base_seq + usize_of (length out))) (\<lambda>_. jreturn out))))) ts d = (Inl e, d')
       \<and> surfaced e"
proof -
  let ?c = "\<lparr>conn_db = d, faults = [], clock = tl ts\<rparr>"
  have ok': "db_ok x (upsert_counter stream (as_i64 (next_of d stream + usize_of 0)) (conn_db ?c))"
    using ok by (simp add: db_ok_upsert_same)
  note run = insert_run [OF _ ev ok', of "first_reading ts"]
  have len: "stamps events b t es \<Longrightarrow> length es = length events" for b t es
    by (simp add: stamps_def)
  have ne': "stamps events b t es \<Longrightarrow> es \<noteq> []" for b t es
    using ne by (auto simp: stamps_def)
  show ?thesis
    using run by (auto simp: calm_run_def job_simps batch_as_def len appended_all_upsert [OF ne']
        consecutive_upsert [OF ne'] split: if_splits)
qed

lemma batch_as_facts:
  assumes "batch_as x stream events t cs d d'" and "db_ok x d"
  shows "db_ok x d'" and "length cs = length events"
  using assms db_ok_appended_all [OF assms(2)] by (auto simp: batch_as_def stamps_def)

lemma validate_all_iff: "validate_all events = Inr () \<longleftrightarrow> (\<forall>event \<in> set events. validate event = Inr ())"
  by (induction events) (auto simp: result_simps)

lemma validate_all_Inl: "validate_all events = Inl e \<Longrightarrow> \<exists>event \<in> set events. validate event = Inl e"
  by (induction events) (auto simp: result_simps)

section \<open>The writes of a stream handle\<close>

text \<open>
  The answer of a write that changed nothing: the gate's refusal, or a failure below the program.
\<close>

definition nothing_done :: "json_map \<Rightarrow> error \<Rightarrow> bool" where
  "nothing_done event e \<longleftrightarrow> validate event = Inl e \<or> isle_surfaced e"

lemma append_outcome:
  assumes "db_ok x (isle_db s)" and "storable x event"
  shows "case append_store x env stream event s of
     (Inl e, s') \<Rightarrow> s' = s \<and> nothing_done event e
   | (Inr c, s') \<Rightarrow> \<exists>t d'. appended_as x stream event t c (isle_db s) d' \<and> db_ok x d'
       \<and> s' = publish_committed (committed_position c) (s\<lparr>isle_db := d'\<rparr>)"
proof (cases "validate event")
  case (Inr u)
  have "case settle committed_position (write_retrying env (append_stamped_now x stream event) (isle_db s)) s of
     (Inl e, s') \<Rightarrow> s' = s \<and> nothing_done event e
   | (Inr c, s') \<Rightarrow> \<exists>d'. (\<exists>t. appended_as x stream event t c (isle_db s) d' \<and> db_ok x d')
       \<and> s' = publish_committed (committed_position c) (s\<lparr>isle_db := d'\<rparr>)"
    unfolding append_stamped_now_def
  proof (rule write_spec)
    fix ts r d'
    assume "calm_run (jbind (next_seq stream) (\<lambda>seq. jbind read_clock (stamped_append x stream event seq)))
      ts (isle_db s) = (r, d')"
    from calm_run_append [OF assms this]
    show "case r of Inl e \<Rightarrow> nothing_done event e
      | Inr c \<Rightarrow> \<exists>t. appended_as x stream event t c (isle_db s) d' \<and> db_ok x d'"
      using appended_as_facts(1) [OF _ assms] by (auto simp: nothing_done_def)
  qed (intro transparent_intros, simp add: nothing_done_def)
  then show ?thesis
    by (auto simp: append_store_def Inr split: prod.splits sum.splits)
qed (simp add: append_store_def nothing_done_def)

text \<open>And it does land when nothing fails and there is a position left.\<close>

lemma append_job_calm:
  assumes "db_ok x d" and "storable x event" and "well_formed event" and "events_auto d < i64_max"
  shows "\<exists>e. stamp event (next_of d stream) (now_ms t) = Inr e
     \<and> calm_run (append_stamped_now x stream event) [t] d = (Inr (landed e (events_auto d)), appended x stream e d)"
proof -
  let ?c = "\<lparr>conn_db = d, faults = [], clock = []\<rparr>"
  let ?body = "jbind (next_seq stream) (\<lambda>seq. jbind read_clock (\<lambda>now. stamped_append x stream event seq now))"
  obtain e where e: "stamp event (next_of d stream) (now_ms t) = Inr e"
    "stamped_append x stream event (next_of d stream) (now_ms t) ?c =
         (Inr (landed e (events_auto d)), ?c\<lparr>conn_db := appended x stream e d\<rparr>)"
    using stamped_append_cases [of ?c x event d stream "now_ms t"] assms by auto
  have "calm_run ?body [t] d = (Inr (landed e (events_auto d)), appended x stream e d)"
    using e(2) by (simp add: calm_run_def job_simps first_reading_def)
  then have "calm_run (append_stamped_now x stream event) [t] d = (Inr (landed e (events_auto d)), appended x stream e d)"
    unfolding append_stamped_now_def
    by (subst calm_run_committing) (intro transparent_intros, simp)
  then show ?thesis using e(1) by blast
qed

lemma append_calm:
  assumes "db_ok x (isle_db s)" and "storable x event" and "well_formed event"
    and "events_auto (isle_db s) < i64_max"
  shows "\<exists>c d'. append_store x (\<lambda>_. calm_at t) stream event s =
       (Inr c, publish_committed (committed_position c) (s\<lparr>isle_db := d'\<rparr>))
     \<and> appended_as x stream event (now_ms t) c (isle_db s) d'"
proof -
  obtain e where e: "stamp event (next_of (isle_db s) stream) (now_ms t) = Inr e"
    and run: "calm_run (append_stamped_now x stream event) [t] (isle_db s) =
      (Inr (landed e (events_auto (isle_db s))), appended x stream e (isle_db s))"
    using append_job_calm [OF assms] by blast
  from run have "write_retrying (\<lambda>_. calm_at t) (append_stamped_now x stream event) (isle_db s) =
      (Inr (landed e (events_auto (isle_db s))), appended x stream e (isle_db s))"
    by (rule write_retrying_calm) simp
  moreover have "validate event = Inr ()" using assms(3) by (simp add: validate_iff)
  ultimately show ?thesis
    using e assms(4) by (auto simp: append_store_def appended_as_def)
qed

text \<open>The append of the examples: one more event of the sample stream.\<close>

lemma sample_append:
  fixes s :: "'m shared"
  assumes "db_ok toy_ext (isle_db s)" and "events_auto (isle_db s) < i64_max"
  obtains c e s' where
    "append_store toy_ext (\<lambda>_. calm_at 9) ''s'' (sample_event ''paid'') s = (Inr c, s')"
    "isle_db s' = appended toy_ext ''s'' e (isle_db s)" "db_ok toy_ext (isle_db s')" "upcasters s' = upcasters s"
    "committed_position c = Some (position_of_stored (events_auto (isle_db s) + 1))"
proof -
  obtain c d' where run: "append_store toy_ext (\<lambda>_. calm_at 9) ''s'' (sample_event ''paid'') s =
      (Inr c, publish_committed (committed_position c) (s\<lparr>isle_db := d'\<rparr>))"
    and as: "appended_as toy_ext ''s'' (sample_event ''paid'') (now_ms 9) c (isle_db s) d'"
    using append_calm [OF assms(1) sample_event_ok(1) sample_event_ok(4) [of "CHR ''p''" "''aid''"] assms(2),
        where t = 9 and stream = "''s''"] by blast
  obtain e where "d' = appended toy_ext ''s'' e (isle_db s)" using as by (auto simp: appended_as_def)
  then show ?thesis
    using that [OF run, of e] appended_as_facts(1,4) [OF as assms(1) sample_event_ok(1)] by simp
qed

text \<open>
  C1. An append either lands whole or leaves no trace. Whatever SQLite and the connection thread do,
  an error leaves the shared state exactly as it was, the sequence number unconsumed and nobody woken,
  and it is the envelope's refusal or a failure from below. An answer \<open>c\<close> means that the tables are the
  old ones with one row more, the event stamped with the stream's next sequence number at the next
  position, the counter moved past it, and that position published.
\<close>

theorem append_all_or_nothing:
  assumes "db_ok x (isle_db s)" and "storable x event"
  shows "case append_store x env stream event s of
     (Inl e, s') \<Rightarrow> s' = s \<and> nothing_done event e
   | (Inr c, s') \<Rightarrow> \<exists>t d'. appended_as x stream event t c (isle_db s) d' \<and> db_ok x d'
       \<and> s' = publish_committed (committed_position c) (s\<lparr>isle_db := d'\<rparr>)"
  by (rule append_outcome [OF assms])

theorem append_all_or_nothing_witness:
  "case append_store toy_ext (\<lambda>_. calm_at 9) ''s'' (sample_event ''paid'') (sample_log (empty_database ())) of
     (Inl e, s') \<Rightarrow> isle_db s' = empty_database ()
   | (Inr c, s') \<Rightarrow> committed_seq c = 1"
proof -
  have ok: "db_ok toy_ext (isle_db (sample_log (empty_database ())))" by simp
  note st = sample_event_ok(1) [of "''paid''"]
  show ?thesis
    using append_all_or_nothing [OF ok st, where env = "\<lambda>_. calm_at 9" and stream = "''s''"]
      appended_as_facts(2) [OF _ ok st, of "''s''"]
    by (auto simp: next_of_def empty_database_def split: prod.splits sum.splits)
qed

definition recorded_head :: "'m database \<Rightarrow> rust_string \<Rightarrow> expected" where
  "recorded_head d stream = (if next_of d stream = 1 then Unwritten else Seq (next_of d stream - 1))"

lemma append_expecting_outcome:
  assumes "db_ok x (isle_db s)" and "storable x event"
  shows "case append_expecting x env stream wanted event s of
     (Inl e, s') \<Rightarrow> s' = s
       \<and> (if is_refusal e then e = HeadMismatch wanted (recorded_head (isle_db s) stream)
              \<and> wanted \<noteq> recorded_head (isle_db s) stream
          else nothing_done event e)
   | (Inr c, s') \<Rightarrow> wanted = recorded_head (isle_db s) stream
       \<and> (\<exists>t d'. appended_as x stream event t c (isle_db s) d' \<and> db_ok x d'
            \<and> s' = publish_committed (committed_position c) (s\<lparr>isle_db := d'\<rparr>))"
proof (cases "validate event")
  case (Inl e)
  then show ?thesis
    using validate_error [OF Inl] by (auto simp: append_expecting_def nothing_done_def)
next
  case (Inr u)
  let ?E = "\<lambda>e. if is_refusal e then e = HeadMismatch wanted (recorded_head (isle_db s) stream)
              \<and> wanted \<noteq> recorded_head (isle_db s) stream else nothing_done event e"
  have "case settle committed_position (write_retrying env (append_expecting_job x stream wanted event) (isle_db s)) s of
     (Inl e, s') \<Rightarrow> s' = s \<and> ?E e
   | (Inr c, s') \<Rightarrow> \<exists>d'. (wanted = recorded_head (isle_db s) stream
         \<and> (\<exists>t. appended_as x stream event t c (isle_db s) d' \<and> db_ok x d'))
       \<and> s' = publish_committed (committed_position c) (s\<lparr>isle_db := d'\<rparr>)"
    unfolding append_expecting_job_def Let_def
  proof (rule write_spec)
    fix ts r d'
    assume run: "calm_run (jbind (next_seq stream) (\<lambda>next.
       if (if next = 1 then Unwritten else Seq (next - 1)) \<noteq> wanted
       then jlift (Inl (HeadMismatch wanted (if next = 1 then Unwritten else Seq (next - 1))))
       else jbind read_clock (stamped_append x stream event next))) ts (isle_db s) = (r, d')"
    show "case r of Inl e \<Rightarrow> ?E e
      | Inr c \<Rightarrow> wanted = recorded_head (isle_db s) stream
          \<and> (\<exists>t. appended_as x stream event t c (isle_db s) d' \<and> db_ok x d')"
    proof (cases "wanted = recorded_head (isle_db s) stream")
      case True
      then have "calm_run (jbind (next_seq stream) (\<lambda>seq. jbind read_clock (stamped_append x stream event seq)))
          ts (isle_db s) = (r, d')"
        using run by (simp add: calm_run_def job_simps recorded_head_def)
      from calm_run_append [OF assms this] show ?thesis
        using appended_as_facts(1) [OF _ assms] True Inr
        by (auto simp: nothing_done_def isle_surfaced_not_refusal)
    next
      case False
      then show ?thesis
        using run by (auto simp: calm_run_def job_simps recorded_head_def split: if_splits)
    qed
  qed (intro transparent_intros, simp add: nothing_done_def isle_surfaced_not_refusal)
  then show ?thesis
    by (auto simp: append_expecting_def Inr split: prod.splits sum.splits)
qed

text \<open>
  C13. A conditional append compares the head the caller names with the stream's counter, inside the
  write. It is refused with \<open>HeadMismatch\<close> only where the two differ, reporting the recorded head, and it
  lands only where they agree; a refused one leaves the shared state as it was. A head mismatch is never
  made of a failure from below.
\<close>

theorem append_expecting_compares_the_counter:
  assumes "db_ok x (isle_db s)" and "storable x event"
  shows "case append_expecting x env stream wanted event s of
     (Inl e, s') \<Rightarrow> s' = s
       \<and> (if is_refusal e then e = HeadMismatch wanted (recorded_head (isle_db s) stream)
              \<and> wanted \<noteq> recorded_head (isle_db s) stream
          else nothing_done event e)
   | (Inr c, s') \<Rightarrow> wanted = recorded_head (isle_db s) stream
       \<and> (\<exists>t d'. appended_as x stream event t c (isle_db s) d' \<and> db_ok x d'
            \<and> s' = publish_committed (committed_position c) (s\<lparr>isle_db := d'\<rparr>))"
  by (rule append_expecting_outcome [OF assms])

theorem append_expecting_compares_the_counter_witness:
  "case append_expecting toy_ext (\<lambda>_. calm_at 9) ''s'' (Seq 4) (sample_event ''paid'')
       (sample_log (empty_database ())) of
     (Inl e, s') \<Rightarrow> s' = sample_log (empty_database ())
   | (Inr c, s') \<Rightarrow> False"
proof -
  have ok: "db_ok toy_ext (isle_db (sample_log (empty_database ())))" by simp
  have "recorded_head (empty_database ()) ''s'' = Unwritten"
    by (simp add: recorded_head_def next_of_def empty_database_def)
  then show ?thesis
    using append_expecting_compares_the_counter [OF ok sample_event_ok(1) [of "''paid''"],
        where env = "\<lambda>_. calm_at 9" and stream = "''s''" and wanted = "Seq 4"]
    by (auto split: prod.splits sum.splits)
qed

lemma append_many_outcome:
  assumes "db_ok x (isle_db s)" and "\<And>event. event \<in> set events \<Longrightarrow> storable x event"
  shows "case append_many x env stream events s of
     (Inl e, s') \<Rightarrow> s' = s \<and> (isle_surfaced e \<or> (\<exists>event \<in> set events. validate event = Inl e))
   | (Inr cs, s') \<Rightarrow> length cs = length events
       \<and> (if events = [] then s' = s
          else \<exists>t d'. batch_as x stream events t cs (isle_db s) d' \<and> db_ok x d'
            \<and> s' = publish_committed (last_position cs) (s\<lparr>isle_db := d'\<rparr>))"
proof (cases "validate_all events")
  case (Inl e)
  then show ?thesis using validate_all_Inl [OF Inl] by (auto simp: append_many_def)
next
  case (Inr u)
  then have ev: "\<forall>event \<in> set events. storable x event \<and> validate event = Inr ()"
    using assms(2) validate_all_iff [of events] by simp
  show ?thesis
  proof (cases "events = []")
    case True
    then show ?thesis by (simp add: append_many_def)
  next
    case False
    have "case settle last_position (write_retrying env (append_many_job x stream events) (isle_db s)) s of
       (Inl e, s') \<Rightarrow> s' = s \<and> isle_surfaced e
     | (Inr cs, s') \<Rightarrow> \<exists>d'. (\<exists>t. batch_as x stream events t cs (isle_db s) d' \<and> db_ok x d'
           \<and> length cs = length events)
         \<and> s' = publish_committed (last_position cs) (s\<lparr>isle_db := d'\<rparr>)"
      unfolding append_many_job_def
    proof (rule write_spec)
      fix ts r d'
      assume run: "calm_run (jbind (next_seq stream) (\<lambda>base_seq. jbind read_clock (\<lambda>epoch_ms.
        jbind (jtraverse (batch_step x stream base_seq epoch_ms) (List.enumerate 0 events)) (\<lambda>out.
        jbind (set_next_seq stream (base_seq + usize_of (length out))) (\<lambda>_. jreturn out)))))
        ts (isle_db s) = (r, d')"
      show "case r of Inl e \<Rightarrow> isle_surfaced e
        | Inr cs \<Rightarrow> \<exists>t. batch_as x stream events t cs (isle_db s) d' \<and> db_ok x d' \<and> length cs = length events"
        using calm_run_append_many [OF assms(1) ev False, of stream ts] run
        using batch_as_facts [OF _ assms(1)] by (auto split: if_splits)
    qed (intro transparent_intros, simp)
    then show ?thesis
      by (auto simp: append_many_def Inr False split: prod.splits sum.splits)
  qed
qed

text \<open>
  C11. A batch is one write: all its events or none. An error leaves the shared state as it was. An
  answer gives one coordinate for each event, in order, and the tables are those that appending the
  stamped events one after the other gives: consecutive sequence numbers from the counter, consecutive
  positions, one time for all of them; the last position is published. An empty batch does nothing.
\<close>

theorem append_many_all_or_nothing:
  assumes "db_ok x (isle_db s)" and "\<And>event. event \<in> set events \<Longrightarrow> storable x event"
  shows "case append_many x env stream events s of
     (Inl e, s') \<Rightarrow> s' = s \<and> (isle_surfaced e \<or> (\<exists>event \<in> set events. validate event = Inl e))
   | (Inr cs, s') \<Rightarrow> length cs = length events
       \<and> (if events = [] then s' = s
          else \<exists>t d'. batch_as x stream events t cs (isle_db s) d' \<and> db_ok x d'
            \<and> s' = publish_committed (last_position cs) (s\<lparr>isle_db := d'\<rparr>))"
  by (rule append_many_outcome [OF assms])

theorem append_many_all_or_nothing_witness:
  "case append_many toy_ext (\<lambda>_. calm_at 9) ''s'' [sample_event ''a'', sample_event ''b'']
       (sample_log (empty_database ())) of
     (Inl e, s') \<Rightarrow> s' = sample_log (empty_database ())
   | (Inr cs, s') \<Rightarrow> length cs = 2"
proof -
  have ok: "db_ok toy_ext (isle_db (sample_log (empty_database ())))" by simp
  have "event \<in> set [sample_event ''a'', sample_event ''b''] \<Longrightarrow> storable toy_ext event" for event
    by auto
  note append_many_all_or_nothing [where events = "[sample_event ''a'', sample_event ''b'']", OF ok this,
      where env = "\<lambda>_. calm_at 9" and stream = "''s''"]
  then show ?thesis by (auto split: prod.splits sum.splits)
qed

section \<open>A decision inside the write\<close>

lemma calm_run_transaction:
  assumes "transparent surfaced body"
  shows "calm_run (transaction body) ts d =
     (case calm_run body ts d of
        (Inl e, d') \<Rightarrow> (Inl e, d)
      | (Inr (Dropped v), d') \<Rightarrow> (Inr v, d)
      | (Inr (Commit v), d') \<Rightarrow> (Inr v, d'))"
  using transparent_stays_calm [OF assms, of "\<lparr> conn_db = d, faults = [], clock = ts \<rparr>"]
  by (auto simp: calm_run_def transaction_def Let_def split: prod.splits sum.splits tx_end.splits)

definition shown :: "ext \<Rightarrow> upcast_chain \<Rightarrow> rust_string list option \<Rightarrow> 'm database \<Rightarrow> rust_string \<Rightarrow> current list result"
  where "shown x chain kinds d stream = upcast_rows chain (map JObject (selected kinds 0 (contents x d stream)))"

lemma length_contents: "db_ok x d \<Longrightarrow> length (contents x d stream) \<le> unat (- 1 :: usize)"
proof -
  assume ok: "db_ok x d"
  have "length (contents x d stream) \<le> length (tbl_events d)" by (simp add: contents_def stream_rows_def)
  also have "\<dots> \<le> 2 ^ 63 - 1"
    using length_events [OF ok] by (simp add: i64_max_def)
  finally show ?thesis by (simp add: unat_usize_max)
qed

lemma take_unlimited: "db_ok x d \<Longrightarrow> take (unat (- 1 :: usize)) (selected kinds n (contents x d stream)) =
    selected kinds n (contents x d stream)"
  using length_contents [of x d stream]
  by (intro take_all) (auto simp: selected_def intro: order_trans [OF length_filter_le])

lemma select_whole_stream:
  "faults c = [] \<Longrightarrow> db_ok x (conn_db c) \<Longrightarrow>
     select_stream x stream kinds 0 (- 1) c = (Inr (map JObject (selected kinds 0 (contents x (conn_db c) stream))), c)"
  by (subst select_stream_calm) (simp_all add: take_unlimited i64_max_def)

text \<open>The decision's job, run calmly: everything it can answer and leave.\<close>

lemma append_if_run:
  assumes "db_ok x d"
  shows "calm_run (append_if_job x chain stream kinds decide) ts d =
     (case shown x chain kinds d stream of
        Inl e \<Rightarrow> (Inl e, d)
      | Inr seen \<Rightarrow>
          (case decide seen of
             None \<Rightarrow> (Inr (length seen, None), d)
           | Some event \<Rightarrow>
               (case validate event of
                  Inl e \<Rightarrow> (Inl e, d)
                | Inr _ \<Rightarrow>
                    (case stamped_append x stream event (next_of d stream) (first_reading ts)
                            \<lparr> conn_db = d, faults = [], clock = tl ts \<rparr> of
                       (Inl e, c) \<Rightarrow> (Inl e, d)
                     | (Inr v, c) \<Rightarrow> (Inr (length seen, Some v), conn_db c)))))"
proof -
  let ?c = "\<lparr> conn_db = d, faults = [], clock = ts \<rparr>"
  have "select_stream x stream kinds 0 (- 1) ?c =
      (Inr (map JObject (selected kinds 0 (contents x d stream))), ?c)"
    using select_whole_stream [of ?c x stream kinds] assms by simp
  then show ?thesis
    unfolding append_if_job_def
    by (subst calm_run_transaction, intro transparent_intros)
      (auto simp: calm_run_def job_simps shown_def split: sum.splits option.splits prod.splits)
qed

lemma append_if_calm:
  assumes ok: "db_ok x (isle_db s)" and st: "\<forall>seen event. decide seen = Some event \<longrightarrow> storable x event"
    and room: "events_auto (isle_db s) < i64_max"
  shows "(case append_if x (calm_at t) stream kinds decide s of
       (r, s') \<Rightarrow> (rmap (map_option coordinates) r, (contents x (isle_db s') stream, next_of (isle_db s') stream))) =
     spec_append_if (upcasters s) (now_ms t) kinds decide (contents x (isle_db s) stream, next_of (isle_db s) stream)"
proof -
  let ?d = "isle_db s"
  have call: "isle_call (calm_at t) (append_if_job x (upcasters s) stream kinds decide) ?d =
      calm_run (append_if_job x (upcasters s) stream kinds decide) [t] ?d"
    by (rule isle_call_calm_at)
  have read: "spec_read (upcasters s) kinds 0 (- 1) (contents x ?d stream, next_of ?d stream) =
      shown x (upcasters s) kinds ?d stream"
    by (simp add: spec_read_def shown_def take_unlimited [OF ok])
  show ?thesis
  proof (cases "shown x (upcasters s) kinds ?d stream")
    case (Inl e)
    then show ?thesis
      by (simp add: append_if_def call append_if_run [OF ok] spec_append_if_def read)
  next
    case (Inr seen)
    show ?thesis
    proof (cases "decide seen")
      case None
      then show ?thesis
        using Inr by (simp add: append_if_def call append_if_run [OF ok] spec_append_if_def read publish_committed_def)
    next
      case (Some event)
      then have st': "storable x event" using st by blast
      let ?c = "\<lparr> conn_db = ?d, faults = [], clock = [] \<rparr>"
      show ?thesis
      proof (rule stamped_append_cases [of ?c x event ?d stream "now_ms t"])
        fix e assume e: "well_formed event" "stamp event (next_of ?d stream) (now_ms t) = Inr e"
          "events_auto ?d < i64_max" "stamped_append x stream event (next_of ?d stream) (now_ms t) ?c =
              (Inr (landed e (events_auto ?d)), ?c\<lparr>conn_db := appended x stream e ?d\<rparr>)"
        then have "contents x (appended x stream e ?d) stream = contents x ?d stream @ [e]"
          using stored_form_stamp [OF st' e(2)] by (simp add: contents_appended row_object_row_of)
        moreover have "validate event = Inr ()" using e(1) by (simp add: validate_iff)
        ultimately show ?thesis
          using stored_form_stamp(2,3) [OF st' e(2)]
          by (simp add: append_if_def call append_if_run [OF ok] spec_append_if_def read first_reading_def
              Inr Some e(2,4) spec_append_def landed_def coordinates_def)
      next
        fix q assume q: "\<not> well_formed event" "validate event = Inl (Validation (Envelope q))"
        then have "stamp event (next_of ?d stream) (now_ms t) = Inl (Validation (Envelope q))"
          by (simp add: stamp_error)
        then show ?thesis
          by (simp add: append_if_def call append_if_run [OF ok] spec_append_if_def read spec_append_def Inr Some q(2))
      qed (use ok st' room in simp_all)
    qed
  qed
qed

text \<open>What a decision that was reached does with it: nothing, an error that leaves no trace, or the append of its event.\<close>

definition decided_as ::
  "ext \<Rightarrow> rust_string \<Rightarrow> json_map option \<Rightarrow> 'm shared \<Rightarrow> committed option result \<times> 'm shared \<Rightarrow> bool" where
  "decided_as x stream choice s answer \<longleftrightarrow>
     (case answer of
        (Inl e, s') \<Rightarrow> s' = s
      | (Inr outcome, s') \<Rightarrow>
          (case choice of
             None \<Rightarrow> outcome = None \<and> s' = s
           | Some event \<Rightarrow> \<exists>c t d'. outcome = Some c \<and> appended_as x stream event t c (isle_db s) d' \<and> db_ok x d'
               \<and> s' = publish_committed (committed_position c) (s\<lparr>isle_db := d'\<rparr>)))"

lemma append_if_decided:
  assumes ok: "db_ok x (isle_db s)" and seen: "shown x (upcasters s) kinds (isle_db s) stream = Inr seen"
    and st: "\<forall>event. decide seen = Some event \<longrightarrow> storable x event"
    and calm: "isle_call a (append_if_job x (upcasters s) stream kinds decide) (isle_db s)
      = calm_run (append_if_job x (upcasters s) stream kinds decide) (readings a) (isle_db s)"
  shows "decided_as x stream (decide seen) s (append_if x a stream kinds decide s)"
proof -
  let ?d = "isle_db s"
  note run = calm [unfolded append_if_run [OF ok]]
  show ?thesis
  proof (cases "decide seen")
    case None
    then show ?thesis using seen by (simp add: append_if_def run publish_committed_def decided_as_def)
  next
    case (Some event)
    then have event: "storable x event" using st by blast
    let ?c = "\<lparr> conn_db = ?d, faults = [], clock = tl (readings a) \<rparr>"
    show ?thesis
    proof (rule stamped_append_cases [of ?c x event ?d stream "first_reading (readings a)"])
      fix e assume e: "well_formed event" "stamp event (next_of ?d stream) (first_reading (readings a)) = Inr e"
        "events_auto ?d < i64_max"
        "stamped_append x stream event (next_of ?d stream) (first_reading (readings a)) ?c =
          (Inr (landed e (events_auto ?d)), ?c\<lparr>conn_db := appended x stream e ?d\<rparr>)"
      then have as: "appended_as x stream event (first_reading (readings a)) (landed e (events_auto ?d)) ?d
          (appended x stream e ?d)"
        by (auto simp: appended_as_def)
      then show ?thesis
        using e seen Some appended_as_facts(1) [OF as ok event]
        by (auto simp: append_if_def run decided_as_def simp flip: validate_iff)
    qed (use ok event seen Some in \<open>auto simp: append_if_def run decided_as_def simp flip: validate_iff\<close>)
  qed
qed

lemma append_if_outcome:
  assumes "db_ok x (isle_db s)" and "\<forall>seen event. decide seen = Some event \<longrightarrow> storable x event"
  shows "case append_if x a stream kinds decide s of
     (Inl e, s') \<Rightarrow> s' = s
   | (Inr outcome, s') \<Rightarrow> \<exists>seen. shown x (upcasters s) kinds (isle_db s) stream = Inr seen
       \<and> (case decide seen of
            None \<Rightarrow> outcome = None \<and> s' = s
          | Some event \<Rightarrow> \<exists>c t d'. outcome = Some c \<and> appended_as x stream event t c (isle_db s) d' \<and> db_ok x d'
              \<and> s' = publish_committed (committed_position c) (s\<lparr>isle_db := d'\<rparr>))"
proof -
  let ?job = "append_if_job x (upcasters s) stream kinds decide"
  have "atomic ?job" by (simp add: append_if_job_def)
  then consider e where "isle_call a ?job (isle_db s) = (Inl e, isle_db s)"
    | "isle_call a ?job (isle_db s) = calm_run ?job (readings a) (isle_db s)"
    using isle_call_calm_or_fault [OF transparent_append_if] by metis
  then show ?thesis
  proof cases
    case 2
    show ?thesis
    proof (cases "shown x (upcasters s) kinds (isle_db s) stream")
      case (Inl e)
      then show ?thesis by (simp add: append_if_def 2 append_if_run [OF assms(1)])
    next
      case (Inr seen)
      then show ?thesis
        using append_if_decided [OF assms(1) Inr _ 2] assms(2)
        by (auto simp: decided_as_def split: prod.splits sum.splits)
    qed
  qed (simp add: append_if_def)
qed

text \<open>
  C12. A decision is taken on the stream as it is at the write. Where \<open>append_if\<close> answers, the decision
  was called with the events of the whole stream, filtered by stored kind and upcasted; deciding
  nothing leaves the shared state as it was, and a decided event is appended to exactly the tables the
  decision saw, whatever its kind. An error leaves the shared state as it was.
\<close>

theorem append_if_decides_on_what_it_writes_to:
  assumes "db_ok x (isle_db s)" and "\<forall>seen event. decide seen = Some event \<longrightarrow> storable x event"
  shows "case append_if x a stream kinds decide s of
     (Inl e, s') \<Rightarrow> s' = s
   | (Inr outcome, s') \<Rightarrow> \<exists>seen. shown x (upcasters s) kinds (isle_db s) stream = Inr seen
       \<and> (case decide seen of
            None \<Rightarrow> outcome = None \<and> s' = s
          | Some event \<Rightarrow> \<exists>c t d'. outcome = Some c \<and> appended_as x stream event t c (isle_db s) d' \<and> db_ok x d'
              \<and> s' = publish_committed (committed_position c) (s\<lparr>isle_db := d'\<rparr>))"
  by (rule append_if_outcome [OF assms])

theorem append_if_decides_on_what_it_writes_to_witness:
  "case append_if toy_ext (calm_at 9) ''s'' None (\<lambda>seen. if seen = [] then Some (sample_event ''first'') else None)
       (sample_log (empty_database ())) of
     (Inl e, s') \<Rightarrow> s' = sample_log (empty_database ())
   | (Inr outcome, s') \<Rightarrow> outcome \<noteq> None"
proof -
  let ?decide = "\<lambda>seen :: current list. if seen = [] then Some (sample_event ''first'') else None"
  have ok: "db_ok toy_ext (isle_db (sample_log (empty_database ())))" by simp
  have st: "\<forall>seen event. ?decide seen = Some event \<longrightarrow> storable toy_ext event"
    by (auto split: if_splits)
  have "shown toy_ext [] None (empty_database ()) ''s'' = Inr []"
    by (simp add: shown_def contents_def stream_rows_def empty_database_def selected_def upcast_rows_def)
  then show ?thesis
    using append_if_decides_on_what_it_writes_to [where decide = ?decide, OF ok st, where a = "calm_at 9" and stream = "''s''" and kinds = None]
    by (auto split: prod.splits sum.splits)
qed

section \<open>Reads\<close>

lemma read_kinds_calm_or_fault:
  "(\<exists>e. read_kinds x a stream kinds from_seq limit s = Inl e \<and> isle_surfaced e)
     \<or> read_kinds x a stream kinds from_seq limit s =
        (case calm_run (select_stream x stream kinds from_seq limit) (readings a) (isle_db s) of
           (Inl e, _) \<Rightarrow> Inl e | (Inr stored, _) \<Rightarrow> upcast_rows (upcasters s) stored)"
proof -
  let ?body = "jbind (select_stream x stream kinds from_seq limit) (\<lambda>stored.
       jbind (jlift (upcast_rows (upcasters s) stored)) (\<lambda>events. jreturn (Dropped events)))"
  have t: "transparent surfaced ?body" by (intro transparent_intros)
  have "fst (calm_run (transaction ?body) (readings a) (isle_db s)) =
      (case calm_run (select_stream x stream kinds from_seq limit) (readings a) (isle_db s) of
           (Inl e, _) \<Rightarrow> Inl e | (Inr stored, _) \<Rightarrow> upcast_rows (upcasters s) stored)"
    by (subst calm_run_transaction [OF t])
      (auto simp: calm_run_def job_simps Let_def split: prod.splits sum.splits)
  then show ?thesis
    unfolding read_kinds_def
    using read_job_calm_or_fault [OF transparent_transaction [OF t] atomic_transaction, of a s]
    by simp
qed

lemma read_kinds_calm:
  assumes "db_ok x (isle_db s)" and "uint from_seq \<le> i64_max"
  shows "read_kinds x (calm_at t) stream kinds from_seq limit s = upcast_rows (upcasters s)
     (map JObject (take (unat limit) (selected kinds from_seq (contents x (isle_db s) stream))))"
proof -
  let ?body = "jbind (select_stream x stream kinds from_seq limit) (\<lambda>stored.
       jbind (jlift (upcast_rows (upcasters s) stored)) (\<lambda>events. jreturn (Dropped events)))"
  have "transparent surfaced ?body" by (intro transparent_intros)
  from calm_run_transaction [OF this, of "[t]" "isle_db s"] show ?thesis
    using assms by (auto simp: read_kinds_def read_job_def isle_call_calm_at calm_run_def job_simps
        select_stream_calm split: sum.splits)
qed

text \<open>
  C14. A read of a stream answers what was appended to it: the events from the given sequence number on,
  of the given stored kinds, in order and at most as many as asked, each through the upcaster chain;
  or it fails from below. \<open>usize::MAX\<close> as the limit is no limit. This is for sequence numbers in SQLite's
  signed range, which every number the store hands out is in.
\<close>

theorem read_answers_what_was_appended:
  assumes "db_ok x (isle_db s)" and "uint from_seq \<le> i64_max"
  shows "case read_kinds x a stream kinds from_seq limit s of
     Inr events \<Rightarrow> Inr events = upcast_rows (upcasters s)
       (map JObject (take (unat limit) (selected kinds from_seq (contents x (isle_db s) stream))))
   | Inl e \<Rightarrow> isle_surfaced e \<or> Inl e = upcast_rows (upcasters s)
       (map JObject (take (unat limit) (selected kinds from_seq (contents x (isle_db s) stream))))"
  using read_kinds_calm_or_fault [of x a stream kinds from_seq limit s] assms
  by (auto simp: calm_run_def select_stream_calm split: sum.splits)

definition one_event_db :: "unit database" where
  "one_event_db = appended toy_ext ''s'' (event_object ''paid'' (JObject []) (JObject []) 1 9 1) (empty_database ())"

lemma one_event_db_ok [simp]: "db_ok toy_ext one_event_db"
  unfolding one_event_db_def
  by (rule db_ok_appended)
    (simp_all add: stored_formI, simp_all add: empty_database_def i64_max_def next_of_def)

lemma one_event_db_contents [simp]:
  "contents toy_ext one_event_db ''s'' = [event_object ''paid'' (JObject []) (JObject []) 1 9 1]"
proof -
  have form: "stored_form toy_ext (event_object ''paid'' (JObject []) (JObject []) 1 9 1)"
    by (rule stored_formI) simp_all
  show ?thesis
    unfolding one_event_db_def contents_appended row_object_row_of [OF form]
    by (simp add: contents_def stream_rows_def empty_database_def)
qed

theorem read_answers_what_was_appended_witness:
  "case read_kinds toy_ext (calm_at 0) ''s'' None 1 5 (sample_log one_event_db) of
     Inr events \<Rightarrow> events = [Current (event_object ''paid'' (JObject []) (JObject []) 1 9 1)]
   | Inl e \<Rightarrow> isle_surfaced e"
proof -
  have "db_ok toy_ext (isle_db (sample_log one_event_db))" "uint (1 :: u64) \<le> i64_max"
    by (simp_all add: i64_max_def)
  from read_answers_what_was_appended [OF this, where a = "calm_at 0" and stream = "''s''" and kinds = None
      and limit = 5]
  show ?thesis
    by (simp add: selected_def kind_in_def upcast_rows_def split: sum.splits)
qed

text \<open>
  The other side of that bound. A sequence number above the signed range is bound to the statement
  as the negative number with the same bits, and every row is above it: the read answers the whole
  stream, as if it had been asked from 0, where the contract selects nothing.
\<close>

theorem read_from_above_the_signed_range_reads_everything:
  assumes "db_ok x (isle_db s)" and "i64_max < uint from_seq"
  shows "selected kinds from_seq (contents x (isle_db s) stream) = []
     \<and> (case read_kinds x a stream kinds from_seq limit s of
          Inr events \<Rightarrow> Inr events = upcast_rows (upcasters s)
            (map JObject (take (unat limit) (selected kinds 0 (contents x (isle_db s) stream))))
        | Inl e \<Rightarrow> isle_surfaced e \<or> Inl e = upcast_rows (upcasters s)
            (map JObject (take (unat limit) (selected kinds 0 (contents x (isle_db s) stream)))))"
proof
  note ok = assms(1)
  show "selected kinds from_seq (contents x (isle_db s) stream) = []"
    using row_seq_small [OF ok stream_row_ok [OF ok]] assms(2)
    by (force simp: selected_def contents_def filter_empty_conv word_le_def uint_as_u64)
  have big: "as_i64 from_seq < 0" using assms(2) uint_lt_2p64 [of from_seq] by (simp add: as_i64_big)
  have "filter (\<lambda>r. row_stream r = stream \<and> row_seq r \<ge> as_i64 from_seq \<and> kind_in kinds (row_kind r)) (tbl_events (isle_db s))
      = filter (\<lambda>r. row_stream r = stream \<and> row_seq r \<ge> as_i64 0 \<and> kind_in kinds (row_kind r)) (tbl_events (isle_db s))"
    using row_seq_small [OF ok db_ok_row [OF ok]] big by (intro filter_cong) (force simp: as_i64_def)+
  then have same: "calm_run (select_stream x stream kinds from_seq limit) ts (isle_db s) =
      calm_run (select_stream x stream kinds 0 limit) ts (isle_db s)" for ts
    by (auto simp: calm_run_def select_stream_def job_simps)
  have calm: "calm_run (select_stream x stream kinds 0 limit) ts (isle_db s) =
      (Inr (map JObject (take (unat limit) (selected kinds 0 (contents x (isle_db s) stream)))), isle_db s)" for ts
    using ok by (simp add: calm_run_def select_stream_calm i64_max_def)
  show "case read_kinds x a stream kinds from_seq limit s of
          Inr events \<Rightarrow> Inr events = upcast_rows (upcasters s)
            (map JObject (take (unat limit) (selected kinds 0 (contents x (isle_db s) stream))))
        | Inl e \<Rightarrow> isle_surfaced e \<or> Inl e = upcast_rows (upcasters s)
            (map JObject (take (unat limit) (selected kinds 0 (contents x (isle_db s) stream))))"
    using read_kinds_calm_or_fault [of x a stream kinds from_seq limit s]
    by (auto simp: same calm split: sum.splits)
qed

theorem read_from_above_the_signed_range_reads_everything_witness:
  "case read_kinds toy_ext (calm_at 0) ''s'' None (2 ^ 63) 5 (sample_log one_event_db) of
     Inr events \<Rightarrow> events = [Current (event_object ''paid'' (JObject []) (JObject []) 1 9 1)]
   | Inl e \<Rightarrow> isle_surfaced e"
proof -
  have "db_ok toy_ext (isle_db (sample_log one_event_db))" "i64_max < uint (2 ^ 63 :: u64)"
    by (simp_all add: i64_max_def)
  from read_from_above_the_signed_range_reads_everything [OF this, where a = "calm_at 0"
      and stream = "''s''" and kinds = None and limit = 5]
  show ?thesis
    by (simp add: selected_def kind_in_def upcast_rows_def split: sum.splits)
qed

text \<open>The end of a stream: \<open>read_last\<close>, \<open>head\<close>, \<open>len\<close>, on calm connections.\<close>

lemma foldr_max_sorted:
  fixes xs :: "'a :: linorder list"
  assumes "sorted_wrt (<) xs" and "xs \<noteq> []"
  shows "foldr max xs (hd xs) = last xs"
  using assms
proof (induction xs rule: rev_induct)
  case (snoc y ys)
  have step: "foldr max ys (max y z) = max y z" if "\<forall>w \<in> set ys. w < y" for z
    using that by (induction ys) (auto simp: max.absorb4 simp flip: max.assoc)
  have below: "\<forall>w \<in> set ys. w < y" using snoc.prems by (simp add: sorted_wrt_append)
  then have "hd (ys @ [y]) \<le> y" by (cases ys) auto
  then show ?case using step [OF below, of y] by (simp add: max.absorb1)
qed simp

lemma max_seq_eq:
  assumes "db_ok x d"
  shows "max_seq stream d = (if stream_rows d stream = [] then None else Some (row_seq (last (stream_rows d stream))))"
proof (cases "stream_rows d stream")
  case (Cons r rs)
  have "foldr max (map row_seq (stream_rows d stream)) (hd (map row_seq (stream_rows d stream))) =
      last (map row_seq (stream_rows d stream))"
    using Cons by (intro foldr_max_sorted stream_rows_sorted [OF assms]) simp
  then show ?thesis
    using Cons by (simp add: max_seq_def last_map flip: stream_rows_def)
qed (simp add: max_seq_def flip: stream_rows_def)

lemma head_calm:
  assumes "db_ok x (isle_db s)"
  shows "head (calm_at t) stream s =
     Inr (if contents x (isle_db s) stream = [] then None
          else Some (u64_of FIELD_SEQ (last (contents x (isle_db s) stream))))"
  by (simp add: head_def read_job_def isle_call_calm_at calm_run_def job_simps max_seq_eq [OF assms]
      contents_def last_map)

lemma len_calm:
  assumes "db_ok x (isle_db s)"
  shows "len (calm_at t) stream s = Inr (word_of_nat (length (contents x (isle_db s) stream)))"
  by (simp add: len_def read_job_def isle_call_calm_at calm_run_def job_simps contents_def stream_rows_def
      as_u64_def)

lemma read_last_calm:
  assumes ok: "db_ok x (isle_db s)"
  shows "read_last x (calm_at t) stream n s =
     upcast_rows (upcasters s) (map JObject
       (drop (length (contents x (isle_db s) stream) - unat n) (contents x (isle_db s) stream)))"
proof -
  let ?rows = "stream_rows (isle_db s) stream"
  have "int (length ?rows) \<le> i64_max"
    using length_events [OF ok] by (simp add: stream_rows_def)
      (metis length_filter_le of_nat_le_iff order_trans)
  then have limit: "sql_limit (clamp_limit n) (rev ?rows) = take (unat n) (rev ?rows)"
    by (intro sql_limit_clamp) simp
  have sorted: "sort_key row_seq ?rows = ?rows"
    using sort_key_stream [OF ok, of "\<lambda>_. True" stream] by simp
  have "readable x r" if "r \<in> set (take (unat n) (rev ?rows))" for r
    using stream_row_ok [OF ok, of r stream] in_set_takeD [OF that] by (auto simp: row_ok_def)
  note read = traverse_read_row [OF this]
  have "read_last x (calm_at t) stream n s =
      upcast_rows (upcasters s) (rev (map (\<lambda>r. JObject (row_object x r)) (take (unat n) (rev ?rows))))"
    by (simp add: read_last_def read_job_def isle_call_calm_at calm_run_def job_simps sorted limit read o_def
        flip: stream_rows_def)
  also have "rev (map (\<lambda>r. JObject (row_object x r)) (take (unat n) (rev ?rows))) =
      map JObject (drop (length (contents x (isle_db s) stream) - unat n) (contents x (isle_db s) stream))"
    by (simp add: take_rev contents_def rev_map drop_map o_def)
  finally show ?thesis .
qed

section \<open>The other writes\<close>

lemma append_at_calm:
  assumes "db_ok x (isle_db s)" and "storable x event" and "well_formed event"
    and "events_auto (isle_db s) < i64_max"
  shows "\<exists>c d'. append_at x (\<lambda>_. calm_at t) stream epoch_ms event s =
       (Inr c, publish_committed (committed_position c) (s\<lparr>isle_db := d'\<rparr>))
     \<and> appended_as x stream event epoch_ms c (isle_db s) d'"
proof -
  let ?c = "\<lparr>conn_db = isle_db s, faults = [], clock = [t]\<rparr>"
  let ?body = "jbind (next_seq stream) (\<lambda>seq. stamped_append x stream event seq epoch_ms)"
  obtain e where e: "stamp event (next_of (isle_db s) stream) epoch_ms = Inr e"
    "stamped_append x stream event (next_of (isle_db s) stream) epoch_ms ?c =
         (Inr (landed e (events_auto (isle_db s))), ?c\<lparr>conn_db := appended x stream e (isle_db s)\<rparr>)"
    using stamped_append_cases [of ?c x event "isle_db s" stream epoch_ms] assms by auto
  have "calm_run ?body [t] (isle_db s) = (Inr (landed e (events_auto (isle_db s))), appended x stream e (isle_db s))"
    using e(2) by (simp add: calm_run_def job_simps)
  then have "calm_run (append_at_job x stream epoch_ms event) [t] (isle_db s) =
      (Inr (landed e (events_auto (isle_db s))), appended x stream e (isle_db s))"
    unfolding append_at_job_def
    by (subst calm_run_committing) (intro transparent_intros, simp)
  then have "write_retrying (\<lambda>_. calm_at t) (append_at_job x stream epoch_ms event) (isle_db s) =
      (Inr (landed e (events_auto (isle_db s))), appended x stream e (isle_db s))"
    by (rule write_retrying_calm) simp
  moreover have "validate event = Inr ()" using assms(3) by (simp add: validate_iff)
  ultimately show ?thesis
    using e(1) assms(4) by (auto simp: append_at_def appended_as_def)
qed

lemma append_at_outcome:
  assumes "db_ok x (isle_db s)" and "storable x event"
  shows "case append_at x env stream epoch_ms event s of
     (Inl e, s') \<Rightarrow> s' = s \<and> nothing_done event e
   | (Inr c, s') \<Rightarrow> committed_epoch_ms c = epoch_ms
       \<and> (\<exists>d'. appended_as x stream event epoch_ms c (isle_db s) d' \<and> db_ok x d'
            \<and> s' = publish_committed (committed_position c) (s\<lparr>isle_db := d'\<rparr>))"
proof (cases "validate event")
  case (Inr u)
  have "case settle committed_position (write_retrying env (append_at_job x stream epoch_ms event) (isle_db s)) s of
     (Inl e, s') \<Rightarrow> s' = s \<and> nothing_done event e
   | (Inr c, s') \<Rightarrow> \<exists>d'. (committed_epoch_ms c = epoch_ms
         \<and> appended_as x stream event epoch_ms c (isle_db s) d' \<and> db_ok x d')
       \<and> s' = publish_committed (committed_position c) (s\<lparr>isle_db := d'\<rparr>)"
    unfolding append_at_job_def
  proof (rule write_spec)
    fix ts r d'
    assume "calm_run (jbind (next_seq stream) (\<lambda>seq. stamped_append x stream event seq epoch_ms))
      ts (isle_db s) = (r, d')"
    from calm_run_append_at [OF assms this]
    show "case r of Inl e \<Rightarrow> nothing_done event e
      | Inr c \<Rightarrow> committed_epoch_ms c = epoch_ms
          \<and> appended_as x stream event epoch_ms c (isle_db s) d' \<and> db_ok x d'"
      using appended_as_facts(1,3) [OF _ assms] by (auto simp: nothing_done_def)
  qed (intro transparent_intros, simp add: nothing_done_def)
  then show ?thesis
    by (auto simp: append_at_def Inr split: prod.splits sum.splits)
qed (simp add: append_at_def nothing_done_def)

text \<open>
  Recording an event at a time of the caller's is an append in every other respect: the same gate,
  the same sequence number and position, and the time given is the one stored, whatever the clock says.
\<close>

theorem append_at_keeps_the_time:
  assumes "db_ok x (isle_db s)" and "storable x event"
  shows "case append_at x env stream epoch_ms event s of
     (Inl e, s') \<Rightarrow> s' = s \<and> nothing_done event e
   | (Inr c, s') \<Rightarrow> committed_epoch_ms c = epoch_ms
       \<and> (\<exists>d'. appended_as x stream event epoch_ms c (isle_db s) d' \<and> db_ok x d'
            \<and> s' = publish_committed (committed_position c) (s\<lparr>isle_db := d'\<rparr>))"
  by (rule append_at_outcome [OF assms])

theorem append_at_keeps_the_time_witness:
  "case append_at toy_ext (\<lambda>_. calm_at 9) ''s'' 77 (sample_event ''paid'') (sample_log (empty_database ())) of
     (Inl e, s') \<Rightarrow> s' = sample_log (empty_database ())
   | (Inr c, s') \<Rightarrow> committed_epoch_ms c = 77"
proof -
  have ok: "db_ok toy_ext (isle_db (sample_log (empty_database ())))" by simp
  show ?thesis
    using append_at_keeps_the_time [OF ok sample_event_ok(1) [of "''paid''"], where env = "\<lambda>_. calm_at 9"
        and stream = "''s''" and epoch_ms = 77]
    by (auto split: prod.splits sum.splits)
qed

text \<open>One stamped append in a job of its own: nothing, or the event whole.\<close>

lemma append_job_outcome:
  assumes "db_ok x d" and "storable x event" and "isle_call a (append_stamped_now x stream event) d = (r, d')"
  shows "d' = d \<or> (\<exists>t c. appended_as x stream event t c d d' \<and> db_ok x d')"
proof -
  let ?body = "jbind (next_seq stream) (\<lambda>seq. jbind read_clock (\<lambda>now. stamped_append x stream event seq now))"
  have t: "transparent surfaced ?body" by (intro transparent_intros)
  obtain q d1 where run: "calm_run ?body (readings a) d = (q, d1)" by force
  have "snd (isle_call a (append_stamped_now x stream event) d) \<in> {d, snd (calm_run (committing ?body) (readings a) d)}"
    using isle_call_calm_or_fault [OF transparent_committing [OF t] atomic_committing, of a d]
    by (auto simp: append_stamped_now_def)
  then have "d' \<in> {d, snd (calm_run (committing ?body) (readings a) d)}" using assms(3) by simp
  moreover have "snd (calm_run (committing ?body) (readings a) d) = d
      \<or> (\<exists>c. q = Inr c \<and> snd (calm_run (committing ?body) (readings a) d) = d1)"
    unfolding calm_run_committing [OF t] run by (cases q) simp_all
  ultimately consider "d' = d" | c where "q = Inr c" "d' = d1" by auto
  then show ?thesis
  proof cases
    case (2 c)
    then have "appended_as x stream event (first_reading (readings a)) c d d'"
      using calm_run_append [OF assms(1,2) run] by simp
    then show ?thesis using appended_as_facts(1) [OF _ assms(1,2)] by blast
  qed simp
qed

text \<open>
  A detached append answers from the gate alone. Past it the tables get the event whole or not at
  all, as an awaited append would have left them, but nobody is told: whatever happened, the answer is
  the same and the published position does not move.
\<close>

theorem detach_append_lands_or_not_unseen:
  assumes "db_ok x (isle_db s)" and "storable x event"
  shows "case detach_append x a stream event s of
     (Inl e, s') \<Rightarrow> s' = s \<and> validate event = Inl e
   | (Inr _, s') \<Rightarrow> validate event = Inr () \<and> s' = s\<lparr>isle_db := isle_db s'\<rparr>
       \<and> (isle_db s' = isle_db s
            \<or> (\<exists>t c. appended_as x stream event t c (isle_db s) (isle_db s') \<and> db_ok x (isle_db s')))"
proof (cases "validate event")
  case (Inr u)
  obtain r d' where run: "isle_call a (append_stamped_now x stream event) (isle_db s) = (r, d')" by force
  show ?thesis using append_job_outcome [OF assms run] run by (auto simp: detach_append_def Inr)
qed (simp add: detach_append_def)

theorem detach_append_lands_or_not_unseen_witness:
  "case detach_append toy_ext (calm_at 9) ''s'' (sample_event ''closed'') (sample_log (empty_database ())) of
     (Inl e, s') \<Rightarrow> False
   | (Inr _, s') \<Rightarrow> notify s' = BEGINNING"
proof -
  have ok: "db_ok toy_ext (isle_db (sample_log (empty_database ())))" by simp
  show ?thesis
    using detach_append_lands_or_not_unseen [OF ok sample_event_ok(1) [of "''closed''"], where a = "calm_at 9"
        and stream = "''s''"]
    by (simp add: sample_log_def detach_append_def)
qed

end
