(* ===== verification/Mem_Store.thy ===== *)
theory Mem_Store
  imports Store_Spi
begin

text \<open>
  The in-memory backend: \<open>crates/eventsdb-core/src/mem.rs\<close>. One stream, a vector of stamped events. It
  reads its own events through \<open>expect\<close>: \<open>None\<close> is that panic, which the invariant excludes. A read
  is lazy, so an event past the limit is not looked at.
\<close>

record mem_store =
  mem_stream_id :: rust_string
  mem_events :: "json_map list"
  mem_chain :: upcast_chain

definition mem_new :: "rust_string \<Rightarrow> mem_store" where
  "mem_new stream_id = \<lparr> mem_stream_id = stream_id, mem_events = [], mem_chain = [] \<rparr>"

definition with_upcasters :: "upcast_chain \<Rightarrow> mem_store \<Rightarrow> mem_store" where
  "with_upcasters chain m = m\<lparr>mem_chain := chain\<rparr>"

definition stored_seq :: "json_map \<Rightarrow> u64 option" where
  "stored_seq event = Option.bind (map_of event FIELD_SEQ) as_u64_value"

definition stored_kind :: "json_map \<Rightarrow> rust_string option" where
  "stored_kind event = Option.bind (map_of event FIELD_KIND) as_str"

definition kind_wanted :: "rust_string list option \<Rightarrow> json_map \<Rightarrow> bool" where
  "kind_wanted kinds event =
     (case kinds of
        None \<Rightarrow> True
      | Some kinds \<Rightarrow> (case stored_kind event of Some k \<Rightarrow> k \<in> set kinds | None \<Rightarrow> False))"

fun mem_scan :: "rust_string list option \<Rightarrow> u64 \<Rightarrow> nat \<Rightarrow> json_map list \<Rightarrow> json list option" where
  "mem_scan kinds from_seq limit [] = Some []"
| "mem_scan kinds from_seq limit (event # events) =
     (if limit = 0 then Some []
      else case stored_seq event of
        None \<Rightarrow> None
      | Some seq \<Rightarrow>
          if from_seq \<le> seq \<and> kind_wanted kinds event
          then map_option ((#) (JObject event)) (mem_scan kinds from_seq (limit - 1) events)
          else mem_scan kinds from_seq limit events)"

definition mem_project ::
  "rust_string list option \<Rightarrow> u64 \<Rightarrow> usize \<Rightarrow> mem_store \<Rightarrow> current list result option" where
  "mem_project kinds from_seq limit m =
     map_option (upcast_rows (mem_chain m)) (mem_scan kinds from_seq (unat limit) (mem_events m))"

definition mem_next_seq :: "mem_store \<Rightarrow> u64" where
  "mem_next_seq m = word_of_nat (length (mem_events m)) + 1"

definition mem_append :: "i64 \<Rightarrow> json_map \<Rightarrow> mem_store \<Rightarrow> committed result \<times> mem_store" where
  "mem_append clock event m =
     (let seq = mem_next_seq m; epoch_ms = now_ms clock
      in case stamp event seq epoch_ms of
           Inl e \<Rightarrow> (Inl e, m)
         | Inr stamped \<Rightarrow>
             (Inr \<lparr> committed_seq = seq, committed_epoch_ms = epoch_ms, committed_position = None \<rparr>,
              m\<lparr>mem_events := mem_events m @ [stamped]\<rparr>))"

fun mem_append_each :: "(i64 \<times> json_map) list \<Rightarrow> mem_store \<Rightarrow> committed list result \<times> mem_store" where
  "mem_append_each [] m = (Inr [], m)"
| "mem_append_each ((clock, event) # events) m =
     (case mem_append clock event m of
        (Inl e, m') \<Rightarrow> (Inl e, m')
      | (Inr c, m') \<Rightarrow> (let (r, m'') = mem_append_each events m' in (rmap ((#) c) r, m'')))"

fun mem_validate_all :: "(i64 \<times> json_map) list \<Rightarrow> unit result" where
  "mem_validate_all [] = Inr ()"
| "mem_validate_all ((_, event) # events) = rbind (validate event) (\<lambda>_. mem_validate_all events)"

text \<open>Each event is paired with the clock reading of its own append.\<close>

definition mem_append_many :: "(i64 \<times> json_map) list \<Rightarrow> mem_store \<Rightarrow> committed list result \<times> mem_store" where
  "mem_append_many events m =
     (case mem_validate_all events of Inl e \<Rightarrow> (Inl e, m) | Inr _ \<Rightarrow> mem_append_each events m)"

definition mem_append_if ::
  "i64 \<Rightarrow> rust_string list option \<Rightarrow> (current list \<Rightarrow> json_map option) \<Rightarrow> mem_store
     \<Rightarrow> committed option result option \<times> mem_store" where
  "mem_append_if clock kinds decide m =
     (case mem_project kinds 0 (- 1) m of
        None \<Rightarrow> (None, m)
      | Some (Inl e) \<Rightarrow> (Some (Inl e), m)
      | Some (Inr seen) \<Rightarrow>
          (case decide seen of
             None \<Rightarrow> (Some (Inr None), m)
           | Some event \<Rightarrow> (let (r, m') = mem_append clock event m in (Some (rmap Some r), m'))))"

definition mem_read_kinds ::
  "rust_string list option \<Rightarrow> u64 \<Rightarrow> usize \<Rightarrow> mem_store \<Rightarrow> current list result option" where
  "mem_read_kinds kinds from_seq limit m = mem_project kinds from_seq limit m"

definition mem_read_last :: "usize \<Rightarrow> mem_store \<Rightarrow> current list result" where
  "mem_read_last n m =
     upcast_rows (mem_chain m) (map JObject (drop (length (mem_events m) - unat n) (mem_events m)))"

definition mem_head :: "mem_store \<Rightarrow> u64 option result option" where
  "mem_head m =
     (if mem_events m = [] then Some (Inr None)
      else map_option (\<lambda>seq. Inr (Some seq)) (stored_seq (last (mem_events m))))"

definition mem_len :: "mem_store \<Rightarrow> usize result" where
  "mem_len m = Inr (word_of_nat (length (mem_events m)))"

section \<open>The invariant and the trait's laws\<close>

definition stamped_with :: "u64 \<Rightarrow> json_map \<Rightarrow> bool" where
  "stamped_with n event \<longleftrightarrow> (\<exists>k m d t v. event = event_object k m d n t v)"

definition mem_ok :: "mem_store \<Rightarrow> bool" where
  "mem_ok m \<longleftrightarrow>
     (\<forall>i < length (mem_events m). stamped_with (word_of_nat i + 1) (mem_events m ! i))"

definition mem_room :: "nat \<Rightarrow> mem_store \<Rightarrow> bool" where
  "mem_room n m \<longleftrightarrow> length (mem_events m) + n < 2 ^ 64"

definition mem_view :: "mem_store \<Rightarrow> stream_view" where
  "mem_view m = (mem_events m, mem_next_seq m)"

lemma stamped_with_sel:
  assumes "stamped_with n event"
  shows "stored_seq event = Some n" "u64_of FIELD_SEQ event = n"
    "stored_kind event = Some (kind_of event)"
  using assms by (auto simp: stamped_with_def stored_seq_def stored_kind_def map_of_event_object)

lemma kind_wanted_stamped: "stamped_with n event \<Longrightarrow> kind_wanted kinds event \<longleftrightarrow> kind_in kinds (kind_of event)"
  by (simp add: kind_wanted_def kind_in_def stamped_with_sel(3) split: option.splits)

lemma mem_scan_selected:
  "(\<And>event. event \<in> set events \<Longrightarrow> \<exists>n. stamped_with n event) \<Longrightarrow>
     mem_scan kinds from_seq limit events = Some (map JObject (take limit (selected kinds from_seq events)))"
proof (induction events arbitrary: limit)
  case (Cons event events)
  obtain n where n: "stamped_with n event" using Cons.prems by force
  have IH: "mem_scan kinds from_seq l events = Some (map JObject (take l (selected kinds from_seq events)))" for l
    using Cons.IH [of l] Cons.prems by auto
  show ?case
    using stamped_with_sel [OF n] kind_wanted_stamped [OF n, of kinds]
    by (cases limit) (auto simp: selected_def IH [unfolded selected_def])
qed (simp add: selected_def)

lemma mem_ok_stamped: "mem_ok m \<Longrightarrow> event \<in> set (mem_events m) \<Longrightarrow> \<exists>n. stamped_with n event"
  by (auto simp: mem_ok_def in_set_conv_nth)

lemma mem_project_eq:
  "mem_ok m \<Longrightarrow> mem_project kinds from_seq limit m = Some (spec_read (mem_chain m) kinds from_seq limit (mem_view m))"
  using mem_scan_selected [OF mem_ok_stamped] by (simp add: mem_project_def spec_read_def mem_view_def)

lemma mem_ok_append: "mem_ok m \<Longrightarrow> stamped_with (mem_next_seq m) e \<Longrightarrow> mem_ok (m\<lparr>mem_events := mem_events m @ [e]\<rparr>)"
  by (auto simp: mem_ok_def mem_next_seq_def nth_append less_Suc_eq)

lemma stamp_stamped_with: "map_ok event \<Longrightarrow> stamp event n t = Inr e \<Longrightarrow> stamped_with n e"
  unfolding stamped_with_def stamp_eq by blast

lemma mem_append_spec:
  "mem_append clock event m = (r, m') \<Longrightarrow>
     (rmap coordinates r, mem_view m') = spec_append (now_ms clock) event (mem_view m)"
  by (auto simp: mem_append_def spec_append_def mem_view_def mem_next_seq_def coordinates_def Let_def
      split: sum.splits)

lemma mem_append_keeps:
  assumes "mem_ok m" "map_ok event" "mem_append clock event m = (r, m')"
  shows "mem_ok m' \<and> mem_chain m' = mem_chain m \<and> length (mem_events m') \<le> Suc (length (mem_events m))"
  using assms mem_ok_append [OF assms(1) stamp_stamped_with [OF assms(2)]]
  by (auto simp: mem_append_def Let_def split: sum.splits)

lemma unat_small: "n < 2 ^ 64 \<Longrightarrow> unat (word_of_nat n :: u64) = n"
  by (simp add: unat_of_nat)

lemma mem_seq_nth:
  assumes "mem_ok m" "length (mem_events m) < 2 ^ 64" "i < length (mem_events m)"
  shows "unat (u64_of FIELD_SEQ (mem_events m ! i)) = Suc i"
proof -
  have "u64_of FIELD_SEQ (mem_events m ! i) = word_of_nat (Suc i)"
    using assms(1,3) stamped_with_sel(2) by (auto simp: mem_ok_def add.commute)
  then show ?thesis using unat_small [of "Suc i"] assms(2,3) by simp
qed

lemma mem_numbered:
  assumes "mem_ok m" "mem_room 1 m"
  shows "numbered (mem_view m)"
proof -
  let ?es = "mem_events m"
  have len: "length ?es < 2 ^ 64" and nxt: "unat (mem_next_seq m) = Suc (length ?es)"
    using assms(2) unat_small [of "Suc (length ?es)"]
    by (simp_all add: mem_room_def mem_next_seq_def add.commute)
  note seq = mem_seq_nth [OF assms(1) len]
  have "sorted_wrt (<) (map (u64_of FIELD_SEQ) ?es)"
    by (simp add: sorted_wrt_iff_nth_less word_less_nat_alt seq)
  moreover have "\<forall>e \<in> set ?es. u64_of FIELD_SEQ e < mem_next_seq m"
    by (auto simp: in_set_conv_nth word_less_nat_alt seq nxt)
  ultimately show ?thesis
    using len by (simp add: numbered_def mem_view_def)
qed

lemma mem_head_eq: "mem_ok m \<Longrightarrow> mem_head m = Some (Inr (spec_head (mem_view m)))"
proof (cases "mem_events m = []")
  case False
  assume "mem_ok m"
  then obtain n where "stamped_with n (last (mem_events m))"
    using mem_ok_stamped False last_in_set by blast
  then show ?thesis
    using False by (simp add: mem_head_def spec_head_def mem_view_def stamped_with_sel)
qed (simp add: mem_head_def spec_head_def mem_view_def)

lemma mem_append_if_eq:
  assumes "mem_ok m" and "mem_append_if clock kinds decide m = (outcome, m')"
  shows "(map_option (rmap (map_option coordinates)) outcome, mem_view m') =
     map_prod Some id (spec_append_if (mem_chain m) (now_ms clock) kinds decide (mem_view m))"
proof (cases "spec_read (mem_chain m) kinds 0 (- 1) (mem_view m)")
  case (Inl e)
  then show ?thesis
    using assms by (auto simp: mem_append_if_def mem_project_eq spec_append_if_def)
next
  case (Inr seen)
  show ?thesis
  proof (cases "decide seen")
    case None
    then show ?thesis
      using assms Inr by (auto simp: mem_append_if_def mem_project_eq spec_append_if_def)
  next
    case (Some event)
    obtain r m1 where step: "mem_append clock event m = (r, m1)" by force
    then show ?thesis
      using assms Inr Some mem_append_spec [OF step]
      by (cases r) (auto simp: mem_append_if_def mem_project_eq spec_append_if_def simp flip: mem_append_spec [OF step])
  qed
qed

interpretation mem: event_store mem_ok map_ok mem_room mem_view mem_chain "\<lambda>clock t. clock = t"
  mem_append mem_append_if "\<lambda>_. mem_read_kinds" "\<lambda>_ n m. Some (mem_read_last n m)" "\<lambda>_. mem_head"
proof
  fix m event env t r m'
  assume "mem_ok m" "map_ok event" "mem_append env event m = (r, m')"
  then show "mem_ok m' \<and> mem_chain m' = mem_chain m
      \<and> ((\<exists>e. r = Inl e) \<and> mem_view m' = mem_view m
         \<or> (\<exists>t. (rmap coordinates r, mem_view m') = spec_append t event (mem_view m)))"
    using mem_append_keeps mem_append_spec by blast
next
  fix n m event env r m'
  assume "mem_room (Suc n) m" "mem_ok m" "map_ok event" "mem_append env event m = (r, m')"
  then show "mem_room n m'"
    using mem_append_keeps by (fastforce simp: mem_room_def)
qed (simp_all add: mem_numbered mem_append_spec mem_append_if_eq mem_project_eq mem_read_kinds_def mem_head_eq,
    simp_all add: mem_room_def mem_read_last_def mem_view_def)

end
