(* ===== verification/Backends.thy ===== *)
theory Backends
  imports Stream_Theorems Mem_Store
begin

text \<open>
  The durable backend is an \<open>event_store\<close> too, for every stream of a log: the interpretation discharges
  the trait's laws from the theorems on its transactions. What holds of the trait then holds of both
  backends, and the two give the same answers to the same calls.
\<close>

section \<open>The durable stream as an instance of the trait\<close>

definition store_ok :: "ext \<Rightarrow> 'm shared \<Rightarrow> bool" where
  "store_ok x s \<longleftrightarrow> db_ok x (isle_db s)"

definition store_room :: "nat \<Rightarrow> 'm shared \<Rightarrow> bool" where
  "store_room n s \<longleftrightarrow> events_auto (isle_db s) + int n \<le> i64_max"

definition store_view :: "ext \<Rightarrow> rust_string \<Rightarrow> 'm shared \<Rightarrow> stream_view" where
  "store_view x stream s = (contents x (isle_db s) stream, next_of (isle_db s) stream)"

definition always_calm :: "(nat \<Rightarrow> attempt) \<Rightarrow> i64 \<Rightarrow> bool" where
  "always_calm env t \<longleftrightarrow> env = (\<lambda>_. calm_at t)"

definition append_if_first ::
  "ext \<Rightarrow> rust_string \<Rightarrow> (nat \<Rightarrow> attempt) \<Rightarrow> rust_string list option \<Rightarrow> (current list \<Rightarrow> json_map option)
     \<Rightarrow> 'm shared \<Rightarrow> committed option result option \<times> 'm shared" where
  "append_if_first x stream env kinds decide s = map_prod Some id (append_if x (env 0) stream kinds decide s)"

lemma store_numbered:
  assumes "store_ok x s" and "store_room 1 s"
  shows "numbered (store_view x stream s)"
proof -
  have ok: "db_ok x (isle_db s)" using assms(1) by (simp add: store_ok_def)
  let ?rows = "stream_rows (isle_db s) stream"
  have small: "1 \<le> row_seq r \<and> row_seq r \<le> i64_max \<and> uint (as_u64 (row_seq r)) = row_seq r"
    if "r \<in> set ?rows" for r
    using row_seq_small [OF ok stream_row_ok [OF ok that]] by (simp add: uint_as_u64)
  have "sorted_wrt (\<lambda>r r'. as_u64 (row_seq r) < as_u64 (row_seq r')) ?rows"
    using stream_rows_sorted [OF ok, of stream] unfolding sorted_wrt_map
    by (rule sorted_wrt_mono_rel [rotated]) (use small in \<open>auto simp: word_less_def\<close>)
  moreover have "as_u64 (row_seq r) < next_of (isle_db s) stream" if "r \<in> set ?rows" for r
  proof -
    have "row_stream r = stream" using that by (simp add: stream_rows_def)
    then show ?thesis
      using small [OF that] stream_row_ok [OF ok that] by (simp add: row_ok_def word_less_def)
  qed
  moreover have "int (length ?rows) \<le> 2 ^ 64 - 1"
    using length_contents [OF ok, of stream] unfolding unat_usize_max
    by (simp add: contents_def)
  ultimately show ?thesis
    by (simp add: numbered_def store_view_def contents_def sorted_wrt_map)
qed

lemma appended_as_view:
  assumes "appended_as x stream event t c (isle_db s) d'" and "db_ok x (isle_db s)" and "storable x event"
  shows "(Inr (coordinates c), (contents x d' stream, next_of d' stream)) = spec_append t event (store_view x stream s)"
  using appended_as_facts [OF assms] by (auto simp: store_view_def spec_append_def coordinates_def)

lemma store_append_safe:
  assumes "store_ok x s" "storable x event" "append_store x env stream event s = (r, s')"
  shows "store_ok x s' \<and> upcasters s' = upcasters s \<and> events_auto (isle_db s') \<le> events_auto (isle_db s) + 1
     \<and> ((\<exists>e. r = Inl e) \<and> store_view x stream s' = store_view x stream s
        \<or> (\<exists>t. (rmap coordinates r, store_view x stream s') = spec_append t event (store_view x stream s)))"
proof -
  have ok: "db_ok x (isle_db s)" using assms(1) by (simp add: store_ok_def)
  note out = append_outcome [OF ok assms(2), where env = env and stream = stream]
  show ?thesis
  proof (cases r)
    case (Inl e)
    then show ?thesis using out assms(1,3) by simp
  next
    case (Inr c)
    then obtain t d' where c: "appended_as x stream event t c (isle_db s) d'" "db_ok x d'"
      "s' = publish_committed (committed_position c) (s\<lparr>isle_db := d'\<rparr>)"
      using out assms(3) by auto
    moreover have "events_auto d' = events_auto (isle_db s) + 1"
      using c(1) by (auto simp: appended_as_def)
    ultimately show ?thesis
      using appended_as_view [OF c(1) ok assms(2)] Inr by (auto simp: store_ok_def store_view_def)
  qed
qed

lemma store_append_refines:
  assumes "store_ok x s" "storable x event" "store_room 1 s" "always_calm env t"
    and "append_store x env stream event s = (r, s')"
  shows "(rmap coordinates r, store_view x stream s') = spec_append (now_ms t) event (store_view x stream s)"
proof -
  have ok: "db_ok x (isle_db s)" using assms(1) by (simp add: store_ok_def)
  show ?thesis
  proof (cases rule: validate_cases [of event])
    case 1
    then obtain c d' where "append_store x env stream event s =
       (Inr c, publish_committed (committed_position c) (s\<lparr>isle_db := d'\<rparr>))"
      "appended_as x stream event (now_ms t) c (isle_db s) d'"
      using append_calm [OF ok assms(2), of t stream] assms(3,4) by (auto simp: store_room_def always_calm_def)
    then show ?thesis
      using assms(5) appended_as_view [OF _ ok assms(2)] by (auto simp: store_view_def)
  next
    case (2 q)
    then have "stamp event (next_of (isle_db s) stream) (now_ms t) = Inl (Validation (Envelope q))"
      by (simp add: stamp_error)
    then show ?thesis
      using 2 assms(5) by (auto simp: append_store_def spec_append_def store_view_def)
  qed
qed

interpretation durable: event_store "store_ok x" "storable x" store_room "store_view x stream" upcasters
  always_calm "\<lambda>env. append_store x env stream" "append_if_first x stream"
  "\<lambda>env kinds from_seq limit s. Some (read_kinds x (env 0) stream kinds from_seq limit s)"
  "\<lambda>env n s. Some (read_last x (env 0) stream n s)" "\<lambda>env s. Some (head (env 0) stream s)"
  for x :: ext and stream :: rust_string
proof
  fix s :: "'m shared" and event env t r s'
  assume "store_ok x s" "storable x event" "store_room 1 s" "append_store x env stream event s = (r, s')"
  then show "store_ok x s' \<and> upcasters s' = upcasters s
      \<and> ((\<exists>e. r = Inl e) \<and> store_view x stream s' = store_view x stream s
         \<or> (\<exists>t. (rmap coordinates r, store_view x stream s') = spec_append t event (store_view x stream s)))"
    using store_append_safe by blast
next
  fix s :: "'m shared" and decide env t kinds outcome s'
  assume a: "store_ok x s" "\<And>seen event. decide seen = Some event \<Longrightarrow> storable x event" "store_room 1 s"
    "always_calm env t" "append_if_first x stream env kinds decide s = (outcome, s')"
  obtain r where r: "append_if x (calm_at t) stream kinds decide s = (r, s')" "outcome = Some r"
    using a(4,5) by (cases "append_if x (calm_at t) stream kinds decide s")
      (auto simp: append_if_first_def always_calm_def)
  have "db_ok x (isle_db s)" "\<forall>seen event. decide seen = Some event \<longrightarrow> storable x event"
    "events_auto (isle_db s) < i64_max"
    using a(1-3) by (simp_all add: store_ok_def store_room_def)
  from append_if_calm [where t = t and stream = stream and kinds = kinds, OF this, symmetric]
  show "(map_option (rmap (map_option coordinates)) outcome, store_view x stream s') =
      map_prod Some id (spec_append_if (upcasters s) (now_ms t) kinds decide (store_view x stream s))"
    by (simp add: r store_view_def)
next
  fix n and s :: "'m shared" and event env r s'
  assume "store_room (Suc n) s" "store_ok x s" "storable x event" "append_store x env stream event s = (r, s')"
  then show "store_room n s'"
    using store_append_safe by (fastforce simp: store_room_def)
next
  fix s :: "'m shared" and env t and from_seq :: u64 and kinds limit
  assume "store_ok x s" "store_room 1 s" "always_calm env t" "uint from_seq \<le> i64_max"
  then show "Some (read_kinds x (env 0) stream kinds from_seq limit s) =
      Some (spec_read (upcasters s) kinds from_seq limit (store_view x stream s))"
    by (simp add: read_kinds_calm store_ok_def always_calm_def spec_read_def store_view_def)
qed (auto simp: store_numbered store_append_refines,
    auto simp: store_room_def store_ok_def always_calm_def read_last_calm head_calm store_view_def spec_head_def)

section \<open>What both backends promise\<close>

text \<open>
  C10. The two backends are the same store. Run the same appends at the same times on the in-memory one
  and on a stream of the durable one, from the same events and number: the answers agree one by one in
  their sequence numbers and times, refusals included, and the streams hold the same events after.
\<close>

theorem backends_agree:
  assumes "mem_ok m" and "db_ok x (isle_db s)" and "mem_view m = store_view x stream s"
    and "mem_room (length script) m" and "events_auto (isle_db s) + int (length script) \<le> i64_max"
    and "\<forall>p \<in> set script. storable x (snd p)"
  shows "map (rmap coordinates) (fst (run_script mem_append script m))
       = map (rmap coordinates) (fst (run_script (\<lambda>env. append_store x env stream)
            (map (\<lambda>(t, event). (\<lambda>_. calm_at t, event)) script) s))
     \<and> mem_view (snd (run_script mem_append script m))
       = store_view x stream (snd (run_script (\<lambda>env. append_store x env stream)
            (map (\<lambda>(t, event). (\<lambda>_. calm_at t, event)) script) s))"
proof -
  let ?calm = "map (\<lambda>(t, event). (\<lambda>_ :: nat. calm_at t, event)) script"
  have "list_all2 (\<lambda>(env, event) (t, event'). event' = event \<and> map_ok event \<and> env = t) script script"
    using assms(6) by (auto simp: list_all2_same storable_def)
  note mem = mem.run_refines [OF assms(1,4) this]
  have "list_all2 (\<lambda>(env, event) (t, event'). event' = event \<and> storable x event \<and> always_calm env t) ?calm script"
    using assms(6) by (force simp: list_all2_conv_all_nth always_calm_def split: prod.splits dest: nth_mem)
  moreover have "store_ok x s" "store_room (length ?calm) s"
    using assms(2,5) by (simp_all add: store_ok_def store_room_def)
  ultimately show ?thesis
    using durable.run_refines [of x s ?calm script stream] mem unfolding assms(3)
    by (metis (no_types, lifting) prod.inject length_map)
qed

theorem backends_agree_witness:
  "mem_view (snd (run_script mem_append [(5, sample_event ''a''), (7, sample_event ''b'')] (mem_new ''s'')))
     = store_view toy_ext ''s'' (snd (run_script (\<lambda>env. append_store toy_ext env ''s'')
         [(\<lambda>_. calm_at 5, sample_event ''a''), (\<lambda>_. calm_at 7, sample_event ''b'')] (sample_log (empty_database ()))))"
proof -
  have "mem_ok (mem_new ''s'')" "db_ok toy_ext (isle_db (sample_log (empty_database ())))"
    "mem_view (mem_new ''s'') = store_view toy_ext ''s'' (sample_log (empty_database ()))"
    by (simp_all add: mem_ok_def mem_new_def mem_view_def mem_next_seq_def store_view_def contents_def
        stream_rows_def next_of_def)
  from backends_agree [OF this, of "[(5, sample_event ''a''), (7, sample_event ''b'')]"] show ?thesis
    by (simp add: mem_room_def mem_new_def i64_max_def)
qed

text \<open>
  No sequence number is lost or given twice, whatever fails. Over any run of appends on a stream,
  each meeting its own failures, the accepted ones got consecutive numbers from where the counter stood,
  in the order they were answered, and the stream is what it was with exactly those events at its end.
\<close>

theorem numbers_are_consecutive_under_failures:
  fixes s :: "'m shared"
  assumes "db_ok x (isle_db s)" and "events_auto (isle_db s) + int (length script) \<le> i64_max"
    and "\<forall>p \<in> set script. storable x (snd p)"
    and "run_script (\<lambda>env. append_store x env stream) script s = (answers, s')"
  shows "\<exists>stored. contents x (isle_db s') stream = contents x (isle_db s) stream @ stored
     \<and> map (u64_of FIELD_SEQ) stored = map committed_seq (oks answers)
     \<and> map committed_seq (oks answers) = map (\<lambda>i. next_of (isle_db s) stream + word_of_nat i) [0..<length stored]
     \<and> next_of (isle_db s') stream = next_of (isle_db s) stream + word_of_nat (length stored)
     \<and> db_ok x (isle_db s')"
proof -
  have "store_ok x s" "store_room (length script) s"
    using assms(1,2) by (simp_all add: store_ok_def store_room_def)
  from durable.run_safe [OF this assms(3), of stream] obtain accepted where
    acc: "subseq (map snd accepted) (map snd script)"
      "spec_run accepted (store_view x stream s) = (map Inr (map coordinates (oks answers)), store_view x stream s')"
      "store_ok x s'"
    using assms(4) by auto
  have "set (map snd accepted) \<subseteq> set (map snd script)"
    using list_emb_set [OF acc(1)] by blast
  then have "\<forall>p \<in> set accepted. map_ok (snd p)"
    using assms(3) by (fastforce simp: storable_def)
  from spec_run_accepted [OF acc(2) [unfolded store_view_def] this]
  obtain stored where stored: "contents x (isle_db s') stream = contents x (isle_db s) stream @ stored"
    "map (u64_of FIELD_SEQ) stored = map fst (map coordinates (oks answers))"
    "map fst (map coordinates (oks answers)) = map (\<lambda>i. next_of (isle_db s) stream + word_of_nat i) [0..<length accepted]"
    "next_of (isle_db s') stream = next_of (isle_db s) stream + word_of_nat (length accepted)"
    by blast
  have fst: "map fst (map coordinates cs) = map committed_seq cs" for cs
    by (simp add: coordinates_def)
  have "length stored = length accepted"
    using arg_cong [OF stored(2), of length] arg_cong [OF stored(3), of length] by simp
  then show ?thesis
    using stored acc(3) unfolding fst by (auto simp: store_ok_def)
qed

theorem numbers_are_consecutive_under_failures_witness:
  "\<exists>n. map (u64_of FIELD_SEQ) (contents toy_ext (isle_db (snd (run_script (\<lambda>env. append_store toy_ext env ''s'')
       [(\<lambda>_. (calm_at 5)\<lparr>stmt_faults := [Some (DatabaseBusy, ''locked'')]\<rparr>, sample_event ''a''),
        (\<lambda>_. calm_at 7, sample_event ''b'')] (sample_log (empty_database ()))))) ''s'')
     = map (\<lambda>i. 1 + word_of_nat i) [0..<n]"
proof -
  let ?script = "[(\<lambda>_ :: nat. (calm_at 5)\<lparr>stmt_faults := [Some (DatabaseBusy, ''locked'')]\<rparr>, sample_event ''a''),
        (\<lambda>_. calm_at 7, sample_event ''b'')]"
  let ?run = "run_script (\<lambda>env. append_store toy_ext env ''s'') ?script (sample_log (empty_database ()))"
  have "db_ok toy_ext (isle_db (sample_log (empty_database ())))"
    "events_auto (isle_db (sample_log (empty_database ()))) + int (length ?script) \<le> i64_max"
    "\<forall>p \<in> set ?script. storable toy_ext (snd p)"
    by (simp_all add: i64_max_def)
  from numbers_are_consecutive_under_failures [OF this, of "''s''" "fst ?run" "snd ?run"] obtain stored where
    "contents toy_ext (isle_db (snd ?run)) ''s'' = stored"
    "map (u64_of FIELD_SEQ) stored = map (\<lambda>i. 1 + word_of_nat i) [0..<length stored]"
    by (auto simp: contents_def [of _ "empty_database ()"] stream_rows_def [of "empty_database ()"]
        next_of_def [of "empty_database ()"])
  then show ?thesis by (intro exI [of _ "length stored"]) simp
qed

end
