(* ===== verification/Utf8.thy ===== *)
theory Utf8
  imports Prelude "HOL-Library.Sublist"
begin

text \<open>
  UTF-8, as far as the range of a stream-name prefix rests on it: the encoding of a Unicode scalar value
  in one to four bytes, the decoding \<open>char_indices\<close> walks by, and that the encoding keeps the order of
  scalar values under bytewise comparison, no encoding being the beginning of another. A scalar value
  is a natural number, a byte a character of HOL.
\<close>

definition CHAR_MAX :: nat where
  "CHAR_MAX = 1114111"

definition scalar_value :: "nat \<Rightarrow> bool" where
  "scalar_value c \<longleftrightarrow> c < 55296 \<or> (57344 \<le> c \<and> c \<le> CHAR_MAX)"

definition encode_bytes :: "nat \<Rightarrow> nat list" where
  "encode_bytes c =
     (if c < 128 then [c]
      else if c < 2048 then [192 + c div 64, 128 + c mod 64]
      else if c < 65536 then [224 + c div 4096, 128 + (c div 64) mod 64, 128 + c mod 64]
      else [240 + c div 262144, 128 + (c div 4096) mod 64, 128 + (c div 64) mod 64, 128 + c mod 64])"

definition utf8 :: "nat list \<Rightarrow> rust_string" where
  "utf8 cs = map char_of (concat (map encode_bytes cs))"

function decode_bytes :: "nat list \<Rightarrow> nat list" where
  "decode_bytes [] = []"
| "decode_bytes (b # bs) =
     (if b < 128 then b # decode_bytes bs
      else if b < 224 then ((b - 192) * 64 + (hd bs - 128)) # decode_bytes (drop 1 bs)
      else if b < 240 then
        ((b - 224) * 4096 + (bs ! 0 - 128) * 64 + (bs ! 1 - 128)) # decode_bytes (drop 2 bs)
      else
        ((b - 240) * 262144 + (bs ! 0 - 128) * 4096 + (bs ! 1 - 128) * 64 + (bs ! 2 - 128))
          # decode_bytes (drop 3 bs))"
  by pat_completeness auto
termination
  by (relation "measure length") auto

definition chars :: "rust_string \<Rightarrow> nat list" where
  "chars s = decode_bytes (map of_char s)"

text \<open>A Rust \<open>String\<close>: the bytes of some scalar values.\<close>

definition is_utf8 :: "rust_string \<Rightarrow> bool" where
  "is_utf8 s \<longleftrightarrow> (\<exists>cs. s = utf8 cs \<and> (\<forall>c \<in> set cs. scalar_value c))"

lemma is_utf8I: "\<forall>c \<in> set cs. scalar_value c \<Longrightarrow> is_utf8 (utf8 cs)"
  by (auto simp: is_utf8_def)

section \<open>Decoding is the inverse\<close>

lemma utf8_simps [simp]:
  "utf8 [] = []" "utf8 (c # cs) = map char_of (encode_bytes c) @ utf8 cs" "utf8 (cs @ ds) = utf8 cs @ utf8 ds"
  by (simp_all add: utf8_def)

lemma scalar_value_le: "scalar_value c \<Longrightarrow> c \<le> CHAR_MAX"
  by (auto simp: scalar_value_def CHAR_MAX_def)

lemma encode_bytes_small:
  assumes "scalar_value c" and "b \<in> set (encode_bytes c)"
  shows "b < 256"
proof -
  have "c div 262144 \<le> 4" "c < 2048 \<Longrightarrow> c div 64 < 32" "c < 65536 \<Longrightarrow> c div 4096 < 16"
    using scalar_value_le [OF assms(1)] by (simp_all add: CHAR_MAX_def)
  then show ?thesis
    using assms(2) by (auto simp: encode_bytes_def split: if_splits intro: le_less_trans [OF mod_le_divisor])
qed

lemma of_char_map: "\<forall>b \<in> set bs. b < 256 \<Longrightarrow> map of_char (map char_of bs :: char list) = (bs :: nat list)"
  by (induction bs) auto

lemma decode_encode:
  assumes "scalar_value c"
  shows "decode_bytes (encode_bytes c @ bs) = c # decode_bytes bs"
proof -
  have split2: "c div 64 * 64 + c mod 64 = c" by simp
  have split3: "c div 4096 * 4096 + c div 64 mod 64 * 64 + c mod 64 = c"
  proof -
    have "c div 64 = c div 64 div 64 * 64 + c div 64 mod 64" by simp
    then have "c div 64 * 64 = (c div 4096 * 64 + c div 64 mod 64) * 64"
      by (simp add: div_mult2_eq [symmetric])
    then show ?thesis using split2 by (simp add: algebra_simps)
  qed
  have split4: "c div 262144 * 262144 + c div 4096 mod 64 * 4096 + c div 64 mod 64 * 64 + c mod 64 = c"
  proof -
    have "c div 4096 = c div 4096 div 64 * 64 + c div 4096 mod 64" by simp
    then have "c div 4096 * 4096 = (c div 262144 * 64 + c div 4096 mod 64) * 4096"
      by (simp add: div_mult2_eq [symmetric])
    then show ?thesis using split3 by (simp add: algebra_simps)
  qed
  consider "c < 128" | "128 \<le> c" "c < 2048" | "2048 \<le> c" "c < 65536" | "65536 \<le> c" by linarith
  then show ?thesis
  proof cases
    case 2
    then have "c div 64 < 32" by simp
    then show ?thesis using 2 split2 by (simp add: encode_bytes_def)
  next
    case 3
    then have "c div 4096 < 16" by simp
    then show ?thesis using 3 split3 by (simp add: encode_bytes_def)
  next
    case 4
    then show ?thesis using split4 by (simp add: encode_bytes_def)
  qed (simp add: encode_bytes_def)
qed

lemma chars_utf8: "\<forall>c \<in> set cs. scalar_value c \<Longrightarrow> chars (utf8 cs) = cs"
proof -
  assume "\<forall>c \<in> set cs. scalar_value c"
  then have "map of_char (utf8 cs) = concat (map encode_bytes cs)"
    and "decode_bytes (concat (map encode_bytes cs)) = cs"
    using of_char_map [of "concat (map encode_bytes cs)"] encode_bytes_small
    by (auto simp: utf8_def) (induction cs, auto simp: decode_encode)
  then show ?thesis by (simp add: chars_def)
qed

section \<open>The order of the encodings\<close>

text \<open>One string is below another at a byte both have, so whatever follows keeps them in that order.\<close>

definition parted :: "'a :: linorder list \<Rightarrow> 'a list \<Rightarrow> bool" where
  "parted xs ys \<longleftrightarrow> (\<exists>p a b u v. xs = p @ a # u \<and> ys = p @ b # v \<and> a < b)"

lemma less_append_same: "(p @ xs :: 'a :: linorder list) < p @ ys \<longleftrightarrow> xs < ys"
  by (induction p) auto

lemma parted_less: "parted xs ys \<Longrightarrow> xs @ us < ys @ vs"
  by (auto simp: parted_def less_append_same)

lemma parted_append: "parted xs ys \<Longrightarrow> parted (p @ xs @ us) (p @ ys @ vs)"
  unfolding parted_def by (metis append.assoc append_Cons)

lemma parted_ConsI: "a < b \<or> a = b \<and> parted xs ys \<Longrightarrow> parted (a # xs) (b # ys)"
  unfolding parted_def by (metis append_Cons append_Nil)

lemma parted_Cons: "parted (a # xs) (b # ys) \<longleftrightarrow> a < b \<or> a = b \<and> parted xs ys"
proof
  assume "parted (a # xs) (b # ys)"
  then obtain p c d u v where "a # xs = p @ c # u" "b # ys = p @ d # v" "c < d"
    by (auto simp: parted_def)
  then show "a < b \<or> a = b \<and> parted xs ys"
    by (cases p) (auto simp: parted_def)
qed (rule parted_ConsI)

lemma div_mod_less:
  fixes a b :: nat
  assumes "a < b"
  shows "a div 64 < b div 64 \<or> a div 64 = b div 64 \<and> a mod 64 < b mod 64"
proof -
  have "a div 64 * 64 + a mod 64 < b div 64 * 64 + b mod 64" using assms by simp
  moreover have "a div 64 \<le> b div 64" using assms by (simp add: div_le_mono)
  ultimately show ?thesis by linarith
qed

text \<open>The base-64 digits of two scalar values in order: they part at some digit.\<close>

lemma sextets:
  fixes a b :: nat
  assumes "a < b"
  shows "a div 64 < b div 64 \<or> a div 64 = b div 64 \<and> a mod 64 < b mod 64"
    and "a div 64 < b div 64 \<Longrightarrow> a div 4096 < b div 4096 \<or> a div 4096 = b div 4096 \<and> a div 64 mod 64 < b div 64 mod 64"
    and "a div 4096 < b div 4096 \<Longrightarrow>
      a div 262144 < b div 262144 \<or> a div 262144 = b div 262144 \<and> a div 4096 mod 64 < b div 4096 mod 64"
    and "a div 64 = b div 64 \<Longrightarrow> a div 4096 = b div 4096"
    and "a div 4096 = b div 4096 \<Longrightarrow> a div 262144 = b div 262144"
proof -
  show "a div 64 < b div 64 \<or> a div 64 = b div 64 \<and> a mod 64 < b mod 64"
    by (rule div_mod_less [OF assms])
  show "a div 64 < b div 64 \<Longrightarrow> a div 4096 < b div 4096 \<or> a div 4096 = b div 4096 \<and> a div 64 mod 64 < b div 64 mod 64"
    using div_mod_less [of "a div 64" "b div 64"] by (simp add: div_mult2_eq [symmetric])
  show "a div 4096 < b div 4096 \<Longrightarrow>
      a div 262144 < b div 262144 \<or> a div 262144 = b div 262144 \<and> a div 4096 mod 64 < b div 4096 mod 64"
    using div_mod_less [of "a div 4096" "b div 4096"] by (simp add: div_mult2_eq [symmetric])
  show "a div 4096 = b div 4096" if "a div 64 = b div 64"
    using arg_cong [OF that, of "\<lambda>n. n div 64"] by (simp add: div_mult2_eq [symmetric])
  show "a div 262144 = b div 262144" if "a div 4096 = b div 4096"
    using arg_cong [OF that, of "\<lambda>n. n div 64"] by (simp add: div_mult2_eq [symmetric])
qed

lemma encode_bytes_parted:
  assumes "a < b" and "b \<le> CHAR_MAX"
  shows "parted (encode_bytes a) (encode_bytes b)"
proof -
  note d1 = sextets(1) [OF assms(1)] and d2 = sextets(2) [OF assms(1)] and d3 = sextets(3) [OF assms(1)]
    and e2 = sextets(4) [OF assms(1)] and e3 = sextets(5) [OF assms(1)]
  have small: "a < 2048 \<Longrightarrow> a div 64 < 32" "a < 65536 \<Longrightarrow> a div 4096 < 16" by simp_all
  define A1 B1 A2 B2 A3 B3 where "A1 = a div 64" "B1 = b div 64" "A2 = a div 4096" "B2 = b div 4096"
    "A3 = a div 262144" "B3 = b div 262144"
  note folds = this [symmetric]
  note facts = d1 d2 d3 e2 e3 small
  consider "b < 128" | "128 \<le> b" "b < 2048" | "2048 \<le> b" "b < 65536" | "65536 \<le> b" by linarith
  then show ?thesis
  proof cases
    case 1
    then show ?thesis using assms(1) by (simp add: encode_bytes_def parted_Cons)
  next
    case 2
    then show ?thesis using assms(1) d1 unfolding encode_bytes_def folds by (auto simp: parted_Cons)
  next
    case 3
    show ?thesis
    proof (cases "a < 2048")
      case True
      then show ?thesis using 3 small(1) unfolding encode_bytes_def folds by (simp add: parted_Cons)
    next
      case False
      then show ?thesis
        using 3 assms(1) d1 d2 e2 unfolding encode_bytes_def folds by (simp add: parted_Cons) blast
    qed
  next
    case 4
    show ?thesis
    proof (cases "a < 65536")
      case True
      then show ?thesis using 4 small unfolding encode_bytes_def folds by (auto simp: parted_Cons)
    next
      case False
      then show ?thesis
        using 4 assms(1) d1 d2 d3 e2 e3 unfolding encode_bytes_def folds by (simp add: parted_Cons) blast
    qed
  qed
qed

lemma char_of_less: "a < 256 \<Longrightarrow> b < 256 \<Longrightarrow> (char_of a :: char) < char_of b \<longleftrightarrow> a < (b :: nat)"
  by (simp add: less_char_def)

lemma encode_parted:
  assumes "scalar_value a" "scalar_value b" "a < b"
  shows "parted (map char_of (encode_bytes a) :: char list) (map char_of (encode_bytes b))"
proof -
  obtain q x y u v where split: "encode_bytes a = q @ x # u" "encode_bytes b = q @ y # v" "x < y"
    using encode_bytes_parted [OF assms(3) scalar_value_le [OF assms(2)]] by (auto simp: parted_def)
  have "x < 256" "y < 256"
    using encode_bytes_small [OF assms(1)] encode_bytes_small [OF assms(2)] split by auto
  then show ?thesis
    unfolding parted_def split using split(3) char_of_less by (metis list.simps(9) map_append)
qed

lemma parted_not_prefix: "parted xs ys \<Longrightarrow> ys @ us \<noteq> xs @ vs"
  by (auto simp: parted_def)

lemma utf8_parted:
  assumes "scalar_value a" "scalar_value b" "a < b"
  shows "utf8 (p @ a # us) < utf8 (p @ b # vs)"
  using parted_less [OF encode_parted [OF assms]] by (simp add: less_append_same)

lemma encode_nonempty [simp]: "encode_bytes c \<noteq> []"
  by (simp add: encode_bytes_def)

lemma utf8_proper_prefix: "us \<noteq> [] \<Longrightarrow> utf8 cs < utf8 (cs @ us)"
proof -
  assume "us \<noteq> []"
  then have "[] < utf8 us" by (cases us; cases "utf8 us") auto
  then show ?thesis using less_append_same [of "utf8 cs" "[]" "utf8 us"] by simp
qed

end
