(* ===== verification/Log_Filter.thy ===== *)
theory Log_Filter
  imports Utf8 Coordinates
begin

text \<open>
  The filter of a cross-stream read and the range of a stream-name prefix:
  \<open>crates/eventsdb-core/src/log.rs\<close>. A filter narrows along four axes; \<open>stream_prefix_bound\<close> turns a
  prefix into the upper end of a range of names.
\<close>

record filter =
  filter_kinds :: "rust_string list option"
  filter_streams :: "rust_string list option"
  filter_meta :: "(rust_string \<times> json) list option"
  filter_prefix :: "rust_string option"

definition filter_all :: filter where
  "filter_all = \<lparr> filter_kinds = None, filter_streams = None, filter_meta = None, filter_prefix = None \<rparr>"

definition with_kinds :: "rust_string list \<Rightarrow> filter" where
  "with_kinds kinds = filter_all\<lparr>filter_kinds := Some kinds\<rparr>"

definition with_meta :: "rust_string \<Rightarrow> json \<Rightarrow> filter \<Rightarrow> filter" where
  "with_meta key v f =
     f\<lparr>filter_meta := Some ((case filter_meta f of None \<Rightarrow> [] | Some pairs \<Rightarrow> pairs) @ [(key, v)])\<rparr>"

definition with_stream :: "rust_string \<Rightarrow> filter \<Rightarrow> filter" where
  "with_stream stream f = f\<lparr>filter_streams := Some [stream]\<rparr>"

definition with_streams :: "rust_string list \<Rightarrow> filter \<Rightarrow> filter" where
  "with_streams streams f = f\<lparr>filter_streams := Some streams\<rparr>"

definition with_prefix :: "rust_string \<Rightarrow> filter \<Rightarrow> filter" where
  "with_prefix p f = f\<lparr>filter_prefix := Some p\<rparr>"

fun validate_pairs :: "(rust_string \<times> json) list \<Rightarrow> unit result" where
  "validate_pairs [] = Inr ()"
| "validate_pairs ((key, v) # rest) =
     (case v of
        JString _ \<Rightarrow> validate_pairs rest
      | JNumber _ \<Rightarrow> validate_pairs rest
      | JBool _ \<Rightarrow> validate_pairs rest
      | JNull \<Rightarrow> Inl (Validation (Query (FilterMetaNull key)))
      | other \<Rightarrow> Inl (Validation (Query (FilterMetaNotScalar key (type_name other)))))"

definition filter_validate :: "filter \<Rightarrow> unit result" where
  "filter_validate f = validate_pairs (case filter_meta f of None \<Rightarrow> [] | Some pairs \<Rightarrow> pairs)"

definition selects_nothing :: "filter \<Rightarrow> bool" where
  "selects_nothing f \<longleftrightarrow> filter_kinds f = Some [] \<or> filter_streams f = Some []"

section \<open>The bound of a prefix\<close>

text \<open>\<open>char::from_u32\<close> answers with a scalar value or not at all.\<close>

definition from_u32 :: "nat \<Rightarrow> nat option" where
  "from_u32 n = (if scalar_value n then Some n else None)"

definition next_scalar :: "nat \<Rightarrow> nat option" where
  "next_scalar c =
     (if c = CHAR_MAX then None
      else if c = 55295 then from_u32 57344
      else from_u32 (c + 1))"

text \<open>The characters of the prefix from the last to the first; what stands before one is kept.\<close>

fun bound_from :: "nat list \<Rightarrow> rust_string option" where
  "bound_from [] = None"
| "bound_from (ch # before) =
     (case next_scalar ch of
        Some next \<Rightarrow> Some (utf8 (rev before) @ utf8 [next])
      | None \<Rightarrow> bound_from before)"

definition stream_prefix_bound :: "rust_string \<Rightarrow> rust_string option" where
  "stream_prefix_bound p = bound_from (rev (chars p))"

lemma validate_pairs_iff: "validate_pairs pairs = Inr () \<longleftrightarrow> (\<forall>p \<in> set pairs. is_scalar (snd p))"
  by (induction pairs rule: validate_pairs.induct) (auto split: json.splits)

lemma next_scalar_Some:
  assumes "next_scalar c = Some d" and "scalar_value c"
  shows "scalar_value d" and "c < d" and "scalar_value x \<Longrightarrow> c < x \<Longrightarrow> d \<le> x"
  using assms by (auto simp: next_scalar_def from_u32_def scalar_value_def CHAR_MAX_def split: if_splits)

lemma next_scalar_None: "next_scalar c = None \<Longrightarrow> scalar_value c \<Longrightarrow> c = CHAR_MAX"
  by (auto simp: next_scalar_def from_u32_def scalar_value_def CHAR_MAX_def split: if_splits)

lemma bound_from_cases:
  assumes "\<forall>c \<in> set cs. scalar_value c"
  shows "(bound_from (rev cs) = None \<and> (\<forall>c \<in> set cs. c = CHAR_MAX))
     \<or> (\<exists>q c d m. cs = q @ c # m \<and> (\<forall>c \<in> set m. c = CHAR_MAX) \<and> next_scalar c = Some d
          \<and> bound_from (rev cs) = Some (utf8 (q @ [d])))"
  using assms
proof (induction cs rule: rev_induct)
  case (snoc c cs)
  show ?case
  proof (cases "next_scalar c")
    case None
    then have max: "c = CHAR_MAX" and step: "bound_from (rev (cs @ [c])) = bound_from (rev cs)"
      using next_scalar_None snoc.prems by simp_all
    have "\<forall>c \<in> set cs. scalar_value c" using snoc.prems by simp
    from snoc.IH [OF this] show ?thesis
    proof
      assume "bound_from (rev cs) = None \<and> (\<forall>c \<in> set cs. c = CHAR_MAX)"
      then show ?thesis using max step by auto
    next
      assume "\<exists>q c d m. cs = q @ c # m \<and> (\<forall>c \<in> set m. c = CHAR_MAX) \<and> next_scalar c = Some d
          \<and> bound_from (rev cs) = Some (utf8 (q @ [d]))"
      then obtain q c' d m where "cs = q @ c' # m" "\<forall>c \<in> set m. c = CHAR_MAX" "next_scalar c' = Some d"
        "bound_from (rev cs) = Some (utf8 (q @ [d]))" by blast
      then have "cs @ [c] = q @ c' # (m @ [c]) \<and> (\<forall>c \<in> set (m @ [c]). c = CHAR_MAX)
          \<and> next_scalar c' = Some d \<and> bound_from (rev (cs @ [c])) = Some (utf8 (q @ [d]))"
        using max step by simp
      then show ?thesis by blast
    qed
  next
    case (Some d)
    then show ?thesis
      by (intro disjI2 exI [of _ cs], intro exI [of _ c] exI [of _ d] exI [of _ "[]"]) simp
  qed
qed simp

text \<open>Two strings of scalar values: one is the beginning of the other, or they part at a character.\<close>

lemma compare_strings:
  obtains (extends) us where "n = p @ us"
  | (shorter) us where "us \<noteq> []" "p = n @ us"
  | (parts) r a b us vs where "n = r @ a # us" "p = r @ b # vs" "a \<noteq> b"
proof -
  have "(\<exists>us. n = p @ us) \<or> (\<exists>us. us \<noteq> [] \<and> p = n @ us)
      \<or> (\<exists>r a b us vs. n = r @ a # us \<and> p = r @ b # vs \<and> a \<noteq> b)"
  proof (induction n arbitrary: p)
    case Nil
    then show ?case by auto
  next
    case (Cons a n)
    show ?case
    proof (cases p)
      case (Cons b p')
      show ?thesis
      proof (cases "a = b")
        case True
        then show ?thesis using Cons.IH [of p'] Cons
          by (metis append_Cons)
      next
        case False
        then show ?thesis using Cons by (metis append_Nil)
      qed
    qed simp
  qed
  then show ?thesis using that by blast
qed

lemma utf8_less_cases:
  assumes "\<forall>c \<in> set n. scalar_value c" "\<forall>c \<in> set p. scalar_value c" "utf8 p \<le> utf8 n"
  shows "(\<exists>us. n = p @ us) \<or> (\<exists>r a b us vs. n = r @ a # us \<and> p = r @ b # vs \<and> b < a)"
proof (cases rule: compare_strings [of n p])
  case (shorter us)
  then have "utf8 n < utf8 p" using utf8_proper_prefix by simp
  then show ?thesis using assms(3) by simp
next
  case (parts r a b us vs)
  have "\<not> a < b"
  proof
    assume "a < b"
    then have "utf8 n < utf8 p" using utf8_parted parts assms(1,2) by simp
    then show False using assms(3) by simp
  qed
  then show ?thesis using parts by force
qed blast

text \<open>What the range promises, on scalar values.\<close>

lemma prefixed_in_range:
  assumes p: "\<forall>c \<in> set p. scalar_value c"
  shows "utf8 p \<le> utf8 (p @ us) \<and> (case bound_from (rev p) of None \<Rightarrow> True | Some b \<Rightarrow> utf8 (p @ us) < b)"
proof
  show "utf8 p \<le> utf8 (p @ us)"
    using utf8_proper_prefix [of us p] by (cases "us = []") (auto intro: less_imp_le)
  from bound_from_cases [OF p] show "case bound_from (rev p) of None \<Rightarrow> True | Some b \<Rightarrow> utf8 (p @ us) < b"
  proof
    assume "\<exists>q c d m. p = q @ c # m \<and> (\<forall>c \<in> set m. c = CHAR_MAX) \<and> next_scalar c = Some d
          \<and> bound_from (rev p) = Some (utf8 (q @ [d]))"
    then obtain q c d m where b: "p = q @ c # m" "next_scalar c = Some d"
      "bound_from (rev p) = Some (utf8 (q @ [d]))" by blast
    have "scalar_value c" using p b(1) by simp
    then have "utf8 (q @ c # (m @ us)) < utf8 (q @ d # [])"
      using next_scalar_Some(1,2) [OF b(2)] by (intro utf8_parted)
    then show ?thesis using b by simp
  qed simp
qed

text \<open>A name that parts from the prefix upwards is at the bound or beyond it.\<close>

lemma parted_beyond_bound:
  assumes p: "p = q @ c # m" "\<forall>c \<in> set m. c = CHAR_MAX" "next_scalar c = Some d" "scalar_value c"
    and at: "p = r @ y # vs" "y < a" and sv: "scalar_value a" "scalar_value y"
  shows "\<not> utf8 (r @ a # us) < utf8 (q @ [d])"
proof
  assume below: "utf8 (r @ a # us) < utf8 (q @ [d])"
  have not_max: "y \<noteq> CHAR_MAX" using scalar_value_le [OF sv(1)] at(2) by simp
  note d = next_scalar_Some [OF p(3,4)]
  have "r @ y # vs = q @ c # m" using at(1) p(1) by simp
  then consider ws where "q = r @ y # ws" | "r = q" "y = c" | ws where "r = q @ c # ws" "m = ws @ y # vs"
    by (auto simp: append_eq_append_conv2 append_eq_Cons_conv Cons_eq_append_conv)
  then show False
  proof cases
    case (1 ws)
    then have "utf8 (r @ y # (ws @ [d])) < utf8 (r @ a # us)" using utf8_parted [OF sv(2,1) at(2), of r "ws @ [d]" us] by simp
    then show False using below 1 by simp
  next
    case 2
    then have "d \<le> a" using d(3) [OF sv(1)] at(2) by simp
    then consider "d = a" | "d < a" by linarith
    then show False
    proof cases
      case 1
      then have "utf8 (q @ [d]) \<le> utf8 (r @ a # us)"
        using utf8_proper_prefix [of us "q @ [d]"] 2 by (cases "us = []") (auto intro: less_imp_le)
      then show False using below by simp
    next
      assume "d < a"
      then have "utf8 (q @ d # []) < utf8 (q @ a # us)" using d(1) sv(1) by (intro utf8_parted) simp_all
      then show False using below 2 by simp
    qed
  next
    case (3 ws)
    then show False using p(2) not_max by simp
  qed
qed

lemma prefix_range:
  assumes n: "\<forall>c \<in> set n. scalar_value c" and p: "\<forall>c \<in> set p. scalar_value c"
  shows "(utf8 p \<le> utf8 n \<and> (case bound_from (rev p) of None \<Rightarrow> True | Some b \<Rightarrow> utf8 n < b))
     \<longleftrightarrow> (\<exists>us. n = p @ us)"
proof
  assume range: "utf8 p \<le> utf8 n \<and> (case bound_from (rev p) of None \<Rightarrow> True | Some b \<Rightarrow> utf8 n < b)"
  show "\<exists>us. n = p @ us"
  proof (rule ccontr)
    assume "\<nexists>us. n = p @ us"
    then obtain r a y us vs where at: "n = r @ a # us" "p = r @ y # vs" "y < a"
      using utf8_less_cases [OF n p] range by blast
    have sv: "scalar_value a" "scalar_value y" using n p at by simp_all
    from bound_from_cases [OF p] show False
    proof
      assume "bound_from (rev p) = None \<and> (\<forall>c \<in> set p. c = CHAR_MAX)"
      then show False using at(2,3) scalar_value_le [OF sv(1)] by simp
    next
      assume "\<exists>q c d m. p = q @ c # m \<and> (\<forall>c \<in> set m. c = CHAR_MAX) \<and> next_scalar c = Some d
          \<and> bound_from (rev p) = Some (utf8 (q @ [d]))"
      then obtain q c d m where b: "p = q @ c # m" "\<forall>c \<in> set m. c = CHAR_MAX" "next_scalar c = Some d"
        "bound_from (rev p) = Some (utf8 (q @ [d]))" by blast
      have c: "scalar_value c" using p b(1) by simp
      show False using parted_beyond_bound [OF b(1-3) c at(2,3) sv] range at(1) b(4) by simp
    qed
  qed
qed (use prefixed_in_range [OF p] in blast)

lemma utf8_prefix_iff:
  assumes "\<forall>c \<in> set n. scalar_value c" and "\<forall>c \<in> set p. scalar_value c"
  shows "prefix (utf8 p) (utf8 n) \<longleftrightarrow> (\<exists>us. n = p @ us)"
proof
  assume pre: "prefix (utf8 p) (utf8 n)"
  then obtain zs where zs: "utf8 n = utf8 p @ zs" by (auto simp: prefix_def)
  then have "utf8 p \<le> utf8 n"
    using less_append_same [of "utf8 p" "[]" zs] by (cases zs) (auto simp: less_imp_le)
  from utf8_less_cases [OF assms this] show "\<exists>us. n = p @ us"
  proof (elim disjE exE conjE)
    fix r a b us vs assume at: "n = r @ a # us" "p = r @ b # vs" "b < a"
    have "parted (map char_of (encode_bytes b) :: char list) (map char_of (encode_bytes a))"
      using encode_parted [of b a] assms at by simp
    then show ?thesis
      using zs parted_not_prefix by (auto simp: at)
  qed blast
qed (auto simp: prefix_def)

lemma bound_of_utf8: "\<forall>c \<in> set q. scalar_value c \<Longrightarrow> stream_prefix_bound (utf8 q) = bound_from (rev q)"
  by (simp add: stream_prefix_bound_def chars_utf8)

lemma stream_prefix_range:
  assumes "is_utf8 name" and "is_utf8 p"
  shows "(p \<le> name \<and> (case stream_prefix_bound p of None \<Rightarrow> True | Some bound \<Rightarrow> name < bound)) = prefix p name"
proof -
  obtain n q where n: "name = utf8 n" "\<forall>c \<in> set n. scalar_value c" and q: "p = utf8 q" "\<forall>c \<in> set q. scalar_value c"
    using assms by (auto simp: is_utf8_def)
  show ?thesis
    using prefix_range [OF n(2) q(2)] utf8_prefix_iff [OF n(2) q(2)]
    unfolding n(1) q(1) bound_of_utf8 [OF q(2)] by simp
qed

text \<open>
  C37. The range of a prefix is exact. For names and prefixes that are UTF-8, compared byte by byte as
  SQLite's \<open>BINARY\<close> collation does, a name lies in the range from the prefix up to
  \<open>stream_prefix_bound\<close> precisely when its first bytes are the prefix, whatever characters the prefix
  ends in; a prefix without a bound, the empty one or one of \<open>char::MAX\<close> alone, is open above. And the
  bound is itself UTF-8, so it can be bound as text.
\<close>

theorem stream_prefix_bound_exact:
  assumes "is_utf8 name" and "is_utf8 p"
  shows "(p \<le> name \<and> (case stream_prefix_bound p of None \<Rightarrow> True | Some bound \<Rightarrow> name < bound))
       = prefix p name
     \<and> (case stream_prefix_bound p of None \<Rightarrow> True | Some bound \<Rightarrow> is_utf8 bound)"
proof -
  obtain q where q: "p = utf8 q" "\<forall>c \<in> set q. scalar_value c"
    using assms(2) by (auto simp: is_utf8_def)
  have "case bound_from (rev q) of None \<Rightarrow> True | Some bound \<Rightarrow> is_utf8 bound"
    using bound_from_cases [OF q(2)]
  proof
    assume "\<exists>r c d m. q = r @ c # m \<and> (\<forall>c \<in> set m. c = CHAR_MAX) \<and> next_scalar c = Some d
          \<and> bound_from (rev q) = Some (utf8 (r @ [d]))"
    then obtain r c d m where b: "q = r @ c # m" "next_scalar c = Some d" "bound_from (rev q) = Some (utf8 (r @ [d]))"
      by blast
    have "\<forall>c \<in> set (r @ [d]). scalar_value c"
      using q(2) b(1) next_scalar_Some(1) [OF b(2)] by auto
    from is_utf8I [OF this] show ?thesis using b(3) by simp
  qed simp
  then show ?thesis
    using stream_prefix_range [OF assms] by (simp add: q(1) bound_of_utf8 [OF q(2)])
qed

theorem stream_prefix_bound_exact_witness:
  "stream_prefix_bound ''a-'' = Some ''a.''
     \<and> (''a-'' \<le> ''a-7'' \<and> ''a-7'' < ''a.'') = prefix ''a-'' ''a-7''"
proof -
  have chars: "map char_of [97, 45, 55 :: nat] = ''a-7''" "map char_of [97, 45 :: nat] = ''a-''"
    "map char_of [97, 46 :: nat] = ''a.''"
    by code_simp+
  have bound: "stream_prefix_bound ''a-'' = Some ''a.''"
    using chars(3) by (simp add: stream_prefix_bound_def chars_def next_scalar_def from_u32_def
        scalar_value_def CHAR_MAX_def encode_bytes_def)
  have "utf8 [97, 45, 55] = ''a-7''" "utf8 [97, 45] = ''a-''"
    using chars(1,2) by (simp_all add: encode_bytes_def)
  moreover have "\<forall>c \<in> set [97, 45, 55 :: nat]. scalar_value c" "\<forall>c \<in> set [97, 45 :: nat]. scalar_value c"
    by (simp_all add: scalar_value_def)
  ultimately have u: "is_utf8 ''a-7''" "is_utf8 ''a-''"
    using is_utf8I by metis+
  show ?thesis using stream_prefix_bound_exact [OF u] bound by simp
qed

end
