(* ===== verification/Sqlite_Log.thy ===== *)
theory Sqlite_Log
  imports Sqlite_Store Log_Filter
begin

text \<open>
  The database-level backend: \<open>crates/eventsdb-sqlite/src/log.rs\<close>. The cross-stream read and the
  statement it builds, the checkpoints, the head, the \<open>meta\<close> expression with its index name, and the
  opening of a log. The page loop behind \<open>replay\<close> and \<open>subscribe\<close> is in the theory \<open>Paging\<close>.
\<close>

definition DEFAULT_READERS :: usize where "DEFAULT_READERS = 2"
definition DEFAULT_POLL_INTERVAL :: u64 where "DEFAULT_POLL_INTERVAL = 100"
definition DEFAULT_BUSY_TIMEOUT :: u64 where "DEFAULT_BUSY_TIMEOUT = 5000"

section \<open>The \<open>meta\<close> predicate\<close>

text \<open>
  \<open>meta_expr\<close> is SQL text, \<open>json_extract(meta, '$."key"')\<close> with a quote in the key doubled. What SQLite
  reads as the second argument is the string between the quotes with each doubled quote as one,
  \<open>literal_value\<close>; the predicate evaluates \<open>json_extract\<close> on it.
\<close>

abbreviation quote :: char where "quote \<equiv> CHR 0x27"
abbreviation dquote :: char where "dquote \<equiv> CHR 0x22"

definition double_quotes :: "rust_string \<Rightarrow> rust_string" where
  "double_quotes s = concat (map (\<lambda>c. if c = quote then [quote, quote] else [c]) s)"

definition meta_expr :: "rust_string \<Rightarrow> rust_string result" where
  "meta_expr key =
     (if key = [] then Inl (Validation (Query EmptyMetaKey))
      else if dquote \<in> set key then Inl (Validation (Query (QuotedMetaKey key)))
      else Inr (''json_extract(meta, '' @ [quote] @ ''$.'' @ [dquote] @ double_quotes key @ [dquote, quote] @ '')''))"

fun literal_value :: "rust_string \<Rightarrow> rust_string" where
  "literal_value [] = []"
| "literal_value [c] = (if c = quote then [] else [c])"
| "literal_value (c # c' # cs) =
     (if c = quote then (if c' = quote then quote # literal_value cs else []) else c # literal_value (c' # cs))"

definition meta_path :: "rust_string \<Rightarrow> rust_string" where
  "meta_path key = ''$.'' @ [dquote] @ key @ [dquote]"

definition meta_param :: "ext \<Rightarrow> json \<Rightarrow> sql_value" where
  "meta_param x v =
     (case v of
        JString s \<Rightarrow> SqlText s
      | JBool b \<Rightarrow> SqlInteger (if b then 1 else 0)
      | JNumber n \<Rightarrow> (case number_as_i64 n of Some i \<Rightarrow> SqlInteger i | None \<Rightarrow> SqlReal (as_f64 x n))
      | _ \<Rightarrow> SqlNull)"

text \<open>SQL's \<open>=\<close> as a condition: \<open>NULL\<close> equals nothing, values of different storage classes differ.\<close>

definition sql_equal :: "ext \<Rightarrow> sql_value \<Rightarrow> sql_value \<Rightarrow> bool" where
  "sql_equal x a b =
     (case (a, b) of
        (SqlText s, SqlText t) \<Rightarrow> s = t
      | (SqlBlob s, SqlBlob t) \<Rightarrow> s = t
      | (SqlInteger i, SqlInteger j) \<Rightarrow> i = j
      | (SqlInteger i, SqlReal r) \<Rightarrow> numeric_eq x a b
      | (SqlReal r, SqlInteger i) \<Rightarrow> numeric_eq x a b
      | (SqlReal r, SqlReal q) \<Rightarrow> numeric_eq x a b
      | _ \<Rightarrow> False)"

section \<open>The cross-stream read\<close>

definition MAX_PLACEHOLDERS :: nat where
  "MAX_PLACEHOLDERS = 32766"

definition check_placeholders :: "nat \<Rightarrow> rust_string \<Rightarrow> unit result" where
  "check_placeholders count what =
     (if count > MAX_PLACEHOLDERS then Inl (Unsupported (Query (TooManyPlaceholders count what))) else Inr ())"

definition stored_position :: "position \<Rightarrow> i64 result" where
  "stored_position p =
     (case as_stored p of Some i \<Rightarrow> Inr i | None \<Rightarrow> Inl (Validation (Query (PositionBeyondRange (get p)))))"

fun meta_exprs :: "(rust_string \<times> json) list \<Rightarrow> unit result" where
  "meta_exprs [] = Inr ()"
| "meta_exprs ((key, v) # pairs) = rbind (meta_expr key) (\<lambda>_. meta_exprs pairs)"

definition optional :: "('a \<Rightarrow> unit result) \<Rightarrow> 'a option \<Rightarrow> unit result" where
  "optional check v = (case v of None \<Rightarrow> Inr () | Some a \<Rightarrow> check a)"

text \<open>Building the statement: every reason not to, in the order the code meets them; the bound \<open>from\<close>.\<close>

definition build_read :: "position \<Rightarrow> filter \<Rightarrow> i64 result" where
  "build_read from f =
     rbind (filter_validate f) (\<lambda>_.
     rbind (stored_position from) (\<lambda>at.
     rbind (optional (\<lambda>streams. check_placeholders (length streams) ''streams'') (filter_streams f)) (\<lambda>_.
     rbind (optional (\<lambda>kinds. check_placeholders (length kinds) ''kinds'') (filter_kinds f)) (\<lambda>_.
     rbind (optional (\<lambda>pairs. rbind (check_placeholders (length pairs) ''meta pairs'') (\<lambda>_. meta_exprs pairs))
              (filter_meta f)) (\<lambda>_. Inr at)))))"

text \<open>The statement's \<open>WHERE\<close> beside the position: one condition for each axis that places one.\<close>

definition in_prefix_range :: "rust_string option \<Rightarrow> rust_string \<Rightarrow> bool" where
  "in_prefix_range p stream =
     (case p of
        None \<Rightarrow> True
      | Some p \<Rightarrow> p = [] \<or> (p \<le> stream \<and> (case stream_prefix_bound p of None \<Rightarrow> True | Some bound \<Rightarrow> stream < bound)))"

definition row_matches :: "ext \<Rightarrow> filter \<Rightarrow> event_row \<Rightarrow> bool" where
  "row_matches x f r \<longleftrightarrow>
     kind_in (filter_streams f) (row_stream r)
     \<and> in_prefix_range (filter_prefix f) (row_stream r)
     \<and> kind_in (filter_kinds f) (row_kind r)
     \<and> list_all (\<lambda>(key, v). sql_equal x (json_extract x (row_meta r) (meta_path key)) (meta_param x v))
         (case filter_meta f of None \<Rightarrow> [] | Some pairs \<Rightarrow> pairs)"

definition select_stored :: "ext \<Rightarrow> position \<Rightarrow> filter \<Rightarrow> usize \<Rightarrow> ('m, error, stored_row list) job" where
  "select_stored x from f limit =
     (if selects_nothing f \<or> limit = 0 then jreturn []
      else jbind (jlift (build_read from f)) (\<lambda>at.
        map_err classify (query_map
          (\<lambda>d. sql_limit (clamp_limit limit) (sort_key row_position
             (List.filter (\<lambda>r. row_position r > at \<and> row_matches x f r) (tbl_events d))))
          (read_row x))))"

fun attach :: "stored_row list \<Rightarrow> json list \<Rightarrow> recorded list result" where
  "attach (s # ss) (event # events) =
     rbind (from_upcasted event) (\<lambda>c.
     rbind (attach ss events) (\<lambda>rest.
       Inr (\<lparr> recorded_position = Position (stored_at s), recorded_stream = stored_stream s,
             recorded_event = c \<rparr> # rest)))"
| "attach _ _ = Inr []"

definition select_recorded ::
  "ext \<Rightarrow> upcast_chain \<Rightarrow> position \<Rightarrow> filter \<Rightarrow> usize \<Rightarrow> ('m, error, recorded list) job" where
  "select_recorded x chain from f limit =
     jbind (select_stored x from f limit) (\<lambda>stored.
       jlift (attach stored (apply_chain chain (map stored_event stored))))"

definition read_all :: "ext \<Rightarrow> attempt \<Rightarrow> position \<Rightarrow> filter \<Rightarrow> usize \<Rightarrow> 'm shared \<Rightarrow> recorded list result" where
  "read_all x a from f limit s =
     (if selects_nothing f \<or> limit = 0 then Inr []
      else read_job a (select_recorded x (upcasters s) from f limit) s)"

section \<open>Head and checkpoints\<close>

definition max_position :: "'m database \<Rightarrow> i64" where
  "max_position d = foldr max (map row_position (tbl_events d)) 0"

definition head_position_in :: "('m, error, position) job" where
  "head_position_in = map_err classify (query_row (\<lambda>d. Some (Position (as_u64 (max_position d)))))"

text \<open>\<open>head_position\<close> asks the writer, \<open>head_shared\<close> a reader.\<close>

definition head_position :: "attempt \<Rightarrow> 'm shared \<Rightarrow> position result" where
  "head_position a s = read_job a head_position_in s"

definition head_shared :: "attempt \<Rightarrow> 'm shared \<Rightarrow> position result" where
  "head_shared a s = read_job a head_position_in s"

definition load_checkpoint :: "rust_string \<Rightarrow> ('m, error, position) job" where
  "load_checkpoint consumer =
     or_else (query_row (\<lambda>d. map_option (\<lambda>row. Position (as_u64 (checkpoint_position row)))
                                  (map_of (tbl_checkpoints d) consumer)))
       (\<lambda>e. case e of QueryReturnedNoRows \<Rightarrow> Inr BEGINNING | other \<Rightarrow> Inl (classify other))"

definition upsert_checkpoint :: "rust_string \<Rightarrow> i64 \<Rightarrow> i64 \<Rightarrow> 'm database \<Rightarrow> 'm database" where
  "upsert_checkpoint consumer at now d =
     d\<lparr>tbl_checkpoints := AList.update consumer
          \<lparr> checkpoint_position = at, checkpoint_updated_ms = now \<rparr> (tbl_checkpoints d)\<rparr>"

definition save_checkpoint :: "rust_string \<Rightarrow> position \<Rightarrow> ('m, error, unit) job" where
  "save_checkpoint consumer p =
     jbind (jlift (stored_position p)) (\<lambda>at.
     jbind read_clock (\<lambda>now.
       map_err classify (execute (\<lambda>d. Inr (upsert_checkpoint consumer at (as_i64 now) d)))))"

definition checkpoint_load :: "attempt \<Rightarrow> rust_string \<Rightarrow> 'm shared \<Rightarrow> position result" where
  "checkpoint_load a consumer s = read_job a (load_checkpoint consumer) s"

definition checkpoint_save :: "attempt \<Rightarrow> rust_string \<Rightarrow> position \<Rightarrow> 'm shared \<Rightarrow> unit result \<times> 'm shared" where
  "checkpoint_save a consumer p s = writer_job a (save_checkpoint consumer p) s"

section \<open>The index on a \<open>meta\<close> key\<close>

definition hex_digit :: "nat \<Rightarrow> char" where
  "hex_digit n = (if n < 10 then char_of (48 + n) else char_of (87 + n))"

definition hex :: "rust_string \<Rightarrow> rust_string" where
  "hex s = concat (map (\<lambda>c. [hex_digit (of_char c div 16), hex_digit (of_char c mod 16)]) s)"

text \<open>An ASCII letter, digit or underscore; no byte of another character is one.\<close>

definition plain_char :: "char \<Rightarrow> bool" where
  "plain_char c =
     (let n = of_char c :: nat
      in (48 \<le> n \<and> n \<le> 57) \<or> (65 \<le> n \<and> n \<le> 90) \<or> (97 \<le> n \<and> n \<le> 122) \<or> n = 95)"

definition meta_index_name :: "rust_string \<Rightarrow> rust_string" where
  "meta_index_name key =
     (if list_all plain_char key then ''events_meta_'' @ key else ''events_meta_x'' @ hex key)"

text \<open>
  \<open>index_meta\<close> is \<open>CREATE INDEX IF NOT EXISTS\<close> under that name. SQLite compares identifiers without
  regard to the case of ASCII letters, so the statement does nothing where an index has the name up to
  case. The state is the list of the indexes there are, each a name and its expression.
\<close>

definition ascii_lower :: "char \<Rightarrow> char" where
  "ascii_lower c = (let n = of_char c :: nat in if 65 \<le> n \<and> n \<le> 90 then char_of (n + 32) else c)"

definition same_identifier :: "rust_string \<Rightarrow> rust_string \<Rightarrow> bool" where
  "same_identifier a b \<longleftrightarrow> map ascii_lower a = map ascii_lower b"

definition index_meta ::
  "rust_string \<Rightarrow> (rust_string \<times> rust_string) list \<Rightarrow> (rust_string \<times> rust_string) list result" where
  "index_meta key indexes =
     rbind (meta_expr key) (\<lambda>expr.
       if list_ex (\<lambda>(name, _). same_identifier name (meta_index_name key)) indexes then Inr indexes
       else Inr (indexes @ [(meta_index_name key, expr)]))"

section \<open>Opening\<close>

record open_options =
  option_busy_timeout :: u64
  option_poll_interval :: u64
  option_upcasters :: upcast_chain
  option_readers :: usize

definition default_options :: open_options where
  "default_options = \<lparr> option_busy_timeout = DEFAULT_BUSY_TIMEOUT, option_poll_interval = DEFAULT_POLL_INTERVAL,
     option_upcasters = [], option_readers = DEFAULT_READERS \<rparr>"

text \<open>The last part of opening, after the ladder has run: the published position starts at the head.\<close>

definition finish ::
  "attempt \<Rightarrow> usize \<Rightarrow> rust_string \<Rightarrow> open_options \<Rightarrow> 'm database \<Rightarrow> 'm shared result" where
  "finish a reader_count database options d =
     rmap (\<lambda>p. \<lparr> isle_db = d, readers = reader_count, next_reader = 0, database_id = database,
                 upcasters = option_upcasters options, notify = p,
                 poll_interval = option_poll_interval options, live_runners = {} \<rparr>)
       (fst (isle_call a head_position_in d))"

end
