(* ===== verification/Log_Theorems.thy ===== *)
theory Log_Theorems
  imports Sqlite_Log Stream_Theorems
begin

text \<open>
  What the database-level backend answers: the cross-stream read against an abstract selection on the
  rows, the head, the checkpoints, and the expression and index name of a \<open>meta\<close> key.
\<close>

section \<open>The selection\<close>

text \<open>What a filter means: the prefix axis is the beginning of the name, not a range of names.\<close>

definition selects :: "ext \<Rightarrow> filter \<Rightarrow> event_row \<Rightarrow> bool" where
  "selects x f r \<longleftrightarrow>
     kind_in (filter_streams f) (row_stream r)
     \<and> (case filter_prefix f of None \<Rightarrow> True | Some p \<Rightarrow> prefix p (row_stream r))
     \<and> kind_in (filter_kinds f) (row_kind r)
     \<and> (\<forall>(key, v) \<in> set (case filter_meta f of None \<Rightarrow> [] | Some pairs \<Rightarrow> pairs).
          sql_equal x (json_extract x (row_meta r) (meta_path key)) (meta_param x v))"

definition matching :: "ext \<Rightarrow> filter \<Rightarrow> 'm database \<Rightarrow> event_row list" where
  "matching x f d = List.filter (row_matches x f) (tbl_events d)"

definition row_place :: "event_row \<Rightarrow> position" where
  "row_place r = position_of_stored (row_position r)"

text \<open>A row as a read answers it: its coordinates, and its object after the upcasters.\<close>

definition record_row :: "ext \<Rightarrow> upcast_chain \<Rightarrow> event_row \<Rightarrow> recorded result" where
  "record_row x chain r =
     rmap (\<lambda>c. \<lparr> recorded_position = row_place r, recorded_stream = row_stream r, recorded_event = c \<rparr>)
       (from_upcasted (fold id chain (JObject (row_object x r))))"

definition names_ok :: "'m database \<Rightarrow> filter \<Rightarrow> bool" where
  "names_ok d f \<longleftrightarrow>
     (\<forall>r \<in> set (tbl_events d). is_utf8 (row_stream r))
     \<and> (case filter_prefix f of None \<Rightarrow> True | Some p \<Rightarrow> is_utf8 p)"

lemma selects_iff:
  assumes "is_utf8 (row_stream r)" and "case filter_prefix f of None \<Rightarrow> True | Some p \<Rightarrow> is_utf8 p"
  shows "row_matches x f r = selects x f r"
proof -
  have "in_prefix_range (filter_prefix f) (row_stream r)
      = (case filter_prefix f of None \<Rightarrow> True | Some p \<Rightarrow> prefix p (row_stream r))"
    using assms(2) by (auto simp: in_prefix_range_def simp flip: stream_prefix_range [OF assms(1)] split: option.splits)
  then show ?thesis by (simp add: row_matches_def selects_def list_all_iff)
qed

lemma row_matches_nothing: "selects_nothing f \<Longrightarrow> \<not> row_matches x f r"
  by (auto simp: selects_nothing_def row_matches_def kind_in_def)

section \<open>The statement\<close>

lemma build_read_Inr: "build_read from f = Inr at \<Longrightarrow> at = uint (get from) \<and> at \<le> i64_max"
  by (auto simp: build_read_def stored_position_def result_simps as_stored_Some split: option.splits)

lemma transparent_select_stored [transparent_intros]: "transparent surfaced (select_stored x from f limit)"
  unfolding select_stored_def by (intro transparent_intros)

lemma transparent_select_recorded [transparent_intros]:
  "transparent surfaced (select_recorded x chain from f limit)"
  unfolding select_recorded_def by (intro transparent_intros)

lemma reads_select_stored [reads_intros]: "reads_only (select_stored x from f limit)"
  unfolding select_stored_def by (intro reads_intros)

lemma reads_select_recorded [reads_intros]: "reads_only (select_recorded x chain from f limit)"
  unfolding select_recorded_def by (intro reads_intros)

lemma position_small:
  assumes "db_ok x d" and "r \<in> set (tbl_events d)"
  shows "1 \<le> row_position r" "0 \<le> row_position r" "row_position r \<le> i64_max"
  using db_ok_row [OF assms] db_ok_auto [OF assms(1)] by (auto simp: row_ok_def)

lemma position_above:
  assumes "db_ok x d" and "r \<in> set (tbl_events d)"
  shows "from < row_place r \<longleftrightarrow> uint (get from) < row_position r"
  using position_small [OF assms]
  by (simp add: row_place_def position_of_stored_def position_less_uint uint_as_u64)

lemma matching_subset: "set (matching x f d) \<subseteq> set (tbl_events d)"
  by (auto simp: matching_def)

lemma matching_sorted:
  "db_ok x d \<Longrightarrow> sorted_wrt (<) (map row_position (matching x f d))"
  unfolding matching_def by (intro sorted_wrt_filter_map) (simp add: db_ok_def)

lemma place_sorted:
  assumes "db_ok x d"
  shows "sorted_wrt (<) (map row_place (tbl_events d))"
proof -
  have "sorted_wrt (\<lambda>r r'. row_position r < row_position r') (tbl_events d)"
    using assms by (simp add: db_ok_def sorted_wrt_map)
  moreover have "row_position r < row_position r' \<Longrightarrow> row_place r < row_place r'"
    if "r \<in> set (tbl_events d)" "r' \<in> set (tbl_events d)" for r r'
    using that position_small [OF assms] by (simp add: row_place_def position_of_stored_less)
  ultimately show ?thesis
    unfolding sorted_wrt_map by (rule sorted_wrt_mono_rel [rotated]) blast
qed

lemma matching_place_sorted: "db_ok x d \<Longrightarrow> sorted_wrt (<) (map row_place (matching x f d))"
  unfolding matching_def by (intro sorted_wrt_filter_map place_sorted)

text \<open>The rows above a position, as an exclusive cursor and as SQLite's condition.\<close>

lemma rows_above:
  assumes "db_ok x d"
  shows "List.filter (\<lambda>r. row_position r > uint (get from) \<and> row_matches x f r) (tbl_events d)
       = List.filter (\<lambda>r. from < row_place r) (matching x f d)"
  using position_above [OF assms]
  unfolding matching_def by (auto simp: conj_commute intro!: filter_cong)

definition stored_of :: "ext \<Rightarrow> event_row \<Rightarrow> stored_row" where
  "stored_of x r = \<lparr> stored_at = as_u64 (row_position r), stored_stream = row_stream r,
     stored_event = JObject (row_object x r) \<rparr>"

lemma select_stored_calm:
  assumes "faults c = []" and ok: "db_ok x (conn_db c)"
  shows "select_stored x from f limit c =
     ((if selects_nothing f \<or> limit = 0 then Inr []
       else rmap (\<lambda>_. map (stored_of x) (take (unat limit)
              (List.filter (\<lambda>r. from < row_place r) (matching x f (conn_db c))))) (build_read from f)), c)"
proof (cases "build_read from f")
  case (Inl e)
  then show ?thesis by (simp add: select_stored_def job_simps)
next
  case (Inr at)
  let ?d = "conn_db c"
  let ?rows = "List.filter (\<lambda>r. from < row_place r) (matching x f ?d)"
  have rows: "List.filter (\<lambda>r. row_position r > at \<and> row_matches x f r) (tbl_events ?d) = ?rows"
    using rows_above [OF ok] build_read_Inr [OF Inr] by simp
  have sorted: "sort_key row_position ?rows = ?rows"
    using sorted_wrt_filter_map [OF matching_sorted [OF ok]]
    by (intro sort_key_id_if_sorted strict_sorted_imp_sorted)
  have "length ?rows \<le> length (tbl_events ?d)"
    unfolding matching_def by (intro order_trans [OF length_filter_le] length_filter_le)
  then have limit: "sql_limit (clamp_limit limit) ?rows = take (unat limit) ?rows"
    using length_events [OF ok] by (intro sql_limit_clamp) linarith
  have "readable x r" if "r \<in> set (take (unat limit) ?rows)" for r
    using in_set_takeD [OF that] matching_subset [of x f ?d] db_ok_row [OF ok, of r]
    by (auto simp: row_ok_def)
  then have "traverse (read_row x) (take (unat limit) ?rows) = Inr (map (stored_of x) (take (unat limit) ?rows))"
    by (intro traverse_pure) (simp add: read_row_readable stored_of_def)
  then show ?thesis
    using assms(1) Inr by (simp add: select_stored_def job_simps rows sorted limit del: filter_filter)
qed

lemma attach_stored_of:
  "attach (map (stored_of x) rows) (apply_chain chain (map stored_event (map (stored_of x) rows)))
     = traverse (record_row x chain) rows"
  unfolding map_map
proof (induction rows)
  case (Cons r rows)
  then show ?case
    by (cases "from_upcasted (fold id chain (JObject (row_object x r)))";
        cases "traverse (record_row x chain) rows")
      (simp_all add: apply_chain_map record_row_def stored_of_def row_place_def position_of_stored_def)
qed (simp add: apply_chain_map)

lemma select_recorded_calm:
  assumes "faults c = []" and ok: "db_ok x (conn_db c)"
  shows "select_recorded x chain from f limit c =
     ((if selects_nothing f \<or> limit = 0 then Inr []
       else rbind (build_read from f) (\<lambda>_. traverse (record_row x chain) (take (unat limit)
              (List.filter (\<lambda>r. from < row_place r) (matching x f (conn_db c)))))), c)"
  using attach_stored_of [of x _ chain]
  unfolding select_recorded_def job_calm(1) select_stored_calm [OF assms]
  by (cases "build_read from f") (simp_all add: job_simps)

section \<open>Reading across streams\<close>

lemma reads_head [reads_intros]: "reads_only head_position_in"
  unfolding head_position_in_def by (intro reads_intros)

lemma transparent_head [transparent_intros]: "transparent surfaced head_position_in"
  unfolding head_position_in_def by (intro transparent_intros)

text \<open>What a read of the log answers, over the tables.\<close>

definition log_page ::
  "ext \<Rightarrow> upcast_chain \<Rightarrow> position \<Rightarrow> filter \<Rightarrow> nat \<Rightarrow> 'm database \<Rightarrow> recorded list result" where
  "log_page x chain from f limit d =
     traverse (record_row x chain) (take limit (List.filter (\<lambda>r. from < row_place r) (matching x f d)))"

lemma calm_run_select_recorded:
  assumes "db_ok x d" and "build_read from f = Inr at"
  shows "calm_run (select_recorded x chain from f limit) ts d = (log_page x chain from f (unat limit) d, d)"
proof -
  have "List.filter (\<lambda>r. from < row_place r) (matching x f d) = []" if "selects_nothing f"
    using row_matches_nothing [OF that] by (simp add: matching_def)
  then show ?thesis
    using assms by (simp add: calm_run_def select_recorded_calm log_page_def)
qed

lemma read_all_calm:
  assumes "db_ok x (isle_db s)" and "build_read from f = Inr at"
  shows "read_all x (calm_at t) from f limit s = log_page x (upcasters s) from f (unat limit) (isle_db s)"
proof -
  have "log_page x (upcasters s) from f (unat limit) (isle_db s) = Inr []" if "selects_nothing f \<or> limit = 0"
    using row_matches_nothing that by (auto simp: log_page_def matching_def)
  then show ?thesis
    using calm_run_select_recorded [OF assms] by (auto simp: read_all_def read_job_def isle_call_calm_at)
qed

lemma read_all_outcome:
  assumes "db_ok x (isle_db s)" and "build_read from f = Inr at"
  shows "(\<exists>e. read_all x a from f limit s = Inl e \<and> isle_surfaced e)
     \<or> read_all x a from f limit s = log_page x (upcasters s) from f (unat limit) (isle_db s)"
proof (cases "selects_nothing f \<or> limit = 0")
  case True
  then show ?thesis using read_all_calm [OF assms, of undefined limit] by (simp add: read_all_def)
next
  case False
  then show ?thesis
    using read_job_calm_or_fault [OF transparent_select_recorded atomic_reads_only [OF reads_select_recorded],
        of a x "upcasters s" "from" f limit s] calm_run_select_recorded [OF assms]
    by (simp add: read_all_def)
qed

text \<open>
  C15. A cross-stream read is exact. It answers the rows above the cursor that the filter selects, in
  position order, no more than the limit of them and none left out before the last, each with its
  coordinates and its object as the upcasters leave it; the prefix axis, which the statement asks as a
  range of names, selects the streams whose name begins with the prefix. A failure of SQLite or the
  connection thread makes it an error of theirs, never a partial answer.
\<close>

theorem read_all_answers_the_selection:
  assumes "db_ok x (isle_db s)" and "names_ok (isle_db s) f" and "build_read from f = Inr at"
  shows "sorted_wrt (<) (map row_place (tbl_events (isle_db s)))
     \<and> read_all x (calm_at t) from f limit s
       = traverse (record_row x (upcasters s)) (take (unat limit)
           (List.filter (\<lambda>r. from < row_place r \<and> selects x f r) (tbl_events (isle_db s))))
     \<and> ((\<exists>e. read_all x a from f limit s = Inl e \<and> isle_surfaced e)
        \<or> read_all x a from f limit s = read_all x (calm_at t) from f limit s)"
proof -
  have "List.filter (\<lambda>r. from < row_place r) (matching x f (isle_db s))
      = List.filter (\<lambda>r. from < row_place r \<and> selects x f r) (tbl_events (isle_db s))"
    using assms(2) selects_iff by (auto simp: matching_def names_ok_def conj_commute intro!: filter_cong)
  then show ?thesis
    using read_all_calm [OF assms(1,3), of _ limit] place_sorted [OF assms(1)]
      read_all_outcome [OF assms(1,3), of a limit] by (simp add: log_page_def)
qed

lemma is_utf8_ascii:
  assumes "\<forall>c \<in> set s. of_char c < (128 :: nat)"
  shows "is_utf8 s"
proof -
  have "utf8 (map of_char s) = s"
    using assms by (induction s) (simp_all add: encode_bytes_def)
  moreover have "\<forall>c \<in> set (map of_char s :: nat list). scalar_value c"
    using assms by (auto simp: scalar_value_def)
  ultimately show ?thesis by (metis is_utf8I)
qed

theorem read_all_answers_the_selection_witness:
  "read_all toy_ext (calm_at 0) BEGINNING (with_prefix ''s'' filter_all) 10 (sample_log one_event_db)
     = traverse (record_row toy_ext []) (take 10
         (List.filter (\<lambda>r. BEGINNING < row_place r \<and> selects toy_ext (with_prefix ''s'' filter_all) r)
           (tbl_events one_event_db)))"
proof -
  have "is_utf8 ''s''" by (rule is_utf8_ascii) simp
  then have "names_ok (isle_db (sample_log one_event_db)) (with_prefix ''s'' filter_all)"
    by (simp add: names_ok_def one_event_db_def with_prefix_def filter_all_def)
  moreover have "build_read BEGINNING (with_prefix ''s'' filter_all) = Inr 0"
    by (simp add: build_read_def filter_validate_def with_prefix_def filter_all_def stored_position_def
        as_stored_def BEGINNING_def i64_try_from_def i64_max_def optional_def)
  ultimately show ?thesis
    using read_all_answers_the_selection [of toy_ext "sample_log one_event_db"] by simp
qed

section \<open>What a read refuses\<close>

lemma meta_exprs_iff:
  "meta_exprs pairs = Inr () \<longleftrightarrow> (\<forall>p \<in> set pairs. fst p \<noteq> [] \<and> dquote \<notin> set (fst p))"
  by (induction pairs rule: meta_exprs.induct) (auto simp: result_simps meta_expr_def)

lemma check_placeholders_iff: "check_placeholders n what = Inr () \<longleftrightarrow> n \<le> 32766"
  by (auto simp: check_placeholders_def MAX_PLACEHOLDERS_def)

lemma optional_iff: "optional check v = Inr () \<longleftrightarrow> (\<forall>a. v = Some a \<longrightarrow> check a = Inr ())"
  by (auto simp: optional_def split: option.splits)

lemma stored_position_iff: "stored_position p = Inr at \<longleftrightarrow> uint (get p) = at \<and> at \<le> i64_max"
  by (auto simp: stored_position_def as_stored_def i64_try_from_def)

lemma rbind_unit: "rbind m (\<lambda>_. r) = Inr v \<longleftrightarrow> m = Inr () \<and> r = Inr v" for m :: "'e + unit"
  by (auto simp: result_simps)

lemma filter_validate_iff:
  "filter_validate f = Inr () \<longleftrightarrow> (\<forall>pairs. filter_meta f = Some pairs \<longrightarrow> (\<forall>p \<in> set pairs. is_scalar (snd p)))"
  by (cases "filter_meta f") (simp_all add: filter_validate_def validate_pairs_iff)

text \<open>
  A read is refused exactly for what it cannot ask, and before SQLite sees it: a \<open>meta\<close> value that
  is no scalar, a position above SQLite's signed range (which would wrap below zero and read
  everything), a list longer than the statement has placeholders for, a \<open>meta\<close> key that is empty or
  contains a double quote. Every other read is asked, from the position as it was given.
\<close>

theorem build_read_accepts_exactly_what_it_can_ask:
  "build_read from f = Inr at \<longleftrightarrow>
     uint (get from) = at \<and> at \<le> i64_max
     \<and> (\<forall>streams. filter_streams f \<noteq> Some streams \<or> length streams \<le> 32766)
     \<and> (\<forall>kinds. filter_kinds f \<noteq> Some kinds \<or> length kinds \<le> 32766)
     \<and> (\<forall>pairs. filter_meta f \<noteq> Some pairs \<or> length pairs \<le> 32766
          \<and> list_all (\<lambda>(key, v). is_scalar v \<and> key \<noteq> [] \<and> dquote \<notin> set key) pairs)"
proof -
  have "build_read from f = Inr at \<longleftrightarrow>
      filter_validate f = Inr () \<and> stored_position from = Inr at
      \<and> (\<forall>a. filter_streams f = Some a \<longrightarrow> length a \<le> 32766)
      \<and> (\<forall>a. filter_kinds f = Some a \<longrightarrow> length a \<le> 32766)
      \<and> (\<forall>a. filter_meta f = Some a \<longrightarrow> length a \<le> 32766 \<and> meta_exprs a = Inr ())"
    unfolding build_read_def rbind_unit optional_iff check_placeholders_iff
    by (auto simp: result_simps rbind_unit optional_iff check_placeholders_iff)
  then show ?thesis
    by (auto simp: filter_validate_iff meta_exprs_iff stored_position_iff list_all_iff split_beta)
qed

section \<open>Head and checkpoints\<close>

text \<open>The highest position there is, zero on an empty log.\<close>

definition newest :: "'m database \<Rightarrow> i64" where
  "newest d = (if tbl_events d = [] then 0 else row_position (last (tbl_events d)))"

lemma foldr_max_from:
  fixes xs :: "'a :: linorder list"
  shows "sorted_wrt (<) xs \<Longrightarrow> xs \<noteq> [] \<Longrightarrow> z \<le> last xs \<Longrightarrow> foldr max xs z = last xs"
proof (induction xs)
  case (Cons y ys)
  then show ?case
    by (cases "ys = []") (auto simp: max.absorb1 max.absorb2 intro: less_imp_le)
qed simp

lemma max_position_newest:
  assumes "db_ok x d"
  shows "max_position d = newest d"
proof (cases "tbl_events d = []")
  case False
  then have "\<forall>r \<in> set (tbl_events d). 0 \<le> row_position r"
    using position_small(2) [OF assms] by blast
  then show ?thesis
    using foldr_max_from [of "map row_position (tbl_events d)" 0] assms False
    by (simp add: max_position_def newest_def db_ok_def last_map)
qed (simp add: max_position_def newest_def)

lemma calm_run_head:
  "db_ok x d \<Longrightarrow> calm_run head_position_in ts d = (Inr (position_of_stored (newest d)), d)"
  by (simp add: calm_run_def head_position_in_def job_simps max_position_newest position_of_stored_def)

lemma newest_bounds:
  assumes "db_ok x d"
  shows "0 \<le> newest d" and "newest d \<le> events_auto d" and "newest d \<le> i64_max"
  using db_ok_auto [OF assms] db_ok_row [OF assms, of "last (tbl_events d)"]
  by (auto simp: newest_def row_ok_def)

lemma newest_above:
  assumes "db_ok x d" and "r \<in> set (tbl_events d)"
  shows "row_place r \<le> position_of_stored (newest d)"
proof -
  have "row_position r \<le> newest d"
    using last_of_sorted [of row_position "tbl_events d" r] assms by (auto simp: newest_def db_ok_def)
  then show ?thesis
    using position_small [OF assms] newest_bounds [OF assms(1)]
    by (simp add: row_place_def position_of_stored_le)
qed

definition cursor_of :: "'m database \<Rightarrow> rust_string \<Rightarrow> position" where
  "cursor_of d consumer = (case map_of (tbl_checkpoints d) consumer of
     None \<Rightarrow> BEGINNING | Some row \<Rightarrow> Position (as_u64 (checkpoint_position row)))"

lemma load_checkpoint_calm [job_simps]:
  "faults c = [] \<Longrightarrow> load_checkpoint consumer c = (Inr (cursor_of (conn_db c) consumer), c)"
  by (simp add: load_checkpoint_def job_simps cursor_of_def split: option.splits)

lemma transparent_load_checkpoint [transparent_intros]: "transparent surfaced (load_checkpoint consumer)"
  unfolding load_checkpoint_def
  by (rule transparent_or_else [OF transparent_query_row])
    (auto simp: engine_fault_def surfaced_def split: rusqlite_error.splits)

lemma reads_load_checkpoint [reads_intros]: "reads_only (load_checkpoint consumer)"
  unfolding load_checkpoint_def by (intro reads_intros)

lemma transparent_save_checkpoint [transparent_intros]: "transparent surfaced (save_checkpoint consumer p)"
  unfolding save_checkpoint_def by (intro transparent_intros)

lemma upsert_checkpoint_sel [simp]:
  "tbl_events (upsert_checkpoint consumer at now d) = tbl_events d"
  "events_auto (upsert_checkpoint consumer at now d) = events_auto d"
  "tbl_stream_seq (upsert_checkpoint consumer at now d) = tbl_stream_seq d"
  "tbl_retention (upsert_checkpoint consumer at now d) = tbl_retention d"
  "tbl_exports (upsert_checkpoint consumer at now d) = tbl_exports d"
  "caller_tables (upsert_checkpoint consumer at now d) = caller_tables d"
  by (simp_all add: upsert_checkpoint_def)

lemma next_of_upsert_checkpoint [simp]: "next_of (upsert_checkpoint consumer at now d) s = next_of d s"
  by (simp add: next_of_def)

lemma db_ok_upsert_checkpoint [simp]: "db_ok x (upsert_checkpoint consumer at now d) = db_ok x d"
  by (rule db_ok_cong) simp_all

lemma cursor_of_upsert:
  "cursor_of (upsert_checkpoint consumer at now d) name
     = (if name = consumer then Position (as_u64 at) else cursor_of d name)"
  by (simp add: cursor_of_def upsert_checkpoint_def map_of_update)

lemma save_checkpoint_calm [job_simps]:
  "faults c = [] \<Longrightarrow> save_checkpoint consumer p c =
     (case stored_position p of
        Inl e \<Rightarrow> (Inl e, c)
      | Inr at \<Rightarrow> (Inr (), c\<lparr>clock := tl (clock c),
          conn_db := upsert_checkpoint consumer at (as_i64 (first_reading (clock c))) (conn_db c)\<rparr>))"
  by (simp add: save_checkpoint_def job_simps split: sum.splits)

lemma atomic_save_checkpoint: "atomic (save_checkpoint consumer p)"
proof -
  have "conn_db c' = conn_db c" if "map_err classify (execute (\<lambda>d. Inr (upsert_checkpoint consumer at now d))) c = (Inl e, c')"
    for at now e and c c' :: "'a conn"
    using that by (auto simp: map_err_def execute_def statement_def next_fault_db
        split: sum.splits prod.splits option.splits)
  note this [dest]
  show ?thesis
    by (auto simp: save_checkpoint_def atomic_def jbind_def jlift_def read_clock_run split: sum.splits)
qed

lemma checkpoint_save_outcome:
  assumes "checkpoint_save a consumer p s = (r, s')"
  shows "case r of
     Inl e \<Rightarrow> s' = s
   | Inr _ \<Rightarrow> uint (get p) \<le> i64_max
       \<and> (\<exists>now. s' = s\<lparr>isle_db := upsert_checkpoint consumer (uint (get p)) now (isle_db s)\<rparr>)"
proof -
  consider (fault) e where "isle_call a (save_checkpoint consumer p) (isle_db s) = (Inl e, isle_db s)"
    | (calm) "isle_call a (save_checkpoint consumer p) (isle_db s)
        = calm_run (save_checkpoint consumer p) (readings a) (isle_db s)"
    using isle_call_calm_or_fault [OF transparent_save_checkpoint atomic_save_checkpoint] by metis
  then show ?thesis
    using assms
    by cases (auto simp: checkpoint_save_def writer_job_def calm_run_def job_simps stored_position_iff split: sum.splits)
qed

lemma cursor_of_saved: "stored_position p = Inr at \<Longrightarrow> Position (as_u64 at) = p"
  by (cases p) (auto simp: stored_position_iff as_u64_def)

text \<open>
  A checkpoint holds what was saved in it. A save that succeeds leaves the consumer's cursor at
  exactly the position given, and every other consumer's cursor, the events and the counters as they
  were, and a load answers it; a consumer that never saved loads the beginning. A position above
  SQLite's signed range is refused rather than wrapped. A save that fails changes nothing.
\<close>

theorem checkpoint_load_after_save:
  assumes "checkpoint_save a consumer p s = (r, s')"
  shows "case r of
     Inl e \<Rightarrow> s' = s
   | Inr _ \<Rightarrow> uint (get p) \<le> i64_max
       \<and> checkpoint_load (calm_at t) consumer s' = Inr p
       \<and> (name = consumer \<or> checkpoint_load (calm_at t) name s' = checkpoint_load (calm_at t) name s)
       \<and> tbl_events (isle_db s') = tbl_events (isle_db s)
       \<and> tbl_stream_seq (isle_db s') = tbl_stream_seq (isle_db s)"
proof -
  have load: "checkpoint_load (calm_at t) name s = Inr (cursor_of (isle_db s) name)" for name s
    by (simp add: checkpoint_load_def read_job_def isle_call_calm job_simps)
  show ?thesis
    using checkpoint_save_outcome [OF assms]
    by (cases r; cases "name = consumer") (auto simp: load cursor_of_upsert as_u64_def)
qed

theorem checkpoint_load_after_save_witness:
  "case checkpoint_save (calm_at 3) ''totals'' (Position 7) (sample_log (empty_database ())) of
     (Inl e, s') \<Rightarrow> False
   | (Inr _, s') \<Rightarrow> checkpoint_load (calm_at 0) ''totals'' s' = Inr (Position 7)"
proof -
  obtain r s' where run: "checkpoint_save (calm_at 3) ''totals'' (Position 7) (sample_log (empty_database ())) = (r, s')"
    by force
  have "stored_position (Position 7) = Inr 7" by (simp add: stored_position_iff i64_max_def)
  then have "r = Inr ()"
    using run by (auto simp: checkpoint_save_def writer_job_def isle_call_calm job_simps)
  then show ?thesis
    using checkpoint_load_after_save [OF run, of 0 "''totals''"] unfolding run by simp
qed

section \<open>The \<open>meta\<close> key\<close>

lemma literal_value_doubled:
  "literal_value (double_quotes s @ quote # rest) = s @ literal_value (quote # rest)" if "hd (rest @ [dquote]) \<noteq> quote"
proof (induction s)
  case (Cons c s)
  show ?case
  proof (cases "c = quote")
    case False
    have "literal_value (c # (double_quotes s @ quote # rest)) = c # literal_value (double_quotes s @ quote # rest)"
      using False by (cases "double_quotes s @ quote # rest") simp_all
    then show ?thesis using Cons False by (simp add: double_quotes_def)
  qed (use Cons in \<open>simp add: double_quotes_def\<close>)
qed (simp add: double_quotes_def)

text \<open>
  The predicate names the key it was given. The SQL text \<open>meta_expr\<close> writes holds, between its
  quotes, a string literal that SQLite reads as the JSON path of the key, whatever single quotes, dots or
  brackets the key contains, and the literal ends where the text says: nothing of the key is read as SQL.
  The index on a key is over the same text, so SQLite can serve the predicate from it.
\<close>

theorem meta_expr_names_the_key:
  assumes "key \<noteq> []" and "dquote \<notin> set key"
  shows "\<exists>literal. meta_expr key = Inr (''json_extract(meta, '' @ [quote] @ literal @ [quote] @ '')'')
     \<and> literal_value (literal @ [quote] @ '')'') = meta_path key
     \<and> index_meta key [] = Inr [(meta_index_name key, ''json_extract(meta, '' @ [quote] @ literal @ [quote] @ '')'')]"
proof -
  let ?lit = "''$.'' @ [dquote] @ double_quotes key @ [dquote]"
  have "literal_value (?lit @ [quote] @ '')'') = meta_path key"
  proof -
    have dq: "double_quotes (key @ [dquote]) = double_quotes key @ [dquote]"
      by (simp add: double_quotes_def)
    have "literal_value (double_quotes (key @ [dquote]) @ quote # '')'') = key @ [dquote]"
      by (subst literal_value_doubled) simp_all
    then show ?thesis
      unfolding dq by (cases "double_quotes key") (simp_all add: meta_path_def)
  qed
  then show ?thesis
    using assms by (intro exI [of _ ?lit]) (simp add: meta_expr_def index_meta_def)
qed

theorem meta_expr_names_the_key_witness:
  "\<exists>literal. literal_value (literal @ [quote] @ '')'') = meta_path [CHR ''a'', quote]"
  using meta_expr_names_the_key [of "[CHR ''a'', quote]"] by auto

text \<open>
  Two \<open>meta\<close> keys can share an index name. \<open>x2d\<close> is an identifier and keeps its spelling, \<open>-\<close> is
  spelled \<open>x\<close> and its byte in hex, and both are \<open>events_meta_x2d\<close>; and two keys that differ only in
  case have names SQLite does not tell apart. The second \<open>index_meta\<close> then succeeds without creating
  anything, while the expression its reads filter on is another one.
\<close>

theorem index_meta_skips_the_second_key:
  "rbind (index_meta ''x2d'' []) (index_meta ''-'') = index_meta ''x2d'' []
     \<and> rbind (index_meta ''Tenant'' []) (index_meta ''tenant'') = index_meta ''Tenant'' []
     \<and> meta_expr ''-'' \<noteq> meta_expr ''x2d'' \<and> meta_expr ''tenant'' \<noteq> meta_expr ''Tenant''"
  by (intro conjI; code_simp)

end
