(* ===== verification/Cursor_Pages.thy ===== *)
theory Cursor_Pages
  imports Prelude
begin

text \<open>
  Paging by an exclusive cursor, the contract every listing of the log shares: a page is the first so
  many items whose key is above the cursor, in key order; the key of the last item of a page is the
  cursor of the next; a page shorter than its limit is the end. \<open>read_all\<close>, \<open>export\<close> and the five
  listings of the catalog are the providers, each interpreted in its own theory; what a client does with
  them is \<open>walk\<close>.
\<close>

section \<open>Splitting a sorted list at a cursor\<close>

lemma filter_above_append:
  fixes f :: "'a \<Rightarrow> 'k :: linorder"
  assumes "sorted_wrt (<) (map f xs)" and "c \<le> c'"
  shows "filter (\<lambda>a. c < f a \<and> f a \<le> c') xs @ filter (\<lambda>a. c' < f a) xs = filter (\<lambda>a. c < f a) xs"
  using assms
proof (induction xs)
  case (Cons a xs)
  show ?case
  proof (cases "c' < f a")
    case True
    then have "\<forall>b \<in> set xs. c' < f b" using Cons.prems(1) by auto
    then have "filter (\<lambda>a. c < f a \<and> f a \<le> c') xs = []" by (auto simp: filter_empty_conv not_le)
    then show ?thesis using Cons True by auto
  next
    case False
    then show ?thesis using Cons by auto
  qed
qed simp

lemma filter_between_append:
  fixes f :: "'a \<Rightarrow> 'k :: linorder"
  assumes "sorted_wrt (<) (map f xs)" and "c \<le> c'" and "c' \<le> c''"
  shows "filter (\<lambda>a. c < f a \<and> f a \<le> c') xs @ filter (\<lambda>a. c' < f a \<and> f a \<le> c'') xs
       = filter (\<lambda>a. c < f a \<and> f a \<le> c'') xs"
proof -
  have "filter (\<lambda>a. c < f a \<and> f a \<le> c') (filter (\<lambda>a. f a \<le> c'') xs) = filter (\<lambda>a. c < f a \<and> f a \<le> c') xs"
    using assms(3) by (auto intro!: filter_cong)
  then show ?thesis
    using filter_above_append [OF sorted_wrt_filter_map [OF assms(1)] assms(2), of "\<lambda>a. f a \<le> c''"]
    by (simp add: conj_commute)
qed

text \<open>A full page is everything up to its last key, a short page is everything.\<close>

lemma take_is_prefix_range:
  fixes f :: "'a \<Rightarrow> 'k :: linorder"
  assumes "sorted_wrt (<) (map f xs)" and "0 < n" and "n \<le> length xs"
  shows "take n xs = filter (\<lambda>a. f a \<le> f (last (take n xs))) xs"
proof -
  have "sorted_wrt (<) (map f (take n xs @ drop n xs))"
    using assms(1) by simp
  then have sorted: "sorted_wrt (<) (map f (take n xs))" "\<forall>a \<in> set (take n xs). \<forall>b \<in> set (drop n xs). f a < f b"
    unfolding map_append sorted_wrt_append by simp_all
  have ne: "take n xs \<noteq> []" using assms(2,3) by auto
  have "filter (\<lambda>a. f a \<le> f (last (take n xs))) (take n xs) = take n xs"
    using last_of_sorted [OF sorted(1)] by (intro filter_True) blast
  moreover have "filter (\<lambda>a. f a \<le> f (last (take n xs))) (drop n xs) = []"
    using sorted(2) last_in_set [OF ne] by (auto simp: filter_empty_conv not_le)
  ultimately have "filter (\<lambda>a. f a \<le> f (last (take n xs))) (take n xs @ drop n xs) = take n xs"
    unfolding filter_append by simp
  then show ?thesis by simp
qed

section \<open>The client\<close>

text \<open>
  Page after page until one comes back short, with fuel for the number of pages: a walk over \<open>k\<close> items
  needs at most \<open>k + 1\<close>.
\<close>

fun walk :: "('k \<Rightarrow> usize \<Rightarrow> 'e + 'a list) \<Rightarrow> ('a \<Rightarrow> 'k) \<Rightarrow> usize \<Rightarrow> nat \<Rightarrow> 'k \<Rightarrow> 'e + 'a list" where
  "walk page key n 0 c = Inr []"
| "walk page key n (Suc fuel) c =
     rbind (page c n) (\<lambda>items.
       if length items < unat n then Inr items
       else rmap (\<lambda>rest. items @ rest) (walk page key n fuel (key (last items))))"

locale cursor_pages =
  fixes ok :: "'d \<Rightarrow> bool" and items :: "'d \<Rightarrow> 'a list" and key :: "'a \<Rightarrow> 'k :: linorder"
    and asked :: "'k \<Rightarrow> bool" and page :: "'d \<Rightarrow> 'k \<Rightarrow> usize \<Rightarrow> 'e + 'a list"
  assumes sorted: "ok d \<Longrightarrow> sorted_wrt (<) (map key (items d))"
    and answers: "ok d \<Longrightarrow> asked c \<Longrightarrow> page d c n = Inr (take (unat n) (filter (\<lambda>a. c < key a) (items d)))"
    and asked_key: "ok d \<Longrightarrow> a \<in> set (items d) \<Longrightarrow> asked (key a)"
begin

lemma above_sorted: "ok d \<Longrightarrow> sorted_wrt (<) (map key (filter P (items d)))"
  by (rule sorted_wrt_filter_map [OF sorted])

lemma page_full:
  assumes "ok d" "asked c" "page d c n = Inr as" "length as = unat n" "n \<noteq> 0"
  shows "as = filter (\<lambda>a. c < key a \<and> key a \<le> key (last as)) (items d)"
    and "as \<noteq> []" and "last as \<in> set (items d)" and "c < key (last as)"
proof -
  let ?above = "filter (\<lambda>a. c < key a) (items d)"
  have as: "as = take (unat n) ?above" using answers [OF assms(1,2)] assms(3) by simp
  have n: "0 < unat n" using assms(5) by (simp add: unat_gt_0)
  show "as \<noteq> []" using assms(4) n by auto
  then have "last as \<in> set ?above" unfolding as by (meson in_set_takeD last_in_set)
  then show "last as \<in> set (items d)" "c < key (last as)" by simp_all
  have "unat n \<le> length ?above" using assms(4) as by simp
  then have "as = filter (\<lambda>a. key a \<le> key (last as)) ?above"
    using take_is_prefix_range [OF above_sorted [OF assms(1)] n] as by simp
  also have "\<dots> = filter (\<lambda>a. c < key a \<and> key a \<le> key (last as)) (items d)"
    by (simp add: conj_commute)
  finally show "as = filter (\<lambda>a. c < key a \<and> key a \<le> key (last as)) (items d)" .
qed

lemma page_short:
  assumes "ok d" "asked c" "page d c n = Inr as" "length as < unat n"
  shows "as = filter (\<lambda>a. c < key a) (items d)"
  using answers [OF assms(1,2), of n] assms(3,4) by simp

lemma walk_all:
  assumes "ok d" and "n \<noteq> 0"
  shows "asked c \<Longrightarrow> length (filter (\<lambda>a. c < key a) (items d)) < fuel \<Longrightarrow>
     walk (page d) key n fuel c = Inr (filter (\<lambda>a. c < key a) (items d))"
proof (induction fuel arbitrary: c)
  case (Suc fuel)
  obtain as where as: "page d c n = Inr as" using answers [OF assms(1) Suc.prems(1)] by blast
  show ?case
  proof (cases "length as < unat n")
    case True
    then show ?thesis using as page_short [OF assms(1) Suc.prems(1) as] by simp
  next
    case False
    then have len: "length as = unat n" using answers [OF assms(1) Suc.prems(1), of n] as by auto
    note full = page_full [OF assms(1) Suc.prems(1) as len assms(2)]
    let ?c = "key (last as)"
    have split: "as @ filter (\<lambda>a. ?c < key a) (items d) = filter (\<lambda>a. c < key a) (items d)"
      using filter_above_append [OF sorted [OF assms(1)], of c ?c] full(4) full(1) [symmetric] by simp
    then have "length (filter (\<lambda>a. ?c < key a) (items d)) < fuel"
      using Suc.prems(2) full(2) arg_cong [OF split, of length] unfolding length_append
      by (cases "length as") simp_all
    then show ?thesis
      using as False Suc.IH [OF asked_key [OF assms(1) full(3)]] split by simp
  qed
qed simp

end

end
