(* ===== verification/Paging.thy ===== *)
theory Paging
  imports Log_Theorems Cursor_Pages
begin

text \<open>
  The loop behind \<open>replay\<close> and \<open>subscribe\<close>: \<open>paged\<close> of \<open>crates/eventsdb-sqlite/src/log.rs\<close>. One turn
  reads the head (a subscription only), reads a page from the cursor, yields it, and goes on, waits or
  ends. Between any two reads other handles may commit, so a turn takes the state each of its reads
  finds; a list of turns is a finite observation of the stream, which in the case of a subscription
  never ends of itself. What wakes a waiting turn, a commit or the interval, decides when the next turn
  comes, not what it reads; it is in \<open>Wake_Subscription\<close>.
\<close>

definition BATCH :: usize where
  "BATCH = 256"

datatype exhausted = Wait | End

record 'm turn =
  head_attempt :: attempt
  head_state :: "'m shared"
  batch_attempt :: attempt
  batch_state :: "'m shared"

text \<open>What a turn yields, and the cursor the next one starts from, or nothing where the stream ends.\<close>

definition paged_turn ::
  "ext \<Rightarrow> exhausted \<Rightarrow> filter \<Rightarrow> 'm turn \<Rightarrow> position \<Rightarrow> recorded result list \<times> position option" where
  "paged_turn x on_exhausted f w cursor =
     (case (case on_exhausted of
              Wait \<Rightarrow> rmap Some (head_shared (head_attempt w) (head_state w))
            | End \<Rightarrow> Inr None) of
        Inl e \<Rightarrow> ([Inl e], None)
      | Inr seen \<Rightarrow>
          (case read_all x (batch_attempt w) cursor f BATCH (batch_state w) of
             Inl e \<Rightarrow> ([Inl e], None)
           | Inr batch \<Rightarrow>
               let full = (length batch = unat BATCH);
                   cursor = fold (\<lambda>recorded _. recorded_position recorded) batch cursor
               in if full then (map Inr batch, Some cursor)
                  else (case seen of
                          None \<Rightarrow> (map Inr batch, None)
                        | Some at_head \<Rightarrow> (map Inr batch, Some (max cursor at_head)))))"

fun paged ::
  "ext \<Rightarrow> exhausted \<Rightarrow> filter \<Rightarrow> 'm turn list \<Rightarrow> position \<Rightarrow> recorded result list \<times> position option" where
  "paged x on_exhausted f [] cursor = ([], Some cursor)"
| "paged x on_exhausted f (w # ws) cursor =
     (case paged_turn x on_exhausted f w cursor of
        (items, None) \<Rightarrow> (items, None)
      | (items, Some cursor') \<Rightarrow>
          (let (rest, at) = paged x on_exhausted f ws cursor' in (items @ rest, at)))"

definition subscribe :: "ext \<Rightarrow> 'm turn list \<Rightarrow> position \<Rightarrow> filter \<Rightarrow> recorded result list \<times> position option"
  where
  "subscribe x ws from f = paged x Wait f ws from"

definition replay :: "ext \<Rightarrow> 'm turn list \<Rightarrow> position \<Rightarrow> filter \<Rightarrow> recorded result list \<times> position option"
  where
  "replay x ws from f = paged x End f ws from"

section \<open>Logs that only grow\<close>

text \<open>Later tables: the earlier ones with rows after them, at positions never handed out before.\<close>

definition grown :: "'m database \<Rightarrow> 'm database \<Rightarrow> bool" where
  "grown d d' \<longleftrightarrow>
     events_auto d \<le> events_auto d'
     \<and> (\<exists>rows. tbl_events d' = tbl_events d @ rows \<and> (\<forall>r \<in> set rows. events_auto d < row_position r))"

definition turn_states :: "'m turn list \<Rightarrow> 'm database list" where
  "turn_states ws = concat (map (\<lambda>w. [isle_db (head_state w), isle_db (batch_state w)]) ws)"

text \<open>The rows of a range, exclusive below and inclusive above, and what a run has read of them.\<close>

definition range_rows :: "ext \<Rightarrow> filter \<Rightarrow> position \<Rightarrow> position \<Rightarrow> 'm database \<Rightarrow> event_row list" where
  "range_rows x f from up_to d = List.filter (\<lambda>r. from < row_place r \<and> row_place r \<le> up_to) (matching x f d)"

definition delivered ::
  "ext \<Rightarrow> upcast_chain \<Rightarrow> event_row list \<Rightarrow> recorded result list \<Rightarrow> bool" where
  "delivered x chain rows items \<longleftrightarrow> (\<exists>recs. traverse (record_row x chain) rows = Inr recs \<and> items = map Inr recs)"

lemma delivered_Nil [simp]: "delivered x chain [] items \<longleftrightarrow> items = []"
  by (auto simp: delivered_def)

lemma delivered_append:
  "delivered x chain rows items \<Longrightarrow> delivered x chain rows' items' \<Longrightarrow> delivered x chain (rows @ rows') (items @ items')"
  unfolding delivered_def traverse_append by auto

lemma position_of_auto:
  assumes "db_ok x d" and "r \<in> set (tbl_events d)"
  shows "row_place r \<le> position_of_stored (events_auto d)"
  using assms position_small [OF assms] db_ok_auto [OF assms(1)] db_ok_row [OF assms]
  by (simp add: row_place_def position_of_stored_le row_ok_def)

lemma grown_above:
  assumes "db_ok x d" and "db_ok x d'" and "grown d d'" and "r \<in> set (tbl_events d')"
  shows "r \<in> set (tbl_events d) \<or> position_of_stored (events_auto d) < row_place r"
  using assms position_small [OF assms(2,4)] db_ok_auto [OF assms(1)]
  by (auto simp: grown_def row_place_def position_of_stored_less)

lemma newest_le_auto: "db_ok x d \<Longrightarrow> position_of_stored (newest d) \<le> position_of_stored (events_auto d)"
  using newest_bounds [of x d] db_ok_auto [of x d] by (simp add: position_of_stored_le)

lemma auto_grown:
  "db_ok x d \<Longrightarrow> db_ok x d' \<Longrightarrow> grown d d' \<Longrightarrow>
     position_of_stored (events_auto d) \<le> position_of_stored (events_auto d')"
  using db_ok_auto [of x d] db_ok_auto [of x d'] by (simp add: grown_def position_of_stored_le)

text \<open>A range the cursor has passed does not change any more.\<close>

lemma range_rows_grown:
  assumes "db_ok x d" and "db_ok x d'" and "grown d d'"
    and "c' \<le> max c (position_of_stored (events_auto d))"
  shows "range_rows x f c c' d' = range_rows x f c c' d"
proof -
  obtain rows where rows: "tbl_events d' = tbl_events d @ rows" "\<forall>r \<in> set rows. events_auto d < row_position r"
    using assms(3) by (auto simp: grown_def)
  have "position_of_stored (events_auto d) < row_place r" if "r \<in> set rows" for r
    using that rows position_small [OF assms(2), of r] db_ok_auto [OF assms(1)]
    by (simp add: row_place_def position_of_stored_less)
  then have "\<not> (c < row_place r \<and> row_place r \<le> c')" if "r \<in> set rows" for r
    using that assms(4) by (meson le_max_iff_disj leD order_trans)
  then have "List.filter (\<lambda>r. c < row_place r \<and> row_place r \<le> c') (List.filter (row_matches x f) rows) = []"
    by (auto simp: filter_empty_conv)
  then show ?thesis by (simp add: range_rows_def matching_def rows(1) del: filter_filter)
qed

lemma range_rows_append:
  assumes "db_ok x d" and "c \<le> c'" and "c' \<le> c''"
  shows "range_rows x f c c' d @ range_rows x f c' c'' d = range_rows x f c c'' d"
  unfolding range_rows_def by (rule filter_between_append [OF matching_place_sorted [OF assms(1)] assms(2,3)])

lemma range_rows_sorted: "db_ok x d \<Longrightarrow> sorted_wrt (<) (map row_place (range_rows x f c c' d))"
  unfolding range_rows_def by (rule sorted_wrt_filter_map [OF matching_place_sorted])

section \<open>A page\<close>

lemma record_row_position: "record_row x chain r = Inr rec \<Longrightarrow> recorded_position rec = row_place r"
  by (auto simp: record_row_def result_simps)

lemma traverse_record_positions:
  assumes "traverse (record_row x chain) rows = Inr recs"
  shows "map recorded_position recs = map row_place rows"
  using assms unfolding traverse_Inr
  by (induction rows recs rule: list_all2_induct) (auto dest: record_row_position)

lemma fold_last: "fold (\<lambda>rec _. f rec) recs c = (if recs = [] then c else f (last recs))"
  by (induction recs arbitrary: c) auto

text \<open>What one page leaves behind: the rows of a range, all of them above the cursor where it is short.\<close>

lemma page_range:
  assumes ok: "db_ok x d" and page: "log_page x chain c f n d = Inr recs" and n: "0 < n"
    and cursor: "c' = fold (\<lambda>rec _. recorded_position rec) recs c"
  shows "c \<le> c'" and "delivered x chain (range_rows x f c c' d) (map Inr recs)"
    and "length recs \<noteq> n \<Longrightarrow> range_rows x f c c' d = List.filter (\<lambda>r. c < row_place r) (matching x f d)"
    and "c' \<le> max c (position_of_stored (events_auto d))"
proof -
  let ?above = "List.filter (\<lambda>r. c < row_place r) (matching x f d)"
  let ?rows = "take n ?above"
  have trav: "traverse (record_row x chain) ?rows = Inr recs" using page by (simp add: log_page_def)
  have len: "length recs = length ?rows" using traverse_length [OF trav] .
  have pos: "map recorded_position recs = map row_place ?rows" using traverse_record_positions [OF trav] .
  have c': "c' = (if ?rows = [] then c else row_place (last ?rows))"
  proof (cases "recs = []")
    case False
    then have ne: "?rows \<noteq> []" using len by (metis length_0_conv)
    have "recorded_position (last recs) = last (map recorded_position recs)" using False by (simp add: last_map)
    also have "\<dots> = row_place (last ?rows)" unfolding pos using ne by (simp add: last_map)
    finally show ?thesis using False ne by (simp add: cursor fold_last)
  next
    case True
    then have "?rows = []" using len by (metis length_0_conv)
    then show ?thesis using True by (simp add: cursor)
  qed
  have sorted: "sorted_wrt (<) (map row_place ?above)"
    by (rule sorted_wrt_filter_map [OF matching_place_sorted [OF ok]])
  have mem: "last ?rows \<in> set (tbl_events d)" "c < row_place (last ?rows)" if "?rows \<noteq> []"
    using in_set_takeD [OF last_in_set [OF that]] by (auto simp: matching_def)
  show le: "c \<le> c'" using c' mem(2) by (auto intro: less_imp_le)
  show "c' \<le> max c (position_of_stored (events_auto d))"
    using c' position_of_auto [OF ok mem(1)] by (auto simp: le_max_iff_disj)
  have upto: "List.filter (\<lambda>r. row_place r \<le> c') ?above = range_rows x f c c' d"
    by (simp add: range_rows_def conj_commute)
  have rows: "?rows = range_rows x f c c' d"
  proof (cases "?above = []")
    case True
    then show ?thesis using upto by simp
  next
    case False
    let ?n = "min n (length ?above)"
    have m: "0 < ?n" "?n \<le> length ?above" using False n by simp_all
    have tk: "take ?n ?above = ?rows" by (simp add: min_def)
    have "?rows \<noteq> []" using False n by simp
    then show ?thesis
      using take_is_prefix_range [OF sorted m] unfolding tk using c' upto by simp
  qed
  show "delivered x chain (range_rows x f c c' d) (map Inr recs)"
    using trav unfolding rows delivered_def by blast
  show "range_rows x f c c' d = ?above" if "length recs \<noteq> n"
    using that len unfolding rows [symmetric] by simp
qed

text \<open>Where a reader that also saw the head goes on from: the last of a full page, the head otherwise.\<close>

definition reached_by :: "nat \<Rightarrow> recorded list \<Rightarrow> position \<Rightarrow> position \<Rightarrow> position" where
  "reached_by n recs c at_head =
     (let c' = fold (\<lambda>rec _. recorded_position rec) recs c in if length recs = n then c' else max c' at_head)"

lemma page_reached:
  assumes ok: "db_ok x d" and page: "log_page x chain c f n d = Inr recs" and n: "0 < n"
    and h: "at_head \<le> position_of_stored (events_auto d)" and c': "c' = reached_by n recs c at_head"
  shows "c \<le> c'" and "c' \<le> max c (position_of_stored (events_auto d))"
    and "delivered x chain (range_rows x f c c' d) (map Inr recs)"
proof -
  let ?c1 = "fold (\<lambda>rec _. recorded_position rec) recs c"
  note range = page_range [OF ok page n refl]
  note c' = c' [unfolded reached_by_def Let_def]
  show "c \<le> c'" using range(1) c' by (auto simp: le_max_iff_disj)
  show "c' \<le> max c (position_of_stored (events_auto d))"
    using range(4) h c' by (auto simp: le_max_iff_disj)
  show "delivered x chain (range_rows x f c c' d) (map Inr recs)"
  proof (cases "length recs = n")
    case True
    then show ?thesis using range(2) c' by simp
  next
    case False
    have "?c1 \<le> c'" using c' by simp
    have all: "range_rows x f c ?c1 d = List.filter (\<lambda>r. c < row_place r) (matching x f d)"
      by (rule range(3) [OF False])
    have "range_rows x f c c' d = List.filter (\<lambda>r. row_place r \<le> c') (range_rows x f c ?c1 d)"
      unfolding all by (simp add: range_rows_def conj_commute)
    also have "\<dots> = range_rows x f c ?c1 d"
      using \<open>?c1 \<le> c'\<close> unfolding range_rows_def by (intro filter_True) auto
    finally show ?thesis using range(2) by simp
  qed
qed

section \<open>The subscription\<close>

lemma head_shared_calm_or_fault:
  assumes "db_ok x (isle_db s)" and "head_shared a s = Inr h"
  shows "h = position_of_stored (newest (isle_db s))"
  using read_job_calm_or_fault [OF transparent_head atomic_reads_only [OF reads_head], of a s] assms
  by (auto simp: head_shared_def calm_run_head)

lemma read_page:
  assumes "db_ok x (isle_db s)" and "\<And>c. uint (get c) \<le> i64_max \<Longrightarrow> is_ok (build_read c f)"
    and "uint (get c) \<le> i64_max" and "read_all x a c f BATCH s = Inr recs"
  shows "log_page x (upcasters s) c f (unat BATCH) (isle_db s) = Inr recs"
  using read_all_outcome [OF assms(1), of c f _ a BATCH] assms(2) [OF assms(3)] assms(4)
  by (auto simp: is_ok_iff)

text \<open>The observations a run of the loop is made of: good tables, each grown from the one before.\<close>

definition watched :: "ext \<Rightarrow> upcast_chain \<Rightarrow> 'm turn list \<Rightarrow> bool" where
  "watched x chain ws \<longleftrightarrow>
     (\<forall>d \<in> set (turn_states ws). db_ok x d) \<and> sorted_wrt grown (turn_states ws)
     \<and> (\<forall>w \<in> set ws. upcasters (batch_state w) = chain)"

definition askable :: "filter \<Rightarrow> bool" where
  "askable f \<longleftrightarrow> (\<forall>c. uint (get c) \<le> i64_max \<longrightarrow> is_ok (build_read c f))"

lemma watched_Cons:
  "watched x chain (w # ws) \<longleftrightarrow>
     db_ok x (isle_db (head_state w)) \<and> db_ok x (isle_db (batch_state w)) \<and> upcasters (batch_state w) = chain
     \<and> grown (isle_db (head_state w)) (isle_db (batch_state w))
     \<and> (\<forall>d \<in> set (turn_states ws). grown (isle_db (head_state w)) d \<and> grown (isle_db (batch_state w)) d)
     \<and> watched x chain ws"
  by (auto simp: watched_def turn_states_def)

lemma place_small:
  "db_ok x d \<Longrightarrow> uint (get (position_of_stored (events_auto d))) \<le> i64_max"
  using db_ok_auto [of x d] by (simp add: position_of_stored_def uint_as_u64)

lemma small_max: "c' \<le> max c p \<Longrightarrow> uint (get c) \<le> i64_max \<Longrightarrow> uint (get p) \<le> i64_max \<Longrightarrow> uint (get c') \<le> i64_max"
  by (auto simp: position_le_uint max_def split: if_splits)

text \<open>What a turn that goes on has read, whatever was written or removed between its two reads.\<close>

lemma turn_reads:
  assumes ok: "db_ok x (isle_db (head_state w))" "db_ok x (isle_db (batch_state w))"
    and later: "position_of_stored (events_auto (isle_db (head_state w))) \<le> position_of_stored (events_auto (isle_db (batch_state w)))"
    and ask: "askable f" "uint (get c) \<le> i64_max" and turn: "paged_turn x Wait f w c = (items, Some c')"
  obtains recs h where "log_page x (upcasters (batch_state w)) c f (unat BATCH) (isle_db (batch_state w)) = Inr recs"
    "items = map Inr recs" "c' = reached_by (unat BATCH) recs c h"
    "h \<le> position_of_stored (events_auto (isle_db (batch_state w)))"
proof -
  obtain h where h: "head_shared (head_attempt w) (head_state w) = Inr h"
    using turn by (cases "head_shared (head_attempt w) (head_state w)") (simp_all add: paged_turn_def)
  obtain recs where recs: "read_all x (batch_attempt w) c f BATCH (batch_state w) = Inr recs"
    using turn h by (cases "read_all x (batch_attempt w) c f BATCH (batch_state w)") (simp_all add: paged_turn_def)
  have "log_page x (upcasters (batch_state w)) c f (unat BATCH) (isle_db (batch_state w)) = Inr recs"
    using read_page [OF ok(2) _ ask(2) recs] ask(1) by (auto simp: askable_def)
  moreover have "items = map Inr recs" "c' = reached_by (unat BATCH) recs c h"
    using turn by (auto simp: paged_turn_def h recs Let_def reached_by_def split: if_splits)
  moreover have "h \<le> position_of_stored (events_auto (isle_db (batch_state w)))"
    using head_shared_calm_or_fault [OF ok(1) h] newest_le_auto [OF ok(1)] later by simp
  ultimately show ?thesis using that by blast
qed

lemma BATCH_pos: "0 < unat BATCH"
  by (simp add: BATCH_def)

lemma turn_ok:
  assumes "watched x chain [w]" and "askable f" and "uint (get c) \<le> i64_max"
    and turn: "paged_turn x Wait f w c = (items, Some c')"
  shows "c \<le> c'" and "c' \<le> max c (position_of_stored (events_auto (isle_db (batch_state w))))"
    and "delivered x chain (range_rows x f c c' (isle_db (batch_state w))) items"
proof -
  let ?d = "isle_db (batch_state w)" and ?h = "isle_db (head_state w)"
  have w: "db_ok x ?h" "db_ok x ?d" "grown ?h ?d" "upcasters (batch_state w) = chain"
    using assms(1) by (simp_all add: watched_Cons)
  obtain recs h where page: "log_page x chain c f (unat BATCH) ?d = Inr recs" "items = map Inr recs"
    "c' = reached_by (unat BATCH) recs c h" "h \<le> position_of_stored (events_auto ?d)"
    using turn_reads [OF w(1,2) auto_grown [OF w(1,2,3)] assms(2,3) turn] w(4) by blast
  from page_reached [OF w(2) page(1) BATCH_pos page(4,3)]
  show "c \<le> c'" "c' \<le> max c (position_of_stored (events_auto ?d))"
    "delivered x chain (range_rows x f c c' ?d) items"
    unfolding page(2) by blast+
qed

lemma paged_wait:
  assumes "watched x chain ws" and "askable f" and "uint (get c) \<le> i64_max"
    and "paged x Wait f ws c = (items, Some c')" and "ws \<noteq> []"
  shows "c \<le> c' \<and> c' \<le> max c (position_of_stored (events_auto (last (turn_states ws))))
     \<and> delivered x chain (range_rows x f c c' (last (turn_states ws))) items"
  using assms
proof (induction ws arbitrary: c items)
  case (Cons w ws)
  let ?d = "isle_db (batch_state w)"
  obtain items1 c1 where turn: "paged_turn x Wait f w c = (items1, Some c1)"
    using Cons.prems(4) by (auto split: prod.splits option.splits)
  obtain items2 where rest: "paged x Wait f ws c1 = (items2, Some c')" and items: "items = items1 @ items2"
    using Cons.prems(4) turn by (auto split: prod.splits)
  have one: "watched x chain [w]" and ws: "watched x chain ws"
    using Cons.prems(1) by (simp_all add: watched_Cons, simp_all add: watched_def turn_states_def)
  note t = turn_ok [OF one Cons.prems(2,3) turn]
  have okd: "db_ok x ?d" using one by (simp add: watched_Cons)
  show ?case
  proof (cases "ws = []")
    case True
    then show ?thesis using t rest items by (simp add: turn_states_def)
  next
    case False
    let ?e = "last (turn_states ws)"
    have ne: "turn_states ws \<noteq> []" using False by (cases ws) (simp_all add: turn_states_def)
    have lst: "last (turn_states (w # ws)) = ?e" using ne by (simp add: turn_states_def)
    have e: "?e \<in> set (turn_states ws)" using ne by simp
    have ok_e: "db_ok x ?e" and gr: "grown ?d ?e"
      using ws e Cons.prems(1) by (auto simp: watched_def [of x chain ws] watched_Cons)
    have c1: "uint (get c1) \<le> i64_max"
      by (rule small_max [OF t(2) Cons.prems(3) place_small [OF okd]])
    note ih = Cons.IH [OF ws Cons.prems(2) c1 rest False]
    have frozen: "range_rows x f c c1 ?e = range_rows x f c c1 ?d"
      by (rule range_rows_grown [OF okd ok_e gr t(2)])
    have "delivered x chain (range_rows x f c c1 ?e @ range_rows x f c1 c' ?e) items"
      unfolding frozen items using t(3) ih by (intro delivered_append) simp_all
    moreover have "range_rows x f c c1 ?e @ range_rows x f c1 c' ?e = range_rows x f c c' ?e"
      using t(1) ih by (intro range_rows_append [OF ok_e]) simp_all
    moreover have "c' \<le> max c (position_of_stored (events_auto ?e))"
      using ih t(2) auto_grown [OF okd ok_e gr] by (auto simp: le_max_iff_disj intro: order_trans)
    ultimately show ?thesis unfolding lst using t(1) ih by auto
  qed
qed simp

text \<open>
  A subscription delivers every event it is for exactly once and in order. Over any run of turns, with
  commits falling between any two reads, what it has yielded are the events that the filter selects with
  a position above where it started and up to its cursor, all of them, in strictly increasing position,
  each as the log's upcasters leave it; so a commit that lands between the read of the head and the read
  of the page is neither skipped by the step to the head nor delivered twice. Holds as long as no
  retention removes rows under the subscription.
\<close>

theorem subscription_delivers_exactly_once:
  assumes "watched x chain ws" and "askable f" and "uint (get from) \<le> i64_max" and "ws \<noteq> []"
    and "subscribe x ws from f = (items, Some cursor)"
  shows "\<exists>recs. items = map Inr recs
     \<and> traverse (record_row x chain)
         (List.filter (\<lambda>r. from < row_place r \<and> row_place r \<le> cursor \<and> row_matches x f r)
           (tbl_events (last (turn_states ws)))) = Inr recs
     \<and> sorted_wrt (<) (map recorded_position recs)
     \<and> from \<le> cursor"
proof -
  let ?d = "last (turn_states ws)"
  have run: "from \<le> cursor" "delivered x chain (range_rows x f from cursor ?d) items"
    using paged_wait [OF assms(1,2,3) assms(5) [unfolded subscribe_def] assms(4)] by simp_all
  have "turn_states ws \<noteq> []" using assms(4) by (cases ws) (simp_all add: turn_states_def)
  then have ok: "db_ok x ?d" using assms(1) last_in_set by (auto simp: watched_def)
  have rows: "range_rows x f from cursor ?d =
      List.filter (\<lambda>r. from < row_place r \<and> row_place r \<le> cursor \<and> row_matches x f r) (tbl_events ?d)"
    by (simp add: range_rows_def matching_def) (meson conj_commute)
  obtain recs where recs: "traverse (record_row x chain) (range_rows x f from cursor ?d) = Inr recs"
    "items = map Inr recs"
    using run(2) by (auto simp: delivered_def)
  moreover have "sorted_wrt (<) (map recorded_position recs)"
    using range_rows_sorted [OF ok] traverse_record_positions [OF recs(1)] by simp
  ultimately show ?thesis using run(1) unfolding rows by blast
qed

text \<open>A turn in which nothing fails and nothing is committed.\<close>

definition still :: "'m shared \<Rightarrow> 'm turn" where
  "still s = \<lparr> head_attempt = calm_at 0, head_state = s, batch_attempt = calm_at 0, batch_state = s \<rparr>"

lemma still_sel [simp]:
  "head_attempt (still s) = calm_at 0" "head_state (still s) = s"
  "batch_attempt (still s) = calm_at 0" "batch_state (still s) = s"
  by (simp_all add: still_def)

lemma grown_refl [simp]: "grown d d"
  by (simp add: grown_def)

lemma watched_still: "db_ok x (isle_db s) \<Longrightarrow> upcasters s = chain \<Longrightarrow> watched x chain [still s]"
  by (simp add: watched_def turn_states_def)

lemma askable_all [simp]: "askable filter_all"
  by (auto simp: askable_def is_ok_iff build_read_def filter_validate_def filter_all_def stored_position_iff
      optional_def result_simps)

lemma head_shared_still:
  "db_ok x (isle_db s) \<Longrightarrow> head_shared (calm_at 0) s = Inr (position_of_stored (newest (isle_db s)))"
  by (simp add: head_shared_def read_job_def isle_call_calm_at calm_run_head)

lemma one_event_records:
  "\<exists>recs. traverse (record_row toy_ext []) (List.filter P (tbl_events one_event_db)) = Inr recs \<and> length recs \<le> 1"
proof -
  have "List.filter P (tbl_events one_event_db) = [] \<or> List.filter P (tbl_events one_event_db) = tbl_events one_event_db"
    by (simp add: one_event_db_def empty_database_def)
  moreover have "\<exists>recs. traverse (record_row toy_ext []) (tbl_events one_event_db) = Inr recs \<and> length recs \<le> 1"
    by (simp add: one_event_db_def empty_database_def record_row_def row_of_event_object(2) result_simps)
  ultimately show ?thesis by auto
qed

theorem subscription_delivers_exactly_once_witness:
  "\<exists>recs cursor. subscribe toy_ext [still (sample_log one_event_db)] BEGINNING filter_all = (map Inr recs, Some cursor)
     \<and> traverse (record_row toy_ext []) (List.filter (\<lambda>r. BEGINNING < row_place r \<and> row_place r \<le> cursor
         \<and> row_matches toy_ext filter_all r) (tbl_events one_event_db)) = Inr recs"
proof -
  let ?s = "sample_log one_event_db"
  have w: "watched toy_ext [] [still ?s]" by (rule watched_still) simp_all
  have small: "uint (get BEGINNING) \<le> i64_max" by (simp add: BEGINNING_def i64_max_def)
  obtain at where at: "build_read BEGINNING filter_all = Inr at"
    using askable_all small by (auto simp: askable_def is_ok_iff)
  obtain recs where recs: "log_page toy_ext [] BEGINNING filter_all (unat BATCH) one_event_db = Inr recs" "length recs \<le> 1"
  proof -
    have "length (matching toy_ext filter_all one_event_db) \<le> 1"
      by (simp add: matching_def one_event_db_def empty_database_def)
    then have "length (List.filter (\<lambda>r. BEGINNING < row_place r) (matching toy_ext filter_all one_event_db)) \<le> unat BATCH"
      by (intro order_trans [OF length_filter_le]) (simp add: BATCH_def)
    then show ?thesis
      using that one_event_records [of "\<lambda>r. row_matches toy_ext filter_all r \<and> BEGINNING < row_place r"]
      by (auto simp: log_page_def) (auto simp: matching_def)
  qed
  then have "length recs \<noteq> unat BATCH" by (auto simp: BATCH_def)
  with recs(1) have run: "subscribe toy_ext [still ?s] BEGINNING filter_all = (map Inr recs, Some (max
      (fold (\<lambda>rec _. recorded_position rec) recs BEGINNING) (position_of_stored (newest one_event_db))))"
    using read_all_calm [of toy_ext ?s BEGINNING filter_all at 0 BATCH] at head_shared_still [of toy_ext ?s]
    by (simp add: subscribe_def paged_turn_def)
  show ?thesis
    using subscription_delivers_exactly_once [OF w askable_all small _ run]
    unfolding run by (auto simp: turn_states_def)
qed

section \<open>The replay\<close>

lemma replay_run:
  assumes ok: "db_ok x (isle_db s)" and "askable f" and "upcasters s = chain"
  shows "uint (get c) \<le> i64_max \<Longrightarrow>
     traverse (record_row x chain) (List.filter (\<lambda>r. c < row_place r) (matching x f (isle_db s))) = Inr recs \<Longrightarrow>
     length recs < k \<Longrightarrow> paged x End f (replicate k (still s)) c = (map Inr recs, None)"
proof (induction k arbitrary: c recs)
  case (Suc k)
  let ?d = "isle_db s"
  let ?above = "\<lambda>c. List.filter (\<lambda>r. c < row_place r) (matching x f ?d)"
  have split: "?above c = take (unat BATCH) (?above c) @ drop (unat BATCH) (?above c)" by simp
  obtain now later where now: "traverse (record_row x chain) (take (unat BATCH) (?above c)) = Inr now"
    and later: "traverse (record_row x chain) (drop (unat BATCH) (?above c)) = Inr later" and recs: "recs = now @ later"
    using Suc.prems(2) by (subst (asm) split) (auto simp only: traverse_append result_simps)
  have page: "log_page x chain c f (unat BATCH) ?d = Inr now" using now by (simp add: log_page_def)
  obtain at where at: "build_read c f = Inr at"
    using assms(2) Suc.prems(1) by (auto simp: askable_def is_ok_iff)
  have read: "read_all x (calm_at 0) c f BATCH s = Inr now"
    using read_all_calm [OF ok at] page assms(3) by simp
  let ?c1 = "fold (\<lambda>rec _. recorded_position rec) now c"
  have "0 < unat BATCH" by (simp add: BATCH_def)
  note range = page_range [OF ok page this refl]
  show ?case
  proof (cases "length now = unat BATCH")
    case False
    then have "length (?above c) \<le> unat BATCH" using traverse_length [OF now] by simp
    then have "later = []" using later by simp
    then show ?thesis using read False recs by (simp add: paged_turn_def)
  next
    case True
    have c1: "uint (get ?c1) \<le> i64_max"
      by (rule small_max [OF range(4) Suc.prems(1) place_small [OF ok]])
    have up: "range_rows x f c ?c1 ?d @ ?above ?c1 = ?above c"
      using filter_above_append [OF matching_place_sorted [OF ok] range(1)] by (simp add: range_rows_def)
    have "traverse (record_row x chain) (range_rows x f c ?c1 ?d) = Inr now"
      using range(2) by (auto simp: delivered_def dest: map_injective)
    then have rest: "traverse (record_row x chain) (?above ?c1) = Inr later"
      using Suc.prems(2) recs unfolding up [symmetric] traverse_append by (auto simp: result_simps)
    have "0 < unat BATCH" by (simp add: BATCH_def)
    then have "length later < k" using Suc.prems(3) recs True by simp
    from Suc.IH [OF c1 rest this] show ?thesis
      using read True recs by (simp add: paged_turn_def)
  qed
qed simp

text \<open>
  A replay ends, and yields the whole range. Over a log nobody writes to, reading page after page
  with the last position fed back yields every event above the start that the filter selects, once, in
  position order, and then the stream ends; as many turns as there are such events, and one, are always
  enough, whatever the number of events is against the page size.
\<close>

theorem replay_is_complete:
  assumes "db_ok x (isle_db s)" and "askable f" and "uint (get from) \<le> i64_max"
    and "traverse (record_row x (upcasters s))
      (List.filter (\<lambda>r. row_matches x f r \<and> from < row_place r) (tbl_events (isle_db s))) = Inr recs"
    and "length recs < k"
  shows "replay x (replicate k (still s)) from f = (map Inr recs, None)"
  using assms by (simp add: replay_def replay_run matching_def)

theorem replay_is_complete_witness:
  "\<exists>recs. replay toy_ext (replicate 2 (still (sample_log one_event_db))) BEGINNING filter_all = (map Inr recs, None)
     \<and> length recs \<le> 1"
proof -
  let ?s = "sample_log one_event_db"
  obtain recs where recs: "traverse (record_row toy_ext []) (List.filter (\<lambda>r. row_matches toy_ext filter_all r
      \<and> BEGINNING < row_place r) (tbl_events one_event_db)) = Inr recs" "length recs \<le> 1"
    using one_event_records by blast
  have "uint (get BEGINNING) \<le> i64_max" by (simp add: BEGINNING_def i64_max_def)
  then show ?thesis
    using replay_is_complete [of toy_ext ?s filter_all BEGINNING recs 2] recs by auto
qed

end
