(* ===== verification/Guarded.thy ===== *)
theory Guarded
  imports Log_Theorems
begin

text \<open>
  What stands before a caller's own SQL: the authorizer of \<open>crates/eventsdb-sqlite/src/hatch.rs\<close>, the
  guard that installs it for one call and takes it off again, and the mapping of a denial. A body under
  the guard returns or panics; the guard answers in either case.
\<close>

section \<open>The authorizer\<close>

definition RESERVED_TABLES :: "rust_string list" where
  "RESERVED_TABLES = [''events'', ''stream_seq'', ''checkpoints'', ''retention'', ''exports'', ''sqlite_sequence'']"

definition is_reserved :: "rust_string \<Rightarrow> bool" where
  "is_reserved table = list_ex (\<lambda>reserved. same_identifier reserved table) RESERVED_TABLES"

definition READ_ONLY_PRAGMAS :: "rust_string list" where
  "READ_ONLY_PRAGMAS =
     [''table_info'', ''table_xinfo'', ''index_list'', ''index_info'', ''index_xinfo'', ''foreign_key_list'']"

definition is_read_only_pragma :: "rust_string \<Rightarrow> bool" where
  "is_read_only_pragma pragma = list_ex (\<lambda>allowed. same_identifier allowed pragma) READ_ONLY_PRAGMAS"

text \<open>The actions SQLite asks about, by the name each is about; the object's own name comes first.\<close>

datatype auth_action =
    AuthInsert rust_string | AuthDelete rust_string | AuthUpdate rust_string rust_string
  | AuthDropTable rust_string | AuthDropTempTable rust_string | AuthAlterTable rust_string rust_string
  | AuthCreateTrigger rust_string rust_string | AuthCreateTempTrigger rust_string rust_string
  | AuthDropTrigger rust_string rust_string | AuthDropTempTrigger rust_string rust_string
  | AuthDropIndex rust_string rust_string | AuthDropTempIndex rust_string rust_string
  | AuthCreateTable rust_string | AuthCreateTempTable rust_string
  | AuthCreateView rust_string | AuthCreateTempView rust_string
  | AuthCreateIndex rust_string rust_string | AuthCreateTempIndex rust_string rust_string
  | AuthAttach rust_string | AuthDetach rust_string
  | AuthPragma rust_string "rust_string option"
  | AuthTransaction rust_string | AuthSavepoint rust_string rust_string
  | AuthSelect | AuthRead rust_string rust_string | AuthFunction rust_string | AuthOther

datatype authorization = Allow | Deny

definition authorize :: "auth_action \<Rightarrow> bool \<Rightarrow> authorization" where
  "authorize action trusted =
     (if trusted then Allow
      else case action of
          AuthInsert table \<Rightarrow> if is_reserved table then Deny else Allow
        | AuthDelete table \<Rightarrow> if is_reserved table then Deny else Allow
        | AuthUpdate table _ \<Rightarrow> if is_reserved table then Deny else Allow
        | AuthDropTable table \<Rightarrow> if is_reserved table then Deny else Allow
        | AuthDropTempTable table \<Rightarrow> if is_reserved table then Deny else Allow
        | AuthAlterTable _ table \<Rightarrow> if is_reserved table then Deny else Allow
        | AuthCreateTrigger _ table \<Rightarrow> if is_reserved table then Deny else Allow
        | AuthCreateTempTrigger _ table \<Rightarrow> if is_reserved table then Deny else Allow
        | AuthDropTrigger _ table \<Rightarrow> if is_reserved table then Deny else Allow
        | AuthDropTempTrigger _ table \<Rightarrow> if is_reserved table then Deny else Allow
        | AuthDropIndex _ table \<Rightarrow> if is_reserved table then Deny else Allow
        | AuthDropTempIndex _ table \<Rightarrow> if is_reserved table then Deny else Allow
        | AuthCreateTable table \<Rightarrow> if is_reserved table then Deny else Allow
        | AuthCreateTempTable table \<Rightarrow> if is_reserved table then Deny else Allow
        | AuthCreateView view \<Rightarrow> if is_reserved view then Deny else Allow
        | AuthCreateTempView view \<Rightarrow> if is_reserved view then Deny else Allow
        | AuthAttach _ \<Rightarrow> Deny
        | AuthDetach _ \<Rightarrow> Deny
        | AuthPragma name (Some _) \<Rightarrow> if is_read_only_pragma name then Allow else Deny
        | _ \<Rightarrow> Allow)"

section \<open>Denials\<close>

definition contains :: "rust_string \<Rightarrow> rust_string \<Rightarrow> bool" where
  "contains part s = list_ex (\<lambda>i. prefix part (drop i s)) [0..<Suc (length s)]"

text \<open>The text of a storage failure that comes from SQLite; the crate's own texts never say the words.\<close>

fun says_not_authorized :: "reason \<Rightarrow> bool" where
  "says_not_authorized (Engine (SqliteText (SqliteFailure _ msg))) = contains ''not authorized'' msg"
| "says_not_authorized (Engine (IsleText msg)) = contains ''not authorized'' msg"
| "says_not_authorized _ = False"

definition denied :: error where
  "denied = Unsupported (InHatch NotAuthorizedInHatch)"

fun map_denial :: "error \<Rightarrow> error" where
  "map_denial (Storage r) = (if says_not_authorized r then denied else Storage r)"
| "map_denial e = e"

section \<open>The guard\<close>

datatype 'a ran = Returned "'a result" | Unwound rust_string

text \<open>What SQLite answers when the authorizer is put on and taken off: nothing, or a failure's text.\<close>

record guard_env =
  install_fault :: "rust_string option"
  remove_fault :: "rust_string option"

definition quiet :: guard_env where
  "quiet = \<lparr> install_fault = None, remove_fault = None \<rparr>"

definition guarded :: "guard_env \<Rightarrow> ('m conn \<Rightarrow> 'a ran \<times> 'm conn) \<Rightarrow> ('m, error, 'a) job" where
  "guarded g body =
     (\<lambda>c. case install_fault g of
        Some e \<Rightarrow> (Inl (Storage (InHatch (AuthorizerNotInstalled e))), c)
      | None \<Rightarrow>
          let (outcome, c') = body c
          in (case remove_fault g of
                Some e \<Rightarrow> (Inl (Storage (InHatch (AuthorizerNotRemoved e))), c')
              | None \<Rightarrow>
                  (case outcome of
                     Returned (Inr value) \<Rightarrow> (Inr value, c')
                   | Returned (Inl e) \<Rightarrow> (Inl (map_denial e), c')
                   | Unwound message \<Rightarrow> (Inl (Storage (InHatch (Panicked message))), c'))))"

section \<open>Lemmas\<close>

lemma guarded_quiet [simp]:
  "guarded quiet body c =
     (let (outcome, c') = body c
      in (case outcome of
            Returned (Inr value) \<Rightarrow> (Inr value, c')
          | Returned (Inl e) \<Rightarrow> (Inl (map_denial e), c')
          | Unwound message \<Rightarrow> (Inl (Storage (InHatch (Panicked message))), c')))"
  by (simp add: guarded_def quiet_def)

lemma map_denial_busy [simp]: "is_busy (map_denial e) = is_busy e"
  by (cases e) (simp_all add: denied_def)

text \<open>What an action writes or shadows, in whichever schema.\<close>

fun writes_table :: "auth_action \<Rightarrow> rust_string option" where
  "writes_table (AuthInsert t) = Some t"
| "writes_table (AuthDelete t) = Some t"
| "writes_table (AuthUpdate t c) = Some t"
| "writes_table (AuthDropTable t) = Some t"
| "writes_table (AuthDropTempTable t) = Some t"
| "writes_table (AuthAlterTable d t) = Some t"
| "writes_table (AuthCreateTrigger n t) = Some t"
| "writes_table (AuthCreateTempTrigger n t) = Some t"
| "writes_table (AuthDropTrigger n t) = Some t"
| "writes_table (AuthDropTempTrigger n t) = Some t"
| "writes_table (AuthDropIndex n t) = Some t"
| "writes_table (AuthDropTempIndex n t) = Some t"
| "writes_table (AuthCreateTable t) = Some t"
| "writes_table (AuthCreateTempTable t) = Some t"
| "writes_table (AuthCreateView t) = Some t"
| "writes_table (AuthCreateTempView t) = Some t"
| "writes_table _ = None"

text \<open>
  The authorizer keeps a caller's SQL off the log's tables and lets it read everything. Without
  trust, an action is refused precisely when it writes, reshapes, drops or shadows one of the six
  reserved tables, in any schema and in any spelling of its name, when it attaches or detaches a
  database, or when it gives an argument to a pragma that does not merely describe; with trust nothing
  is refused.
\<close>

theorem authorize_denies_exactly_the_log:
  "authorize action True = Allow
   \<and> (authorize action False = Deny \<longleftrightarrow>
       (\<exists>t reserved. writes_table action = Some t \<and> ListMem reserved RESERVED_TABLES \<and> same_identifier reserved t)
       \<or> (\<exists>d. action = AuthAttach d \<or> action = AuthDetach d)
       \<or> (\<exists>p v. action = AuthPragma p (Some v) \<and> list_all (\<lambda>allowed. \<not> same_identifier allowed p) READ_ONLY_PRAGMAS))"
  by (cases action rule: writes_table.cases)
    (auto simp: authorize_def is_reserved_def is_read_only_pragma_def list_ex_iff list_all_iff ListMem_iff
      split: option.splits)

text \<open>
  The statements that end or divide a transaction are not among the refused: a caller's
  \<open>COMMIT\<close>, \<open>ROLLBACK\<close> or \<open>SAVEPOINT\<close>, sent as SQL through the transaction's handle, passes the
  authorizer in every form, so the single commit point of \<open>with_transaction\<close> is kept by the types of the
  handle only and not against the SQL it accepts.
\<close>

theorem authorize_lets_a_closure_commit:
  "authorize (AuthTransaction operation) trusted = Allow \<and> authorize (AuthSavepoint operation name) trusted = Allow"
  by (simp add: authorize_def)

end
