(* ===== verification/Txn.thy ===== *)
theory Txn
  imports Guarded
begin

text \<open>
  The transaction a caller works in: \<open>crates/eventsdb-sqlite/src/txn.rs\<close>, and \<open>with_transaction\<close> of
  \<open>hatch.rs\<close>. A closure runs against the connection and what its context holds; it answers, fails or
  panics. The operations of \<open>TxnContext\<close> are such steps: each a job on the connection, and what it adds to
  the published positions when it succeeds. The context hands out the raw handle as well, and the
  authorizer lets the SQL that ends or begins a transaction through, so these statements are steps too; and
  SQLite may roll the transaction back by itself where a statement of it fails.
\<close>

record exported_event =
  exported_stream :: rust_string
  exported_position :: "position option"
  exported_object :: json_map

text \<open>
  What a closure works in. \<open>scope_undo\<close> is the state of the connection's transaction: the tables a rollback
  gives back, or nothing where no transaction is open and every statement commits by itself.
  \<open>scope_aborts\<close> says on which of the steps to come that fail SQLite gives the transaction up.
\<close>

record 'm scope =
  scope_positions :: "position list"
  scope_undo :: "'m database option"
  scope_aborts :: "bool list"

type_synonym ('m, 'a) txn = "'m scope \<Rightarrow> 'm conn \<Rightarrow> 'a ran \<times> 'm scope \<times> 'm conn"

definition note_positions :: "position list \<Rightarrow> 'm scope \<Rightarrow> 'm scope" where
  "note_positions ps sc = sc\<lparr>scope_positions := scope_positions sc @ ps\<rparr>"

definition treturn :: "'a \<Rightarrow> ('m, 'a) txn" where
  "treturn v = (\<lambda>sc c. (Returned (Inr v), sc, c))"

text \<open>An error of the closure's own.\<close>

definition tfail :: "error \<Rightarrow> ('m, 'a) txn" where
  "tfail e = (\<lambda>sc c. (Returned (Inl e), sc, c))"

definition tbind :: "('m, 'a) txn \<Rightarrow> ('a \<Rightarrow> ('m, 'b) txn) \<Rightarrow> ('m, 'b) txn" where
  "tbind m f =
     (\<lambda>sc c. case m sc c of
        (Returned (Inr v), sc', c') \<Rightarrow> f v sc' c'
      | (Returned (Inl e), sc', c') \<Rightarrow> (Returned (Inl e), sc', c')
      | (Unwound message, sc', c') \<Rightarrow> (Unwound message, sc', c'))"

text \<open>A closure that does not hand an error on: the \<open>Err\<close> of a step becomes a value.\<close>

definition tcatch :: "('m, 'a) txn \<Rightarrow> ('m, 'a result) txn" where
  "tcatch m =
     (\<lambda>sc c. case m sc c of
        (Returned r, sc', c') \<Rightarrow> (Returned (Inr r), sc', c')
      | (Unwound message, sc', c') \<Rightarrow> (Unwound message, sc', c'))"

definition tpanic :: "rust_string \<Rightarrow> ('m, 'a) txn" where
  "tpanic message = (\<lambda>sc c. (Unwound message, sc, c))"

section \<open>Failures that end the transaction\<close>

text \<open>
  The failures after which SQLite may have rolled the whole transaction back: a full disk, an I/O error or
  no memory, contention, an interrupt, and a constraint of a statement that asks for it.
\<close>

fun may_roll_back :: "rusqlite_error \<Rightarrow> bool" where
  "may_roll_back (SqliteFailure code _) =
     (code = DiskFull \<or> code = OtherCode \<or> code = DatabaseBusy \<or> code = OperationInterrupted \<or> code = ConstraintViolation)"
| "may_roll_back _ = False"

fun ends_transaction :: "error \<Rightarrow> bool" where
  "ends_transaction (Storage (Engine (SqliteText e))) = may_roll_back e"
| "ends_transaction (Busy (Engine (SqliteText e))) = may_roll_back e"
| "ends_transaction (Timeout (Engine (SqliteText e))) = may_roll_back e"
| "ends_transaction _ = False"

definition abandon :: "error \<Rightarrow> 'm scope \<Rightarrow> 'm conn \<Rightarrow> 'm scope \<times> 'm conn" where
  "abandon e sc c =
     (let given_up = (scope_aborts sc \<noteq> [] \<and> hd (scope_aborts sc) \<and> ends_transaction e);
          later = sc\<lparr>scope_aborts := tl (scope_aborts sc)\<rparr>
      in case scope_undo sc of
           Some d \<Rightarrow> if given_up then (later\<lparr>scope_undo := None\<rparr>, c\<lparr>conn_db := d\<rparr>) else (later, c)
         | None \<Rightarrow> (later, c))"

definition within :: "('m, error, 'a) job \<Rightarrow> ('a \<Rightarrow> position list) \<Rightarrow> ('m, 'a) txn" where
  "within job positions =
     (\<lambda>sc c. case job c of
        (Inl e, c') \<Rightarrow> (Returned (Inl e), abandon e sc c')
      | (Inr v, c') \<Rightarrow> (Returned (Inr v), note_positions (positions v) sc, c'))"

section \<open>A closure's own SQL\<close>

text \<open>
  A caller's own statements: one that reads, of whose answer anything may depend, and one that writes, or
  fails, which under the authorizer reaches only the caller's tables.
\<close>

definition own_query :: "('m, 'm database) txn" where
  "own_query = within (map_err classify (query_row Some)) (\<lambda>_. [])"

definition own_execute :: "('m database \<Rightarrow> rusqlite_error + 'm) \<Rightarrow> ('m, unit) txn" where
  "own_execute f = within (map_err classify (execute (\<lambda>d. rmap (\<lambda>m. d\<lparr>caller_tables := m\<rparr>) (f d)))) (\<lambda>_. [])"

definition own_statement :: "('m \<Rightarrow> 'm) \<Rightarrow> ('m, unit) txn" where
  "own_statement f = own_execute (\<lambda>d. Inr (f (caller_tables d)))"

text \<open>The statements on the transaction itself.\<close>

definition refused_step :: "rust_string \<Rightarrow> ('m, unit) txn" where
  "refused_step message = (\<lambda>sc c. (Returned (Inl (classify (SqliteFailure OtherCode message))), sc, c))"

definition sql_commit :: "('m, unit) txn" where
  "sql_commit =
     tbind (within (\<lambda>c. case next_fault c of (Some e, c') \<Rightarrow> (Inl (classify e), c') | (None, c') \<Rightarrow> (Inr (), c')) (\<lambda>_. []))
       (\<lambda>_ sc c. case scope_undo sc of
          None \<Rightarrow> refused_step ''cannot commit - no transaction is active'' sc c
        | Some d \<Rightarrow> (Returned (Inr ()), sc\<lparr>scope_undo := None\<rparr>, c))"

definition sql_rollback :: "('m, unit) txn" where
  "sql_rollback =
     (\<lambda>sc c. case scope_undo sc of
        None \<Rightarrow> refused_step ''cannot rollback - no transaction is active'' sc c
      | Some d \<Rightarrow> (Returned (Inr ()), sc\<lparr>scope_undo := None\<rparr>, c\<lparr>conn_db := d\<rparr>))"

definition sql_begin :: "('m, unit) txn" where
  "sql_begin =
     tbind (within (\<lambda>c. case next_fault c of (Some e, c') \<Rightarrow> (Inl (classify e), c') | (None, c') \<Rightarrow> (Inr (), c')) (\<lambda>_. []))
       (\<lambda>_ sc c. case scope_undo sc of
          None \<Rightarrow> (Returned (Inr ()), sc\<lparr>scope_undo := Some (conn_db c)\<rparr>, c)
        | Some d \<Rightarrow> refused_step ''cannot start a transaction within a transaction'' sc c)"

fun ttraverse :: "('a \<Rightarrow> ('m, 'b) txn) \<Rightarrow> 'a list \<Rightarrow> ('m, 'b list) txn" where
  "ttraverse f [] = treturn []"
| "ttraverse f (v # vs) = tbind (f v) (\<lambda>w. tbind (ttraverse f vs) (\<lambda>ws. treturn (w # ws)))"

section \<open>The operations of the context\<close>

definition append_at_in :: "ext \<Rightarrow> rust_string \<Rightarrow> u64 \<Rightarrow> json_map \<Rightarrow> ('m, error, committed) job" where
  "append_at_in x stream epoch_ms event =
     jbind (jlift (validate event)) (\<lambda>_.
     jbind (next_seq stream) (\<lambda>seq. stamped_append x stream event seq epoch_ms))"

definition positions_of :: "committed list \<Rightarrow> position list" where
  "positions_of cs = filter_map committed_position cs"

definition tx_append_at :: "ext \<Rightarrow> rust_string \<Rightarrow> u64 \<Rightarrow> json_map \<Rightarrow> ('m, committed) txn" where
  "tx_append_at x stream epoch_ms event = within (append_at_in x stream epoch_ms event) (\<lambda>c. positions_of [c])"

definition tx_append :: "ext \<Rightarrow> rust_string \<Rightarrow> json_map \<Rightarrow> ('m, committed) txn" where
  "tx_append x stream event =
     tbind (within read_clock (\<lambda>_. [])) (\<lambda>now. tx_append_at x stream now event)"

definition many_step :: "ext \<Rightarrow> rust_string \<Rightarrow> u64 \<Rightarrow> nat \<times> u64 \<times> json_map \<Rightarrow> ('m, error, committed) job" where
  "many_step x stream base_seq =
     (\<lambda>(offset, epoch_ms, event).
        jbind (jlift (stamp event (base_seq + usize_of offset) epoch_ms)) (insert_stamped x stream))"

definition append_many_at_in ::
  "ext \<Rightarrow> rust_string \<Rightarrow> (u64 \<times> json_map) list \<Rightarrow> ('m, error, committed list) job" where
  "append_many_at_in x stream events =
     jbind (jlift (validate_all (map snd events))) (\<lambda>_.
       if events = [] then jreturn []
       else jbind (next_seq stream) (\<lambda>base_seq.
         jbind (jtraverse (many_step x stream base_seq) (List.enumerate 0 events)) (\<lambda>out.
         jbind (set_next_seq stream (base_seq + usize_of (length out))) (\<lambda>_. jreturn out))))"

definition tx_append_many_at ::
  "ext \<Rightarrow> rust_string \<Rightarrow> (u64 \<times> json_map) list \<Rightarrow> ('m, committed list) txn" where
  "tx_append_many_at x stream events = within (append_many_at_in x stream events) positions_of"

definition tx_append_many :: "ext \<Rightarrow> rust_string \<Rightarrow> json_map list \<Rightarrow> ('m, committed list) txn" where
  "tx_append_many x stream events =
     tbind (within read_clock (\<lambda>_. [])) (\<lambda>now. tx_append_many_at x stream (map (Pair now) events))"

text \<open>
  The run of an import. The next sequence number of each stream is read on first sight and kept in step
  in a map, here in the order of first sight, and written back once per stream at the end; the code
  keeps a \<open>HashMap\<close>, whose order decides only the order of those writes.
\<close>

fun import_rows ::
  "ext \<Rightarrow> exported_event list \<Rightarrow> (rust_string \<times> u64) list
     \<Rightarrow> ('m, error, committed list \<times> (rust_string \<times> u64) list) job" where
  "import_rows x [] next = jreturn ([], next)"
| "import_rows x (event # events) next =
     jbind (case map_of next (exported_stream event) of
              Some seq \<Rightarrow> jreturn seq
            | None \<Rightarrow> next_seq (exported_stream event)) (\<lambda>seq.
     jbind (jlift (restamp (exported_object event) seq)) (\<lambda>restamped.
     jbind (insert_stamped x (exported_stream event) restamped) (\<lambda>committed.
     jbind (import_rows x events (AList.update (exported_stream event) (seq + 1) next)) (\<lambda>(out, next').
       jreturn (committed # out, next')))))"

definition import_many_in :: "ext \<Rightarrow> exported_event list \<Rightarrow> ('m, error, committed list) job" where
  "import_many_in x exported =
     (if exported = [] then jreturn []
      else jbind (import_rows x exported []) (\<lambda>(out, next).
        jbind (jtraverse (\<lambda>(stream, seq). set_next_seq stream seq) next) (\<lambda>_. jreturn out)))"

definition tx_import_many :: "ext \<Rightarrow> exported_event list \<Rightarrow> ('m, committed list) txn" where
  "tx_import_many x exported = within (import_many_in x exported) positions_of"

definition tx_import :: "ext \<Rightarrow> exported_event \<Rightarrow> ('m, committed) txn" where
  "tx_import x exported =
     tbind (tx_import_many x [exported])
       (\<lambda>cs. case cs of [] \<Rightarrow> tpanic ''one event in, one out'' | _ \<Rightarrow> treturn (last cs))"

definition tx_read ::
  "ext \<Rightarrow> upcast_chain \<Rightarrow> rust_string \<Rightarrow> rust_string list option \<Rightarrow> u64 \<Rightarrow> usize \<Rightarrow> ('m, current list) txn" where
  "tx_read x chain stream kinds from_seq limit =
     within (jbind (select_stream x stream kinds from_seq limit) (\<lambda>stored. jlift (upcast_rows chain stored))) (\<lambda>_. [])"

definition tx_head :: "rust_string \<Rightarrow> ('m, u64 option) txn" where
  "tx_head stream =
     within (map_err classify (query_row (\<lambda>d. Some (map_option as_u64 (max_seq stream d))))) (\<lambda>_. [])"

section \<open>The transaction\<close>

text \<open>
  The closure inside its transaction. An error or a panic of it drops the handle, which rolls back the
  transaction the connection is in, if it is in one; success ends in \<open>COMMIT\<close>, refused where there is none.
  The published positions are collected before it.
\<close>

definition entered :: "bool list \<Rightarrow> 'm database \<Rightarrow> 'm scope" where
  "entered aborts d = \<lparr> scope_positions = [], scope_undo = Some d, scope_aborts = aborts \<rparr>"

definition dropped :: "'m scope \<Rightarrow> 'm conn \<Rightarrow> 'm conn" where
  "dropped sc c = (case scope_undo sc of None \<Rightarrow> c | Some d \<Rightarrow> c\<lparr>conn_db := d\<rparr>)"

definition in_transaction :: "bool list \<Rightarrow> ('m, 'a) txn \<Rightarrow> 'm conn \<Rightarrow> ('a \<times> position list) ran \<times> 'm conn" where
  "in_transaction aborts body =
     (\<lambda>c. case next_fault c of
        (Some e, c1) \<Rightarrow> (Returned (Inl (classify e)), c1)
      | (None, c1) \<Rightarrow>
          (case body (entered aborts (conn_db c1)) c1 of
             (Returned (Inl e), sc, c2) \<Rightarrow> (Returned (Inl e), dropped sc c2)
           | (Unwound message, sc, c2) \<Rightarrow> (Unwound message, dropped sc c2)
           | (Returned (Inr v), sc, c2) \<Rightarrow>
               (case sql_commit sc c2 of
                  (Returned (Inl e), sc', c3) \<Rightarrow> (Returned (Inl e), dropped sc' c3)
                | (Unwound message, sc', c3) \<Rightarrow> (Unwound message, dropped sc' c3)
                | (Returned (Inr _), sc', c3) \<Rightarrow> (Returned (Inr (v, scope_positions sc)), c3))))"

definition highest_position :: "position list \<Rightarrow> position option" where
  "highest_position ps = (case ps of [] \<Rightarrow> None | p # rest \<Rightarrow> Some (foldr max rest p))"

definition with_transaction ::
  "guard_env \<Rightarrow> attempt \<Rightarrow> ('m, 'a) txn \<Rightarrow> 'm shared \<Rightarrow> 'a result \<times> 'm shared" where
  "with_transaction g a body s =
     (case isle_call a (guarded g (in_transaction (engine_aborts a) body)) (isle_db s) of
        (Inl e, d) \<Rightarrow> (Inl e, s\<lparr>isle_db := d\<rparr>)
      | (Inr (v, positions), d) \<Rightarrow> (Inr v, publish_committed (highest_position positions) (s\<lparr>isle_db := d\<rparr>)))"

end
