(* ===== verification/Txn_Theorems.thy ===== *)
theory Txn_Theorems
  imports Txn
begin

text \<open>
  What a caller's transaction does, with whatever failures: nothing, or all that its closure did, as long as
  the closure leaves the one transaction it was given open; what happens where it does not; and what the
  operations of the context do to the tables.
\<close>

section \<open>Closures as jobs\<close>

text \<open>A closure that hands its errors on is a job; a panic ends it like an error does.\<close>

definition as_job :: "('m, 'a) txn \<Rightarrow> 'm scope \<Rightarrow> ('m, error, 'a \<times> 'm scope) job" where
  "as_job m sc =
     (\<lambda>c. case m sc c of
        (Returned (Inr v), sc', c') \<Rightarrow> (Inr (v, sc'), c')
      | (Returned (Inl e), sc', c') \<Rightarrow> (Inl e, c')
      | (Unwound message, sc', c') \<Rightarrow> (Inl (Storage (InHatch (Panicked message))), c'))"

text \<open>A job inside a transaction, which its failure may end.\<close>

definition yielding :: "'m scope \<Rightarrow> ('m, error, 'a) job \<Rightarrow> ('m, error, 'a) job" where
  "yielding sc job =
     (\<lambda>c. case job c of (Inl e, c') \<Rightarrow> (Inl e, snd (abandon e sc c')) | (Inr v, c') \<Rightarrow> (Inr v, c'))"

lemma note_positions_sel [simp]:
  "scope_positions (note_positions ps sc) = scope_positions sc @ ps" "scope_undo (note_positions ps sc) = scope_undo sc"
  "scope_aborts (note_positions ps sc) = scope_aborts sc" "note_positions [] sc = sc"
  "note_positions qs (note_positions ps sc) = note_positions (ps @ qs) sc"
  by (simp_all add: note_positions_def)

lemma entered_sel [simp]:
  "scope_positions (entered aborts d) = []" "scope_undo (entered aborts d) = Some d" "scope_aborts (entered aborts d) = aborts"
  by (simp_all add: entered_def)

lemma as_job_simps [job_simps]:
  "as_job (treturn v) sc = jreturn (v, sc)"
  "as_job (within job note) sc = jbind (yielding sc job) (\<lambda>v. jreturn (v, note_positions (note v) sc))"
  "as_job (tbind m f) sc = jbind (as_job m sc) (\<lambda>(v, sc'). as_job (f v) sc')"
  "as_job (tpanic message) sc = jlift (Inl (Storage (InHatch (Panicked message))))"
  "as_job (tfail e) sc = jlift (Inl e)"
  by (auto simp: as_job_def treturn_def within_def tbind_def tpanic_def tfail_def yielding_def jreturn_def jbind_def jlift_def
      fun_eq_iff split: sum.splits prod.splits ran.splits)

lemma yielding_run [job_simps]:
  "yielding sc job c = (case job c of (Inl e, c') \<Rightarrow> (Inl e, snd (abandon e sc c')) | (Inr v, c') \<Rightarrow> (Inr v, c'))"
  by (simp add: yielding_def)

lemma abandon_cases:
  fixes sc :: "'m scope"
  obtains sc' where "abandon e sc c = (sc', c)" "scope_undo sc' = scope_undo sc"
  | sc' d where "scope_undo sc = Some d" "abandon e sc c = (sc', c\<lparr>conn_db := d\<rparr>)" "scope_undo sc' = None"
proof (cases "scope_aborts sc \<noteq> [] \<and> hd (scope_aborts sc) \<and> ends_transaction e \<and> scope_undo sc \<noteq> None")
  case True
  then show ?thesis using that(2) by (auto simp: abandon_def)
next
  case False
  then have "abandon e sc c = (sc\<lparr>scope_aborts := tl (scope_aborts sc)\<rparr>, c)"
    by (auto simp: abandon_def Let_def split: option.splits)
  then show ?thesis by (rule that(1)) simp
qed

lemma abandon_calm: "calm (snd (abandon e sc c)) = snd (abandon e sc (calm c))" "faults (snd (abandon e sc c)) = faults c"
  by (simp_all add: abandon_def Let_def split: option.splits)

lemma transparent_yielding [transparent_intros]:
  assumes "transparent F job"
  shows "transparent F (yielding sc job)"
proof (rule transparentI)
  fix c r c'
  assume run: "yielding sc job c = (r, c')"
  obtain r1 c1 where job: "job c = (r1, c1)" by force
  show "(\<exists>e. r = Inl e \<and> F e) \<or> yielding sc job (calm c) = (r, calm c')"
    using transparentD [OF assms job] run by (cases r1) (auto simp: yielding_def job abandon_calm)
  show "faults c' = []" if "faults c = []"
    using transparent_stays_calm [OF assms job that] run by (cases r1) (auto simp: yielding_def job abandon_calm)
qed

section \<open>Closures that keep their transaction open\<close>

text \<open>
  A closure is \<open>steadfast\<close> when it leaves the transaction it was given open where it succeeds, and where it
  fails has at most had it rolled back. What is built from the operations of the context and own statements
  is, as long as it hands every error on; a closure that sends \<open>COMMIT\<close> is not.
\<close>

definition steadfast :: "('m, 'a) txn \<Rightarrow> bool" where
  "steadfast m \<longleftrightarrow>
     (\<forall>sc c d. scope_undo sc = Some d \<longrightarrow>
        (case m sc c of
           (Returned (Inr v), sc', c') \<Rightarrow> scope_undo sc' = Some d
         | (_, sc', c') \<Rightarrow> conn_db (dropped sc' c') = d))"

named_theorems steadfast_intros

lemma dropped_simps [simp]:
  "scope_undo sc = Some d \<Longrightarrow> dropped sc c = c\<lparr>conn_db := d\<rparr>"
  "scope_undo sc = None \<Longrightarrow> dropped sc c = c"
  by (simp_all add: dropped_def)

lemma dropped_conn: "dropped sc c = c\<lparr>conn_db := conn_db (dropped sc c)\<rparr>"
  by (cases "scope_undo sc") simp_all

lemma steadfast_end [steadfast_intros]:
  "steadfast (treturn v)" "steadfast (tfail e)" "steadfast (tpanic message)"
  by (simp_all add: steadfast_def treturn_def tfail_def tpanic_def)

lemma steadfast_within [steadfast_intros]: "steadfast (within job note)"
proof -
  have "conn_db (dropped sc' c') = d" if "scope_undo sc = Some d" "abandon e sc c = (sc', c')" for e d c c' and sc sc' :: "'a scope"
    by (rule abandon_cases [of e sc c]) (use that in auto)
  then show ?thesis by (auto simp: steadfast_def within_def split: sum.splits prod.splits)
qed

lemma steadfast_bind [steadfast_intros]:
  fixes m :: "('m, 'a) txn"
  assumes "steadfast m" and "\<And>v. steadfast (f v)"
  shows "steadfast (tbind m f)"
  unfolding steadfast_def
proof (intro allI impI)
  fix sc :: "'m scope" and c d
  assume open_: "scope_undo sc = Some d"
  obtain q sc' c' where m: "m sc c = (q, sc', c')" by (metis prod_cases3)
  have one: "case q of Returned (Inr v) \<Rightarrow> scope_undo sc' = Some d | _ \<Rightarrow> conn_db (dropped sc' c') = d"
    using assms(1) [unfolded steadfast_def, rule_format, OF open_, of c] by (auto simp: m split: ran.splits sum.splits)
  show "case tbind m f sc c of
          (Returned (Inr v), sc', c') \<Rightarrow> scope_undo sc' = Some d
        | (_, sc', c') \<Rightarrow> conn_db (dropped sc' c') = d"
  proof (cases "\<exists>v. q = Returned (Inr v)")
    case True
    then obtain v where v: "q = Returned (Inr v)" by blast
    then have "scope_undo sc' = Some d" using one by simp
    then show ?thesis using assms(2) [of v] by (simp add: tbind_def m v steadfast_def)
  qed (use one in \<open>auto simp: tbind_def m split: ran.splits sum.splits\<close>)
qed

lemma steadfast_traverse [steadfast_intros]: "(\<And>v. steadfast (f v)) \<Longrightarrow> steadfast (ttraverse f vs)"
  by (induction vs) (auto intro!: steadfast_intros)

lemma steadfast_context [steadfast_intros]:
  "steadfast own_query" "steadfast (own_execute f)" "steadfast (own_statement g)"
  "steadfast (tx_append_at x stream t event)" "steadfast (tx_append x stream event)"
  "steadfast (tx_append_many_at x stream timed)" "steadfast (tx_append_many x stream events)"
  "steadfast (tx_import_many x exported)" "steadfast (tx_read x chain stream kinds from_seq limit)"
  "steadfast (tx_head stream)"
  unfolding own_query_def own_execute_def own_statement_def tx_append_at_def tx_append_def tx_append_many_at_def
    tx_append_many_def tx_import_many_def tx_read_def tx_head_def
  by (intro steadfast_intros)+

lemma steadfast_import [steadfast_intros]: "steadfast (tx_import x exported)"
  unfolding tx_import_def by (intro steadfast_intros) (auto intro: steadfast_intros split: list.splits)

section \<open>The transaction as a job\<close>

definition as_body :: "bool list \<Rightarrow> ('m, 'a) txn \<Rightarrow> ('m, error, 'a \<times> position list) job" where
  "as_body aborts m = (\<lambda>c. jbind (as_job m (entered aborts (conn_db c))) (\<lambda>(v, sc). jreturn (v, scope_positions sc)) c)"

lemma transparent_as_body [transparent_intros]:
  assumes "\<And>sc. transparent surfaced (as_job m sc)"
  shows "transparent surfaced (as_body aborts m)"
proof -
  have "transparent surfaced (jbind (as_job m sc) (\<lambda>(v, sc). jreturn (v, scope_positions sc)))" for sc
    by (intro transparent_intros assms)
  then show ?thesis unfolding transparent_def as_body_def by (metis calm_simps(2))
qed

lemma as_body_run [job_simps]:
  "as_body aborts m c = (case as_job m (entered aborts (conn_db c)) c of
     (Inl e, c') \<Rightarrow> (Inl e, c') | (Inr (v, sc), c') \<Rightarrow> (Inr (v, scope_positions sc), c'))"
  by (auto simp: as_body_def jbind_def jreturn_def split: sum.splits prod.splits)

lemma guarded_in_transaction:
  assumes "steadfast body"
  shows "guarded quiet (in_transaction aborts body) c = map_err map_denial (committing (as_body aborts body)) c"
proof (rule next_fault_cases [of c])
  fix c1
  assume first: "next_fault c = (None, c1)" "conn_db c1 = conn_db c"
  let ?sc = "entered aborts (conn_db c)"
  obtain q sc c2 where run: "body ?sc c1 = (q, sc, c2)" by (metis prod_cases3)
  have one: "case q of Returned (Inr v) \<Rightarrow> scope_undo sc = Some (conn_db c) | _ \<Rightarrow> conn_db (dropped sc c2) = conn_db c"
    using assms [unfolded steadfast_def, rule_format, of ?sc "conn_db c" c1] run by (auto split: ran.splits sum.splits)
  show ?thesis
  proof (cases "\<exists>v. q = Returned (Inr v)")
    case True
    then obtain v where q: "q = Returned (Inr v)" by blast
    then have still: "scope_undo sc = Some (conn_db c)" using one by simp
    show ?thesis
    proof (rule next_fault_cases [of c2])
      fix code msg c3
      assume fault: "next_fault c2 = (Some (SqliteFailure code msg), c3)"
      obtain sc' c4 where gone: "abandon (classify (SqliteFailure code msg)) sc c3 = (sc', c4)" by force
      have "dropped sc' c4 = c3\<lparr>conn_db := conn_db c\<rparr>"
        by (rule abandon_cases [of "classify (SqliteFailure code msg)" sc c3]) (use gone still in auto)
      then show ?thesis
        using first run q still fault gone
        by (simp add: in_transaction_def committing_def transaction_def map_err_def as_body_run as_job_def jbind_def jreturn_def
            sql_commit_def tbind_def within_def)
    qed (use first run q still in \<open>simp add: in_transaction_def committing_def transaction_def map_err_def as_body_run
          as_job_def jbind_def jreturn_def sql_commit_def tbind_def within_def\<close>)
  next
    case False
    then have restored: "dropped sc c2 = c2\<lparr>conn_db := conn_db c\<rparr>"
      using one dropped_conn [of sc c2] by (auto split: ran.splits sum.splits)
    show ?thesis
      using False first run restored
      by (cases q) (auto simp: in_transaction_def committing_def transaction_def map_err_def as_body_run as_job_def jbind_def
          split: sum.splits)
  qed
qed (auto simp: in_transaction_def committing_def transaction_def map_err_def)

lemma guarded_job:
  "steadfast body \<Longrightarrow> guarded quiet (in_transaction aborts body) = map_err map_denial (committing (as_body aborts body))"
  by (rule ext) (rule guarded_in_transaction)

lemma isle_call_map_err:
  "isle_call a (map_err h job) d =
     (case isle_call a job d of
        (Inl e, d') \<Rightarrow> (Inl (if isle_fault a = None then h e else e), d')
      | (Inr v, d') \<Rightarrow> (Inr v, d'))"
  by (auto simp: isle_call_def map_err_def Let_def split: option.splits prod.splits sum.splits)

lemma calm_run_as_body:
  "calm_run (as_body aborts m) ts d = (case calm_run (as_job m (entered aborts d)) ts d of
     (Inl e, d') \<Rightarrow> (Inl e, d') | (Inr (v, sc), d') \<Rightarrow> (Inr (v, scope_positions sc), d'))"
  by (auto simp: calm_run_def as_body_run split: prod.splits sum.splits)

lemma transaction_call_outcome:
  assumes "steadfast body" and "\<And>sc. transparent surfaced (as_job body sc)"
  obtains e where "isle_call a (guarded quiet (in_transaction aborts body)) d = (Inl e, d)"
  | v sc d' where "calm_run (as_job body (entered aborts d)) (readings a) d = (Inr (v, sc), d')"
      "isle_call a (guarded quiet (in_transaction aborts body)) d = (Inr (v, scope_positions sc), d')"
proof -
  let ?job = "committing (as_body aborts body)"
  note tr = transparent_as_body [OF assms(2), of aborts]
  consider (fault) e where "isle_call a ?job d = (Inl e, d)"
    | (calm) "isle_call a ?job d = calm_run ?job (readings a) d"
    using isle_call_calm_or_fault [OF transparent_committing [OF tr] atomic_committing] by metis
  then show ?thesis
  proof cases
    case fault
    then show ?thesis using that(1) by (simp add: guarded_job [OF assms(1)] isle_call_map_err)
  next
    case calm
    obtain r d' where r: "calm_run (as_job body (entered aborts d)) (readings a) d = (r, d')" by force
    then show ?thesis
      using that calm
      by (cases r) (auto simp: guarded_job [OF assms(1)] isle_call_map_err calm_run_committing [OF tr] calm_run_as_body
          split: prod.splits)
  qed
qed

lemma with_transaction_outcome:
  assumes "steadfast body" and "\<And>sc. transparent surfaced (as_job body sc)"
  obtains e where "with_transaction quiet a body s = (Inl e, s)"
  | v sc d' where "calm_run (as_job body (entered (engine_aborts a) (isle_db s))) (readings a) (isle_db s) = (Inr (v, sc), d')"
      "with_transaction quiet a body s = (Inr v, publish_committed (highest_position (scope_positions sc)) (s\<lparr>isle_db := d'\<rparr>))"
  by (rule transaction_call_outcome [OF assms, of a "engine_aborts a" "isle_db s"]) (auto simp: with_transaction_def intro: that)

lemma with_transaction_calm:
  assumes "steadfast body" and "\<And>sc. transparent surfaced (as_job body sc)"
    and "calm_run (as_job body (entered [] (isle_db s))) [t] (isle_db s) = (Inr (v, sc), d')"
  shows "with_transaction quiet (calm_at t) body s
     = (Inr v, publish_committed (highest_position (scope_positions sc)) (s\<lparr>isle_db := d'\<rparr>))"
proof -
  have "calm_run (as_body [] body) [t] (isle_db s) = (Inr (v, scope_positions sc), d')"
    using assms(3) by (auto simp: calm_run_def job_simps split: prod.splits)
  then have "calm_run (committing (as_body [] body)) [t] (isle_db s) = (Inr (v, scope_positions sc), d')"
    by (subst calm_run_committing) (use transparent_as_body [OF assms(2)] in auto)
  then show ?thesis
    by (simp add: with_transaction_def guarded_job [OF assms(1)] isle_call_map_err isle_call_calm_at)
qed

lemma next_fault_clock: "next_fault c = (f, c') \<Longrightarrow> clock c' = clock c \<and> conn_db c' = conn_db c"
  by (auto simp: next_fault_def split: list.splits)

text \<open>
  How a closure's call may end, whatever the closure: before the closure runs, or with what the connection's
  transaction gives back where the closure or the commit failed, or with what the closure left.
\<close>

lemma in_transaction_cases:
  assumes "in_transaction aborts body c = (q, c')"
  obtains e where "q = Returned (Inl e)" "conn_db c' = conn_db c"
  | fs q' sc c2 where "body (entered aborts (conn_db c)) \<lparr>conn_db = conn_db c, faults = fs, clock = clock c\<rparr> = (q', sc, c2)"
      "\<forall>v. q \<noteq> Returned (Inr v)" "conn_db c' = conn_db (dropped sc c2)"
  | fs v sc c2 where "body (entered aborts (conn_db c)) \<lparr>conn_db = conn_db c, faults = fs, clock = clock c\<rparr> = (Returned (Inr v), sc, c2)"
      "q = Returned (Inr (v, scope_positions sc))" "scope_undo sc \<noteq> None" "conn_db c' = conn_db c2"
proof (rule next_fault_cases [of c])
  fix code msg c1
  assume "next_fault c = (Some (SqliteFailure code msg), c1)" "conn_db c1 = conn_db c"
  then show thesis using that(1) assms by (auto simp: in_transaction_def)
next
  fix c1
  assume first: "next_fault c = (None, c1)" "conn_db c1 = conn_db c"
  then obtain fs where c1: "c1 = \<lparr>conn_db = conn_db c, faults = fs, clock = clock c\<rparr>"
    using next_fault_clock [OF first(1)] by (cases c1) simp
  obtain q' sc c2 where run: "body (entered aborts (conn_db c)) c1 = (q', sc, c2)" by (metis prod_cases3)
  note run' = run [unfolded c1]
  show thesis
  proof (cases "\<exists>v. q' = Returned (Inr v)")
    case False
    then have "\<forall>v. q \<noteq> Returned (Inr v)" "c' = dropped sc c2"
      using assms first run by (cases q'; auto simp: in_transaction_def split: sum.splits)+
    then show thesis using that(2) [OF run'] by simp
  next
    case True
    then obtain v where v: "q' = Returned (Inr v)" by blast
    show thesis
    proof (rule next_fault_cases [of c2])
      fix code msg c3
      assume fault: "next_fault c2 = (Some (SqliteFailure code msg), c3)" and same: "conn_db c3 = conn_db c2"
      let ?e = "classify (SqliteFailure code msg)"
      obtain sc' c4 where gone: "abandon ?e sc c3 = (sc', c4)" by force
      have "conn_db (dropped sc' c4) = conn_db (dropped sc c2)"
        by (rule abandon_cases [of ?e sc c3]) (use gone same in \<open>auto simp: dropped_def split: option.splits\<close>)
      moreover have "q = Returned (Inl ?e)" "c' = dropped sc' c4"
        using assms first run v fault gone by (simp_all add: in_transaction_def sql_commit_def tbind_def within_def)
      ultimately show thesis using that(2) [OF run'] by simp
    next
      fix c3
      assume none: "next_fault c2 = (None, c3)" and same: "conn_db c3 = conn_db c2"
      show thesis
      proof (cases "scope_undo sc")
        case None
        then have "\<forall>v. q \<noteq> Returned (Inr v)" "c' = c3"
          using assms first run v none by (auto simp: in_transaction_def sql_commit_def refused_step_def tbind_def within_def)
        then show thesis using that(2) [OF run'] None same by simp
      next
        case (Some d)
        then have "q = Returned (Inr (v, scope_positions sc))" "c' = c3"
          using assms first run v none by (simp_all add: in_transaction_def sql_commit_def tbind_def within_def)
        then show thesis using that(3) [OF run' [unfolded v]] Some same by simp
      qed
    qed
  qed
qed

lemma steadfast_dropped:
  assumes "steadfast body" and "body (entered aborts d) c = (q, sc, c')"
  shows "conn_db (dropped sc c') = d"
  using assms(1) [unfolded steadfast_def, rule_format, of "entered aborts d" d c] assms(2)
  by (auto split: ran.splits sum.splits)

lemma guarded_outcome:
  assumes "remove_fault g = None" and "guarded g body c = (r, c')"
  obtains e where "install_fault g \<noteq> None" "r = Inl e" "c' = c"
  | q where "install_fault g = None" "body c = (q, c')" "\<forall>v. r = Inr v \<longleftrightarrow> q = Returned (Inr v)"
  using assms by (auto simp: guarded_def Let_def split: option.splits prod.splits ran.splits sum.splits)

text \<open>
  C3. A caller's transaction is all or nothing as long as its closure leaves it open. Whatever the closure
  does, read, append, write its own tables, catch its own errors, fail or panic: where the call answers a
  value, that is the value the closure returned, its transaction was open to the end, the tables are those
  the closure left, and the published position moved to the highest of those it appended at, never before
  the commit. Where it answers an error, of the closure, of the beginning or the commit, of the connection
  thread or of a denial, nothing is published, and the state is exactly what it was; this is so of every
  closure that is steadfast, and of any other as well unless, when it ended, the transaction the call had
  opened was no longer the connection's: the closure had sent \<open>COMMIT\<close> or \<open>ROLLBACK\<close>, which the authorizer
  lets through, or had carried on after SQLite itself rolled back. Then the tables are those the closure
  left, less what a transaction it has begun and not ended did. The other exception is the authorizer that
  cannot be taken off.
\<close>

theorem with_transaction_all_or_nothing:
  assumes "remove_fault g = None" and "with_transaction g a body s = (r, s')"
  shows "case r of
     Inl e \<Rightarrow> (steadfast body \<longrightarrow> s' = s)
       \<and> (s' = s \<or> (\<exists>faults' q sc c. body (entered (engine_aborts a) (isle_db s))
              \<lparr>conn_db = isle_db s, faults = faults', clock = readings a\<rparr> = (q, sc, c)
            \<and> scope_undo sc \<noteq> Some (isle_db s) \<and> s' = s\<lparr>isle_db := conn_db (dropped sc c)\<rparr>))
   | Inr v \<Rightarrow> \<exists>faults' sc c. body (entered (engine_aborts a) (isle_db s))
              \<lparr>conn_db = isle_db s, faults = faults', clock = readings a\<rparr> = (Returned (Inr v), sc, c)
       \<and> scope_undo sc \<noteq> None
       \<and> s' = publish_committed (highest_position (scope_positions sc)) (s\<lparr>isle_db := conn_db c\<rparr>)"
proof -
  let ?c = "\<lparr>conn_db = isle_db s, faults = stmt_faults a, clock = readings a\<rparr>"
  let ?job = "guarded g (in_transaction (engine_aborts a) body)"
  show ?thesis
  proof (cases "isle_fault a")
    case (Some e)
    then show ?thesis using assms(2) by (auto simp: with_transaction_def isle_call_def)
  next
    case None
    obtain r1 c1 where run: "?job ?c = (r1, c1)" by force
    then have call: "isle_call a ?job (isle_db s) = (r1, conn_db c1)" using None by (simp add: isle_call_def)
    show ?thesis
    proof (rule guarded_outcome [OF assms(1) run])
      fix e assume "r1 = Inl e" "c1 = ?c"
      then show ?thesis using assms(2) call by (auto simp: with_transaction_def)
    next
      fix q assume q: "in_transaction (engine_aborts a) body ?c = (q, c1)" "\<forall>v. r1 = Inr v \<longleftrightarrow> q = Returned (Inr v)"
      from q(1) show ?thesis
      proof (cases rule: in_transaction_cases)
        case (1 e)
        then have "\<exists>e. r1 = Inl e" using q(2) by (cases r1) auto
        then show ?thesis using assms(2) call 1 by (auto simp: with_transaction_def)
      next
        case (2 fs q' sc c2)
        then obtain e where "r1 = Inl e" using q(2) by (cases r1) auto
        then have out: "r = Inl e" "s' = s\<lparr>isle_db := conn_db (dropped sc c2)\<rparr>"
          using assms(2) call 2(3) by (auto simp: with_transaction_def)
        moreover have "steadfast body \<longrightarrow> s' = s" 
          using steadfast_dropped [of body "engine_aborts a" "isle_db s"] 2(1) out(2) by auto
        moreover have "s' = s" if "scope_undo sc = Some (isle_db s)" using out(2) that by simp
        ultimately show ?thesis
          using 2(1) by (cases "scope_undo sc = Some (isle_db s)") (simp, simp, blast)
      next
        case (3 fs v sc c2)
        then have "r1 = Inr (v, scope_positions sc)" using q(2) by simp
        then have "r = Inr v" "s' = publish_committed (highest_position (scope_positions sc)) (s\<lparr>isle_db := conn_db c2\<rparr>)"
          using assms(2) call 3(4) by (simp_all add: with_transaction_def)
        then show ?thesis using 3(1,3) by (intro exI [of _ fs] exI [of _ sc] exI [of _ c2] | simp)+
      qed
    qed
  qed
qed

theorem with_transaction_all_or_nothing_witness:
  "with_transaction quiet (calm_at 0) (tbind (own_statement (\<lambda>m. m + 1)) (\<lambda>_. tpanic ''gone''))
     (sample_log (empty_database (4 :: nat))) =
     (Inl (Storage (InHatch (Panicked ''gone''))) :: unit result, sample_log (empty_database 4))"
proof -
  let ?s = "sample_log (empty_database (4 :: nat))"
  let ?body = "tbind (own_statement (\<lambda>m. m + 1)) (\<lambda>_. tpanic ''gone'') :: (nat, unit) txn"
  obtain r s' where run: "with_transaction quiet (calm_at 0) ?body ?s = (r, s')" by force
  have "r = Inl (Storage (InHatch (Panicked ''gone'')))"
    using run by (auto simp: with_transaction_def isle_call_def in_transaction_def tbind_def own_statement_def own_execute_def
        within_def tpanic_def job_simps result_simps split: prod.splits sum.splits)
  moreover have "steadfast ?body" by (intro steadfast_intros)
  ultimately show ?thesis
    using with_transaction_all_or_nothing [OF _ run] run by (auto simp: quiet_def)
qed

text \<open>
  A closure that commits and then fails keeps its rows. An append, a \<open>COMMIT\<close> sent as SQL and an error of
  the closure: the call answers the error, the event is in the log, and nobody is woken.
\<close>

theorem commit_inside_splits_the_transaction:
  assumes "calm_run (as_job work (entered [] (isle_db s))) [t] (isle_db s) = (Inr (v, sc), d')"
    and "\<And>sc. transparent surfaced (as_job work sc)" and "steadfast work"
  shows "with_transaction quiet (calm_at t) (tbind work (\<lambda>_. tbind sql_commit (\<lambda>_. tfail e))) s
     = (Inl (map_denial e), s\<lparr>isle_db := d'\<rparr>)"
proof -
  let ?c = "\<lparr>conn_db = isle_db s, faults = [], clock = [t]\<rparr>"
  obtain c' where run: "work (entered [] (isle_db s)) ?c = (Returned (Inr v), sc, c')" and d': "conn_db c' = d'"
    using assms(1) by (auto simp: calm_run_def as_job_def split: prod.splits ran.splits sum.splits)
  have "as_job work (entered [] (isle_db s)) ?c = (Inr (v, sc), c')" by (simp add: as_job_def run)
  then have "faults c' = []" using transparent_stays_calm [OF assms(2)] by force
  moreover have "scope_undo sc = Some (isle_db s)"
    using assms(3) [unfolded steadfast_def, rule_format, of "entered [] (isle_db s)" "isle_db s" ?c] run by simp
  ultimately show ?thesis
    by (simp add: with_transaction_def isle_call_calm in_transaction_def tbind_def run sql_commit_def within_def tfail_def d')
qed

theorem commit_inside_splits_the_transaction_witness:
  "with_transaction quiet (calm_at 0) (tbind (own_statement Suc) (\<lambda>_. tbind sql_commit (\<lambda>_. tfail (Validation (Envelope (KeyRequired FIELD_KIND))))))
     (sample_log (empty_database 1))
     = (Inl (Validation (Envelope (KeyRequired FIELD_KIND))) :: unit result, (sample_log (empty_database 1))\<lparr>isle_db := empty_database 2\<rparr>)"
proof -
  have run: "calm_run (as_job (own_statement Suc) (entered [] (isle_db (sample_log (empty_database 1))))) [0]
      (isle_db (sample_log (empty_database 1))) = (Inr ((), entered [] (empty_database 1)), empty_database 2)"
    by (simp add: calm_run_def as_job_def own_statement_def own_execute_def within_def job_simps result_simps empty_database_def)
  have "transparent surfaced (as_job (own_statement Suc) sc)" for sc
    unfolding own_statement_def own_execute_def as_job_simps by (intro transparent_intros)
  then show ?thesis
    by (subst commit_inside_splits_the_transaction [OF run _ steadfast_context(3)]) simp_all
qed

text \<open>
  The same without a word of the closure's: where SQLite answers a failing statement by rolling the whole
  transaction back, and the closure keeps the error to itself, what it did before is gone, what it does after
  stays, and the call answers that there is no transaction to commit.
\<close>

definition full_disk :: attempt where
  "full_disk = \<lparr> isle_fault = None, stmt_faults = [None, None, Some (DiskFull, ''database or disk is full'')], readings = [],
     engine_aborts = [True] \<rparr>"

theorem swallowed_rollback_splits_the_transaction:
  "with_transaction quiet full_disk
       (tbind (own_statement f) (\<lambda>_. tbind (tcatch (own_statement g)) (\<lambda>_. own_statement h))) s
     = (Inl (classify (SqliteFailure OtherCode ''cannot commit - no transaction is active'')),
        s\<lparr>isle_db := (isle_db s)\<lparr>caller_tables := h (caller_tables (isle_db s))\<rparr>\<rparr>)"
proof -
  have "\<not> contains ''not authorized'' ''cannot commit - no transaction is active''" by code_simp
  then show ?thesis
    by (simp add: with_transaction_def isle_call_def full_disk_def in_transaction_def tbind_def tcatch_def own_statement_def
        own_execute_def within_def sql_commit_def refused_step_def execute_def statement_def next_fault_def map_err_def
        result_simps abandon_def entered_def note_positions_def classify_def Let_def)
qed

section \<open>Appending in a transaction\<close>

lemma transparent_context [transparent_intros]:
  "transparent surfaced (append_at_in x stream t event)"
  "transparent surfaced (many_step x stream base p)"
  unfolding append_at_in_def many_step_def by (intro transparent_intros)+

lemma transparent_append_many_at_in [transparent_intros]:
  "transparent surfaced (append_many_at_in x stream events)"
  unfolding append_many_at_in_def by (intro transparent_intros)

lemma transparent_as_job [transparent_intros]:
  "transparent surfaced (as_job (treturn v) sc)"
  "transparent surfaced job \<Longrightarrow> transparent surfaced (as_job (within job note) sc)"
  "(\<And>sc. transparent surfaced (as_job m sc)) \<Longrightarrow> (\<And>v sc. transparent surfaced (as_job (f v) sc)) \<Longrightarrow>
     transparent surfaced (as_job (tbind m f) sc)"
  "transparent surfaced (as_job (tpanic message) sc)"
  "transparent surfaced (as_job (tfail e) sc)"
  unfolding as_job_simps by (intro transparent_intros; assumption)+

lemma transparent_as_job_traverse [transparent_intros]:
  "(\<And>v sc. transparent surfaced (as_job (f v) sc)) \<Longrightarrow> transparent surfaced (as_job (ttraverse f vs) sc)"
  by (induction vs arbitrary: sc) (auto intro!: transparent_as_job)

lemma transparent_tx_append [transparent_intros]: "transparent surfaced (as_job (tx_append x stream event) sc)"
  unfolding tx_append_def tx_append_at_def by (intro transparent_intros)

lemma transparent_own_sql [transparent_intros]:
  "transparent surfaced (as_job own_query sc)" "transparent surfaced (as_job (own_execute f) sc)"
  "transparent surfaced (as_job (own_statement g) sc)"
  unfolding own_query_def own_execute_def own_statement_def by (intro transparent_intros)+

lemma own_execute_calm [job_simps]:
  "faults c = [] \<Longrightarrow> as_job (own_statement f) sc c =
     (Inr ((), sc), c\<lparr>conn_db := (conn_db c)\<lparr>caller_tables := f (caller_tables (conn_db c))\<rparr>\<rparr>)"
  by (simp add: own_statement_def own_execute_def job_simps result_simps)

lemma append_at_in_calm:
  assumes "faults c = []" and "db_ok x (conn_db c)" and "storable x event"
    and "append_at_in x stream t event c = (Inr v, c')"
  shows "\<exists>e. stamp event (next_of (conn_db c) stream) t = Inr e \<and> events_auto (conn_db c) < i64_max
     \<and> v = landed e (events_auto (conn_db c)) \<and> c' = c\<lparr>conn_db := appended x stream e (conn_db c)\<rparr>"
  using assms(4)
  by (rule_tac stamped_append_cases [OF assms(1,2,3) refl, of stream t])
    (auto simp: append_at_in_def job_simps assms(1) split: sum.splits)

text \<open>Events to any streams, one append after the other.\<close>

definition appends :: "ext \<Rightarrow> (rust_string \<times> json_map) list \<Rightarrow> ('m, committed list) txn" where
  "appends x pairs = ttraverse (\<lambda>(stream, event). tx_append x stream event) pairs"

lemma steadfast_appends [steadfast_intros]: "steadfast (appends x pairs)"
  unfolding appends_def by (rule steadfast_traverse) (auto intro: steadfast_intros)

lemma transparent_appends [transparent_intros]: "transparent surfaced (as_job (appends x pairs) sc)"
  unfolding appends_def
  by (rule transparent_as_job_traverse) (simp add: transparent_tx_append split: prod.splits)

definition as_stamped :: "rust_string \<times> json_map \<Rightarrow> json_map \<Rightarrow> bool" where
  "as_stamped p e \<longleftrightarrow> stamp (snd p) (u64_of FIELD_SEQ e) (u64_of FIELD_EPOCH_MS e) = Inr e"

lemma positions_of_simps [simp]:
  "positions_of [] = []" "positions_of (c # cs) = (case committed_position c of None \<Rightarrow> [] | Some p \<Rightarrow> [p]) @ positions_of cs"
  by (simp_all add: positions_of_def split: option.splits)

lemma tx_append_calm:
  assumes "faults c = []" and "db_ok x (conn_db c)" and "storable x event"
    and "as_job (tx_append x stream event) sc c = (Inr (v, sc'), c')"
  shows "\<exists>e. stored_form x e \<and> as_stamped (stream, event) e \<and> u64_of FIELD_SEQ e = next_of (conn_db c) stream
     \<and> events_auto (conn_db c) < i64_max \<and> v = landed e (events_auto (conn_db c)) \<and> sc' = note_positions (positions_of [v]) sc
     \<and> faults c' = [] \<and> conn_db c' = appended x stream e (conn_db c)"
proof -
  let ?c = "c\<lparr>clock := tl (clock c)\<rparr>"
  let ?t = "first_reading (clock c)"
  have run: "append_at_in x stream ?t event ?c = (Inr v, c')" and sc': "sc' = note_positions (positions_of [v]) sc"
    using assms(4) by (auto simp: tx_append_def tx_append_at_def job_simps split: sum.splits prod.splits)
  have "faults ?c = []" "db_ok x (conn_db ?c)" using assms(1,2) by simp_all
  from append_at_in_calm [OF this assms(3) run] obtain e where e: "stamp event (next_of (conn_db c) stream) ?t = Inr e"
    "events_auto (conn_db c) < i64_max" "v = landed e (events_auto (conn_db c))"
    "c' = ?c\<lparr>conn_db := appended x stream e (conn_db c)\<rparr>"
    by auto
  then show ?thesis
    using stored_form_stamp [OF assms(3) e(1)] assms(1) sc' by (auto simp: as_stamped_def)
qed

lemma appends_calm:
  assumes "faults c = []" and "db_ok x (conn_db c)" and "\<forall>p \<in> set pairs. storable x (snd p)"
    and "as_job (appends x pairs) sc c = (Inr (cs, sc'), c')"
  shows "\<exists>es. list_all2 as_stamped pairs es \<and> consecutive x (zip (map fst pairs) es) (conn_db c)
     \<and> events_auto (conn_db c) + int (length pairs) \<le> i64_max \<and> cs = landings es (events_auto (conn_db c))
     \<and> sc' = note_positions (positions_of cs) sc \<and> faults c' = []
     \<and> conn_db c' = appended_all x (zip (map fst pairs) es) (conn_db c)"
  using assms
proof (induction pairs arbitrary: sc c cs)
  case Nil
  then show ?case using db_ok_auto [OF Nil(2)] by (auto simp: appends_def job_simps)
next
  case (Cons p pairs)
  obtain stream event where p: "p = (stream, event)" by force
  obtain v vs sc1 c1 where one: "as_job (tx_append x stream event) sc c = (Inr (v, sc1), c1)"
    and rest: "as_job (appends x pairs) sc1 c1 = (Inr (vs, sc'), c')" and cs: "cs = v # vs"
    using Cons.prems(4) by (auto simp: appends_def p job_simps split: sum.splits prod.splits)
  obtain e where e: "stored_form x e" "as_stamped (stream, event) e" "u64_of FIELD_SEQ e = next_of (conn_db c) stream"
    "events_auto (conn_db c) < i64_max" "v = landed e (events_auto (conn_db c))" "sc1 = note_positions (positions_of [v]) sc"
    "faults c1 = []" "conn_db c1 = appended x stream e (conn_db c)"
    using tx_append_calm [OF Cons.prems(1,2) _ one] Cons.prems(3) p by auto
  have "db_ok x (conn_db c1)" unfolding e(8) by (rule db_ok_appended [OF Cons.prems(2) e(4,1,3)])
  from Cons.IH [OF e(7) this _ rest] Cons.prems(3) obtain es where es: "list_all2 as_stamped pairs es"
    "consecutive x (zip (map fst pairs) es) (conn_db c1)" "events_auto (conn_db c1) + int (length pairs) \<le> i64_max"
    "vs = landings es (events_auto (conn_db c1))" "sc' = note_positions (positions_of vs) sc1" "faults c' = []"
    "conn_db c' = appended_all x (zip (map fst pairs) es) (conn_db c1)" by auto
  then show ?case
    using e p cs by (intro exI [of _ "e # es"]) (simp add: algebra_simps)
qed

lemma tx_append_runs:
  assumes "faults c = []" and "db_ok x (conn_db c)" and "storable x event" and "validate event = Inr ()"
    and "events_auto (conn_db c) < i64_max"
  shows "\<exists>v sc' c'. as_job (tx_append x stream event) sc c = (Inr (v, sc'), c')"
proof -
  let ?c = "c\<lparr>clock := tl (clock c)\<rparr>"
  have "faults ?c = []" "db_ok x (conn_db ?c)" using assms(1,2) by simp_all
  from stamped_append_cases [OF this assms(3) refl, of stream "first_reading (clock c)"]
  show ?thesis
    using assms(1,4,5)
    by (cases rule: stamped_append_cases [OF \<open>faults ?c = []\<close> \<open>db_ok x (conn_db ?c)\<close> assms(3) refl, of stream "first_reading (clock c)"])
      (auto simp: tx_append_def tx_append_at_def append_at_in_def job_simps)
qed

lemma appends_run:
  assumes "faults c = []" and "db_ok x (conn_db c)"
    and "\<forall>p \<in> set pairs. storable x (snd p) \<and> validate (snd p) = Inr ()"
    and "events_auto (conn_db c) + int (length pairs) \<le> i64_max"
  shows "\<exists>cs sc' c'. as_job (appends x pairs) sc c = (Inr (cs, sc'), c')"
  using assms
proof (induction pairs arbitrary: sc c)
  case Nil
  then show ?case by (simp add: appends_def job_simps)
next
  case (Cons p pairs)
  obtain stream event where p: "p = (stream, event)" by force
  obtain v sc1 c1 where one: "as_job (tx_append x stream event) sc c = (Inr (v, sc1), c1)"
    using tx_append_runs [OF Cons.prems(1,2), of event stream sc] Cons.prems(3,4) p by auto
  obtain e where e: "stored_form x e" "u64_of FIELD_SEQ e = next_of (conn_db c) stream"
    "events_auto (conn_db c) < i64_max" "faults c1 = []" "conn_db c1 = appended x stream e (conn_db c)"
    using tx_append_calm [OF Cons.prems(1,2) _ one] Cons.prems(3) p by auto
  have "db_ok x (conn_db c1)" unfolding e(5) by (rule db_ok_appended [OF Cons.prems(2) e(3,1,2)])
  from Cons.IH [OF e(4) this, of sc1] Cons.prems(3,4) e(5)
  obtain cs sc' c' where "as_job (appends x pairs) sc1 c1 = (Inr (cs, sc'), c')" by auto
  then show ?case using one p by (simp add: appends_def job_simps)
qed

text \<open>
  One unit of work over the log and a read model. A closure that appends any events to any streams,
  in any order and interleaving, and then writes its own tables from where they landed, either leaves
  the whole database and the published position as they were, or does all of it: each event is stamped,
  carries its stream's next sequence number at that point of the run, and lies at the position after the
  one before; the coordinates the closure derived its rows from are the committed ones; and the
  published position is raised to theirs after the commit.
\<close>

theorem record_and_derive:
  assumes "db_ok x (isle_db s)" and "\<forall>p \<in> set pairs. storable x (snd p)"
    and "with_transaction quiet a (tbind (appends x pairs) (\<lambda>cs. tbind (own_statement (derive cs)) (\<lambda>_. treturn cs))) s
       = (r, s')"
  shows "case r of
     Inl e \<Rightarrow> s' = s
   | Inr cs \<Rightarrow> \<exists>es. list_all2 as_stamped pairs es \<and> consecutive x (zip (map fst pairs) es) (isle_db s)
       \<and> cs = landings es (events_auto (isle_db s))
       \<and> s' = publish_committed (highest_position (positions_of cs))
           (s\<lparr>isle_db := (appended_all x (zip (map fst pairs) es) (isle_db s))\<lparr>caller_tables := derive cs (caller_tables (isle_db s))\<rparr>\<rparr>)"
proof -
  let ?body = "tbind (appends x pairs) (\<lambda>cs. tbind (own_statement (derive cs)) (\<lambda>_. treturn cs))"
  let ?sc = "entered (engine_aborts a) (isle_db s)"
  have tr: "transparent surfaced (as_job ?body sc)" for sc
    by (intro transparent_intros)
  have st: "steadfast ?body" by (intro steadfast_intros)
  show ?thesis
  proof (rule with_transaction_outcome [OF st tr, of a s])
    fix e assume "with_transaction quiet a ?body s = (Inl e, s)"
    then show ?thesis using assms(3) by auto
  next
    fix v sc d'
    assume calm: "calm_run (as_job ?body ?sc) (readings a) (isle_db s) = (Inr (v, sc), d')"
      and out: "with_transaction quiet a ?body s = (Inr v, publish_committed (highest_position (scope_positions sc)) (s\<lparr>isle_db := d'\<rparr>))"
    let ?c = "\<lparr>conn_db = isle_db s, faults = [], clock = readings a\<rparr>"
    obtain cs sc1 c1 where app: "as_job (appends x pairs) ?sc ?c = (Inr (cs, sc1), c1)"
      using calm by (cases "as_job (appends x pairs) ?sc ?c") (auto simp: calm_run_def job_simps split: sum.splits)
    obtain es where es: "list_all2 as_stamped pairs es" "consecutive x (zip (map fst pairs) es) (isle_db s)"
      "cs = landings es (events_auto (isle_db s))" "sc1 = note_positions (positions_of cs) ?sc" "faults c1 = []"
      "conn_db c1 = appended_all x (zip (map fst pairs) es) (isle_db s)"
      using appends_calm [OF _ _ assms(2) app] assms(1) by auto
    have "v = cs" "sc = sc1" "d' = (conn_db c1)\<lparr>caller_tables := derive cs (caller_tables (conn_db c1))\<rparr>"
      using calm app es(5) by (auto simp: calm_run_def job_simps)
    then show ?thesis
      using es assms(3) out by auto
  qed
qed

theorem record_and_derive_witness:
  "case with_transaction quiet (calm_at 5) (tbind (appends toy_ext [(''a'', sample_event ''k''), (''b'', sample_event ''k'')])
       (\<lambda>cs. tbind (own_statement (\<lambda>m. m + length cs)) (\<lambda>_. treturn cs))) (sample_log (empty_database (0 :: nat))) of
     (Inl e, s') \<Rightarrow> False
   | (Inr cs, s') \<Rightarrow> caller_tables (isle_db s') = length cs"
proof -
  let ?s = "sample_log (empty_database (0 :: nat))"
  let ?pairs = "[(''a'', sample_event ''k''), (''b'', sample_event ''k'')]"
  let ?body = "tbind (appends toy_ext ?pairs) (\<lambda>cs. tbind (own_statement (\<lambda>m. m + length cs)) (\<lambda>_. treturn cs)) :: (nat, _) txn"
  obtain r s' where run: "with_transaction quiet (calm_at 5) ?body ?s = (r, s')" by force
  have st: "db_ok toy_ext (isle_db ?s)" "\<forall>p \<in> set ?pairs. storable toy_ext (snd p)" by simp_all
  let ?c = "\<lparr>conn_db = isle_db ?s, faults = [], clock = [5]\<rparr>"
  let ?sc = "entered [] (isle_db ?s)"
  have "\<exists>cs sc' c'. as_job (appends toy_ext ?pairs) ?sc ?c = (Inr (cs, sc'), c')"
    by (rule appends_run) (simp_all add: i64_max_def)
  then obtain cs sc' c' where app: "as_job (appends toy_ext ?pairs) ?sc ?c = (Inr (cs, sc'), c')" by blast
  have "faults c' = []"
    using appends_calm [OF _ _ st(2) app] by auto
  then have "\<exists>d'. calm_run (as_job ?body ?sc) [5] (isle_db ?s) = (Inr (cs, sc'), d')"
    using app by (simp add: calm_run_def job_simps)
  moreover have "(\<And>sc. transparent surfaced (as_job ?body sc))" "steadfast ?body"
    by (intro transparent_intros steadfast_intros)+
  ultimately have r: "is_ok r"
    using run with_transaction_calm by fastforce
  show ?thesis
    using record_and_derive [OF st run] r run by (auto simp: is_ok_iff)
qed

section \<open>Importing\<close>

text \<open>The tables with the counters of an import's map written back.\<close>

definition settle_counters :: "(rust_string \<times> u64) list \<Rightarrow> 'm database \<Rightarrow> 'm database" where
  "settle_counters next d = fold (\<lambda>(stream, seq). upsert_counter stream (as_i64 seq)) next d"

lemma settle_counters_simps [simp]:
  "settle_counters [] d = d"
  "settle_counters ((stream, seq) # next) d = settle_counters next (upsert_counter stream (as_i64 seq) d)"
  by (simp_all add: settle_counters_def)

lemma settle_counters_sel [simp]:
  "tbl_events (settle_counters next d) = tbl_events d"
  "events_auto (settle_counters next d) = events_auto d"
  "tbl_checkpoints (settle_counters next d) = tbl_checkpoints d"
  "tbl_retention (settle_counters next d) = tbl_retention d"
  "tbl_exports (settle_counters next d) = tbl_exports d"
  "caller_tables (settle_counters next d) = caller_tables d"
  by (induction "next" arbitrary: d) auto

lemma map_of_update_other: "k \<in> fst ` set t \<Longrightarrow> j \<noteq> k \<Longrightarrow>
    AList.update k v (AList.update j w t) = AList.update j w (AList.update k v t)"
  by (induction t) auto

lemma update_keys: "fst ` set (AList.update k v t) = insert k (fst ` set t)"
  using dom_update [of k v t] by (simp add: dom_map_of_conv_image_fst)

lemma upsert_other:
  "k \<in> fst ` set (tbl_stream_seq d) \<Longrightarrow> j \<noteq> k \<Longrightarrow>
     upsert_counter k v (upsert_counter j w d) = upsert_counter j w (upsert_counter k v d)"
  by (simp add: upsert_counter_def map_of_update_other)

lemma upsert_keys: "fst ` set (tbl_stream_seq (upsert_counter k v d)) = insert k (fst ` set (tbl_stream_seq d))"
  by (simp add: upsert_counter_def update_keys)

lemma upsert_settle:
  "k \<notin> fst ` set next \<Longrightarrow> k \<in> fst ` set (tbl_stream_seq d) \<Longrightarrow>
     upsert_counter k v (settle_counters next d) = settle_counters next (upsert_counter k v d)"
proof (induction "next" arbitrary: d)
  case (Cons p "next")
  have "k \<in> fst ` set (tbl_stream_seq (upsert_counter (fst p) (as_i64 (snd p)) d))"
    using Cons.prems(2) by (simp add: upsert_keys)
  from Cons.IH [OF _ this] show ?case
    using Cons.prems upsert_other [of k d "fst p" v "as_i64 (snd p)"] by (cases p) auto
qed simp

lemma settle_update:
  "distinct (map fst next) \<Longrightarrow>
     settle_counters (AList.update k v next) d = upsert_counter k (as_i64 v) (settle_counters next d)"
proof (induction "next" arbitrary: d)
  case (Cons p "next")
  obtain j w where p: "p = (j, w)" by force
  show ?case
  proof (cases "j = k")
    case True
    then have "upsert_counter k (as_i64 v) (settle_counters next (upsert_counter k (as_i64 w) d))
        = settle_counters next (upsert_counter k (as_i64 v) (upsert_counter k (as_i64 w) d))"
      using Cons.prems p by (intro upsert_settle) (auto simp: upsert_keys)
    then show ?thesis using True p by simp
  qed (use Cons p in simp)
qed simp

lemma settle_push: "settle_counters next (push x s e d) = push x s e (settle_counters next d)"
  by (induction "next" arbitrary: d) (auto simp flip: push_upsert)

lemma next_of_settle:
  "distinct (map fst next) \<Longrightarrow>
     next_of (settle_counters next d) s = (case map_of next s of Some n \<Rightarrow> n | None \<Rightarrow> next_of d s)"
proof (induction "next" arbitrary: d)
  case (Cons p "next")
  then have "map_of next (fst p) = None" by (simp add: map_of_eq_None_iff)
  then show ?case using Cons by (cases p) (simp split: option.splits)
qed simp

lemma transparent_import_rows [transparent_intros]: "transparent surfaced (import_rows x events next)"
proof (induction events arbitrary: "next")
  case (Cons event events)
  then show ?case by (auto intro!: transparent_intros)
qed (simp add: transparent_return)

lemma transparent_import_many [transparent_intros]: "transparent surfaced (import_many_in x exported)"
  unfolding import_many_in_def by (intro transparent_intros)

text \<open>What an imported object becomes: itself under its new number.\<close>

definition as_restamped :: "exported_event \<Rightarrow> json_map \<Rightarrow> bool" where
  "as_restamped ev e \<longleftrightarrow> restamp (exported_object ev) (u64_of FIELD_SEQ e) = Inr e"

lemma import_rows_calm:
  fixes c :: "'m conn"
  assumes "faults c = []" and "db_ok x (settle_counters next (conn_db c))" and "distinct (map fst next)"
    and "\<forall>ev \<in> set events. storable x (exported_object ev)"
    and "import_rows x events next c = (Inr (cs, next'), c')"
  shows "\<exists>es. list_all2 as_restamped events es
     \<and> consecutive x (zip (map exported_stream events) es) (settle_counters next (conn_db c))
     \<and> events_auto (conn_db c) + int (length events) \<le> i64_max \<and> cs = landings es (events_auto (conn_db c))
     \<and> faults c' = [] \<and> distinct (map fst next')
     \<and> settle_counters next' (conn_db c') = appended_all x (zip (map exported_stream events) es) (settle_counters next (conn_db c))"
  using assms
proof (induction events arbitrary: "next" c cs)
  case Nil
  then show ?case using db_ok_auto [OF Nil(2)] by (auto simp: job_simps)
next
  case (Cons ev events)
  let ?s = "exported_stream ev"
  let ?D = "settle_counters next (conn_db c)"
  let ?seq = "next_of ?D ?s"
  note calm = Cons.prems(1)
  have seq: "(case map_of next ?s of Some seq \<Rightarrow> jreturn seq | None \<Rightarrow> next_seq ?s) c = (Inr ?seq, c)"
    using calm by (simp add: next_of_settle [OF Cons.prems(3)] job_simps split: option.splits)
  obtain r where r: "restamp (exported_object ev) ?seq = Inr r"
    using Cons.prems(5) seq
    by (cases "restamp (exported_object ev) ?seq") (simp_all add: job_simps)
  note form = stored_form_restamp [OF _ r, of x]
  have st: "storable x (exported_object ev)" using Cons.prems(4) by simp
  have room: "events_auto (conn_db c) < i64_max"
    using Cons.prems(5) seq r insert_stamped_full [OF calm form(1) [OF st], of ?s]
    by (cases "events_auto (conn_db c) < i64_max") (simp_all add: job_simps)
  have clash: "no_clash ?s (u64_of FIELD_SEQ r) (conn_db c)"
    using db_ok_no_clash [OF Cons.prems(2), of ?s] room form(2) [OF st] by (simp add: no_clash_def)
  let ?c = "c\<lparr>conn_db := push x ?s r (conn_db c)\<rparr>"
  let ?next = "AList.update ?s (?seq + 1) next"
  have ins: "insert_stamped x ?s r c = (Inr (landed r (events_auto (conn_db c))), ?c)"
    by (rule insert_stamped_calm [OF calm form(1) [OF st] room clash])
  obtain vs where rest: "import_rows x events ?next ?c = (Inr (vs, next'), c')"
    and cs: "cs = landed r (events_auto (conn_db c)) # vs"
    using Cons.prems(5) seq r ins by (auto simp: job_simps split: sum.splits prod.splits)
  have step: "settle_counters ?next (conn_db ?c) = appended x ?s r ?D"
    using form(2) [OF st] by (simp add: settle_update [OF Cons.prems(3)] settle_push push_upsert appended_def)
  have ok: "db_ok x (settle_counters ?next (conn_db ?c))"
    unfolding step using form [OF st] room by (intro db_ok_appended Cons.prems(2)) simp_all
  have calm': "faults ?c = []" and dist: "distinct (map fst ?next)"
    using calm Cons.prems(3) by (simp_all add: distinct_fst_update)
  from Cons.IH [OF calm' ok dist _ rest] Cons.prems(4) obtain es where es: "list_all2 as_restamped events es"
    "consecutive x (zip (map exported_stream events) es) (appended x ?s r ?D)"
    "events_auto (conn_db c) + 1 + int (length events) \<le> i64_max" "vs = landings es (events_auto (conn_db c) + 1)"
    "faults c' = []" "distinct (map fst next')"
    "settle_counters next' (conn_db c') = appended_all x (zip (map exported_stream events) es) (appended x ?s r ?D)"
    unfolding step by auto
  moreover have "as_restamped ev r" using form [OF st] r by (simp add: as_restamped_def)
  ultimately show ?case
    using form [OF st] cs by (intro exI [of _ "r # es"]) simp
qed

lemma set_counters_calm:
  "faults c = [] \<Longrightarrow>
     jtraverse (\<lambda>(stream, seq). set_next_seq stream seq) next c
       = (Inr (map (\<lambda>_. ()) next), c\<lparr>conn_db := settle_counters next (conn_db c)\<rparr>)"
proof (induction "next" arbitrary: c)
  case (Cons p "next")
  then show ?case using Cons.IH [of "c\<lparr>conn_db := upsert_counter (fst p) (as_i64 (snd p)) (conn_db c)\<rparr>"]
    by (cases p) (simp add: job_simps)
qed (simp add: job_simps)

lemma import_many_calm:
  assumes "faults c = []" and "db_ok x (conn_db c)"
    and "\<forall>ev \<in> set events. storable x (exported_object ev)"
    and "import_many_in x events c = (Inr cs, c')"
  shows "\<exists>es. list_all2 as_restamped events es
     \<and> consecutive x (zip (map exported_stream events) es) (conn_db c)
     \<and> events_auto (conn_db c) + int (length events) \<le> i64_max \<and> cs = landings es (events_auto (conn_db c))
     \<and> faults c' = [] \<and> conn_db c' = appended_all x (zip (map exported_stream events) es) (conn_db c)"
proof (cases "events = []")
  case True
  then show ?thesis using assms db_ok_auto [OF assms(2)] by (auto simp: import_many_in_def job_simps)
next
  case False
  obtain nx us c1 where rows: "import_rows x events [] c = (Inr (cs, nx), c1)"
    and last: "jtraverse (\<lambda>(stream, seq). set_next_seq stream seq) nx c1 = (Inr us, c')"
    using assms(4) False by (auto simp: import_many_in_def job_simps split: sum.splits prod.splits)
  have "db_ok x (settle_counters [] (conn_db c))" using assms(2) by simp
  from import_rows_calm [OF assms(1) this _ assms(3) rows] obtain es where es: "list_all2 as_restamped events es"
    "consecutive x (zip (map exported_stream events) es) (conn_db c)"
    "events_auto (conn_db c) + int (length events) \<le> i64_max" "cs = landings es (events_auto (conn_db c))"
    "faults c1 = []" "settle_counters nx (conn_db c1) = appended_all x (zip (map exported_stream events) es) (conn_db c)"
    by auto
  then have "c' = c1\<lparr>conn_db := appended_all x (zip (map exported_stream events) es) (conn_db c)\<rparr>"
    using set_counters_calm [OF es(5), of nx] last by simp
  then show ?thesis using es by (intro exI [of _ es]) simp
qed

section \<open>Errors a closure keeps to itself\<close>

definition seq_taken :: error where
  "seq_taken = classify (SqliteFailure ConstraintViolation ''UNIQUE constraint failed: events.stream, events.seq'')"

lemma seq_taken_not_busy [simp]: "\<not> is_busy seq_taken"
  by (simp add: seq_taken_def)

lemma insert_stamped_clash:
  assumes "faults c = []" and "stored_form x e" and "events_auto (conn_db c) < i64_max"
    and "\<not> no_clash stream (u64_of FIELD_SEQ e) (conn_db c)"
  shows "insert_stamped x stream e c = (Inl seq_taken, c)"
proof -
  obtain k m d s t v where e: "e = event_object k m d s t v" and rt: "round_trips x m" "round_trips x d"
    using assms(2) by (auto simp: stored_form_def)
  have clash: "list_ex (\<lambda>r. row_stream r = stream \<and> row_seq r = as_i64 s) (tbl_events (conn_db c))"
    using assms(4) by (auto simp: no_clash_def e list_ex_iff)
  show ?thesis
    using assms(1,3) clash
    by (simp add: insert_stamped_def e job_simps json_columns_event_object [OF rt] insert_event_def seq_taken_def)
qed

lemma import_refused_midway:
  assumes "faults c = []" and "db_ok x (conn_db c)" and "events_auto (conn_db c) < i64_max"
    and "storable x good" and "restamp good (next_of (conn_db c) stream) = Inr r" and "validate_stored bad = Inl e"
  shows "import_many_in x [\<lparr>exported_stream = stream, exported_position = p, exported_object = good\<rparr>,
       \<lparr>exported_stream = stream, exported_position = q, exported_object = bad\<rparr>] c
     = (Inl e, c\<lparr>conn_db := push x stream r (conn_db c)\<rparr>)"
proof -
  note form = stored_form_restamp [OF assms(4,5)]
  have ins: "insert_stamped x stream r c = (Inr (landed r (events_auto (conn_db c))), c\<lparr>conn_db := push x stream r (conn_db c)\<rparr>)"
    using db_ok_no_clash [OF assms(2,3), of stream] form by (intro insert_stamped_calm assms(1,3)) simp_all
  have "restamp bad seq = Inl e" for seq using assms(6) by (simp add: restamp_error)
  then show ?thesis
    using assms(1,5) ins by (simp add: import_many_in_def job_simps)
qed

lemma append_onto_taken:
  assumes "stamp event (next_of (isle_db s) stream) (now_ms t) = Inr e" and "stored_form x e"
    and "u64_of FIELD_SEQ e = next_of (isle_db s) stream" and "events_auto (isle_db s) < i64_max"
    and "\<not> no_clash stream (next_of (isle_db s) stream) (isle_db s)" and "validate event = Inr ()"
  shows "append_store x (\<lambda>_. calm_at t) stream event s = (Inl seq_taken, s)"
proof -
  let ?d = "isle_db s"
  let ?body = "jbind (next_seq stream) (\<lambda>seq. jbind read_clock (\<lambda>now. stamped_append x stream event seq now))"
  have "insert_stamped x stream e \<lparr>conn_db = ?d, faults = [], clock = []\<rparr> = (Inl seq_taken, \<lparr>conn_db = ?d, faults = [], clock = []\<rparr>)"
    by (rule insert_stamped_clash) (use assms in simp_all)
  then have "calm_run ?body [t] ?d = (Inl seq_taken, ?d)"
    using assms(1) by (simp add: calm_run_def job_simps stamped_append_def first_reading_def)
  then have "calm_run (append_stamped_now x stream event) [t] ?d = (Inl seq_taken, ?d)"
    unfolding append_stamped_now_def by (subst calm_run_committing) (intro transparent_intros, simp)
  then have "write_retrying (\<lambda>_. calm_at t) (append_stamped_now x stream event) ?d = (Inl seq_taken, ?d)"
    by (rule write_retrying_calm) auto
  then show ?thesis using assms(6) by (simp add: append_store_def)
qed

text \<open>
  C40. An import refused midway must not be swallowed. \<open>import_many\<close> checks each record as it comes to it
  and writes the counters at the end, so a closure that meets a refused record after a good one and
  carries on commits the good one's row without its stream's counter: the call answers success, the
  stream has one event more, its counter stands where it stood, and every further append to that stream
  is refused by the table's \<open>UNIQUE (stream, seq)\<close>.
\<close>

theorem swallowed_import_breaks_the_stream:
  assumes "db_ok x (isle_db s)" and "events_auto (isle_db s) + 1 < i64_max"
    and "storable x good" and "validate_stored good = Inr ()" and "validate_stored bad = Inl e"
    and "storable x event" and "validate event = Inr ()"
  shows "\<exists>s'. with_transaction quiet (calm_at t) (tcatch (tx_import_many x
         [\<lparr>exported_stream = stream, exported_position = p, exported_object = good\<rparr>,
          \<lparr>exported_stream = stream, exported_position = q, exported_object = bad\<rparr>])) s = (Inr (Inl e), s')
     \<and> length (contents x (isle_db s') stream) = length (contents x (isle_db s) stream) + 1
     \<and> next_of (isle_db s') stream = next_of (isle_db s) stream
     \<and> append_store x (\<lambda>_. calm_at t') stream event s' = (Inl seq_taken, s')"
proof -
  let ?d = "isle_db s" and ?n = "next_of (isle_db s) stream"
  obtain r where r: "restamp good ?n = Inr r" using assms(4) by (simp add: restamp_def)
  note form = stored_form_restamp [OF assms(3) r]
  let ?s' = "s\<lparr>isle_db := push x stream r ?d\<rparr>"
  let ?c = "\<lparr>conn_db = ?d, faults = [], clock = [t]\<rparr>"
  have "import_many_in x [\<lparr>exported_stream = stream, exported_position = p, exported_object = good\<rparr>,
       \<lparr>exported_stream = stream, exported_position = q, exported_object = bad\<rparr>] ?c
     = (Inl e, ?c\<lparr>conn_db := push x stream r ?d\<rparr>)"
    using assms(1,2,3,5) r by (subst import_refused_midway [where e = e]) simp_all
  then have call: "with_transaction quiet (calm_at t) (tcatch (tx_import_many x
         [\<lparr>exported_stream = stream, exported_position = p, exported_object = good\<rparr>,
          \<lparr>exported_stream = stream, exported_position = q, exported_object = bad\<rparr>])) s = (Inr (Inl e), ?s')"
    by (simp add: with_transaction_def isle_call_def in_transaction_def tcatch_def tx_import_many_def within_def
        sql_commit_def tbind_def abandon_def Let_def highest_position_def publish_committed_def)
  obtain e' where e': "stamp event ?n (now_ms t') = Inr e'" using assms(7) by (simp add: stamp_def Let_def)
  note form' = stored_form_stamp [OF assms(6) e']
  have clash: "\<not> no_clash stream ?n (push x stream r ?d)" using form by (simp add: no_clash_def)
  have room: "events_auto (push x stream r ?d) < i64_max" using assms(2) by simp
  have "append_store x (\<lambda>_. calm_at t') stream event ?s' = (Inl seq_taken, ?s')"
    by (rule append_onto_taken) (use e' form' clash room assms(7) in simp_all)
  moreover have "length (contents x (isle_db ?s') stream) = length (contents x ?d stream) + 1"
    by (simp add: contents_def stream_rows_def)
  ultimately show ?thesis
    using call by (intro exI [of _ ?s']) simp
qed

theorem swallowed_import_breaks_the_stream_witness:
  "\<exists>s'. append_store toy_ext (\<lambda>_. calm_at 0) ''s'' (sample_event ''k'') s' = (Inl seq_taken, s' :: unit shared)
     \<and> next_of (isle_db s') ''s'' = 1"
proof -
  let ?good = "event_object ''k'' (JObject []) (JObject []) 1 9 1"
  let ?s = "sample_log (empty_database ())"
  have h: "db_ok toy_ext (isle_db ?s)" "events_auto (isle_db ?s) + 1 < i64_max"
    by (simp_all add: i64_max_def)
  have good: "storable toy_ext ?good" "validate_stored ?good = Inr ()"
    by (simp add: storable_def object_of_def map_of_event_object,
        simp add: validate_stored_iff well_formed_stored_def event_object_def entry_ok_def meta_ok_def has_kind_def)
  have bad: "validate_stored [] = Inl (Validation (Envelope (KeyRequired FIELD_KIND)))"
    by (simp add: validate_stored_def has_kind_def)
  have event: "storable toy_ext (sample_event ''k'')" "validate (sample_event ''k'') = Inr ()" by simp_all
  show ?thesis
    using swallowed_import_breaks_the_stream [OF h good bad event, of 0 "''s''" None None 0]
    by (auto simp: next_of_def [of "empty_database ()"])
qed

text \<open>
  An authorizer that cannot be taken off hides what the call did. When its removal fails after the
  closure's transaction committed, the call answers that failure and not the closure's value, nothing is
  published, and the events are in the log all the same.
\<close>

theorem unremovable_authorizer_hides_a_commit:
  assumes "calm_run (as_job body (entered [] (isle_db s))) [t] (isle_db s) = (Inr (v, sc), d')"
    and "\<And>sc. transparent surfaced (as_job body sc)" and "steadfast body"
  shows "with_transaction \<lparr>install_fault = None, remove_fault = Some text\<rparr> (calm_at t) body s
     = (Inl (Storage (InHatch (AuthorizerNotRemoved text))), s\<lparr>isle_db := d'\<rparr>)"
proof -
  let ?c = "\<lparr>conn_db = isle_db s, faults = [], clock = [t]\<rparr>"
  obtain c1 where "as_job body (entered [] (isle_db s)) ?c = (Inr (v, sc), c1)" "conn_db c1 = d'"
    using assms(1) by (auto simp: calm_run_def split: prod.splits)
  then have "as_body [] body ?c = (Inr (v, scope_positions sc), c1)" by (simp add: job_simps)
  then obtain c' where run: "committing (as_body [] body) ?c = (Inr (v, scope_positions sc), c')" "conn_db c' = d'"
    using committing_calm [OF _ transparent_as_body [OF assms(2)], of ?c "[]"] \<open>conn_db c1 = d'\<close> by auto
  then have "map_err map_denial (committing (as_body [] body)) ?c = (Inr (v, scope_positions sc), c')" by (simp add: map_err_def)
  then have "guarded quiet (in_transaction [] body) ?c = (Inr (v, scope_positions sc), c')" by (simp only: guarded_job [OF assms(3)])
  then have "guarded \<lparr>install_fault = None, remove_fault = Some text\<rparr> (in_transaction [] body) ?c
      = (Inl (Storage (InHatch (AuthorizerNotRemoved text))), c')"
    by (auto simp: guarded_def quiet_def split: prod.splits ran.splits sum.splits)
  then show ?thesis using run(2) by (simp add: with_transaction_def isle_call_calm)
qed

theorem unremovable_authorizer_hides_a_commit_witness:
  "with_transaction \<lparr>install_fault = None, remove_fault = Some ''locked''\<rparr> (calm_at 0) (own_statement Suc)
     (sample_log (empty_database 1))
     = (Inl (Storage (InHatch (AuthorizerNotRemoved ''locked''))), (sample_log (empty_database 1))\<lparr>isle_db := empty_database 2\<rparr>)"
proof -
  have "calm_run (as_job (own_statement Suc) (entered [] (isle_db (sample_log (empty_database 1))))) [0]
      (isle_db (sample_log (empty_database 1))) = (Inr ((), entered [] (empty_database 1)), empty_database 2)"
    by (simp add: calm_run_def job_simps empty_database_def)
  moreover have "\<And>sc. transparent surfaced (as_job (own_statement Suc) sc)" by (intro transparent_intros)
  moreover have "steadfast (own_statement Suc)" by (intro steadfast_intros)
  ultimately show ?thesis by (rule unremovable_authorizer_hides_a_commit)
qed

end
