(* ===== verification/Log_Transfer.thy ===== *)
theory Log_Transfer
  imports Txn_Theorems Cursor_Pages
begin

text \<open>
  Moving a log: \<open>crates/eventsdb-core/src/transfer.rs\<close> and \<open>crates/eventsdb-sqlite/src/transfer.rs\<close>. An
  exported event and its JSON, the report of an import, the two sinks, and export and import on the
  SQLite backend.
\<close>

section \<open>The record as JSON\<close>

definition to_json :: "exported_event \<Rightarrow> json" where
  "to_json ev =
     (let out = map_insert ''stream'' (JString (exported_stream ev)) [];
          out = (case exported_position ev of
                   None \<Rightarrow> out
                 | Some position \<Rightarrow> map_insert ''position'' (from_u64 (get position)) out);
          out = map_insert ''event'' (JObject (exported_object ev)) out
      in JObject out)"

definition from_json :: "json \<Rightarrow> exported_event result" where
  "from_json value =
     (case value of
        JObject object \<Rightarrow>
          rbind (case map_of object ''stream'' of
                   Some (JString stream) \<Rightarrow>
                     if stream \<noteq> [] then Inr stream else Inl (Validation (Transferring StreamRequired))
                 | _ \<Rightarrow> Inl (Validation (Transferring StreamRequired))) (\<lambda>stream.
          let object = map_remove ''stream'' object in
          rbind (case map_of object ''position'' of
                   None \<Rightarrow> Inr None
                 | Some JNull \<Rightarrow> Inr None
                 | Some v \<Rightarrow>
                     (case as_u64_value v of
                        Some position \<Rightarrow> Inr (Some (Position position))
                      | None \<Rightarrow> Inl (Validation (Transferring PositionUnreadable)))) (\<lambda>position.
          let object = map_remove ''position'' object in
          rbind (case map_of object ''event'' of
                   Some (JObject event) \<Rightarrow> Inr event
                 | _ \<Rightarrow> Inl (Validation (Transferring EventRequired))) (\<lambda>event.
          rbind (validate_stored event) (\<lambda>_.
            Inr \<lparr> exported_stream = stream, exported_position = position, exported_object = event \<rparr>))))
      | _ \<Rightarrow> Inl (Validation (Transferring RecordNotObject)))"

section \<open>Export and import\<close>

record import_report =
  imported :: usize
  first_landed :: "position option"
  last_landed :: "position option"
  reproduced_coordinates :: bool

definition nothing_imported :: import_report where
  "nothing_imported = \<lparr> imported = 0, first_landed = None, last_landed = None, reproduced_coordinates = True \<rparr>"

definition as_exported :: "stored_row \<Rightarrow> exported_event option" where
  "as_exported row =
     (case stored_event row of
        JObject object \<Rightarrow> Some \<lparr> exported_stream = stored_stream row,
          exported_position = Some (Position (stored_at row)), exported_object = object \<rparr>
      | _ \<Rightarrow> None)"

text \<open>A stored row is always an object, so the \<open>unreachable!\<close> of the map is: \<open>filter_map\<close> drops nothing.\<close>

definition export_job :: "ext \<Rightarrow> position \<Rightarrow> filter \<Rightarrow> usize \<Rightarrow> ('m, error, exported_event list) job" where
  "export_job x from f limit =
     jbind (select_stored x from f limit) (\<lambda>rows. jreturn (filter_map as_exported rows))"

definition export :: "ext \<Rightarrow> attempt \<Rightarrow> position \<Rightarrow> filter \<Rightarrow> usize \<Rightarrow> 'm shared \<Rightarrow> exported_event list result" where
  "export x a from f limit s = read_job a (export_job x from f limit) s"

definition reproduced :: "committed list \<Rightarrow> exported_event list \<Rightarrow> bool" where
  "reproduced committed exported =
     list_all (\<lambda>(landed, ev). case exported_position ev of
         None \<Rightarrow> False | Some p \<Rightarrow> committed_position landed = Some p) (zip committed exported)"

definition report_of :: "committed list \<Rightarrow> exported_event list \<Rightarrow> import_report" where
  "report_of committed exported =
     \<lparr> imported = usize_of (length committed),
       first_landed = (if committed = [] then None else committed_position (hd committed)),
       last_landed = (if committed = [] then None else committed_position (last committed)),
       reproduced_coordinates = reproduced committed exported \<rparr>"

definition log_import ::
  "ext \<Rightarrow> guard_env \<Rightarrow> attempt \<Rightarrow> exported_event list \<Rightarrow> 'm shared \<Rightarrow> import_report result \<times> 'm shared" where
  "log_import x g a events s =
     (if events = [] then (Inr nothing_imported, s)
      else with_transaction g a
        (tbind (tx_import_many x events) (\<lambda>committed. treturn (report_of committed events))) s)"

section \<open>Sinks\<close>

text \<open>
  The writer behind a \<open>JsonLinesSink\<close>: what it holds back, what it has handed on, and the failures its
  next calls meet. A \<open>write_all\<close> that fails may have written a part; how much is the writer's.
\<close>

record writer =
  held :: rust_string
  flushed :: rust_string
  io_faults :: "(nat \<times> rust_string) option list"

definition newline :: rust_string where
  "newline = [CHR 0x0A]"

definition write_all :: "rust_string \<Rightarrow> writer \<Rightarrow> (rust_string + unit) \<times> writer" where
  "write_all bytes w =
     (case io_faults w of
        Some (written, e) # rest \<Rightarrow> (Inl e, w\<lparr>held := held w @ take written bytes, io_faults := rest\<rparr>)
      | None # rest \<Rightarrow> (Inr (), w\<lparr>held := held w @ bytes, io_faults := rest\<rparr>)
      | [] \<Rightarrow> (Inr (), w\<lparr>held := held w @ bytes\<rparr>))"

definition flush_writer :: "writer \<Rightarrow> (rust_string + unit) \<times> writer" where
  "flush_writer w =
     (case io_faults w of
        Some (written, e) # rest \<Rightarrow> (Inl e, w\<lparr>flushed := flushed w @ take written (held w),
                                              held := drop written (held w), io_faults := rest\<rparr>)
      | None # rest \<Rightarrow> (Inr (), w\<lparr>flushed := flushed w @ held w, held := [], io_faults := rest\<rparr>)
      | [] \<Rightarrow> (Inr (), w\<lparr>flushed := flushed w @ held w, held := []\<rparr>))"

fun write_lines :: "ext \<Rightarrow> exported_event list \<Rightarrow> writer \<Rightarrow> unit result \<times> writer" where
  "write_lines x [] w = (Inr (), w)"
| "write_lines x (ev # page) w =
     (case to_text x (to_json ev) of
        None \<Rightarrow> (Inl (Storage (Transferring RenderingExport)), w)
      | Some line \<Rightarrow>
          (case write_all line w of
             (Inl e, w') \<Rightarrow> (Inl (Storage (Transferring (WritingExport e))), w')
           | (Inr _, w') \<Rightarrow>
               (case write_all newline w' of
                  (Inl e, w'') \<Rightarrow> (Inl (Storage (Transferring (WritingExport e))), w'')
                | (Inr _, w'') \<Rightarrow> write_lines x page w'')))"

definition json_lines_write :: "ext \<Rightarrow> exported_event list \<Rightarrow> writer \<Rightarrow> unit result \<times> writer" where
  "json_lines_write x page w =
     (case write_lines x page w of
        (Inl e, w') \<Rightarrow> (Inl e, w')
      | (Inr _, w') \<Rightarrow>
          (case flush_writer w' of
             (Inl e, w'') \<Rightarrow> (Inl (Storage (Transferring (FlushingExport e))), w'')
           | (Inr _, w'') \<Rightarrow> (Inr (), w'')))"

text \<open>The sink over another log: the log and the reports of the pages it took.\<close>

record 'm log_sink =
  sink_target :: "'m shared"
  sink_reports :: "import_report list"

definition log_sink_write ::
  "ext \<Rightarrow> guard_env \<Rightarrow> attempt \<Rightarrow> exported_event list \<Rightarrow> 'm log_sink \<Rightarrow> unit result \<times> 'm log_sink" where
  "log_sink_write x g a page sink =
     (if page = [] then (Inr (), sink)
      else case log_import x g a page (sink_target sink) of
          (Inl e, target) \<Rightarrow> (Inl e, sink\<lparr>sink_target := target\<rparr>)
        | (Inr report, target) \<Rightarrow>
            (Inr (), sink\<lparr>sink_target := target, sink_reports := sink_reports sink @ [report]\<rparr>))"

definition sink_imported :: "'m log_sink \<Rightarrow> usize" where
  "sink_imported sink = sum_list (map imported (sink_reports sink))"

definition sink_reproduced :: "'m log_sink \<Rightarrow> bool" where
  "sink_reproduced sink = list_all reproduced_coordinates (sink_reports sink)"

section \<open>The record's round trip\<close>

lemma map_of_to_json:
  "map_of (map_insert ''event'' e (case p of None \<Rightarrow> map_insert ''stream'' s []
      | Some q \<Rightarrow> map_insert ''position'' (f q) (map_insert ''stream'' s []))) k =
   (if k = ''event'' then Some e else if k = ''stream'' then Some s
    else if k = ''position'' then map_option f p else None)"
  by (cases p) auto

text \<open>
  What travels comes back. The JSON of an exported record reads as that record, whatever its
  position is and also without one, as long as the stream has a name and the object passes the check for
  stored events, which everything a log exports does; and a record is read back only if that check
  passes, so nothing malformed enters through a file.
\<close>

theorem exported_record_round_trip:
  "from_json (to_json ev) =
     (if exported_stream ev = [] then Inl (Validation (Transferring StreamRequired))
      else rmap (\<lambda>_. ev) (validate_stored (exported_object ev)))"
  by (cases ev; cases "exported_position ev"; cases "validate_stored (exported_object ev)")
    (auto simp: from_json_def to_json_def Let_def)

end
