(* ===== verification/Log_Transfer_Theorems.thy ===== *)
theory Log_Transfer_Theorems
  imports Log_Transfer
begin

text \<open>
  What a transfer keeps: an import is one write that keeps everything but the coordinates, an export
  pages over the whole log, and a copy into an empty log is the same log; and what the two sinks have
  taken when they say so.
\<close>

section \<open>Import\<close>

lemma transparent_tx_import [transparent_intros]: "transparent surfaced (as_job (tx_import_many x events) sc)"
  unfolding tx_import_many_def by (intro transparent_intros)

lemma log_import_outcome:
  assumes "db_ok x (isle_db s)" and "\<forall>ev \<in> set events. storable x (exported_object ev)"
    and "log_import x quiet a events s = (r, s')"
  shows "case r of
     Inl e \<Rightarrow> s' = s
   | Inr report \<Rightarrow> \<exists>es cs. list_all2 as_restamped events es
       \<and> consecutive x (zip (map exported_stream events) es) (isle_db s)
       \<and> events_auto (isle_db s) + int (length events) \<le> i64_max
       \<and> cs = landings es (events_auto (isle_db s)) \<and> report = report_of cs events
       \<and> isle_db s' = appended_all x (zip (map exported_stream events) es) (isle_db s)
       \<and> s' = publish_committed (highest_position (positions_of cs)) (s\<lparr>isle_db := isle_db s'\<rparr>)"
proof (cases "events = []")
  case True
  then show ?thesis
    using assms(3) db_ok_auto [OF assms(1)]
    by (auto simp: log_import_def nothing_imported_def report_of_def usize_of_def reproduced_def highest_position_def
        publish_committed_def)
next
  case False
  let ?body = "tbind (tx_import_many x events) (\<lambda>committed. treturn (report_of committed events))"
  have tr: "transparent surfaced (as_job ?body sc)" for sc by (intro transparent_intros)
  have st: "steadfast ?body" by (intro steadfast_intros)
  have run: "with_transaction quiet a ?body s = (r, s')" using assms(3) False by (simp add: log_import_def)
  show ?thesis
  proof (rule with_transaction_outcome [OF st tr, of a s])
    fix e assume "with_transaction quiet a ?body s = (Inl e, s)"
    then show ?thesis using run by auto
  next
    fix v sc d'
    let ?sc = "entered (engine_aborts a) (isle_db s)"
    assume calm: "calm_run (as_job ?body ?sc) (readings a) (isle_db s) = (Inr (v, sc), d')"
      and out: "with_transaction quiet a ?body s = (Inr v, publish_committed (highest_position (scope_positions sc)) (s\<lparr>isle_db := d'\<rparr>))"
    let ?c = "\<lparr>conn_db = isle_db s, faults = [], clock = readings a\<rparr>"
    obtain cs c' where many: "import_many_in x events ?c = (Inr cs, c')"
      and v: "v = report_of cs events" "scope_positions sc = positions_of cs" "d' = conn_db c'"
      using calm by (auto simp: calm_run_def job_simps tx_import_many_def split: sum.splits prod.splits)
    from import_many_calm [OF _ _ assms(2) many] assms(1) obtain es where es: "list_all2 as_restamped events es"
      "consecutive x (zip (map exported_stream events) es) (isle_db s)"
      "events_auto (isle_db s) + int (length events) \<le> i64_max" "cs = landings es (events_auto (isle_db s))"
      "conn_db c' = appended_all x (zip (map exported_stream events) es) (isle_db s)" by auto
    then show ?thesis using out run v by auto
  qed
qed

text \<open>
  An import is one write that keeps what travels. Whatever fails, an error leaves the log as it was;
  in particular a record that is not a stored event leaves nothing behind. A success has added every
  record, in the order given and whatever streams they name, each with its kind, \<open>meta\<close>, \<open>data\<close>, time
  and schema version, under its stream's next number and at the next position; every stream holds what it
  held and then its records; and the report says whether each landed where it had been.
\<close>

theorem import_keeps_what_travels:
  assumes "db_ok x (isle_db s)" and "\<forall>ev \<in> set events. storable x (exported_object ev)"
    and "log_import x quiet a events s = (r, s')"
  shows "case r of
     Inl e \<Rightarrow> s' = s
   | Inr report \<Rightarrow> db_ok x (isle_db s') \<and> imported report = usize_of (length events)
       \<and> (\<exists>es. list_all2 as_restamped events es
           \<and> (\<forall>stream. contents x (isle_db s') stream
                = contents x (isle_db s) stream @ map snd (List.filter (\<lambda>p. fst p = stream) (zip (map exported_stream events) es)))
           \<and> (reproduced_coordinates report \<longleftrightarrow>
                list_all (\<lambda>i. exported_position (events ! i) = Some (position_of_stored (events_auto (isle_db s) + int i + 1)))
                  [0..<length events]))"
proof (cases r)
  case (Inr report)
  then obtain es where es: "list_all2 as_restamped events es"
    "consecutive x (zip (map exported_stream events) es) (isle_db s)"
    "events_auto (isle_db s) + int (length events) \<le> i64_max"
    "report = report_of (landings es (events_auto (isle_db s))) events"
    "isle_db s' = appended_all x (zip (map exported_stream events) es) (isle_db s)"
    using log_import_outcome [OF assms] by auto
  have len: "length es = length events" using es(1) by (simp add: list_all2_lengthD)
  have "reproduced (landings es (events_auto (isle_db s))) events \<longleftrightarrow>
      (\<forall>i < length events. exported_position (events ! i) = Some (position_of_stored (events_auto (isle_db s) + int i + 1)))"
    unfolding reproduced_def list_all_length
    by (auto simp: len landings_nth landed_def algebra_simps split: option.splits)
  moreover have "db_ok x (isle_db s')"
    unfolding es(5) using es(3) len by (intro db_ok_appended_all [OF assms(1) es(2)]) simp
  ultimately show ?thesis
    using es contents_appended_all [OF es(2)] Inr len
    by (auto simp: report_of_def list_all_iff intro!: exI [of _ es])
qed (use log_import_outcome [OF assms] in auto)

text \<open>And an import of stored events does land when nothing fails and there is room.\<close>

lemma import_rows_run:
  fixes c :: "'m conn"
  assumes "faults c = []" and "db_ok x (settle_counters next (conn_db c))" and "distinct (map fst next)"
    and "\<forall>ev \<in> set events. storable x (exported_object ev) \<and> validate_stored (exported_object ev) = Inr ()"
    and "events_auto (conn_db c) + int (length events) \<le> i64_max"
  shows "\<exists>cs next' c'. import_rows x events next c = (Inr (cs, next'), c')"
  using assms
proof (induction events arbitrary: "next" c)
  case Nil
  then show ?case by (simp add: job_simps)
next
  case (Cons ev events)
  let ?s = "exported_stream ev" and ?D = "settle_counters next (conn_db c)"
  let ?seq = "next_of ?D ?s"
  note calm = Cons.prems(1)
  have seq: "(case map_of next ?s of Some seq \<Rightarrow> jreturn seq | None \<Rightarrow> next_seq ?s) c = (Inr ?seq, c)"
    using calm by (simp add: next_of_settle [OF Cons.prems(3)] job_simps split: option.splits)
  obtain r where r: "restamp (exported_object ev) ?seq = Inr r"
    using Cons.prems(4) by (simp add: restamp_def)
  have st: "storable x (exported_object ev)" using Cons.prems(4) by simp
  note form = stored_form_restamp [OF st r]
  have room: "events_auto (conn_db c) < i64_max" using Cons.prems(5) by simp
  have clash: "no_clash ?s (u64_of FIELD_SEQ r) (conn_db c)"
    using db_ok_no_clash [OF Cons.prems(2), of ?s] room form(2) by (simp add: no_clash_def)
  let ?c = "c\<lparr>conn_db := push x ?s r (conn_db c)\<rparr>"
  let ?next = "AList.update ?s (?seq + 1) next"
  have ins: "insert_stamped x ?s r c = (Inr (landed r (events_auto (conn_db c))), ?c)"
    by (rule insert_stamped_calm [OF calm form(1) room clash])
  have "settle_counters ?next (conn_db ?c) = appended x ?s r ?D"
    using form(2) by (simp add: settle_update [OF Cons.prems(3)] settle_push push_upsert appended_def)
  then have "db_ok x (settle_counters ?next (conn_db ?c))"
    using form room Cons.prems(2) by (simp add: db_ok_appended)
  moreover have "distinct (map fst ?next)" using Cons.prems(3) by (simp add: distinct_fst_update)
  ultimately obtain cs nx c' where "import_rows x events ?next ?c = (Inr (cs, nx), c')"
    using Cons.IH [of ?c ?next] calm Cons.prems(4,5) by auto
  then show ?case using seq r ins by (simp add: job_simps)
qed

lemma log_import_runs:
  assumes "db_ok x (isle_db s)"
    and "\<forall>ev \<in> set events. storable x (exported_object ev) \<and> validate_stored (exported_object ev) = Inr ()"
    and "events_auto (isle_db s) + int (length events) \<le> i64_max"
  shows "is_ok (fst (log_import x quiet (calm_at t) events s))"
proof (cases "events = []")
  case False
  let ?body = "tbind (tx_import_many x events) (\<lambda>committed. treturn (report_of committed events))"
  let ?c = "\<lparr>conn_db = isle_db s, faults = [], clock = [t]\<rparr>"
  have tr: "transparent surfaced (as_job ?body sc)" for sc by (intro transparent_intros)
  have st: "steadfast ?body" by (intro steadfast_intros)
  obtain cs nx c1 where rows: "import_rows x events [] ?c = (Inr (cs, nx), c1)"
    using import_rows_run [of ?c x "[]" events] assms by auto
  have "faults c1 = []"
    using import_rows_calm [of ?c x "[]" events cs nx c1] rows assms(1,2) by auto
  then have "\<exists>v sc d'. calm_run (as_job ?body (entered [] (isle_db s))) [t] (isle_db s) = (Inr (v, sc), d')"
    using rows False
    by (simp add: calm_run_def job_simps tx_import_many_def import_many_in_def set_counters_calm)
  then show ?thesis
    using with_transaction_calm [OF st tr] False by (fastforce simp: log_import_def)
qed (simp add: log_import_def)

definition sample_record :: "rust_string \<Rightarrow> u64 \<Rightarrow> exported_event" where
  "sample_record stream epoch_ms = \<lparr> exported_stream = stream, exported_position = Some (Position 1),
     exported_object = event_object ''k'' (JObject []) (JObject []) 1 epoch_ms 1 \<rparr>"

lemma sample_record_ok [simp]:
  "storable toy_ext (exported_object (sample_record stream epoch_ms))"
  "validate_stored (exported_object (sample_record stream epoch_ms)) = Inr ()"
  "exported_stream (sample_record stream epoch_ms) = stream"
  "exported_position (sample_record stream epoch_ms) = Some (Position 1)"
  by (simp add: sample_record_def storable_def object_of_def map_of_event_object,
      simp add: sample_record_def validate_stored_iff well_formed_stored_def event_object_def entry_ok_def
        meta_ok_def has_kind_def, simp_all add: sample_record_def)

theorem import_keeps_what_travels_witness:
  "case log_import toy_ext quiet (calm_at 0) [sample_record ''s'' 9] (sample_log (empty_database ())) of
     (Inl e, s') \<Rightarrow> False
   | (Inr report, s') \<Rightarrow> imported report = 1 \<and> reproduced_coordinates report \<and> db_ok toy_ext (isle_db s')"
proof -
  let ?s = "sample_log (empty_database ())" and ?evs = "[sample_record ''s'' 9]"
  obtain r s' where run: "log_import toy_ext quiet (calm_at 0) ?evs ?s = (r, s')" by force
  have "is_ok r" using log_import_runs [of toy_ext ?s ?evs 0] run by (simp add: i64_max_def)
  then obtain report where "r = Inr report" by (auto simp: is_ok_iff)
  then show ?thesis
    using import_keeps_what_travels [OF _ _ run] run
    by (auto simp: usize_of_def position_of_stored_def as_u64_def)
qed

section \<open>Export\<close>

definition exported_of :: "ext \<Rightarrow> event_row \<Rightarrow> exported_event" where
  "exported_of x r = \<lparr> exported_stream = row_stream r, exported_position = Some (row_place r),
     exported_object = row_object x r \<rparr>"

definition export_key :: "exported_event \<Rightarrow> position" where
  "export_key ev = (case exported_position ev of Some p \<Rightarrow> p | None \<Rightarrow> BEGINNING)"

lemma exported_of_sel [simp]:
  "exported_stream (exported_of x r) = row_stream r" "exported_position (exported_of x r) = Some (row_place r)"
  "exported_object (exported_of x r) = row_object x r" "export_key (exported_of x r) = row_place r"
  by (simp_all add: exported_of_def export_key_def)

lemma filter_map_exported: "filter_map as_exported (map (stored_of x) rows) = map (exported_of x) rows"
  by (induction rows) (simp_all add: as_exported_def stored_of_def exported_of_def row_place_def position_of_stored_def)

lemma calm_run_export:
  assumes "db_ok x d" and "build_read from f = Inr at"
  shows "calm_run (export_job x from f limit) ts d =
     (Inr (map (exported_of x) (take (unat limit) (List.filter (\<lambda>r. from < row_place r) (matching x f d)))), d)"
proof -
  have "List.filter (\<lambda>r. from < row_place r) (matching x f d) = []" if "selects_nothing f"
    using row_matches_nothing [OF that] by (simp add: matching_def)
  then show ?thesis
    using assms filter_map_exported [of x "[]"] by (simp add: calm_run_def export_job_def job_simps select_stored_calm filter_map_exported)
qed

lemma row_place_small:
  "db_ok x d \<Longrightarrow> r \<in> set (tbl_events d) \<Longrightarrow> uint (get (row_place r)) \<le> i64_max"
  using position_small [of x d r] by (simp add: row_place_def position_of_stored_def uint_as_u64)

definition askable_at :: "filter \<Rightarrow> position \<Rightarrow> bool" where
  "askable_at f c \<longleftrightarrow> is_ok (build_read c f)"

lemma askable_at_small: "askable_at f c \<Longrightarrow> uint (get c') \<le> i64_max \<Longrightarrow> askable_at f c'"
  by (auto simp: askable_at_def build_read_def is_ok_iff result_simps stored_position_iff)

interpretation export_pages: cursor_pages "\<lambda>d. db_ok x d \<and> askable_at f BEGINNING" "\<lambda>d. map (exported_of x) (matching x f d)"
    export_key "askable_at f" "\<lambda>d c n. fst (calm_run (export_job x c f n) [] d)"
  for x f
proof
  fix d :: "'a database"
  assume ok: "db_ok x d \<and> askable_at f BEGINNING"
  show "sorted_wrt (<) (map export_key (map (exported_of x) (matching x f d)))"
    using matching_place_sorted [of x d f] ok by (simp add: o_def)
  show "askable_at f (export_key a)" if "a \<in> set (map (exported_of x) (matching x f d))" for a
    using that ok row_place_small [of x d] by (auto simp: matching_def intro: askable_at_small)
  show "fst (calm_run (export_job x c f n) [] d) =
      Inr (take (unat n) (List.filter (\<lambda>a. c < export_key a) (map (exported_of x) (matching x f d))))"
    if "askable_at f c" for c n
    using that ok calm_run_export [of x d c f _ n "[]"]
    by (auto simp: askable_at_def is_ok_iff filter_map o_def take_map)
qed

section \<open>A copy\<close>

text \<open>An event that travels: stored, and the check for stored events accepts it as it is.\<close>

definition travels :: "ext \<Rightarrow> json_map \<Rightarrow> bool" where
  "travels x e \<longleftrightarrow> stored_form x e \<and> storable x e \<and> restamp e (u64_of FIELD_SEQ e) = Inr e"

lemma map_insert_seq_same: "map_insert FIELD_SEQ (from_u64 s) (event_object k m d s t v) = event_object k m d s t v"
  by (simp add: event_object_def)

lemma travels_stamped:
  assumes "storable x event" and "stamp event seq t = Inr e"
  shows "travels x e"
proof -
  have e: "e = event_object (kind_of event) (object_of FIELD_META event) (object_of FIELD_DATA event) seq t (version_of event)"
    using assms stamp_eq by (auto simp: storable_def)
  have "restamp e seq = Inr (map_insert FIELD_SEQ (from_u64 seq) e)"
    using restamp_of_stamped [of event seq t e seq] assms by (simp add: storable_def)
  then show ?thesis
    using stored_form_stamp [OF assms] assms(1) e
    by (simp add: travels_def storable_def map_insert_seq_same object_of_def map_of_event_object)
qed

fun rows_of :: "ext \<Rightarrow> (rust_string \<times> json_map) list \<Rightarrow> i64 \<Rightarrow> event_row list" where
  "rows_of x [] prev = []"
| "rows_of x ((stream, e) # pairs) prev = row_of x stream e (prev + 1) # rows_of x pairs (prev + 1)"

lemma tbl_events_appended_all:
  "tbl_events (appended_all x pairs d) = tbl_events d @ rows_of x pairs (events_auto d)"
  by (induction x pairs "events_auto d" arbitrary: d rule: rows_of.induct) auto

lemma appended_caller: "appended x s e (d\<lparr>caller_tables := m\<rparr>) = (appended x s e d)\<lparr>caller_tables := m\<rparr>"
  by (simp add: appended_def push_def upsert_counter_def)

lemma appended_all_caller: "appended_all x pairs (d\<lparr>caller_tables := m\<rparr>) = (appended_all x pairs d)\<lparr>caller_tables := m\<rparr>"
  by (induction pairs arbitrary: d) (auto simp: appended_caller)

lemma empty_caller: "empty_database m' = (empty_database m)\<lparr>caller_tables := m'\<rparr>"
  by (simp add: empty_database_def)

lemma consecutive_caller: "consecutive x pairs (d\<lparr>caller_tables := m\<rparr>) = consecutive x pairs d"
  by (induction x pairs d rule: consecutive.induct) (auto simp: appended_caller next_of_def)

lemma restamped_same:
  assumes "consecutive x pairs d" and "\<forall>p \<in> set pairs. travels x (snd p)"
    and "list_all2 as_restamped events es" and "list_all2 (\<lambda>ev p. exported_object ev = snd p) events pairs"
    and "consecutive x (zip (map fst pairs) es) d"
  shows "es = map snd pairs"
  using assms
proof (induction x pairs d arbitrary: events es rule: consecutive.induct)
  case (2 x stream e pairs d)
  obtain ev events' where ev: "events = ev # events'" "exported_object ev = e"
    "list_all2 (\<lambda>ev p. exported_object ev = snd p) events' pairs"
    using "2.prems"(4) by (auto simp: list_all2_Cons2)
  obtain e' es' where es: "es = e' # es'" "as_restamped ev e'" "list_all2 as_restamped events' es'"
    using "2.prems"(3) ev(1) by (auto simp: list_all2_Cons1)
  have "u64_of FIELD_SEQ e' = u64_of FIELD_SEQ e" using "2.prems"(1,5) es(1) by simp
  then have "e' = e" using es(2) ev(2) "2.prems"(2) by (simp add: as_restamped_def travels_def)
  then show ?case
    using "2.IH" [of events' es'] "2.prems" ev es by simp
qed (simp add: list_all2_Nil2)

lemma length_rows_of [simp]: "length (rows_of x pairs prev) = length pairs"
  by (induction x pairs prev rule: rows_of.induct) auto

lemma rows_of_nth:
  "i < length pairs \<Longrightarrow> rows_of x pairs prev ! i = row_of x (fst (pairs ! i)) (snd (pairs ! i)) (prev + int i + 1)"
  by (induction x pairs prev arbitrary: i rule: rows_of.induct) (auto simp: nth_Cons' of_nat_diff algebra_simps)

lemma travels_object: "travels x e \<Longrightarrow> row_object x (row_of x stream e p) = e"
  by (simp add: travels_def row_object_row_of)

lemma exported_rows_of:
  assumes "\<forall>p \<in> set pairs. travels x (snd p)"
  shows "list_all2 (\<lambda>ev p. exported_object ev = snd p) (map (exported_of x) (rows_of x pairs prev)) pairs"
    and "map exported_stream (map (exported_of x) (rows_of x pairs prev)) = map fst pairs"
    and "map exported_position (map (exported_of x) (rows_of x pairs prev))
       = map (\<lambda>i. Some (position_of_stored (prev + int i + 1))) [0..<length pairs]"
proof -
  show "list_all2 (\<lambda>ev p. exported_object ev = snd p) (map (exported_of x) (rows_of x pairs prev)) pairs"
    using assms by (induction x pairs prev rule: rows_of.induct) (auto simp: travels_object)
  show "map exported_stream (map (exported_of x) (rows_of x pairs prev)) = map fst pairs"
    by (induction x pairs prev rule: rows_of.induct) auto
  show "map exported_position (map (exported_of x) (rows_of x pairs prev))
       = map (\<lambda>i. Some (position_of_stored (prev + int i + 1))) [0..<length pairs]"
    by (rule nth_equalityI) (simp_all add: rows_of_nth row_place_def)
qed

lemma matching_all: "matching x filter_all d = tbl_events d"
  by (simp add: matching_def row_matches_def filter_all_def kind_in_def in_prefix_range_def)

lemma askable_at_all [simp]: "askable_at filter_all BEGINNING"
  by (simp add: askable_at_def is_ok_iff build_read_def filter_validate_def filter_all_def stored_position_iff
      optional_def result_simps BEGINNING_def i64_max_def)

text \<open>The whole log, taken page by page.\<close>

lemma export_walk:
  assumes "db_ok x d" and "n \<noteq> 0" and "length (tbl_events d) < fuel"
  shows "walk (\<lambda>c n. fst (calm_run (export_job x c filter_all n) [] d)) export_key n fuel BEGINNING
     = Inr (map (exported_of x) (tbl_events d))"
proof -
  have above: "BEGINNING < row_place r" if "r \<in> set (tbl_events d)" for r
    using position_above [OF assms(1) that, of BEGINNING] position_small [OF assms(1) that] by (simp add: BEGINNING_def)
  have all: "List.filter (\<lambda>a. BEGINNING < export_key a) (map (exported_of x) (tbl_events d))
      = map (exported_of x) (tbl_events d)"
    using above by (intro filter_True) auto
  have ok: "db_ok x d \<and> askable_at filter_all BEGINNING" using assms(1) by simp
  from export_pages.walk_all [OF this assms(2), of BEGINNING fuel] show ?thesis
    using assms(3) unfolding matching_all all by simp
qed

text \<open>Page after page through the log's own \<open>export\<close>.\<close>

lemma export_walk_log:
  assumes "db_ok x (isle_db s)" and "n \<noteq> 0" and "length (tbl_events (isle_db s)) < fuel"
  shows "walk (\<lambda>c n. export x (calm_at 0) c filter_all n s) export_key n fuel BEGINNING
     = Inr (map (exported_of x) (tbl_events (isle_db s)))"
proof -
  let ?d = "isle_db s"
  have "fst (isle_call (calm_at 0) (export_job x c filter_all n) ?d) = fst (calm_run (export_job x c filter_all n) [] ?d)" for c n
  proof (cases "build_read c filter_all")
    case (Inl e)
    then show ?thesis
      by (simp add: isle_call_calm_at calm_run_def export_job_def job_simps select_stored_def split: sum.splits)
  qed (simp add: isle_call_calm_at calm_run_export [OF assms(1)])
  then have "(\<lambda>c n. export x (calm_at 0) c filter_all n s) = (\<lambda>c n. fst (calm_run (export_job x c filter_all n) [] ?d))"
    by (simp add: export_def read_job_def)
  then show ?thesis using export_walk [OF assms(1,2), of fuel] assms(3) by simp
qed

text \<open>What such a walk hands over, taken in by an empty log.\<close>

lemma import_reproduces:
  fixes m m' :: 'm
  assumes source: "d = appended_all x pairs (empty_database m)" "consecutive x pairs (empty_database m)"
    and travels: "\<forall>p \<in> set pairs. travels x (snd p)" and room: "int (length pairs) \<le> i64_max"
    and target: "isle_db target = empty_database m'"
  shows "\<exists>report target'. log_import x quiet (calm_at 0) (map (exported_of x) (tbl_events d)) target = (Inr report, target')
     \<and> isle_db target' = d\<lparr>caller_tables := m'\<rparr> \<and> reproduced_coordinates report"
proof -
  let ?evs = "map (exported_of x) (tbl_events d)"
  have rows: "tbl_events d = rows_of x pairs 0" by (simp add: source(1) tbl_events_appended_all)
  note ex = exported_rows_of [OF travels, of 0]
  have "\<forall>ev \<in> set ?evs. travels x (exported_object ev)"
    using travels unfolding rows by (auto simp: in_set_conv_nth [of _ "rows_of x pairs 0"] rows_of_nth travels_object dest: nth_mem)
  then have good: "\<forall>ev \<in> set ?evs. storable x (exported_object ev) \<and> validate_stored (exported_object ev) = Inr ()"
    by (auto simp: travels_def restamp_def result_simps)
  obtain report target' where imp: "log_import x quiet (calm_at 0) ?evs target = (Inr report, target')"
    using log_import_runs [of x target ?evs 0] good room target rows
    by (auto simp: is_ok_iff) (metis fst_conv surj_pair)
  have tok: "db_ok x (isle_db target)" by (simp add: target)
  have st: "\<forall>ev \<in> set ?evs. storable x (exported_object ev)" using good by blast
  obtain es where es: "list_all2 as_restamped ?evs es"
    "consecutive x (zip (map fst pairs) es) (isle_db target)"
    "report = report_of (landings es (events_auto (isle_db target))) ?evs"
    "isle_db target' = appended_all x (zip (map fst pairs) es) (isle_db target)"
    using log_import_outcome [OF tok st imp] ex(2) unfolding rows by auto
  have empty: "isle_db target = (empty_database m)\<lparr>caller_tables := m'\<rparr>" using target empty_caller by metis
  have "consecutive x (zip (map fst pairs) es) (empty_database m)" using es(2) unfolding empty consecutive_caller .
  then have same: "es = map snd pairs" using restamped_same [OF source(2) travels es(1) [unfolded rows] ex(1)] by blast
  then have zip: "zip (map fst pairs) es = pairs" by (simp add: zip_map_fst_snd)
  have "isle_db target' = d\<lparr>caller_tables := m'\<rparr>" unfolding es(4) empty zip appended_all_caller source(1) ..
  moreover have "exported_position (?evs ! i) = Some (position_of_stored (int i + 1))" if "i < length pairs" for i
    using arg_cong [OF ex(3), of "\<lambda>ps. ps ! i"] that rows by simp
  then have "reproduced_coordinates report"
    by (auto simp: es(3) report_of_def reproduced_def list_all_length same rows landings_nth landed_def target algebra_simps
        split: option.splits)
  ultimately show ?thesis using imp by blast
qed

text \<open>
  C36. A copy of a log is that log. The log has been written by appends, batches and imports only, from
  its beginning: its events are \<open>pairs\<close>, each in its stream with the number it was given. Exporting it
  in pages of any size, each from the position the page before ended at, and importing what came out
  into an empty log reproduces every row with its position, number, time, version and texts, and every
  stream's counter; and the import says that it did.
\<close>

theorem copy_reproduces_the_log:
  fixes m m' :: 'm
  assumes "isle_db source = appended_all x pairs (empty_database m)"
    and "consecutive x pairs (empty_database m)" and "\<forall>p \<in> set pairs. travels x (snd p)"
    and "int (length pairs) \<le> i64_max" and "isle_db target = empty_database m'"
    and "n \<noteq> 0" and "length pairs < fuel"
  shows "\<exists>events report target'.
     walk (\<lambda>c n. export x (calm_at 0) c filter_all n source) export_key n fuel BEGINNING = Inr events
     \<and> log_import x quiet (calm_at 0) events target = (Inr report, target')
     \<and> tbl_events (isle_db target') = tbl_events (isle_db source)
     \<and> tbl_stream_seq (isle_db target') = tbl_stream_seq (isle_db source)
     \<and> events_auto (isle_db target') = events_auto (isle_db source)
     \<and> reproduced_coordinates report"
proof -
  have ok: "db_ok x (isle_db source)"
    unfolding assms(1) using assms(2,4) by (intro db_ok_appended_all) simp_all
  have "length (tbl_events (isle_db source)) < fuel" using assms(7) by (simp add: assms(1) tbl_events_appended_all)
  note walk = export_walk_log [OF ok assms(6) this]
  obtain report target' where "log_import x quiet (calm_at 0) (map (exported_of x) (tbl_events (isle_db source))) target = (Inr report, target')"
    "isle_db target' = (isle_db source)\<lparr>caller_tables := m'\<rparr>" "reproduced_coordinates report"
    using import_reproduces [OF assms(1-5)] by blast
  then show ?thesis using walk by (intro exI conjI) (assumption | simp)+
qed

theorem copy_reproduces_the_log_witness:
  "\<exists>target' :: unit shared. tbl_events (isle_db target') = tbl_events one_event_db
     \<and> tbl_stream_seq (isle_db target') = tbl_stream_seq one_event_db"
proof -
  let ?e = "event_object ''paid'' (JObject []) (JObject []) 1 9 1"
  let ?pairs = "[(''s'', ?e)]"
  have src: "isle_db (sample_log one_event_db) = appended_all toy_ext ?pairs (empty_database ())"
    by (simp add: one_event_db_def)
  have form: "stored_form toy_ext ?e" by (rule stored_formI) simp_all
  have wf: "well_formed_stored ?e"
    by (simp add: well_formed_stored_def event_object_def entry_ok_def meta_ok_def has_kind_def)
  have st: "storable toy_ext ?e" by (simp add: storable_def object_of_def map_of_event_object)
  have "restamp ?e 1 = Inr ?e"
    using restamp_eq [of ?e 1] wf
    by (simp add: object_of_def version_of_def u64_of_def kind_of_def map_of_event_object)
  then have tr: "\<forall>p \<in> set ?pairs. travels toy_ext (snd p)" using form st by (simp add: travels_def)
  have con: "consecutive toy_ext ?pairs (empty_database ())"
    using form by (simp add: next_of_def)
  show ?thesis
    using copy_reproduces_the_log [OF src con tr, of "sample_log (empty_database ())" "()" 10 2]
    by (auto simp: i64_max_def)
qed

section \<open>The sinks\<close>

text \<open>What a reader makes of the bytes: the parts that end in a newline, each through \<open>from_json\<close>.\<close>

fun split_lines :: "rust_string \<Rightarrow> rust_string \<Rightarrow> rust_string list" where
  "split_lines acc [] = []"
| "split_lines acc (c # cs) = (if c = CHR 0x0A then rev acc # split_lines [] cs else split_lines (c # acc) cs)"

definition read_line :: "ext \<Rightarrow> rust_string \<Rightarrow> exported_event result" where
  "read_line x line = (case from_text x line of
     None \<Rightarrow> Inl (Storage (Transferring RenderingExport)) | Some v \<Rightarrow> from_json v)"

definition read_lines :: "ext \<Rightarrow> rust_string \<Rightarrow> exported_event list result" where
  "read_lines x bytes = traverse (read_line x) (split_lines [] bytes)"

text \<open>What the lines rely on of the JSON library: the text has no raw newline and reads back.\<close>

definition one_line :: "ext \<Rightarrow> json \<Rightarrow> bool" where
  "one_line x v \<longleftrightarrow> (\<exists>t. to_text x v = Some t \<and> from_text x t = Some v \<and> CHR 0x0A \<notin> set t)"

definition line_of :: "ext \<Rightarrow> exported_event \<Rightarrow> rust_string" where
  "line_of x ev = the (to_text x (to_json ev)) @ newline"

lemma write_lines_Inr:
  "write_lines x page w = (Inr (), w') \<Longrightarrow>
     held w' = held w @ concat (map (line_of x) page) \<and> flushed w' = flushed w"
  by (induction x page w rule: write_lines.induct)
    (auto simp: write_all_def line_of_def split: option.splits sum.splits prod.splits list.splits)

lemma split_lines_line:
  "CHR 0x0A \<notin> set t \<Longrightarrow> split_lines acc (t @ newline @ rest) = (rev acc @ t) # split_lines [] rest"
  by (induction t arbitrary: acc) (auto simp: newline_def)

lemma read_lines_page:
  assumes "\<forall>ev \<in> set page. one_line x (to_json ev) \<and> exported_stream ev \<noteq> []
      \<and> validate_stored (exported_object ev) = Inr ()"
  shows "read_lines x (concat (map (line_of x) page) @ rest)
     = rmap (\<lambda>later. page @ later) (read_lines x rest)"
  using assms
proof (induction page)
  case Nil
  then show ?case by (cases "read_lines x rest") simp_all
next
  case (Cons ev page)
  obtain t where t: "to_text x (to_json ev) = Some t" "from_text x t = Some (to_json ev)" "CHR 0x0A \<notin> set t"
    using Cons.prems by (auto simp: one_line_def)
  have read: "from_json (to_json ev) = Inr ev"
    using Cons.prems by (cases ev; cases "exported_position ev") (simp_all add: from_json_def to_json_def Let_def)
  have "read_lines x (concat (map (line_of x) (ev # page)) @ rest)
      = rbind (read_line x t) (\<lambda>y. rmap (\<lambda>ys. y # ys) (read_lines x (concat (map (line_of x) page) @ rest)))"
    using split_lines_line [OF t(3), of "[]" "concat (map (line_of x) page) @ rest"]
    by (cases "read_line x t"; cases "read_lines x (concat (map (line_of x) page) @ rest)")
      (simp_all add: read_lines_def line_of_def t(1))
  then show ?case
    using Cons t(2) read by (cases "read_lines x rest") (simp_all add: read_line_def)
qed

text \<open>
  A page the JSON Lines sink took is written out. When \<open>write\<close> answers success, every record of the
  page is in what the writer has handed on, after what was there and with nothing held back, one per
  line; splitting at the newlines and reading each line gives back exactly the records of the page. A
  failure of the writer at any point, the flush included, is an error, so no page is confirmed that was
  only buffered.
\<close>

theorem json_lines_page_is_written:
  assumes "\<forall>ev \<in> set page. one_line x (to_json ev) \<and> exported_stream ev \<noteq> []
      \<and> validate_stored (exported_object ev) = Inr ()"
    and "json_lines_write x page w = (Inr (), w')"
  shows "\<exists>lines. flushed w' = flushed w @ held w @ lines \<and> held w' = [] \<and> read_lines x lines = Inr page"
proof -
  obtain w1 where w1: "write_lines x page w = (Inr (), w1)"
    using assms(2) by (auto simp: json_lines_write_def split: prod.splits sum.splits)
  note w = write_lines_Inr [OF w1]
  have "flushed w' = flushed w1 @ held w1" "held w' = []"
    using assms(2) w1
    by (auto simp: json_lines_write_def flush_writer_def split: prod.splits sum.splits list.splits option.splits)
  moreover have "read_lines x (concat (map (line_of x) page)) = Inr page"
    using read_lines_page [OF assms(1), of "[]"] by (simp add: read_lines_def)
  ultimately show ?thesis using w by (intro exI [of _ "concat (map (line_of x) page)"]) simp
qed

text \<open>A library that writes one exported record, for a concrete input.\<close>

definition line_ext :: "json \<Rightarrow> ext" where
  "line_ext v = \<lparr> to_text = (\<lambda>_. Some ''r''), from_text = (\<lambda>_. Some v),
     json_extract = (\<lambda>_ _. SqlNull), as_f64 = (\<lambda>_. 0), numeric_eq = (\<lambda>a b. a = b) \<rparr>"

theorem json_lines_page_is_written_witness:
  "\<exists>lines. flushed (snd (json_lines_write (line_ext (to_json (sample_record ''s'' 9))) [sample_record ''s'' 9]
       \<lparr>held = [], flushed = [], io_faults = []\<rparr>)) = lines
     \<and> read_lines (line_ext (to_json (sample_record ''s'' 9))) lines = Inr [sample_record ''s'' 9]"
proof -
  let ?ev = "sample_record ''s'' 9" and ?w = "\<lparr>held = [], flushed = [], io_faults = []\<rparr>"
  let ?x = "line_ext (to_json ?ev)"
  obtain w' where run: "json_lines_write ?x [?ev] ?w = (Inr (), w')"
    by (simp add: json_lines_write_def line_ext_def write_all_def flush_writer_def)
  have "\<forall>ev \<in> set [?ev]. one_line ?x (to_json ev) \<and> exported_stream ev \<noteq> []
      \<and> validate_stored (exported_object ev) = Inr ()"
    by (simp add: one_line_def line_ext_def)
  from json_lines_page_is_written [OF this run] show ?thesis using run by auto
qed

text \<open>
  A page the log sink took is in the target. When \<open>write\<close> answers success for a page that is not
  empty, the target holds the page's records after what it held, each with everything but its
  coordinates, and exactly one report was kept for it; when it answers an error, the target is as it was
  and no report was added; an empty page does nothing.
\<close>

theorem log_sink_page_is_imported:
  assumes "db_ok x (isle_db (sink_target sink))" and "\<forall>ev \<in> set page. storable x (exported_object ev)"
    and "log_sink_write x quiet a page sink = (r, sink')"
  shows "(case r of
       Inl e \<Rightarrow> sink' = sink
     | Inr _ \<Rightarrow> length (sink_reports sink') = length (sink_reports sink) + (if page = [] then 0 else 1)
         \<and> (\<exists>es. list_all2 as_restamped page es
              \<and> isle_db (sink_target sink')
                = appended_all x (zip (map exported_stream page) es) (isle_db (sink_target sink))))
     \<and> db_ok x (isle_db (sink_target sink'))"
proof (cases "page = []")
  case True
  then show ?thesis using assms(1,3) by (auto simp: log_sink_write_def)
next
  case False
  obtain r1 target where run: "log_import x quiet a page (sink_target sink) = (r1, target)" by force
  note out = log_import_outcome [OF assms(1,2) run]
  show ?thesis
  proof (cases r1)
    case (Inr report)
    then obtain es where es: "list_all2 as_restamped page es"
      "consecutive x (zip (map exported_stream page) es) (isle_db (sink_target sink))"
      "events_auto (isle_db (sink_target sink)) + int (length page) \<le> i64_max"
      "isle_db target = appended_all x (zip (map exported_stream page) es) (isle_db (sink_target sink))"
      using out by auto
    have "db_ok x (isle_db target)"
      unfolding es(4) using es(3) list_all2_lengthD [OF es(1)] by (intro db_ok_appended_all [OF assms(1) es(2)]) simp
    then show ?thesis
      using assms(3) False run Inr es by (auto simp: log_sink_write_def)
  qed (use assms False run out in \<open>auto simp: log_sink_write_def\<close>)
qed

theorem log_sink_page_is_imported_witness:
  "db_ok toy_ext (isle_db (sink_target (snd (log_sink_write toy_ext quiet (calm_at 0) [sample_record ''s'' 9]
     \<lparr>sink_target = sample_log (empty_database ()), sink_reports = []\<rparr>))))"
proof -
  let ?sink = "\<lparr>sink_target = sample_log (empty_database ()), sink_reports = []\<rparr>"
  obtain r sink' where run: "log_sink_write toy_ext quiet (calm_at 0) [sample_record ''s'' 9] ?sink = (r, sink')"
    by force
  show ?thesis using log_sink_page_is_imported [OF _ _ run] run by simp
qed

end
