(* ===== verification/Retention.thy ===== *)
theory Retention
  imports Log_Transfer_Theorems
begin

text \<open>
  Removing history: \<open>crates/eventsdb-sqlite/src/retention.rs\<close>. What a plan selects, the guards, the chain
  of confirmed exports, the one transaction that decides, deletes and writes the ledger, the receipts,
  and the loop that archives before it removes.
\<close>

section \<open>Plans\<close>

datatype plan = Before position | OlderThan u64 | Streams "rust_string list"

definition predicate :: "plan \<Rightarrow> (event_row \<Rightarrow> bool) result" where
  "predicate plan =
     (case plan of
        Before position \<Rightarrow> rmap (\<lambda>at r. row_position r \<le> at) (stored_position position)
      | OlderThan epoch_ms \<Rightarrow>
          (case i64_try_from epoch_ms of
             None \<Rightarrow> Inl (Validation (Retaining (CutoffBeyondRange epoch_ms)))
           | Some cutoff \<Rightarrow> Inr (\<lambda>r. row_epoch_ms r < cutoff))
      | Streams streams \<Rightarrow>
          if streams = [] then Inr (\<lambda>_. False)
          else rmap (\<lambda>_ r. ListMem (row_stream r) streams) (check_placeholders (length streams) ''streams''))"

text \<open>A number as \<open>Display\<close> writes it.\<close>

fun decimal :: "nat \<Rightarrow> rust_string" where
  "decimal n = (if n < 10 then [char_of (48 + n)] else decimal (n div 10) @ [char_of (48 + n mod 10)])"

declare decimal.simps [simp del]

definition describe :: "plan \<Rightarrow> rust_string" where
  "describe plan =
     (case plan of
        Before position \<Rightarrow> ''before:'' @ decimal (unat (get position))
      | OlderThan epoch_ms \<Rightarrow> ''older_than:'' @ decimal (unat epoch_ms)
      | Streams streams \<Rightarrow> ''streams:'' @ decimal (length streams))"

definition describe_archived :: "plan \<Rightarrow> rust_string" where
  "describe_archived plan = ''archive-then-remove: '' @ describe plan"

datatype guard = RegisteredConsumers | Force | Exported

section \<open>Receipts and the chain\<close>

record export_receipt =
  receipt_id :: u64
  receipt_from :: position
  receipt_through :: position
  receipt_count :: usize
  receipt_whole :: bool

text \<open>The rows of the chain's query, ordered by \<open>from_position\<close> and then \<open>through\<close>.\<close>

definition landed_pages :: "export_row list \<Rightarrow> (i64 \<times> i64) list" where
  "landed_pages rows =
     sort_key fst (sort_key snd
       (map (\<lambda>r. (export_from_position r, export_through r))
         (List.filter (\<lambda>r. export_landed_ms r \<noteq> None \<and> export_whole r) rows)))"

fun reach_of :: "(i64 \<times> i64) list \<Rightarrow> i64 \<Rightarrow> i64" where
  "reach_of [] reach = reach"
| "reach_of ((from, through) # rows) reach =
     reach_of rows (if from \<le> reach \<and> through > reach then through else reach)"

definition exported_through :: "('m, error, position) job" where
  "exported_through =
     jbind (map_err classify (query_map (\<lambda>d. landed_pages (tbl_exports d)) Inr)) (\<lambda>rows.
       jreturn (Position (as_u64 (reach_of rows 0))))"

section \<open>The removal\<close>

record report =
  removed :: usize
  highest_removed :: "position option"
  streams_affected :: usize

definition nothing_removed :: report where
  "nothing_removed = \<lparr> removed = 0, highest_removed = None, streams_affected = 0 \<rparr>"

definition max_of :: "i64 list \<Rightarrow> i64 option" where
  "max_of ps = (case ps of [] \<Rightarrow> None | p # rest \<Rightarrow> Some (foldr max rest p))"

definition highest_matching :: "plan \<Rightarrow> ('m, error, position option) job" where
  "highest_matching plan =
     jbind (jlift (predicate plan)) (\<lambda>p.
       map_err classify (query_row (\<lambda>d. Some
         (map_option (\<lambda>at. Position (as_u64 at)) (max_of (map row_position (List.filter p (tbl_events d))))))))"

definition would_remove :: "(event_row \<Rightarrow> bool) \<Rightarrow> 'm database \<Rightarrow> i64 \<times> i64 option \<times> i64" where
  "would_remove p d =
     (let rows = List.filter p (tbl_events d)
      in (int (length rows), max_of (map row_position rows), int (length (remdups (map row_stream rows)))))"

text \<open>\<open>SELECT consumer, position FROM checkpoints WHERE position < ?1 ORDER BY position LIMIT 1\<close>.\<close>

definition first_behind :: "i64 \<Rightarrow> 'm database \<Rightarrow> (rust_string \<times> i64) option" where
  "first_behind highest d =
     (case sort_key snd (List.filter (\<lambda>p. snd p < highest)
             (map (\<lambda>(consumer, row). (consumer, checkpoint_position row)) (tbl_checkpoints d))) of
        [] \<Rightarrow> None | p # _ \<Rightarrow> Some p)"

definition consumer_behind :: "i64 \<Rightarrow> ('m, error, (rust_string \<times> i64) option) job" where
  "consumer_behind highest =
     or_else (query_row (\<lambda>d. map_option Some (first_behind highest d)))
       (\<lambda>e. case e of QueryReturnedNoRows \<Rightarrow> Inr None | other \<Rightarrow> Inl (classify other))"

definition delete_events :: "(event_row \<Rightarrow> bool) \<Rightarrow> 'm database \<Rightarrow> 'm database" where
  "delete_events p d = d\<lparr>tbl_events := List.filter (\<lambda>r. \<not> p r) (tbl_events d)\<rparr>"

definition insert_ledger :: "i64 \<Rightarrow> rust_string \<Rightarrow> i64 \<Rightarrow> i64 \<Rightarrow> 'm database \<Rightarrow> rusqlite_error + 'm database" where
  "insert_ledger now described count highest d =
     (if retention_auto d \<ge> i64_max then Inl (SqliteFailure DiskFull ''database or disk is full'')
      else Inr (d\<lparr>tbl_retention := tbl_retention d @ [\<lparr> retention_id = retention_auto d + 1, retention_applied_ms = now,
                    retention_plan = described, retention_removed_count = count, retention_highest_removed = highest \<rparr>],
                  retention_auto := retention_auto d + 1\<rparr>))"

definition check_exported :: "guard \<Rightarrow> i64 \<Rightarrow> ('m, error, unit) job" where
  "check_exported guard highest =
     (if guard = Exported then
        jbind exported_through (\<lambda>reach.
          if as_u64 highest > get reach then jlift (Inl (NotExported (as_u64 highest) (get reach)))
          else jreturn ())
      else jreturn ())"

definition check_consumers :: "guard \<Rightarrow> i64 \<Rightarrow> ('m, error, unit) job" where
  "check_consumers guard highest =
     (if guard \<noteq> Force then
        jbind (consumer_behind highest) (\<lambda>behind.
          case behind of
            Some (consumer, cursor) \<Rightarrow> jlift (Inl (ConsumerBehind consumer (as_u64 cursor) (as_u64 highest)))
          | None \<Rightarrow> jreturn ())
      else jreturn ())"

definition retain_body :: "plan \<Rightarrow> guard \<Rightarrow> rust_string \<Rightarrow> ('m, error, report tx_end) job" where
  "retain_body plan guard described =
     jbind (jlift (predicate plan)) (\<lambda>p.
     jbind (map_err classify (query_row (\<lambda>d. Some (would_remove p d)))) (\<lambda>(count, at, streams).
     case at of
       None \<Rightarrow> jreturn (Dropped nothing_removed)
     | Some highest \<Rightarrow>
         jbind (check_exported guard highest) (\<lambda>_.
         jbind (check_consumers guard highest) (\<lambda>_.
         jbind (map_err classify (execute (\<lambda>d. Inr (delete_events p d)))) (\<lambda>_.
         jbind read_clock (\<lambda>now.
         jbind (map_err classify (execute (insert_ledger (as_i64 now) described count highest))) (\<lambda>_.
           jreturn (Commit \<lparr> removed = as_u64 count, highest_removed = Some (Position (as_u64 highest)),
                             streams_affected = as_u64 streams \<rparr>))))))))"

definition apply_plan :: "attempt \<Rightarrow> plan \<Rightarrow> guard \<Rightarrow> rust_string \<Rightarrow> 'm shared \<Rightarrow> report result \<times> 'm shared" where
  "apply_plan a plan guard described s = writer_job a (transaction (retain_body plan guard described)) s"

definition retain :: "attempt \<Rightarrow> plan \<Rightarrow> guard \<Rightarrow> 'm shared \<Rightarrow> report result \<times> 'm shared" where
  "retain a plan guard s = apply_plan a plan guard (describe plan) s"

section \<open>What is gone\<close>

datatype completeness = Complete | Incomplete position

definition is_complete :: "completeness \<Rightarrow> bool" where
  "is_complete c \<longleftrightarrow> c = Complete"

definition ledger_high :: "'m database \<Rightarrow> i64" where
  "ledger_high d = (case max_of (map retention_highest_removed (tbl_retention d)) of None \<Rightarrow> 0 | Some h \<Rightarrow> h)"

definition watermark :: "('m, error, position) job" where
  "watermark = map_err classify (query_row (\<lambda>d. Some (Position (as_u64 (ledger_high d)))))"

definition require_complete_from :: "position \<Rightarrow> ('m, error, unit) job" where
  "require_complete_from from =
     jbind watermark (\<lambda>mark.
       if from < mark then jlift (Inl (Truncated (get from) (get mark))) else jreturn ())"

definition removed_watermark :: "attempt \<Rightarrow> 'm shared \<Rightarrow> position result" where
  "removed_watermark a s = read_job a watermark s"

definition completeness_from :: "attempt \<Rightarrow> position \<Rightarrow> 'm shared \<Rightarrow> completeness result" where
  "completeness_from a from s =
     rmap (\<lambda>mark. if from < mark then Incomplete mark else Complete) (removed_watermark a s)"

section \<open>Receipts\<close>

definition whole_filter :: "filter \<Rightarrow> bool" where
  "whole_filter f \<longleftrightarrow>
     filter_kinds f = None \<and> filter_streams f = None
     \<and> (case filter_meta f of None \<Rightarrow> True | Some pairs \<Rightarrow> pairs = [])
     \<and> (case filter_prefix f of None \<Rightarrow> True | Some p \<Rightarrow> p = [])"

definition insert_export ::
  "i64 \<Rightarrow> i64 \<Rightarrow> i64 \<Rightarrow> i64 \<Rightarrow> bool \<Rightarrow> 'm database \<Rightarrow> rusqlite_error + i64 \<times> 'm database" where
  "insert_export taken_ms from through count whole d =
     (if exports_auto d \<ge> i64_max then Inl (SqliteFailure DiskFull ''database or disk is full'')
      else Inr (exports_auto d + 1,
                d\<lparr>tbl_exports := tbl_exports d @ [\<lparr> export_id = exports_auto d + 1, export_taken_ms = taken_ms,
                    export_from_position = from, export_through = through, export_count = count,
                    export_whole = whole, export_landed_ms = None \<rparr>],
                  exports_auto := exports_auto d + 1\<rparr>))"

definition page_through :: "position \<Rightarrow> exported_event list \<Rightarrow> position" where
  "page_through from events =
     (if events = [] then from else case exported_position (last events) of Some p \<Rightarrow> p | None \<Rightarrow> from)"

text \<open>The second half of \<open>export_recorded\<close>: a page has been read, its receipt is written.\<close>

definition write_receipt ::
  "attempt \<Rightarrow> u64 \<Rightarrow> position \<Rightarrow> filter \<Rightarrow> exported_event list \<Rightarrow> 'm shared
     \<Rightarrow> (exported_event list \<times> export_receipt) result \<times> 'm shared" where
  "write_receipt a now from f events s =
     (case (stored_position from, stored_position (page_through from events)) of
        (Inl e, _) \<Rightarrow> (Inl e, s)
      | (Inr _, Inl e) \<Rightarrow> (Inl e, s)
      | (Inr from_stored, Inr through_stored) \<Rightarrow>
          (case writer_job a (map_err classify (statement (insert_export (as_i64 now) from_stored through_stored
                  (as_i64 (usize_of (length events))) (whole_filter f)))) s of
             (Inl e, s') \<Rightarrow> (Inl e, s')
           | (Inr rowid, s') \<Rightarrow> (Inr (events, \<lparr> receipt_id = as_u64 rowid, receipt_from = from,
                 receipt_through = page_through from events, receipt_count = usize_of (length events),
                 receipt_whole = whole_filter f \<rparr>), s')))"

definition export_recorded ::
  "ext \<Rightarrow> attempt \<Rightarrow> attempt \<Rightarrow> u64 \<Rightarrow> position \<Rightarrow> filter \<Rightarrow> usize \<Rightarrow> 'm shared
     \<Rightarrow> (exported_event list \<times> export_receipt) result \<times> 'm shared" where
  "export_recorded x a a' now from f limit s =
     (case export x a from f limit s of
        Inl e \<Rightarrow> (Inl e, s)
      | Inr events \<Rightarrow> write_receipt a' now from f events s)"

definition land_export :: "i64 \<Rightarrow> i64 \<Rightarrow> 'm database \<Rightarrow> rusqlite_error + nat \<times> 'm database" where
  "land_export landed_ms rowid d =
     Inr (length (List.filter (\<lambda>r. export_id r = rowid \<and> export_landed_ms r = None) (tbl_exports d)),
          d\<lparr>tbl_exports := map (\<lambda>r. if export_id r = rowid \<and> export_landed_ms r = None
                                     then r\<lparr>export_landed_ms := Some landed_ms\<rparr> else r) (tbl_exports d)\<rparr>)"

definition confirm_job :: "i64 \<Rightarrow> i64 \<Rightarrow> u64 \<Rightarrow> ('m, error, unit) job" where
  "confirm_job landed_ms rowid receipt =
     jbind (map_err classify (statement (land_export landed_ms rowid))) (\<lambda>changed.
       if changed = 1 then jreturn ()
       else jbind (or_else (query_row (\<lambda>d. if list_ex (\<lambda>r. export_id r = rowid) (tbl_exports d) then Some True else None))
              (\<lambda>e. case e of QueryReturnedNoRows \<Rightarrow> Inr False | other \<Rightarrow> Inl (classify other))) (\<lambda>exists.
         if exists then jreturn () else jlift (Inl (Validation (Retaining (NoExportReceipt receipt))))))"

definition confirm_export :: "attempt \<Rightarrow> u64 \<Rightarrow> u64 \<Rightarrow> 'm shared \<Rightarrow> unit result \<times> 'm shared" where
  "confirm_export a now receipt s =
     (case i64_try_from receipt of
        None \<Rightarrow> (Inl (Validation (Retaining (NoExportReceipt receipt))), s)
      | Some rowid \<Rightarrow> writer_job a (confirm_job (as_i64 now) rowid receipt) s)"

definition exported_through_log :: "attempt \<Rightarrow> 'm shared \<Rightarrow> position result" where
  "exported_through_log a s = read_job a exported_through s"

definition plan_reach :: "attempt \<Rightarrow> plan \<Rightarrow> 'm shared \<Rightarrow> position option result" where
  "plan_reach a plan s = read_job a (highest_matching plan) s"

section \<open>Archive, then remove\<close>

text \<open>
  What one pass of the loop meets: the page's read, its receipt, and its confirmation, with the clock
  readings the caller's thread takes. A list of passes bounds the loop; \<open>None\<close> is a loop that has not
  ended within it.
\<close>

record pass =
  pass_export :: attempt
  pass_receipt :: attempt
  pass_taken :: u64
  pass_confirm :: attempt
  pass_landed :: u64

fun archive_pages ::
  "ext \<Rightarrow> (exported_event list \<Rightarrow> 's \<Rightarrow> unit result \<times> 's) \<Rightarrow> usize \<Rightarrow> position \<Rightarrow> pass list
     \<Rightarrow> position \<Rightarrow> 's \<Rightarrow> 'm shared \<Rightarrow> (unit result \<times> 's \<times> 'm shared) option" where
  "archive_pages x write limit target passes cursor sink s =
     (if cursor < target then
        (case passes of
           [] \<Rightarrow> None
         | w # rest \<Rightarrow>
             (case export_recorded x (pass_export w) (pass_receipt w) (pass_taken w) cursor filter_all limit s of
                (Inl e, s') \<Rightarrow> Some (Inl e, sink, s')
              | (Inr (events, receipt), s') \<Rightarrow>
                  if events = [] then Some (Inr (), sink, s')
                  else
                    (case write events sink of
                       (Inl e, sink') \<Rightarrow> Some (Inl e, sink', s')
                     | (Inr _, sink') \<Rightarrow>
                         (case confirm_export (pass_confirm w) (pass_landed w) (receipt_id receipt) s' of
                            (Inl e, s'') \<Rightarrow> Some (Inl e, sink', s'')
                          | (Inr _, s'') \<Rightarrow>
                              archive_pages x write limit target rest (receipt_through receipt) sink' s''))))
      else Some (Inr (), sink, s))"

declare archive_pages.simps [simp del]

definition archive_then_retain ::
  "ext \<Rightarrow> (exported_event list \<Rightarrow> 's \<Rightarrow> unit result \<times> 's) \<Rightarrow> attempt \<Rightarrow> attempt \<Rightarrow> pass list \<Rightarrow> attempt
     \<Rightarrow> plan \<Rightarrow> usize \<Rightarrow> 's \<Rightarrow> 'm shared \<Rightarrow> (report result \<times> 's \<times> 'm shared) option" where
  "archive_then_retain x write a_reach a_through passes a_apply plan limit sink s =
     (if limit = 0 then Some (Inl (Validation (Retaining ZeroPageSize)), sink, s)
      else case plan_reach a_reach plan s of
          Inl e \<Rightarrow> Some (Inl e, sink, s)
        | Inr None \<Rightarrow> Some (Inr nothing_removed, sink, s)
        | Inr (Some target) \<Rightarrow>
            (case exported_through_log a_through s of
               Inl e \<Rightarrow> Some (Inl e, sink, s)
             | Inr cursor \<Rightarrow>
                 (case archive_pages x write limit target passes cursor sink s of
                    None \<Rightarrow> None
                  | Some (Inl e, sink', s') \<Rightarrow> Some (Inl e, sink', s')
                  | Some (Inr _, sink', s') \<Rightarrow>
                      (let (r, s'') = apply_plan a_apply plan Exported (describe_archived plan) s'
                       in Some (r, sink', s'')))))"

end
