(* ===== verification/Retention_Theorems.thy ===== *)
theory Retention_Theorems
  imports Retention
begin

text \<open>
  What a removal takes and what it keeps, on every branch: the chain of confirmed exports as the
  contiguous cover from the beginning, the guards, the counters that outlive the rows, the ledger.
\<close>

section \<open>The chain\<close>

lemma reach_stuck: "\<forall>p \<in> set rows. r < fst p \<Longrightarrow> reach_of rows r = r"
  by (induction rows r rule: reach_of.induct) auto

lemma reach_of_spec:
  "sorted (map fst rows) \<Longrightarrow>
     r \<le> reach_of rows r
     \<and> (\<forall>p. r < p \<and> p \<le> reach_of rows r \<longrightarrow> (\<exists>(f, t) \<in> set rows. f < p \<and> p \<le> t))
     \<and> \<not> (\<exists>(f, t) \<in> set rows. f \<le> reach_of rows r \<and> reach_of rows r < t)
     \<and> (reach_of rows r = r \<or> reach_of rows r \<in> snd ` set rows)"
proof (induction rows arbitrary: r)
  case (Cons row rows)
  obtain f t where row: "row = (f, t)" by force
  have sorted: "sorted (map fst rows)" and above: "\<forall>p \<in> set rows. f \<le> fst p"
    using Cons.prems row by auto
  show ?case
  proof (cases "f \<le> r")
    case True
    let ?r = "if t > r then t else r"
    have step: "reach_of (row # rows) r = reach_of rows ?r" using True row by simp
    note ih = Cons.IH [OF sorted, of ?r]
    have "\<exists>(f', t') \<in> set (row # rows). f' < p \<and> p \<le> t'" if "r < p" "p \<le> reach_of rows ?r" for p
    proof (cases "p \<le> t")
      case True
      then show ?thesis using \<open>f \<le> r\<close> that(1) row by auto
    next
      case False
      then have "?r < p" using that(1) by auto
      then show ?thesis using ih that(2) by auto
    qed
    moreover have "r \<le> reach_of rows ?r" "\<not> (f \<le> reach_of rows ?r \<and> reach_of rows ?r < t)"
      using ih by (auto split: if_splits)
    moreover have "reach_of rows ?r = r \<or> reach_of rows ?r \<in> snd ` set (row # rows)"
      using ih row by (auto split: if_splits)
    ultimately show ?thesis using ih row unfolding step by auto
  next
    case False
    then have "\<forall>p \<in> set rows. r < fst p" using above by force
    then have "reach_of (row # rows) r = r" using False row reach_stuck by simp
    then show ?thesis using False row \<open>\<forall>p \<in> set rows. r < fst p\<close> by fastforce
  qed
qed simp

lemma sorted_by_from: "sorted (map fst (landed_pages rows))"
  by (simp add: landed_pages_def)

lemma set_landed_pages:
  "(f, t) \<in> set (landed_pages rows) \<longleftrightarrow>
     (\<exists>r \<in> set rows. export_landed_ms r \<noteq> None \<and> export_whole r \<and> export_from_position r = f \<and> export_through r = t)"
  by (auto simp: landed_pages_def)

text \<open>A position some confirmed whole export covers, and how far the cover reaches.\<close>

definition vouched :: "'m database \<Rightarrow> i64 set" where
  "vouched d = {p. \<exists>r \<in> set (tbl_exports d). export_landed_ms r \<noteq> None \<and> export_whole r
     \<and> export_from_position r < p \<and> p \<le> export_through r}"

definition cover :: "'m database \<Rightarrow> i64" where
  "cover d = reach_of (landed_pages (tbl_exports d)) 0"

definition receipts_ok :: "'m database \<Rightarrow> bool" where
  "receipts_ok d \<longleftrightarrow>
     0 \<le> exports_auto d \<and> exports_auto d \<le> i64_max
     \<and> sorted_wrt (<) (map export_id (tbl_exports d))
     \<and> (\<forall>r \<in> set (tbl_exports d). 1 \<le> export_id r \<and> export_id r \<le> exports_auto d
          \<and> 0 \<le> export_from_position r \<and> export_from_position r \<le> export_through r \<and> export_through r \<le> i64_max)"

lemma vouched_iff: "p \<in> vouched d \<longleftrightarrow> (\<exists>(f, t) \<in> set (landed_pages (tbl_exports d)). f < p \<and> p \<le> t)"
proof -
  have "(\<exists>(f, t) \<in> set (landed_pages (tbl_exports d)). f < p \<and> p \<le> t)
      \<longleftrightarrow> (\<exists>f t. (f, t) \<in> set (landed_pages (tbl_exports d)) \<and> f < p \<and> p \<le> t)" by auto
  then show ?thesis unfolding set_landed_pages by (auto simp: vouched_def)
qed

lemma cover_spec:
  shows "0 \<le> cover d" and "{1..cover d} \<subseteq> vouched d" and "cover d + 1 \<notin> vouched d"
proof -
  note spec = reach_of_spec [OF sorted_by_from [of "tbl_exports d"], of 0, folded cover_def]
  show "0 \<le> cover d" using spec by simp
  show "{1..cover d} \<subseteq> vouched d" using spec by (auto simp: vouched_iff)
  show "cover d + 1 \<notin> vouched d" using spec by (fastforce simp: vouched_iff)
qed

lemma cover_small: "receipts_ok d \<Longrightarrow> cover d \<le> i64_max"
proof -
  assume ok: "receipts_ok d"
  have "cover d = 0 \<or> (\<exists>f. (f, cover d) \<in> set (landed_pages (tbl_exports d)))"
    using reach_of_spec [OF sorted_by_from [of "tbl_exports d"], of 0, folded cover_def] by force
  then show ?thesis
    using ok unfolding set_landed_pages by (auto simp: receipts_ok_def i64_max_def)
qed

lemma exported_through_calm [job_simps]:
  "faults c = [] \<Longrightarrow> exported_through c = (Inr (Position (as_u64 (cover (conn_db c)))), c)"
proof -
  assume calm: "faults c = []"
  have "traverse Inr rows = (Inr rows :: rusqlite_error + (i64 \<times> i64) list)" for rows
    by (rule traverse_pure [of rows Inr "\<lambda>x. x", simplified])
  then show ?thesis using calm by (simp add: exported_through_def job_simps cover_def)
qed

lemma transparent_exported_through [transparent_intros]: "transparent surfaced exported_through"
  unfolding exported_through_def by (intro transparent_intros)

lemma reads_exported_through [reads_intros]: "reads_only exported_through"
  unfolding exported_through_def by (intro reads_intros)

text \<open>
  C22. The chain of exports reaches exactly as far as it covers. What \<open>exported_through\<close> answers is the
  end of the longest stretch of positions from the beginning of which each lies in a page that was
  exported whole and confirmed: every position up to it is covered, the next is not. A page taken and not
  confirmed, a filtered page and a page beyond a gap do not move it; pages that overlap, repeat or were
  confirmed out of order do.
\<close>

theorem exported_through_is_the_contiguous_cover:
  "\<exists>reach. calm_run exported_through ts d = (Inr (Position (as_u64 reach)), d)
     \<and> 0 \<le> reach \<and> {1..reach} \<subseteq> vouched d \<and> reach + 1 \<notin> vouched d"
  using cover_spec [of d] by (auto simp: calm_run_def job_simps)

section \<open>The removal\<close>

lemma max_of_sorted: "sorted_wrt (<) ps \<Longrightarrow> max_of ps = (if ps = [] then None else Some (last ps))"
proof (cases ps)
  case (Cons p rest)
  assume sorted: "sorted_wrt (<) ps"
  show ?thesis
  proof (cases "rest = []")
    case False
    then have "p \<le> last rest" using sorted Cons by (auto intro: less_imp_le)
    then show ?thesis using foldr_max_from [of rest p] sorted Cons False by (simp add: max_of_def)
  qed (simp add: Cons max_of_def)
qed (simp add: max_of_def)

text \<open>Where a plan's removal ends, and the tables after it.\<close>

definition chosen :: "(event_row \<Rightarrow> bool) \<Rightarrow> 'm database \<Rightarrow> event_row list" where
  "chosen p d = List.filter p (tbl_events d)"

definition topmost :: "(event_row \<Rightarrow> bool) \<Rightarrow> 'm database \<Rightarrow> i64" where
  "topmost p d = row_position (last (chosen p d))"

definition retained :: "(event_row \<Rightarrow> bool) \<Rightarrow> rust_string \<Rightarrow> i64 \<Rightarrow> 'm database \<Rightarrow> 'm database" where
  "retained p described now d =
     (delete_events p d)
       \<lparr>tbl_retention := tbl_retention d @ [\<lparr> retention_id = retention_auto d + 1, retention_applied_ms = now,
          retention_plan = described, retention_removed_count = int (length (chosen p d)),
          retention_highest_removed = topmost p d \<rparr>],
        retention_auto := retention_auto d + 1\<rparr>"

lemma retained_sel [simp]:
  "tbl_events (retained p described now d) = List.filter (\<lambda>r. \<not> p r) (tbl_events d)"
  "events_auto (retained p described now d) = events_auto d"
  "tbl_stream_seq (retained p described now d) = tbl_stream_seq d"
  "tbl_checkpoints (retained p described now d) = tbl_checkpoints d"
  "tbl_exports (retained p described now d) = tbl_exports d"
  "exports_auto (retained p described now d) = exports_auto d"
  "caller_tables (retained p described now d) = caller_tables d"
  by (simp_all add: retained_def delete_events_def)

lemma next_of_retained [simp]: "next_of (retained p described now d) s = next_of d s"
  by (simp add: next_of_def)

lemma db_ok_retained:
  assumes "db_ok x d"
  shows "db_ok x (retained p described now d)"
proof -
  have "sorted_wrt (<) (map row_position (List.filter (\<lambda>r. \<not> p r) (tbl_events d)))"
    by (rule sorted_wrt_filter_map) (use assms in \<open>simp add: db_ok_def\<close>)
  moreover have "sorted_wrt (\<lambda>r r'. row_stream r = row_stream r' \<longrightarrow> row_seq r < row_seq r')
      (List.filter (\<lambda>r. \<not> p r) (tbl_events d))"
    by (rule sorted_wrt_filter) (use assms in \<open>simp add: db_ok_def\<close>)
  ultimately show ?thesis using assms by (auto simp: db_ok_def row_ok_def)
qed

lemma topmost_bounds:
  assumes "db_ok x d" and "chosen p d \<noteq> []"
  shows "0 \<le> topmost p d" and "topmost p d \<le> events_auto d"
    and "r \<in> set (tbl_events d) \<Longrightarrow> p r \<Longrightarrow> row_position r \<le> topmost p d"
proof -
  have "last (chosen p d) \<in> set (tbl_events d)" using last_in_set [OF assms(2)] by (simp add: chosen_def)
  then have row: "row_ok x d (last (chosen p d))" by (rule db_ok_row [OF assms(1)])
  show "0 \<le> topmost p d" "topmost p d \<le> events_auto d"
    using row assms(2) by (auto simp: topmost_def row_ok_def)
  have sorted: "sorted_wrt (<) (map row_position (chosen p d))"
    unfolding chosen_def by (rule sorted_wrt_filter_map) (use assms(1) in \<open>simp add: db_ok_def\<close>)
  show "row_position r \<le> topmost p d" if "r \<in> set (tbl_events d)" "p r"
    using last_of_sorted [OF sorted, of r] that assms(2) by (auto simp: topmost_def chosen_def)
qed

definition behind :: "i64 \<Rightarrow> 'm database \<Rightarrow> bool" where
  "behind at d \<longleftrightarrow> (\<exists>p \<in> set (tbl_checkpoints d). checkpoint_position (snd p) < at)"

definition lagging :: "i64 \<Rightarrow> 'm database \<Rightarrow> (rust_string \<times> i64) list" where
  "lagging at d = List.filter (\<lambda>p. snd p < at) (map (\<lambda>(consumer, row). (consumer, checkpoint_position row)) (tbl_checkpoints d))"

lemma first_behind_lagging: "first_behind at d = (case sort_key snd (lagging at d) of [] \<Rightarrow> None | p # _ \<Rightarrow> Some p)"
  by (simp add: first_behind_def lagging_def)

lemma lagging_iff:
  "(consumer, cursor) \<in> set (lagging at d) \<longleftrightarrow>
     cursor < at \<and> (\<exists>row. (consumer, row) \<in> set (tbl_checkpoints d) \<and> checkpoint_position row = cursor)"
  by (force simp: lagging_def)

lemma first_behind_Some:
  assumes "first_behind at d = Some (consumer, cursor)"
  shows "cursor < at \<and> (\<exists>row. (consumer, row) \<in> set (tbl_checkpoints d) \<and> checkpoint_position row = cursor)"
proof -
  have "(consumer, cursor) \<in> set (sort_key snd (lagging at d))"
    using assms by (cases "sort_key snd (lagging at d)") (simp_all add: first_behind_lagging del: set_sort)
  then show ?thesis by (simp add: lagging_iff)
qed

lemma first_behind_None: "first_behind at d = None \<longleftrightarrow> \<not> behind at d"
proof -
  have "first_behind at d = None \<longleftrightarrow> set (sort_key snd (lagging at d)) = {}"
    by (cases "sort_key snd (lagging at d)") (simp_all add: first_behind_lagging del: set_sort)
  also have "\<dots> \<longleftrightarrow> \<not> behind at d"
  proof -
    have "set (sort_key snd (lagging at d)) = {} \<longleftrightarrow> (\<forall>c v. (c, v) \<notin> set (lagging at d))"
      unfolding set_sort by (metis empty_iff equals0I prod.collapse)
    then show ?thesis unfolding lagging_iff behind_def by (metis prod.collapse snd_conv)
  qed
  finally show ?thesis .
qed

lemma transparent_retain_body [transparent_intros]: "transparent surfaced (retain_body plan guard described)"
proof -
  have "transparent surfaced (consumer_behind at)" for at
    unfolding consumer_behind_def
    by (rule transparent_or_else [OF transparent_query_row])
      (auto simp: engine_fault_def surfaced_def split: rusqlite_error.splits)
  note this [transparent_intros]
  have "transparent surfaced (check_exported guard at)" "transparent surfaced (check_consumers guard at)" for at
    unfolding check_exported_def check_consumers_def by (intro transparent_intros)+
  note this [transparent_intros]
  show ?thesis unfolding retain_body_def by (intro transparent_intros)
qed

lemma checks_calm [job_simps]:
  "faults c = [] \<Longrightarrow> check_exported guard at c =
     (if guard = Exported \<and> as_u64 at > as_u64 (cover (conn_db c))
      then (Inl (NotExported (as_u64 at) (as_u64 (cover (conn_db c)))), c) else (Inr (), c))"
  "faults c = [] \<Longrightarrow> check_consumers guard at c =
     (if guard \<noteq> Force then
        (case first_behind at (conn_db c) of
           Some (consumer, cursor) \<Rightarrow> (Inl (ConsumerBehind consumer (as_u64 cursor) (as_u64 at)), c)
         | None \<Rightarrow> (Inr (), c))
      else (Inr (), c))"
  by (auto simp: check_exported_def check_consumers_def consumer_behind_def job_simps split: option.splits)

text \<open>The whole of the transaction, on every branch.\<close>

lemma retain_calm:
  assumes "db_ok x d" and "predicate plan = Inr p"
  shows "calm_run (transaction (retain_body plan guard described)) ts d =
     (if chosen p d = [] then (Inr nothing_removed, d)
      else if guard = Exported \<and> as_u64 (topmost p d) > as_u64 (cover d) then
        (Inl (NotExported (as_u64 (topmost p d)) (as_u64 (cover d))), d)
      else if guard \<noteq> Force \<and> behind (topmost p d) d then
        (Inl (ConsumerBehind (fst (the (first_behind (topmost p d) d)))
                (as_u64 (snd (the (first_behind (topmost p d) d)))) (as_u64 (topmost p d))), d)
      else if retention_auto d \<ge> i64_max then
        (Inl (classify (SqliteFailure DiskFull ''database or disk is full'')), d)
      else (Inr \<lparr> removed = as_u64 (int (length (chosen p d))), highest_removed = Some (position_of_stored (topmost p d)),
                  streams_affected = as_u64 (int (length (remdups (map row_stream (chosen p d))))) \<rparr>,
            retained p described (as_i64 (first_reading ts)) d))"
proof -
  have "sorted_wrt (<) (map row_position (chosen p d))"
    unfolding chosen_def by (rule sorted_wrt_filter_map) (use assms(1) in \<open>simp add: db_ok_def\<close>)
  then have max: "max_of (map row_position (chosen p d)) = (if chosen p d = [] then None else Some (topmost p d))"
    by (simp add: max_of_sorted topmost_def last_map)
  have would: "would_remove p d = (int (length (chosen p d)), if chosen p d = [] then None else Some (topmost p d),
      int (length (remdups (map row_stream (chosen p d)))))"
    by (simp add: would_remove_def Let_def max flip: chosen_def)
  show ?thesis
    unfolding calm_run_transaction [OF transparent_retain_body]
    using first_behind_None [of "topmost p d" d]
    by (auto simp: calm_run_def retain_body_def job_simps assms(2) would insert_ledger_def retained_def delete_events_def
        position_of_stored_def split: option.splits)
qed

lemma retain_refused:
  "predicate plan = Inl e \<Longrightarrow> calm_run (transaction (retain_body plan guard described)) ts d = (Inl e, d)"
  unfolding calm_run_transaction [OF transparent_retain_body]
  by (simp add: calm_run_def retain_body_def job_simps)

section \<open>A removal, whatever fails\<close>

lemma apply_plan_outcome:
  assumes "db_ok x (isle_db s)" and "apply_plan a plan guard described s = (r, s')"
  shows "case r of
     Inl e \<Rightarrow> s' = s
   | Inr rep \<Rightarrow> \<exists>p. predicate plan = Inr p
       \<and> ((chosen p (isle_db s) = [] \<and> rep = nothing_removed \<and> s' = s)
          \<or> (chosen p (isle_db s) \<noteq> []
             \<and> (guard = Exported \<longrightarrow> as_u64 (topmost p (isle_db s)) \<le> as_u64 (cover (isle_db s)))
             \<and> (guard \<noteq> Force \<longrightarrow> \<not> behind (topmost p (isle_db s)) (isle_db s))
             \<and> retention_auto (isle_db s) < i64_max
             \<and> rep = \<lparr> removed = as_u64 (int (length (chosen p (isle_db s)))),
                        highest_removed = Some (position_of_stored (topmost p (isle_db s))),
                        streams_affected = as_u64 (int (length (remdups (map row_stream (chosen p (isle_db s)))))) \<rparr>
             \<and> (\<exists>now. s' = s\<lparr>isle_db := retained p described now (isle_db s)\<rparr>)))"
proof -
  let ?d = "isle_db s" and ?job = "transaction (retain_body plan guard described)"
  obtain r1 d1 where call: "isle_call a ?job ?d = (r1, d1)" by force
  then have rs: "r = r1" "s' = s\<lparr>isle_db := d1\<rparr>"
    using assms(2) by (simp_all add: apply_plan_def writer_job_def)
  consider (fault) e where "isle_call a ?job ?d = (Inl e, ?d)" | (calm) "isle_call a ?job ?d = calm_run ?job (readings a) ?d"
    using isle_call_calm_or_fault [OF transparent_transaction [OF transparent_retain_body] atomic_transaction] by metis
  then show ?thesis
  proof cases
    case fault
    then show ?thesis using call rs by auto
  next
    case calm
    show ?thesis
    proof (cases "predicate plan")
      case (Inl e)
      then show ?thesis using calm call rs retain_refused [of plan e guard described "readings a" ?d] by auto
    next
      case (Inr p)
      have "(r1, d1) = calm_run ?job (readings a) ?d" using calm call by simp
      then show ?thesis
        unfolding retain_calm [OF assms(1) Inr] rs by (auto simp: Inr split: if_splits)
    qed
  qed
qed

text \<open>The meaning of a plan on a row: the age shape compares the signed column.\<close>

lemma predicate_Inr:
  "predicate plan = Inr p \<longleftrightarrow>
     (case plan of
        Before at \<Rightarrow> uint (get at) \<le> i64_max \<and> p = (\<lambda>r. row_position r \<le> uint (get at))
      | OlderThan cutoff \<Rightarrow> uint cutoff \<le> i64_max \<and> p = (\<lambda>r. row_epoch_ms r < uint cutoff)
      | Streams streams \<Rightarrow> length streams \<le> 32766 \<and> p = (\<lambda>r. ListMem (row_stream r) streams))"
  by (cases plan)
    (auto simp: predicate_def stored_position_iff i64_try_from_def check_placeholders_iff result_simps
      fun_eq_iff ListMem_iff split: option.splits)

text \<open>Guards speak about the topmost event chosen; what they say of it holds of every other.\<close>

lemma guards_reach_every_row:
  assumes "db_ok x d" and "receipts_ok d" and some: "chosen p d \<noteq> []" and row: "r \<in> set (tbl_events d)" "p r"
  shows "as_u64 (topmost p d) \<le> as_u64 (cover d) \<Longrightarrow> row_position r \<in> vouched d"
    and "\<not> behind (topmost p d) d \<Longrightarrow> c \<in> set (tbl_checkpoints d) \<Longrightarrow> row_position r \<le> checkpoint_position (snd c)"
proof -
  have sorted: "sorted_wrt (<) (map row_position (chosen p d))"
    unfolding chosen_def by (rule sorted_wrt_filter_map) (use assms(1) in \<open>simp add: db_ok_def\<close>)
  have top: "row_position r \<le> topmost p d"
    using last_of_sorted [OF sorted, of r] row by (simp add: topmost_def chosen_def)
  have "last (chosen p d) \<in> set (tbl_events d)" using last_in_set [OF some] by (simp add: chosen_def)
  then have small: "0 \<le> topmost p d" "topmost p d \<le> i64_max"
    using position_small [OF assms(1)] by (simp_all add: topmost_def)
  show "row_position r \<in> vouched d" if "as_u64 (topmost p d) \<le> as_u64 (cover d)"
  proof -
    have "topmost p d \<le> cover d"
      using that small cover_spec(1) [of d] cover_small [OF assms(2)] by (simp add: word_le_def uint_as_u64)
    then show ?thesis using top position_small(1) [OF assms(1) row(1)] cover_spec(2) [of d] by force
  qed
  show "row_position r \<le> checkpoint_position (snd c)" if "\<not> behind (topmost p d) d" "c \<in> set (tbl_checkpoints d)"
    using that top by (force simp: behind_def)
qed

lemma apply_plan_takes:
  assumes "db_ok x (isle_db s)" and "receipts_ok (isle_db s)" and "apply_plan a plan guard described s = (r, s')"
  shows "case r of
     Inl e \<Rightarrow> s' = s
   | Inr rep \<Rightarrow> \<exists>p. predicate plan = Inr p
       \<and> tbl_events (isle_db s') = List.filter (\<lambda>r. \<not> p r) (tbl_events (isle_db s))
       \<and> db_ok x (isle_db s')
       \<and> tbl_stream_seq (isle_db s') = tbl_stream_seq (isle_db s) \<and> events_auto (isle_db s') = events_auto (isle_db s)
       \<and> tbl_checkpoints (isle_db s') = tbl_checkpoints (isle_db s) \<and> tbl_exports (isle_db s') = tbl_exports (isle_db s)
       \<and> removed rep = as_u64 (int (length (List.filter p (tbl_events (isle_db s)))))
       \<and> map retention_removed_count (tbl_retention (isle_db s')) = map retention_removed_count (tbl_retention (isle_db s))
           @ (if List.filter p (tbl_events (isle_db s)) = [] then [] else [int (length (List.filter p (tbl_events (isle_db s))))])
       \<and> (guard = Force \<or> (\<forall>r \<in> set (tbl_events (isle_db s)). p r \<longrightarrow>
             (\<forall>c \<in> set (tbl_checkpoints (isle_db s)). row_position r \<le> checkpoint_position (snd c))))
       \<and> (guard \<noteq> Exported \<or> (\<forall>r \<in> set (tbl_events (isle_db s)). p r \<longrightarrow> row_position r \<in> vouched (isle_db s)))"
proof (cases r)
  case (Inr rep)
  let ?d = "isle_db s"
  obtain p where p: "predicate plan = Inr p"
    and out: "(chosen p ?d = [] \<and> rep = nothing_removed \<and> s' = s)
          \<or> (chosen p ?d \<noteq> []
             \<and> (guard = Exported \<longrightarrow> as_u64 (topmost p ?d) \<le> as_u64 (cover ?d))
             \<and> (guard \<noteq> Force \<longrightarrow> \<not> behind (topmost p ?d) ?d)
             \<and> retention_auto ?d < i64_max
             \<and> rep = \<lparr> removed = as_u64 (int (length (chosen p ?d))),
                        highest_removed = Some (position_of_stored (topmost p ?d)),
                        streams_affected = as_u64 (int (length (remdups (map row_stream (chosen p ?d))))) \<rparr>
             \<and> (\<exists>now. s' = s\<lparr>isle_db := retained p described now ?d\<rparr>))"
    using apply_plan_outcome [OF assms(1) assms(3) ] Inr by auto
  show ?thesis
  proof (cases "chosen p ?d = []")
    case True
    then have none: "\<not> p r" if "r \<in> set (tbl_events ?d)" for r
      using that by (auto simp: chosen_def filter_empty_conv)
    then have "List.filter (\<lambda>r. \<not> p r) (tbl_events ?d) = tbl_events ?d" by (intro filter_True) blast
    then show ?thesis
      using True out Inr assms(1) none p
      by (auto simp: nothing_removed_def chosen_def as_u64_def intro!: exI [of _ p])
  next
    case False
    then obtain now where s': "s' = s\<lparr>isle_db := retained p described now ?d\<rparr>"
      and guards: "guard = Exported \<longrightarrow> as_u64 (topmost p ?d) \<le> as_u64 (cover ?d)"
        "guard \<noteq> Force \<longrightarrow> \<not> behind (topmost p ?d) ?d"
      and rep: "removed rep = as_u64 (int (length (chosen p ?d)))"
      using out by auto
    note within = guards_reach_every_row [OF assms(1,2) False]
    show ?thesis
      unfolding Inr sum.case
    proof (rule exI [of _ p], intro conjI)
      show "guard = Force \<or> (\<forall>r \<in> set (tbl_events ?d). p r \<longrightarrow>
             (\<forall>c \<in> set (tbl_checkpoints ?d). row_position r \<le> checkpoint_position (snd c)))"
        using guards(2) within(2) by blast
      show "guard \<noteq> Exported \<or> (\<forall>r \<in> set (tbl_events ?d). p r \<longrightarrow> row_position r \<in> vouched ?d)"
        using guards(1) within(1) by blast
      show "db_ok x (isle_db s')" using db_ok_retained [OF assms(1)] s' by simp
      show "map retention_removed_count (tbl_retention (isle_db s')) = map retention_removed_count (tbl_retention ?d)
           @ (if List.filter p (tbl_events ?d) = [] then [] else [int (length (List.filter p (tbl_events ?d)))])"
        using False s' by (simp add: retained_def delete_events_def chosen_def)
    qed (use s' rep p in \<open>simp_all add: chosen_def\<close>)
  qed
qed (use apply_plan_outcome [OF assms(1) assms(3) ] in simp)

lemma exported_removal_vouched:
  assumes "db_ok x (isle_db s)" and "receipts_ok (isle_db s)" and "apply_plan a plan Exported described s = (r, s')"
    and "row \<in> set (tbl_events (isle_db s))" and "row \<notin> set (tbl_events (isle_db s'))"
  shows "row_position row \<in> vouched (isle_db s)"
  using apply_plan_takes [OF assms(1-3)] assms(4,5) by (cases r) auto

text \<open>
  C16. A removal takes exactly what its plan says, or nothing. A refusal, of the plan or of a guard, and
  any failure leave the shared state as it was. Otherwise exactly the events the plan selects are gone
  and every other one is as it was; no counter, checkpoint or receipt is touched, so the store's
  invariant holds on; one ledger entry says how many went and how far up, and none is written where
  nothing matched; and unless it was forced, every consumer with a checkpoint had passed the highest
  event removed, and under \<open>Exported\<close> the chain of confirmed exports covered it.
\<close>

theorem retain_takes_exactly_the_plan:
  assumes "db_ok x (isle_db s)" and "receipts_ok (isle_db s)" and "retain a plan guard s = (r, s')"
  shows "case r of
     Inl e \<Rightarrow> s' = s
   | Inr rep \<Rightarrow> \<exists>p. predicate plan = Inr p
       \<and> tbl_events (isle_db s') = List.filter (\<lambda>r. \<not> p r) (tbl_events (isle_db s))
       \<and> db_ok x (isle_db s')
       \<and> tbl_stream_seq (isle_db s') = tbl_stream_seq (isle_db s) \<and> events_auto (isle_db s') = events_auto (isle_db s)
       \<and> tbl_checkpoints (isle_db s') = tbl_checkpoints (isle_db s) \<and> tbl_exports (isle_db s') = tbl_exports (isle_db s)
       \<and> removed rep = as_u64 (int (length (List.filter p (tbl_events (isle_db s)))))
       \<and> map retention_removed_count (tbl_retention (isle_db s')) = map retention_removed_count (tbl_retention (isle_db s))
           @ (if List.filter p (tbl_events (isle_db s)) = [] then [] else [int (length (List.filter p (tbl_events (isle_db s))))])
       \<and> (guard = Force \<or> (\<forall>r \<in> set (tbl_events (isle_db s)). p r \<longrightarrow>
             (\<forall>c \<in> set (tbl_checkpoints (isle_db s)). row_position r \<le> checkpoint_position (snd c))))
       \<and> (guard \<noteq> Exported \<or> (\<forall>r \<in> set (tbl_events (isle_db s)). p r \<longrightarrow> row_position r \<in> vouched (isle_db s)))"
  by (rule apply_plan_takes [OF assms(1,2) assms(3) [unfolded retain_def]])

theorem retain_takes_exactly_the_plan_witness:
  "case retain (calm_at 5) (Before (Position 1)) RegisteredConsumers (sample_log one_event_db) of
     (Inl e, s') \<Rightarrow> False
   | (Inr rep, s') \<Rightarrow> tbl_events (isle_db s') = [] \<and> db_ok toy_ext (isle_db s') \<and> removed rep = 1"
proof -
  let ?s = "sample_log one_event_db"
  obtain r s' where run: "retain (calm_at 5) (Before (Position 1)) RegisteredConsumers ?s = (r, s')" by force
  have pred: "predicate (Before (Position 1)) = Inr p \<longleftrightarrow> p = (\<lambda>r. row_position r \<le> 1)" for p
    by (auto simp: predicate_Inr i64_max_def)
  have rows: "List.filter (\<lambda>r. row_position r \<le> 1) (tbl_events one_event_db) = tbl_events one_event_db"
    "List.filter (\<lambda>r. \<not> row_position r \<le> 1) (tbl_events one_event_db) = []"
    "length (tbl_events one_event_db) = 1"
    by (simp_all add: one_event_db_def)
  have ro: "receipts_ok (isle_db ?s)"
    by (simp add: receipts_ok_def one_event_db_def empty_database_def appended_def push_def upsert_counter_def i64_max_def)
  have ok: "db_ok toy_ext (isle_db ?s)" by (simp add: one_event_db_ok)
  have "calm_run (transaction (retain_body (Before (Position 1)) RegisteredConsumers (describe (Before (Position 1))))) [5] one_event_db
      = (r, isle_db s')"
    using run by (auto simp: retain_def apply_plan_def writer_job_def isle_call_calm_at split: prod.splits)
  moreover have "predicate (Before (Position 1)) = Inr (\<lambda>r. row_position r \<le> 1)" by (simp add: pred)
  moreover have "\<not> behind n one_event_db" "retention_auto one_event_db = 0" for n
    by (simp_all add: behind_def one_event_db_def empty_database_def appended_def push_def upsert_counter_def)
  ultimately have "is_ok r"
    using retain_calm [OF one_event_db_ok, of "Before (Position 1)" "\<lambda>r. row_position r \<le> 1"]
    by (auto simp: chosen_def rows i64_max_def split: if_splits)
  then show ?thesis
    using retain_takes_exactly_the_plan [OF ok ro run] run
    by (auto simp: is_ok_iff pred rows as_u64_def)
qed

section \<open>After a removal\<close>

lemma place_inj:
  "db_ok x d \<Longrightarrow> r \<in> set (tbl_events d) \<Longrightarrow> r' \<in> set (tbl_events d) \<Longrightarrow> row_place r = row_place r' \<Longrightarrow> r = r'"
  using sorted_wrt_less_distinct [OF place_sorted] by (auto simp: distinct_map dest: inj_onD)

lemma retain_forced_calm:
  assumes "db_ok x (isle_db s)" and "predicate plan = Inr p" and "retention_auto (isle_db s) < i64_max"
  shows "\<exists>rep s'. retain (calm_at t) plan Force s = (Inr rep, s')"
  using retain_calm [OF assms(1,2), of Force "describe plan" "[t]"] assms(3)
  by (auto simp: retain_def apply_plan_def writer_job_def isle_call_calm_at)

lemma i64_max_pos [simp]: "0 < i64_max"
  by (simp add: i64_max_def)

lemma retain_leaves:
  assumes "db_ok x (isle_db s)" and "retain a plan guard s = (r, s')"
  shows "db_ok x (isle_db s') \<and> events_auto (isle_db s') = events_auto (isle_db s)
     \<and> next_of (isle_db s') stream = next_of (isle_db s) stream"
  using apply_plan_outcome [OF assms(1) assms(2) [unfolded retain_def]] assms(1)
  by (cases r) (auto simp: db_ok_retained)

text \<open>
  Removing history does not reuse its numbers. After any removal, forced or not, even of everything
  a stream held, the next append to the stream gets the number it would have got without the removal,
  above every number its events had, and a position above every position there was: neither the cursor
  of a consumer nor a reference to a removed event can meet another event under the same number.
\<close>

theorem removal_never_reuses_a_number:
  assumes "db_ok x (isle_db s)" and "storable x event" and "retain a plan guard s = (r, s')"
    and "append_store x env stream event s' = (Inr c, s'')"
  shows "committed_seq c = next_of (isle_db s) stream
     \<and> (\<forall>row \<in> set (tbl_events (isle_db s)).
          (row_stream row = stream \<longrightarrow> as_u64 (row_seq row) < committed_seq c)
          \<and> (\<exists>p. committed_position c = Some p \<and> row_place row < p))"
proof -
  note left = retain_leaves [OF assms(1,3), of stream]
  have ok': "db_ok x (isle_db s')" using left by blast
  obtain t d' where landed: "appended_as x stream event t c (isle_db s') d'"
    using append_outcome [OF ok' assms(2), where env = env and stream = stream] assms(4) by auto
  note facts = appended_as_facts [OF landed ok' assms(2)]
  have pos: "committed_position c = Some (position_of_stored (events_auto (isle_db s) + 1))"
    using facts(4) left by simp
  have seq: "committed_seq c = next_of (isle_db s) stream" using facts(2) left by simp
  have "row_place row < position_of_stored (events_auto (isle_db s) + 1)"
    if "row \<in> set (tbl_events (isle_db s))" for row
  proof -
    have "row_position row \<le> events_auto (isle_db s)" "events_auto (isle_db s) < i64_max"
      using db_ok_row [OF assms(1) that] landed left by (auto simp: row_ok_def appended_as_def)
    then show ?thesis
      using position_small [OF assms(1) that] by (simp add: row_place_def position_of_stored_less)
  qed
  moreover have "as_u64 (row_seq row) < next_of (isle_db s) stream"
    if "row \<in> set (tbl_events (isle_db s))" "row_stream row = stream" for row
    using db_ok_row [OF assms(1) that(1)] that(2) db_ok_next [OF assms(1), of stream] db_ok_auto [OF assms(1)]
    by (auto simp: row_ok_def word_less_def uint_as_u64 i64_max_def)
  ultimately show ?thesis unfolding seq pos by simp
qed

theorem removal_never_reuses_a_number_witness:
  "case append_store toy_ext (\<lambda>_. calm_at 9) ''s'' (sample_event ''paid'')
      (snd (retain (calm_at 5) (Before (Position 1)) Force (sample_log one_event_db))) of
     (Inl e, s') \<Rightarrow> True
   | (Inr c, s') \<Rightarrow> committed_seq c = next_of one_event_db ''s''"
proof -
  obtain r s' where run: "retain (calm_at 5) (Before (Position 1)) Force (sample_log one_event_db) = (r, s')" by force
  have ok: "db_ok toy_ext (isle_db (sample_log one_event_db))" by (simp add: one_event_db_ok)
  show ?thesis
    using removal_never_reuses_a_number [OF ok sample_event_ok(1) [of "''paid''"] run, where env = "\<lambda>_. calm_at 9" and stream = "''s''"] run
    by (auto split: prod.splits sum.splits)
qed

text \<open>
  The age of an event is compared as SQLite stores it, and a time at or above \<open>2 ^ 63\<close> milliseconds,
  which \<open>append_at\<close> takes as it takes any other, is stored negative. So a plan for the events older than
  a cutoff removes such an event, whatever the cutoff, though its time is later than every cutoff the plan
  can be given.
\<close>

theorem age_plan_takes_the_latest_events:
  assumes "db_ok x (isle_db s)" and "storable x event" and "2 ^ 63 \<le> uint epoch_ms"
    and "append_at x env stream epoch_ms event s = (Inr c, s1)"
    and "retain a (OlderThan cutoff) Force s1 = (Inr rep, s2)"
  shows "committed_epoch_ms c = epoch_ms \<and> cutoff < epoch_ms
     \<and> (\<exists>row \<in> set (tbl_events (isle_db s1)). committed_position c = Some (row_place row)
          \<and> stamp event (committed_seq c) epoch_ms = Inr (row_object x row))
     \<and> (\<forall>row \<in> set (tbl_events (isle_db s2)). committed_position c \<noteq> Some (row_place row))"
proof -
  obtain e where room: "events_auto (isle_db s) < i64_max"
    and e: "stamp event (next_of (isle_db s) stream) epoch_ms = Inr e" "c = landed e (events_auto (isle_db s))"
    and ms: "committed_epoch_ms c = epoch_ms"
    and db: "isle_db s1 = appended x stream e (isle_db s)" and ok: "db_ok x (isle_db s1)"
    using append_at_outcome [OF assms(1,2), where env = env and stream = stream and epoch_ms = epoch_ms] assms(4)
    by (auto simp: appended_as_def)
  let ?row = "row_of x stream e (events_auto (isle_db s) + 1)"
  have in1: "?row \<in> set (tbl_events (isle_db s1))" by (simp add: db)
  have place: "committed_position c = Some (row_place ?row)" by (simp add: e(2) landed_def row_place_def row_of_def)
  have seq: "committed_seq c = next_of (isle_db s) stream"
    using stored_form_stamp(2) [OF assms(2) e(1)] by (simp add: e(2) landed_def)
  have "u64_of FIELD_EPOCH_MS e = epoch_ms" using ms by (simp add: e(2) landed_def)
  then have old: "row_epoch_ms ?row < 0"
    using assms(3) as_i64_big [of epoch_ms] uint_lt_2p64 [of epoch_ms] by (simp add: row_of_def i64_max_def)
  obtain p where p: "predicate (OlderThan cutoff) = Inr p"
      "tbl_events (isle_db s2) = List.filter (\<lambda>r. \<not> p r) (tbl_events (isle_db s1))"
    using apply_plan_outcome [OF ok assms(5) [unfolded retain_def]]
    by (auto simp: chosen_def intro!: filter_True [symmetric] simp: filter_empty_conv)
  have cut: "uint cutoff \<le> i64_max" "p = (\<lambda>r. row_epoch_ms r < uint cutoff)"
    using p(1) by (auto simp: predicate_Inr)
  have "p ?row" using order_less_le_trans [OF old uint_nonnegative] by (simp add: cut(2))
  then have gone: "?row \<notin> set (tbl_events (isle_db s2))" using p(2) by simp
  have "row_place row \<noteq> row_place ?row" if "row \<in> set (tbl_events (isle_db s2))" for row
  proof
    assume same: "row_place row = row_place ?row"
    have "row \<in> set (tbl_events (isle_db s1))" using that p(2) by simp
    then have "row = ?row" using place_inj [OF ok _ in1] same by blast
    then show False using gone that by simp
  qed
  moreover have "cutoff < epoch_ms" using cut(1) assms(3) by (simp add: word_less_def i64_max_def)
  moreover have "row_object x ?row = e" using row_object_row_of stored_form_stamp [OF assms(2) e(1)] by blast
  ultimately show ?thesis using ms in1 place e(1) seq by (intro conjI bexI [of _ ?row]) (simp_all, metis)
qed

theorem age_plan_takes_the_latest_events_witness:
  "\<exists>c s1 rep s2. append_at toy_ext (\<lambda>_. calm_at 9) ''s'' (2 ^ 63) (sample_event ''paid'') (sample_log (empty_database ())) = (Inr c, s1)
     \<and> retain (calm_at 5) (OlderThan 1000) Force s1 = (Inr rep, s2)
     \<and> (\<forall>row \<in> set (tbl_events (isle_db s2)). committed_position c \<noteq> Some (row_place row))"
proof -
  let ?s = "sample_log (empty_database ())"
  have ok: "db_ok toy_ext (isle_db ?s)" by simp
  obtain c s1 d' where app: "append_at toy_ext (\<lambda>_. calm_at 9) ''s'' (2 ^ 63) (sample_event ''paid'') ?s = (Inr c, s1)"
    and d': "s1 = publish_committed (committed_position c) (?s\<lparr>isle_db := d'\<rparr>)"
      "appended_as toy_ext ''s'' (sample_event ''paid'') (2 ^ 63) c (empty_database ()) d'"
    using append_at_calm [OF ok sample_event_ok(1) sample_event_ok(4) [of "CHR ''p''" "''aid''"], where t = 9 and stream = "''s''" and epoch_ms = "2 ^ 63"]
    by (auto simp: i64_max_def)
  have ok1: "db_ok toy_ext (isle_db s1)" using appended_as_facts(1) [OF d'(2) _ sample_event_ok(1)] d'(1) by simp
  have "retention_auto (isle_db s1) = 0" using d' by (auto simp: appended_as_def appended_def push_def upsert_counter_def)
  moreover have "predicate (OlderThan 1000) = Inr (\<lambda>r. row_epoch_ms r < 1000)" by (simp add: predicate_Inr i64_max_def)
  ultimately obtain rep s2 where ret: "retain (calm_at 5) (OlderThan 1000) Force s1 = (Inr rep, s2)"
    using retain_forced_calm [OF ok1] by (metis i64_max_pos)
  show ?thesis
    using age_plan_takes_the_latest_events [OF ok sample_event_ok(1) _ app ret] app ret by auto
qed

end
