(* ===== verification/Archive.thy ===== *)
theory Archive
  imports Retention_Theorems
begin

text \<open>
  The chain from a page handed out to a removal: receipts and their confirmation, the stretch of the log a
  page holds, and what each write keeps of both. The session in which they are used is Log_Session's.
\<close>

section \<open>Receipts\<close>

definition receipted :: "i64 \<Rightarrow> i64 \<Rightarrow> i64 \<Rightarrow> i64 \<Rightarrow> bool \<Rightarrow> 'm database \<Rightarrow> 'm database" where
  "receipted taken_ms from through count whole d =
     d\<lparr>tbl_exports := tbl_exports d @ [\<lparr> export_id = exports_auto d + 1, export_taken_ms = taken_ms,
         export_from_position = from, export_through = through, export_count = count,
         export_whole = whole, export_landed_ms = None \<rparr>],
       exports_auto := exports_auto d + 1\<rparr>"

lemma receipted_sel [simp]:
  "tbl_events (receipted t f u n w d) = tbl_events d" "events_auto (receipted t f u n w d) = events_auto d"
  "tbl_stream_seq (receipted t f u n w d) = tbl_stream_seq d"
  "exports_auto (receipted t f u n w d) = exports_auto d + 1"
  "tbl_checkpoints (receipted t f u n w d) = tbl_checkpoints d"
  by (simp_all add: receipted_def)

lemma db_ok_same_events:
  "tbl_events d' = tbl_events d \<Longrightarrow> events_auto d' = events_auto d \<Longrightarrow> tbl_stream_seq d' = tbl_stream_seq d \<Longrightarrow>
     db_ok x d' = db_ok x d"
  by (simp add: db_ok_def row_ok_def next_of_def)

lemma receipts_ok_receipted:
  assumes "receipts_ok d" "exports_auto d < i64_max" "0 \<le> f" "f \<le> u" "u \<le> i64_max"
  shows "receipts_ok (receipted t f u n w d)"
  using assms by (fastforce simp: receipts_ok_def receipted_def sorted_wrt_append i64_max_def)

lemma statement_outcome:
  assumes "isle_call a (map_err classify (statement f)) d = (r, d')"
  shows "(\<exists>e. r = Inl e \<and> d' = d) \<or> (\<exists>v. r = Inr v \<and> f d = Inr (v, d'))"
  using assms
  by (auto simp: isle_call_def map_err_def statement_def next_fault_def Let_def
      split: option.splits prod.splits sum.splits list.splits)

lemma write_receipt_outcome:
  assumes "write_receipt a now from f events s = (r, s')"
  shows "case r of
     Inl e \<Rightarrow> s' = s
   | Inr (page, receipt) \<Rightarrow> page = events \<and> exports_auto (isle_db s) < i64_max
       \<and> uint (get from) \<le> i64_max \<and> uint (get (page_through from events)) \<le> i64_max
       \<and> receipt = \<lparr> receipt_id = as_u64 (exports_auto (isle_db s) + 1), receipt_from = from,
            receipt_through = page_through from events, receipt_count = usize_of (length events),
            receipt_whole = whole_filter f \<rparr>
       \<and> s' = s\<lparr>isle_db := receipted (as_i64 now) (uint (get from)) (uint (get (page_through from events)))
            (as_i64 (usize_of (length events))) (whole_filter f) (isle_db s)\<rparr>"
proof (cases "stored_position from")
  case (Inl e)
  then show ?thesis using assms by (auto simp: write_receipt_def)
next
  case (Inr at)
  show ?thesis
  proof (cases "stored_position (page_through from events)")
    case (Inl e)
    then show ?thesis using assms Inr by (auto simp: write_receipt_def)
  next
    case through: (Inr u)
    obtain r1 d1 where call: "isle_call a (map_err classify (statement (insert_export (as_i64 now) at u
        (as_i64 (usize_of (length events))) (whole_filter f)))) (isle_db s) = (r1, d1)" by force
    show ?thesis
      using statement_outcome [OF call] assms call Inr through
      by (auto simp: write_receipt_def writer_job_def insert_export_def receipted_def stored_position_iff split: if_splits)
  qed
qed

definition land_row :: "i64 \<Rightarrow> i64 \<Rightarrow> export_row \<Rightarrow> export_row" where
  "land_row landed_ms rowid r =
     (if export_id r = rowid \<and> export_landed_ms r = None then r\<lparr>export_landed_ms := Some landed_ms\<rparr> else r)"

lemma land_row_sel [simp]:
  "export_id (land_row t i r) = export_id r" "export_from_position (land_row t i r) = export_from_position r"
  "export_through (land_row t i r) = export_through r" "export_whole (land_row t i r) = export_whole r"
  "export_id r \<noteq> i \<Longrightarrow> land_row t i r = r" "export_landed_ms r \<noteq> None \<Longrightarrow> land_row t i r = r"
  "export_id r = i \<Longrightarrow> export_landed_ms (land_row t i r) \<noteq> None"
  "export_landed_ms (land_row t i r) = None \<longleftrightarrow> export_landed_ms r = None \<and> export_id r \<noteq> i"
  by (auto simp: land_row_def)

definition landed_at :: "i64 \<Rightarrow> i64 \<Rightarrow> 'm database \<Rightarrow> 'm database" where
  "landed_at landed_ms rowid d = d\<lparr>tbl_exports := map (land_row landed_ms rowid) (tbl_exports d)\<rparr>"

lemma landed_land_row: "export_landed_ms (land_row t i r) \<noteq> None \<Longrightarrow> export_id r = i \<or> export_landed_ms r \<noteq> None"
  by (auto simp: land_row_def)

lemma landed_at_sel [simp]:
  "tbl_events (landed_at t i d) = tbl_events d" "events_auto (landed_at t i d) = events_auto d"
  "tbl_stream_seq (landed_at t i d) = tbl_stream_seq d" "exports_auto (landed_at t i d) = exports_auto d"
  "tbl_checkpoints (landed_at t i d) = tbl_checkpoints d"
  "tbl_exports (landed_at t i d) = map (land_row t i) (tbl_exports d)"
  by (simp_all add: landed_at_def)

lemma receipts_ok_landed [simp]: "receipts_ok d \<Longrightarrow> receipts_ok (landed_at t i d)"
  by (simp add: receipts_ok_def o_def)

lemma distinct_filter_length:
  "distinct (map f xs) \<Longrightarrow> length (List.filter (\<lambda>r. f r = i \<and> P r) xs) \<le> 1"
  by (induction xs) (auto simp: filter_empty_conv image_iff)

lemma landed_nothing:
  assumes "\<forall>r \<in> set (tbl_exports d). export_id r = i \<longrightarrow> export_landed_ms r \<noteq> None"
  shows "landed_at t i d = d"
proof -
  have "map (land_row t i) (tbl_exports d) = tbl_exports d"
    using assms by (intro map_idI) (auto simp: land_row_def)
  then show ?thesis by (simp add: landed_at_def)
qed

definition receipt_known :: "u64 \<Rightarrow> 'm database \<Rightarrow> bool" where
  "receipt_known receipt d \<longleftrightarrow> (\<exists>r \<in> set (tbl_exports d). export_id r = uint receipt)"

lemma land_export_eq:
  "land_export t i d =
     Inr (length (List.filter (\<lambda>r. export_id r = i \<and> export_landed_ms r = None) (tbl_exports d)), landed_at t i d)"
  by (simp add: land_export_def landed_at_def land_row_def [abs_def])

lemma confirm_job_outcome:
  assumes "receipts_ok d" and "isle_call a (confirm_job t i receipt) d = (r, d')"
  shows "case r of
     Inl e \<Rightarrow> d' = d
   | Inr _ \<Rightarrow> d' = landed_at t i d \<and> (\<exists>row \<in> set (tbl_exports d). export_id row = i)"
proof -
  let ?due = "List.filter (\<lambda>r. export_id r = i \<and> export_landed_ms r = None) (tbl_exports d)"
  have le: "length ?due \<le> 1"
    using assms(1) by (intro distinct_filter_length) (simp add: receipts_ok_def sorted_wrt_less_distinct)
  show ?thesis
  proof (cases "length ?due = 0")
    case True
    then show ?thesis
      using assms(2) landed_nothing [of d i t] True
      by (auto simp: isle_call_def confirm_job_def job_calm statement_def query_row_def next_fault_def Let_def
          land_export_eq list_ex_iff filter_empty_conv
          split: option.splits prod.splits sum.splits list.splits if_splits rusqlite_error.splits)
  next
    case False
    then have one: "length ?due = 1" using le by linarith
    then obtain row where "row \<in> set ?due" by (metis length_greater_0_conv less_numeral_extra(1) list.set_sel(1))
    then show ?thesis
      using assms(2) one
      by (auto simp: isle_call_def confirm_job_def job_calm statement_def next_fault_def Let_def land_export_eq
          split: option.splits prod.splits sum.splits list.splits if_splits)
  qed
qed

lemma confirm_export_outcome:
  assumes "receipts_ok (isle_db s)" and "confirm_export a now receipt s = (r, s')"
  shows "case r of
     Inl e \<Rightarrow> s' = s
   | Inr _ \<Rightarrow> receipt_known receipt (isle_db s) \<and> uint receipt \<le> i64_max
       \<and> s' = s\<lparr>isle_db := landed_at (as_i64 now) (uint receipt) (isle_db s)\<rparr>"
proof (cases "i64_try_from receipt")
  case (Some i)
  then have i: "i = uint receipt" "uint receipt \<le> i64_max" by (simp_all add: i64_try_from_def split: if_splits)
  obtain r1 d1 where call: "isle_call a (confirm_job (as_i64 now) i receipt) (isle_db s) = (r1, d1)" by force
  show ?thesis
    using confirm_job_outcome [OF assms(1) call] assms(2) call Some
    by (cases r) (auto simp: confirm_export_def writer_job_def i receipt_known_def)
qed (use assms(2) in \<open>auto simp: confirm_export_def\<close>)

lemma filter_land_row:
  "map (land_row t i) (List.filter (\<lambda>r. export_id r \<noteq> i) rows) = List.filter (\<lambda>r. export_id r \<noteq> i) rows"
  by (intro map_idI) simp

lemma confirm_again:
  assumes "receipt_known receipt (isle_db s)" and "uint receipt \<le> i64_max"
    and "\<forall>r \<in> set (tbl_exports (isle_db s)). export_id r = uint receipt \<longrightarrow> export_landed_ms r \<noteq> None"
  shows "confirm_export (calm_at t) now receipt s = (Inr (), s)"
proof -
  have "List.filter (\<lambda>r. export_id r = uint receipt \<and> export_landed_ms r = None) (tbl_exports (isle_db s)) = []"
    using assms(3) by (auto simp: filter_empty_conv)
  then show ?thesis
    using assms(1,2) landed_nothing [OF assms(3)]
    by (auto simp: confirm_export_def i64_try_from_def writer_job_def isle_call_calm confirm_job_def job_simps
        land_export_eq receipt_known_def list_ex_iff)
qed

text \<open>
  Confirming a receipt is idempotent and refuses what was never handed out. A confirmation that
  succeeds names a receipt there is, marks that page landed and no other, and changes neither events nor
  counters; doing it again, at any time, succeeds and changes nothing. A number no receipt has is
  refused, and whatever fails leaves the log as it was.
\<close>

theorem confirm_export_is_idempotent:
  assumes "receipts_ok (isle_db s)" and "confirm_export a now receipt s = (r, s')"
  shows "(case r of
       Inl e \<Rightarrow> s' = s
     | Inr _ \<Rightarrow> receipt_known receipt (isle_db s)
         \<and> (\<forall>row \<in> set (tbl_exports (isle_db s')). export_id row = uint receipt \<longrightarrow> export_landed_ms row \<noteq> None)
         \<and> List.filter (\<lambda>row. export_id row \<noteq> uint receipt) (tbl_exports (isle_db s'))
             = List.filter (\<lambda>row. export_id row \<noteq> uint receipt) (tbl_exports (isle_db s))
         \<and> tbl_events (isle_db s') = tbl_events (isle_db s)
         \<and> confirm_export (calm_at t) now' receipt s' = (Inr (), s'))
     \<and> (receipt_known receipt (isle_db s) \<or> r \<noteq> Inr ())"
proof (cases r)
  case (Inl e)
  then show ?thesis using confirm_export_outcome [OF assms] by simp
next
  case (Inr u)
  then have known: "receipt_known receipt (isle_db s)" "uint receipt \<le> i64_max"
    and s': "isle_db s' = landed_at (as_i64 now) (uint receipt) (isle_db s)"
    using confirm_export_outcome [OF assms] by simp_all
  have landed: "\<forall>row \<in> set (tbl_exports (isle_db s')). export_id row = uint receipt \<longrightarrow> export_landed_ms row \<noteq> None"
    by (simp add: s' del: not_None_eq)
  have "receipt_known receipt (isle_db s')" using known(1) by (simp add: s' receipt_known_def)
  from confirm_again [OF this known(2) landed] show ?thesis
    using known landed by (simp add: Inr s' filter_map o_def filter_land_row)
qed

theorem confirm_export_is_idempotent_witness:
  "\<exists>s s' :: unit shared. receipts_ok (isle_db s) \<and> confirm_export (calm_at 3) 3 1 s = (Inr (), s')
     \<and> confirm_export (calm_at 8) 9 1 s' = (Inr (), s')"
proof -
  let ?s = "sample_log (receipted 0 0 5 2 True (empty_database ()))"
  have ok: "receipts_ok (isle_db ?s)" by (simp add: receipts_ok_def receipted_def i64_max_def)
  have "List.filter (\<lambda>r. export_id r = 1 \<and> export_landed_ms r = None) (tbl_exports (isle_db ?s)) = tbl_exports (isle_db ?s)"
    "length (tbl_exports (isle_db ?s)) = 1"
    by (simp_all add: receipted_def)
  then obtain s' where run: "confirm_export (calm_at 3) 3 1 ?s = (Inr (), s')"
    by (auto simp: confirm_export_def i64_try_from_def i64_max_def writer_job_def isle_call_calm confirm_job_def
        job_simps land_export_eq)
  show ?thesis
    using confirm_export_is_idempotent [OF ok run, of 8 9] ok run by (intro exI [of _ ?s] exI [of _ s']) auto
qed

section \<open>Pages and the stretches they hold\<close>

text \<open>
  A page holds a stretch of the log: whatever event of it is still there, the page has. Appending cannot
  put an event into the stretch, because it ends at or below a position that was already given.
\<close>

definition holds_stretch :: "ext \<Rightarrow> i64 \<Rightarrow> i64 \<Rightarrow> exported_event list \<Rightarrow> 'm database \<Rightarrow> bool" where
  "holds_stretch x from through page d \<longleftrightarrow>
     through \<le> max from (events_auto d)
     \<and> (\<forall>r \<in> set (tbl_events d). from < row_position r \<and> row_position r \<le> through \<longrightarrow> exported_of x r \<in> set page)"

text \<open>A write that adds events above every position and touches no receipt, or removes some.\<close>

definition only_events :: "'m database \<Rightarrow> 'm database \<Rightarrow> bool" where
  "only_events d d' \<longleftrightarrow>
     tbl_exports d' = tbl_exports d \<and> exports_auto d' = exports_auto d \<and> events_auto d \<le> events_auto d'
     \<and> (\<forall>r \<in> set (tbl_events d'). r \<in> set (tbl_events d) \<or> events_auto d < row_position r)"

lemma only_events_refl [simp]: "only_events d d"
  by (simp add: only_events_def)

lemma only_events_trans: "only_events d d' \<Longrightarrow> only_events d' d'' \<Longrightarrow> only_events d d''"
  by (fastforce simp: only_events_def)

lemma only_events_appended [simp]: "only_events d (appended x stream e d)"
  by (auto simp: only_events_def row_of_def appended_def push_def upsert_counter_def)

lemma only_events_appended_all [simp]: "only_events d (appended_all x pairs d)"
proof (induction pairs arbitrary: d)
  case (Cons p pairs)
  then show ?case by (cases p) (auto intro: only_events_trans [OF only_events_appended])
qed simp

lemma holds_stretch_only:
  "only_events d d' \<Longrightarrow> holds_stretch x from through page d \<Longrightarrow> holds_stretch x from through page d'"
  by (fastforce simp: only_events_def holds_stretch_def)

definition kept :: "ext \<Rightarrow> 'm shared \<Rightarrow> 'm shared \<Rightarrow> bool" where
  "kept x s s' \<longleftrightarrow> only_events (isle_db s) (isle_db s') \<and> db_ok x (isle_db s')"

lemma reads_export [reads_intros]: "reads_only (export_job x from f limit)"
  and transparent_export [transparent_intros]: "transparent surfaced (export_job x from f limit)"
  unfolding export_job_def by (intro reads_intros transparent_intros)+

lemma export_page:
  assumes "db_ok x (isle_db s)" and "export x a from f limit s = Inr events"
  shows "events = [] \<or> (uint (get from) \<le> i64_max
     \<and> events = map (exported_of x) (take (unat limit) (List.filter (\<lambda>r. from < row_place r) (matching x f (isle_db s)))))"
proof -
  have run: "fst (calm_run (export_job x from f limit) (readings a) (isle_db s)) = Inr events"
    using read_job_calm_or_fault [OF transparent_export atomic_reads_only [OF reads_export], of a x "from" f limit s]
      assms(2) by (auto simp: export_def)
  show ?thesis
  proof (cases "build_read from f")
    case (Inl e)
    then show ?thesis using run
      by (auto simp: calm_run_def export_job_def job_simps select_stored_def filter_map_exported split: if_splits)
  next
    case (Inr at)
    then show ?thesis using run calm_run_export [OF assms(1) Inr] build_read_Inr [OF Inr] by simp
  qed
qed

lemma page_through_place:
  "rows \<noteq> [] \<Longrightarrow> page_through from (map (exported_of x) rows) = row_place (last rows)"
  by (simp add: page_through_def last_map)

lemma whole_matching: "whole_filter f \<Longrightarrow> matching x f d = tbl_events d"
  by (auto simp: whole_filter_def matching_def row_matches_def kind_in_def in_prefix_range_def split: option.splits)

lemma uint_row_place: "db_ok x d \<Longrightarrow> r \<in> set (tbl_events d) \<Longrightarrow> uint (get (row_place r)) = row_position r"
  using position_small [of x d r] by (simp add: row_place_def position_of_stored_def uint_as_u64)

lemma page_stretch:
  assumes ok: "db_ok x (isle_db s)" and page: "export x a from f limit s = Inr events"
  shows "get from \<le> get (page_through from events)"
    and "whole_filter f \<Longrightarrow>
      holds_stretch x (uint (get from)) (uint (get (page_through from events))) events (isle_db s)"
proof -
  let ?above = "List.filter (\<lambda>r. from < row_place r) (matching x f (isle_db s))"
  let ?rows = "take (unat limit) ?above"
  have "get from \<le> get (page_through from events) \<and> (whole_filter f \<longrightarrow>
      holds_stretch x (uint (get from)) (uint (get (page_through from events))) events (isle_db s))"
  proof (cases "events = []")
    case True
    then show ?thesis by (simp add: page_through_def holds_stretch_def)
  next
    case False
    then have events: "events = map (exported_of x) ?rows" using export_page [OF ok page] by blast
    then have ne: "?rows \<noteq> []" using False by auto
    then have last: "last ?rows \<in> set ?above" by (meson in_set_takeD last_in_set)
    then have in_log: "last ?rows \<in> set (tbl_events (isle_db s))" using matching_subset by fastforce
    have through: "page_through from events = row_place (last ?rows)"
      unfolding events by (rule page_through_place [OF ne])
    let ?n = "min (unat limit) (length ?above)"
    have eq: "take ?n ?above = ?rows" by (simp add: min_def)
    have "0 < ?n" using ne by (metis eq take_0 gr0I)
    from take_is_prefix_range [OF sorted_wrt_filter_map [OF matching_place_sorted [OF ok]] this min.cobounded2]
    have rows: "?rows = List.filter (\<lambda>r. row_place r \<le> row_place (last ?rows)) ?above"
      unfolding eq .
    have "exported_of x r \<in> set events" if whole: "whole_filter f"
      and r: "r \<in> set (tbl_events (isle_db s))" "uint (get from) < row_position r" "row_position r \<le> uint (get (row_place (last ?rows)))" for r
    proof -
      have "row_place r \<le> row_place (last ?rows)"
        using r uint_row_place [OF ok r(1)] by (metis position_le_uint)
      then have "r \<in> set (List.filter (\<lambda>r. row_place r \<le> row_place (last ?rows)) ?above)"
        using r whole_matching [OF whole, of x "isle_db s"] position_above [OF ok r(1)] by simp
      then show ?thesis unfolding events rows [symmetric] by simp
    qed
    moreover have "uint (get (row_place (last ?rows))) \<le> events_auto (isle_db s)"
      using uint_row_place [OF ok in_log] db_ok_row [OF ok in_log] by (simp add: row_ok_def)
    moreover have "get from \<le> get (row_place (last ?rows))"
      using last by (auto simp: less_position_def intro: less_imp_le)
    ultimately show ?thesis
      unfolding through by (auto simp: holds_stretch_def)
  qed
  then show "get from \<le> get (page_through from events)"
    and "whole_filter f \<Longrightarrow> holds_stretch x (uint (get from)) (uint (get (page_through from events))) events (isle_db s)"
    by blast+
qed

text \<open>What each of the other writes does to the events and the receipts: its outcome says.\<close>

lemma kept_refl: "db_ok x (isle_db s) \<Longrightarrow> kept x s s"
  by (simp add: kept_def)

lemma append_kept:
  assumes "db_ok x (isle_db s)" and "storable x event"
  shows "kept x s (snd (append_store x env stream event s))"
  using append_outcome [OF assms, where env = env and stream = stream] kept_refl [OF assms(1)]
  by (auto simp: kept_def appended_as_def split: prod.splits sum.splits)

lemma append_many_kept:
  assumes "db_ok x (isle_db s)" and "\<forall>event \<in> set events. storable x event"
  shows "kept x s (snd (append_many x env stream events s))"
  using append_many_outcome [OF assms(1), where events = events and env = env and stream = stream] assms kept_refl [OF assms(1)]
  by (auto simp: kept_def batch_as_def split: prod.splits sum.splits if_splits)

lemma import_kept:
  assumes ok: "db_ok x (isle_db s)" and ev: "\<forall>ev \<in> set evs. storable x (exported_object ev)"
  shows "kept x s (snd (log_import x quiet a evs s))"
proof -
  obtain r s' where run: "log_import x quiet a evs s = (r, s')" by force
  show ?thesis
  proof (cases r)
    case (Inr report)
    then obtain es where es: "list_all2 as_restamped evs es"
      "consecutive x (zip (map exported_stream evs) es) (isle_db s)"
      "events_auto (isle_db s) + int (length evs) \<le> i64_max"
      "isle_db s' = appended_all x (zip (map exported_stream evs) es) (isle_db s)"
      using log_import_outcome [OF ok ev run] by auto
    then show ?thesis
      using db_ok_appended_all [OF ok es(2)] list_all2_lengthD [OF es(1)] by (simp add: run kept_def)
  qed (use log_import_outcome [OF ok ev run] kept_refl [OF ok] run in simp)
qed

lemma upsert_checkpoint_exports_auto [simp]: "exports_auto (upsert_checkpoint consumer at now d) = exports_auto d"
  by (simp add: upsert_checkpoint_def)

lemma save_kept: "db_ok x (isle_db s) \<Longrightarrow> kept x s (snd (checkpoint_save a consumer p s))"
  using checkpoint_save_outcome [of a consumer p s "fst (checkpoint_save a consumer p s)" "snd (checkpoint_save a consumer p s)"]
  by (auto simp: kept_def only_events_def split: sum.splits)

lemma retain_kept: "db_ok x (isle_db s) \<Longrightarrow> kept x s (snd (retain a plan guard s))"
  using apply_plan_outcome [of x s a plan guard "describe plan" "fst (retain a plan guard s)" "snd (retain a plan guard s)"]
  by (auto simp: kept_def only_events_def db_ok_retained retain_def split: sum.splits)

text \<open>A receipt and its confirmation when nothing fails.\<close>

lemma write_receipt_calm:
  assumes "uint (get from) \<le> i64_max" and "uint (get (page_through from events)) \<le> i64_max"
    and "exports_auto (isle_db s) < i64_max"
  shows "\<exists>receipt. receipt_id receipt = as_u64 (exports_auto (isle_db s) + 1)
     \<and> write_receipt (calm_at t) now from f events s = (Inr (events, receipt),
         s\<lparr>isle_db := receipted (as_i64 now) (uint (get from)) (uint (get (page_through from events)))
            (as_i64 (usize_of (length events))) (whole_filter f) (isle_db s)\<rparr>)"
proof -
  have "stored_position from = Inr (uint (get from))"
    "stored_position (page_through from events) = Inr (uint (get (page_through from events)))"
    using assms by (simp_all add: stored_position_iff)
  then show ?thesis
    using assms(3)
    by (simp add: write_receipt_def writer_job_def isle_call_calm job_simps insert_export_def receipted_def)
qed

lemma confirm_export_calm:
  assumes "receipt_known receipt (isle_db s)" and "uint receipt \<le> i64_max"
  shows "confirm_export (calm_at t) now receipt s =
     (Inr (), s\<lparr>isle_db := landed_at (as_i64 now) (uint receipt) (isle_db s)\<rparr>)"
  using assms
  by (auto simp: confirm_export_def i64_try_from_def writer_job_def isle_call_calm confirm_job_def job_simps
      land_export_eq receipt_known_def list_ex_iff)

lemma sample_page:
  assumes "db_ok toy_ext (isle_db s)" and "tbl_events (isle_db s) = [row]" and "row_position row = 1"
  shows "export toy_ext (calm_at 0) BEGINNING filter_all 1 s = Inr [exported_of toy_ext row]"
    and "page_through BEGINNING [exported_of toy_ext row] = Position 1"
proof -
  have place: "row_place row = Position 1" by (simp add: row_place_def position_of_stored_def as_u64_def assms(3))
  then show "page_through BEGINNING [exported_of toy_ext row] = Position 1"
    using page_through_place [of "[row]" BEGINNING toy_ext] by simp
  have "is_ok (build_read BEGINNING filter_all)" using askable_at_all by (simp add: askable_at_def)
  then obtain at where "build_read BEGINNING filter_all = Inr at" by (auto simp: is_ok_iff)
  from calm_run_export [OF assms(1) this, of 1 "[0]"]
  show "export toy_ext (calm_at 0) BEGINNING filter_all 1 s = Inr [exported_of toy_ext row]"
    by (simp add: export_def read_job_def isle_call_calm_at assms(2) matching_all place BEGINNING_def less_position_def)
qed

end
