(* ===== verification/Archive_Loop.thy ===== *)
theory Archive_Loop
  imports Archive
begin

text \<open>
  \<open>archive_then_retain\<close>: the sink has seen everything it removes, it returns once the pages have run out,
  and where nothing fails the plan's events are gone at the end.
\<close>

section \<open>What a pass does to the receipts\<close>

definition only_receipts :: "'m database \<Rightarrow> 'm database \<Rightarrow> bool" where
  "only_receipts d d' \<longleftrightarrow>
     tbl_events d' = tbl_events d \<and> events_auto d' = events_auto d \<and> tbl_stream_seq d' = tbl_stream_seq d
     \<and> tbl_checkpoints d' = tbl_checkpoints d \<and> tbl_retention d' = tbl_retention d
     \<and> retention_auto d' = retention_auto d \<and> caller_tables d' = caller_tables d"

lemma only_receipts_ok: "only_receipts d d' \<Longrightarrow> db_ok x d' = db_ok x d"
  using db_ok_same_events [of d' d x] by (simp add: only_receipts_def)

lemma only_receipts_refl [simp]: "only_receipts d d"
  by (simp add: only_receipts_def)

lemma only_receipts_trans: "only_receipts d d' \<Longrightarrow> only_receipts d' d'' \<Longrightarrow> only_receipts d d''"
  by (simp add: only_receipts_def)

lemma only_receipts_receipted [simp]: "only_receipts d (receipted t f u n w d)"
  by (simp add: only_receipts_def receipted_def)

lemma only_receipts_landed [simp]: "only_receipts d (landed_at t i d)"
  by (simp add: only_receipts_def landed_at_def)

lemma tbl_exports_receipted:
  "tbl_exports (receipted t f u n w d) = tbl_exports d @ [\<lparr> export_id = exports_auto d + 1, export_taken_ms = t,
     export_from_position = f, export_through = u, export_count = n, export_whole = w, export_landed_ms = None \<rparr>]"
  by (simp add: receipted_def)

lemma vouched_receipted [simp]: "vouched (receipted t f u n w d) = vouched d"
  by (auto simp: vouched_def receipted_def)

lemma vouched_landed:
  "vouched (landed_at t i d) = vouched d \<union>
     {p. \<exists>r \<in> set (tbl_exports d). export_id r = i \<and> export_whole r \<and> export_from_position r < p \<and> p \<le> export_through r}"
proof -
  have lands: "export_landed_ms (land_row t i r) \<noteq> None \<longleftrightarrow> export_landed_ms r \<noteq> None \<or> export_id r = i" for r
    by (auto simp: land_row_def)
  have "p \<in> vouched (landed_at t i d) \<longleftrightarrow> p \<in> vouched d \<or>
      (\<exists>r \<in> set (tbl_exports d). export_id r = i \<and> export_whole r \<and> export_from_position r < p \<and> p \<le> export_through r)" for p
    by (simp only: vouched_def landed_at_sel mem_Collect_eq set_map bex_simps(7) land_row_sel(1-4) lands) blast
  then show ?thesis by blast
qed

text \<open>The page just recorded is the only one its number names, so its landing vouches for its stretch.\<close>

lemma vouched_recorded_landed:
  assumes "receipts_ok d" and "exports_auto d < i64_max"
  shows "vouched (landed_at t (uint (as_u64 (exports_auto d + 1))) (receipted t' f u n w d))
       = vouched d \<union> (if w then {f<..u} else {})"
proof -
  have id: "uint (as_u64 (exports_auto d + 1)) = exports_auto d + 1"
    using assms by (simp add: receipts_ok_def uint_as_u64)
  have "export_id r \<noteq> exports_auto d + 1" if "r \<in> set (tbl_exports d)" for r
    using assms(1) that by (fastforce simp: receipts_ok_def)
  then show ?thesis
    unfolding vouched_landed id vouched_receipted tbl_exports_receipted by (auto split: if_splits)
qed

lemma cover_reaches:
  assumes "{1..n} \<subseteq> vouched d"
  shows "n \<le> cover d"
proof (rule ccontr)
  assume "\<not> n \<le> cover d"
  then have "cover d + 1 \<in> {1..n}" using cover_spec(1) [of d] by simp
  then show False using assms cover_spec(3) [of d] by blast
qed

lemma cover_recorded_landed:
  assumes "receipts_ok d" and "exports_auto d < i64_max" and "f \<le> cover d"
  shows "u \<le> cover (landed_at t (uint (as_u64 (exports_auto d + 1))) (receipted t' f u n True d))"
  by (rule cover_reaches)
    (use cover_spec(2) [of d] assms(3) in \<open>force simp: vouched_recorded_landed [OF assms(1,2)]\<close>)

section \<open>The sink has seen what is removed\<close>

text \<open>A sink that also keeps the pages it accepted.\<close>

definition shown ::
  "(exported_event list \<Rightarrow> 's \<Rightarrow> unit result \<times> 's) \<Rightarrow> exported_event list \<Rightarrow> 's \<times> exported_event list list
     \<Rightarrow> unit result \<times> 's \<times> exported_event list list" where
  "shown write events = (\<lambda>(sink, seen).
     case write events sink of
       (Inl e, sink') \<Rightarrow> (Inl e, sink', seen)
     | (Inr u, sink') \<Rightarrow> (Inr u, sink', seen @ [events]))"

definition seen_of :: "ext \<Rightarrow> 'm database \<Rightarrow> exported_event list list \<Rightarrow> i64 set" where
  "seen_of x d seen = {row_position r | r. r \<in> set (tbl_events d) \<and> exported_of x r \<in> set (concat seen)}"

definition vouches_seen :: "ext \<Rightarrow> 'm database \<Rightarrow> exported_event list list \<Rightarrow> 'm database \<Rightarrow> bool" where
  "vouches_seen x d seen d' \<longleftrightarrow>
     vouched d' \<inter> row_position ` set (tbl_events d) \<subseteq> vouched d \<union> seen_of x d seen"

text \<open>One pass up to its receipt, and its confirmation.\<close>

lemma export_recorded_outcome:
  assumes "db_ok x (isle_db s)" and "receipts_ok (isle_db s)"
    and "export_recorded x a a' now from filter_all limit s = (r, s')"
  shows "case r of
     Inl e \<Rightarrow> s' = s
   | Inr (events, receipt) \<Rightarrow>
       export x a from filter_all limit s = Inr events \<and> exports_auto (isle_db s) < i64_max
       \<and> receipt_id receipt = as_u64 (exports_auto (isle_db s) + 1)
       \<and> receipt_through receipt = page_through from events
       \<and> holds_stretch x (uint (get from)) (uint (get (receipt_through receipt))) events (isle_db s)
       \<and> receipts_ok (isle_db s')
       \<and> isle_db s' = receipted (as_i64 now) (uint (get from)) (uint (get (receipt_through receipt)))
            (as_i64 (usize_of (length events))) True (isle_db s)"
proof (cases "export x a from filter_all limit s")
  case (Inl e)
  then show ?thesis using assms(3) by (auto simp: export_recorded_def)
next
  case (Inr events)
  have whole: "whole_filter filter_all" by (simp add: whole_filter_def filter_all_def)
  have run: "write_receipt a' now from filter_all events s = (r, s')"
    using assms(3) Inr by (simp add: export_recorded_def)
  show ?thesis
    using write_receipt_outcome [OF run] page_stretch [OF assms(1) Inr] receipts_ok_receipted [OF assms(2)] whole
    by (auto simp: Inr word_le_def split: sum.splits)
qed

lemma vouches_seen_step:
  assumes stretch: "holds_stretch x f u events d" and ok: "receipts_ok d" "exports_auto d < i64_max"
    and d': "d' = landed_at t (uint (as_u64 (exports_auto d + 1))) (receipted t' f u n True d)"
    and rest: "vouches_seen x d' seen' d''" and shown: "events \<in> set seen'"
  shows "vouches_seen x d seen' d''"
proof -
  have v: "vouched d' = vouched d \<union> {f<..u}" unfolding d' by (simp add: vouched_recorded_landed [OF ok])
  have ev: "tbl_events d' = tbl_events d" by (simp add: d')
  have "row_position r \<in> seen_of x d seen'" if "r \<in> set (tbl_events d)" "row_position r \<in> {f<..u}" for r
    using stretch that shown by (auto simp: holds_stretch_def seen_of_def)
  then show ?thesis
    using rest unfolding vouches_seen_def v ev seen_of_def by blast
qed

lemma vouches_seen_receipted: "vouches_seen x d seen (receipted t f u n w d)"
  unfolding vouches_seen_def vouched_receipted by blast

text \<open>A page that was exported and confirmed: only receipts have changed, and what is vouched for now and was not is the page.\<close>

lemma confirmed_page:
  assumes ok: "db_ok x (isle_db s)" "receipts_ok (isle_db s)"
    and rec: "export_recorded x a1 a2 t1 cursor filter_all limit s = (Inr (events, receipt), s1)"
    and conf: "confirm_export a3 t2 (receipt_id receipt) s1 = (Inr u, s2)"
  shows "only_receipts (isle_db s) (isle_db s2)" and "db_ok x (isle_db s2)" and "receipts_ok (isle_db s2)"
    and "events \<in> set seen \<Longrightarrow> vouches_seen x (isle_db s2) seen d' \<Longrightarrow> vouches_seen x (isle_db s) seen d'"
proof -
  let ?d = "isle_db s"
  let ?u = "uint (get (receipt_through receipt))"
  have stretch: "holds_stretch x (uint (get cursor)) ?u events ?d" and room: "exports_auto ?d < i64_max"
    and id: "receipt_id receipt = as_u64 (exports_auto ?d + 1)" and ok1: "receipts_ok (isle_db s1)"
    and d1: "isle_db s1 = receipted (as_i64 t1) (uint (get cursor)) ?u (as_i64 (usize_of (length events))) True ?d"
    using export_recorded_outcome [OF ok rec] unfolding sum.case prod.case by blast+
  have d2: "isle_db s2 = landed_at (as_i64 t2) (uint (receipt_id receipt)) (isle_db s1)"
    using confirm_export_outcome [OF ok1 conf] by simp
  show oo: "only_receipts ?d (isle_db s2)"
    unfolding d2 d1 by (rule only_receipts_trans [OF only_receipts_receipted only_receipts_landed])
  show "db_ok x (isle_db s2)" "receipts_ok (isle_db s2)"
    using only_receipts_ok [OF oo, of x] ok ok1 by (simp_all add: d2)
  show "vouches_seen x ?d seen d'" if "events \<in> set seen" "vouches_seen x (isle_db s2) seen d'"
    by (rule vouches_seen_step [OF stretch ok(2) room _ that(2)]) (use that(1) in \<open>auto simp: d2 d1 id\<close>)
qed

text \<open>Every way one pass of the loop can go.\<close>

lemma archive_pass_cases:
  assumes "archive_pages x write limit target (w # passes) cursor sink s = Some (r, sink', s')" and "cursor < target"
  obtains (refused) e where
    "export_recorded x (pass_export w) (pass_receipt w) (pass_taken w) cursor filter_all limit s = (Inl e, s')" "sink' = sink"
  | (stopped) events receipt where
    "export_recorded x (pass_export w) (pass_receipt w) (pass_taken w) cursor filter_all limit s = (Inr (events, receipt), s')"
    "sink' = sink \<or> (\<exists>e. write events sink = (Inl e, sink'))"
  | (unconfirmed) events receipt s1 u e where
    "export_recorded x (pass_export w) (pass_receipt w) (pass_taken w) cursor filter_all limit s = (Inr (events, receipt), s1)"
    "write events sink = (Inr u, sink')" "confirm_export (pass_confirm w) (pass_landed w) (receipt_id receipt) s1 = (Inl e, s')"
  | (confirmed) events receipt s1 u sink2 v s2 where
    "export_recorded x (pass_export w) (pass_receipt w) (pass_taken w) cursor filter_all limit s = (Inr (events, receipt), s1)"
    "write events sink = (Inr u, sink2)" "confirm_export (pass_confirm w) (pass_landed w) (receipt_id receipt) s1 = (Inr v, s2)"
    "archive_pages x write limit target passes (receipt_through receipt) sink2 s2 = Some (r, sink', s')"
proof (cases "export_recorded x (pass_export w) (pass_receipt w) (pass_taken w) cursor filter_all limit s")
  case (Pair r1 s1)
  note run = assms(1) [unfolded archive_pages.simps [of x _ _ _ "w # passes"], simplified assms(2) Pair, simplified]
  show ?thesis
  proof (cases r1)
    case (Inl e)
    then show ?thesis using refused Pair run by simp
  next
    case (Inr p)
    then obtain events receipt where p: "r1 = Inr (events, receipt)" by (cases p) simp
    obtain r2 sink2 where wr: "write events sink = (r2, sink2)" by force
    obtain r3 s2 where conf: "confirm_export (pass_confirm w) (pass_landed w) (receipt_id receipt) s1 = (r3, s2)" by force
    show ?thesis
      using run Pair p wr conf stopped [of events receipt] unconfirmed [of events receipt s1]
        confirmed [of events receipt s1 _ sink2 _ s2]
      by (cases "events = []"; cases r2; cases r3) auto
  qed
qed

lemma archive_pages_seen:
  assumes "archive_pages x (shown write) limit target passes cursor (sink, seen) s = Some (r, (sink', seen'), s')"
    and "db_ok x (isle_db s)" and "receipts_ok (isle_db s)"
  shows "only_receipts (isle_db s) (isle_db s') \<and> receipts_ok (isle_db s')
     \<and> set seen \<subseteq> set seen' \<and> vouches_seen x (isle_db s) seen' (isle_db s')"
  using assms
proof (induction passes arbitrary: cursor sink seen s)
  case Nil
  then show ?case by (auto simp: archive_pages.simps vouches_seen_def split: if_splits)
next
  case (Cons w passes)
  have recorded: "receipts_ok (isle_db s1) \<and> only_receipts (isle_db s) (isle_db s1) \<and> vouches_seen x (isle_db s) seen'' (isle_db s1)"
    if "export_recorded x (pass_export w) (pass_receipt w) (pass_taken w) cursor filter_all limit s = (Inr (events, receipt), s1)"
    for events receipt s1 seen''
    using export_recorded_outcome [OF Cons.prems(2,3) that] vouches_seen_receipted only_receipts_receipted by auto
  show ?case
  proof (cases "cursor < target")
    case False
    then show ?thesis using Cons.prems by (auto simp: archive_pages.simps vouches_seen_def)
  next
    case True
    from Cons.prems(1) True show ?thesis
    proof (cases rule: archive_pass_cases)
      case (refused e)
      then show ?thesis
        using export_recorded_outcome [OF Cons.prems(2,3) refused(1)] Cons.prems(3) by (auto simp: vouches_seen_def)
    next
      case (stopped events receipt)
      then show ?thesis using recorded [OF stopped(1)] by (auto simp: shown_def split: prod.splits sum.splits)
    next
      case (unconfirmed events receipt s1 u e)
      then show ?thesis
        using recorded [OF unconfirmed(1)] confirm_export_outcome [OF _ unconfirmed(3)]
        by (auto simp: shown_def split: prod.splits sum.splits)
    next
      case (confirmed events receipt s1 u pair v s2)
      obtain sink2 where pair: "pair = (sink2, seen @ [events])"
        using confirmed(2) by (auto simp: shown_def split: prod.splits sum.splits)
      note page = confirmed_page [OF Cons.prems(2,3) confirmed(1,3)]
      from Cons.IH [OF confirmed(4) [unfolded pair] page(2,3)] page(4) show ?thesis
        using only_receipts_trans [OF page(1)] by auto
    qed
  qed
qed

lemma transparent_highest_matching [transparent_intros]: "transparent surfaced (highest_matching plan)"
  and reads_highest_matching [reads_intros]: "reads_only (highest_matching plan)"
  unfolding highest_matching_def by (intro transparent_intros reads_intros)+

lemma max_of_None: "max_of ps = None \<longleftrightarrow> ps = []"
  by (simp add: max_of_def split: list.splits)

lemma plan_reach_Inr:
  assumes "plan_reach a plan s = Inr target"
  shows "\<exists>p. predicate plan = Inr p
     \<and> target = map_option (\<lambda>at. Position (as_u64 at)) (max_of (map row_position (chosen p (isle_db s))))"
  using read_job_calm_or_fault [OF transparent_highest_matching atomic_reads_only [OF reads_highest_matching], of a plan s] assms
  by (auto simp: plan_reach_def calm_run_def highest_matching_def job_simps chosen_def split: sum.splits)

lemma plan_reach_None:
  "plan_reach a plan s = Inr None \<Longrightarrow> \<exists>p. predicate plan = Inr p \<and> chosen p (isle_db s) = []"
  by (drule plan_reach_Inr) (auto simp: max_of_None)

text \<open>A run that returns: refused before its first page, with nothing to remove, or through its pages.\<close>

lemma archive_then_retain_cases:
  assumes "archive_then_retain x write a b passes c plan limit sink s = Some (r, sink', s')"
  obtains (refused) e where "r = Inl e" "s' = s"
    | (idle) "plan_reach a plan s = Inr None" "is_ok r" "s' = s"
    | (stopped) at cursor e where "archive_pages x write limit at passes cursor sink s = Some (Inl e, sink', s')" "r = Inl e"
    | (applied) at cursor s1 where "archive_pages x write limit at passes cursor sink s = Some (Inr (), sink', s1)"
        "apply_plan c plan Exported (describe_archived plan) s1 = (r, s')"
proof (cases "limit = 0")
  case True
  then show thesis using assms by (intro refused) (auto simp: archive_then_retain_def)
next
  case False
  note run = assms [unfolded archive_then_retain_def if_not_P [OF False]]
  show thesis
  proof (cases "plan_reach a plan s")
    case reach: (Inr target)
    show thesis
    proof (cases target)
      case None
      then show thesis using run reach by (auto simp: is_ok_iff intro!: idle)
    next
      case (Some at)
      show thesis
      proof (cases "exported_through_log b s")
        case cursor: (Inr cursor)
        obtain r1 sink1 s1 where loop: "archive_pages x write limit at passes cursor sink s = Some (r1, sink1, s1)"
          using run by (auto simp: reach Some cursor split: option.splits)
        show thesis
        proof (cases r1)
          case (Inl e)
          then show thesis using run loop by (intro stopped [of at cursor e]) (auto simp: reach Some cursor)
        next
          case (Inr u)
          then show thesis
            using run loop by (intro applied [of at cursor s1]) (auto simp: reach Some cursor split: prod.splits)
        qed
      qed (use run in \<open>intro refused, auto simp: reach Some\<close>)
    qed
  qed (use run in \<open>intro refused, auto\<close>)
qed

lemma seen_of_exported:
  assumes "db_ok x d" and "row_position row \<in> seen_of x d seen" and "row \<in> set (tbl_events d)"
  shows "exported_of x row \<in> set (concat seen)"
proof -
  obtain row' where "row' \<in> set (tbl_events d)" "row_position row = row_position row'" "exported_of x row' \<in> set (concat seen)"
    using assms(2) unfolding seen_of_def by blast
  then show ?thesis using place_inj [OF assms(1) _ assms(3), of row'] by (simp add: row_place_def)
qed

text \<open>The removal behind the pages: the plan, and only what is vouched for or was seen.\<close>

lemma archived_removal:
  assumes ok: "db_ok x (isle_db s)" and receipts: "receipts_ok (isle_db s)"
    and loop: "archive_pages x (shown write) limit at passes cursor (sink, []) s = Some (r1, (sink', seen), s1)"
    and applied: "apply_plan c plan Exported (describe_archived plan) s1 = (Inr rep, s')"
  shows "\<exists>p. predicate plan = Inr p
       \<and> tbl_events (isle_db s') = List.filter (\<lambda>row. \<not> p row) (tbl_events (isle_db s))
       \<and> (\<forall>row \<in> set (tbl_events (isle_db s)). p row \<longrightarrow>
            exported_of x row \<in> set (concat seen) \<or> row_position row \<in> vouched (isle_db s))"
proof -
  note after = archive_pages_seen [OF loop ok receipts]
  then have same: "tbl_events (isle_db s1) = tbl_events (isle_db s)" and ok1: "db_ok x (isle_db s1)"
    using only_receipts_ok [of "isle_db s" "isle_db s1" x] ok by (simp_all add: only_receipts_def)
  from apply_plan_takes [OF ok1 _ applied, unfolded sum.case] after obtain p where
    p: "predicate plan = Inr p" "tbl_events (isle_db s') = List.filter (\<lambda>row. \<not> p row) (tbl_events (isle_db s))"
    unfolding same by blast
  have "exported_of x row \<in> set (concat seen) \<or> row_position row \<in> vouched (isle_db s)"
    if row: "row \<in> set (tbl_events (isle_db s))" and "p row" for row
  proof -
    have "row_position row \<in> vouched (isle_db s1)"
      using exported_removal_vouched [OF ok1 _ applied] after that same p(2) by simp
    then have "row_position row \<in> vouched (isle_db s) \<union> seen_of x (isle_db s) seen"
      using after row unfolding vouches_seen_def by blast
    then show ?thesis using seen_of_exported [OF ok _ row] by blast
  qed
  then show ?thesis using p by blast
qed

text \<open>
  C17. The loop that archives before it removes has shown its sink what it removes. Whatever fails, an
  event that \<open>archive_then_retain\<close> removed was in a page the sink accepted in this run, or a confirmed
  export had covered it before; and the run that ends in an error has removed nothing.
\<close>

theorem archive_then_retain_shows_what_it_removes:
  assumes "db_ok x (isle_db s)" and "receipts_ok (isle_db s)"
    and "archive_then_retain x (shown write) a b passes c plan limit (sink, []) s = Some (r, (sink', seen), s')"
  shows "case r of
     Inl e \<Rightarrow> tbl_events (isle_db s') = tbl_events (isle_db s)
   | Inr rep \<Rightarrow> \<exists>p. predicate plan = Inr p
       \<and> tbl_events (isle_db s') = List.filter (\<lambda>row. \<not> p row) (tbl_events (isle_db s))
       \<and> (\<forall>row \<in> set (tbl_events (isle_db s)). p row \<longrightarrow>
            exported_of x row \<in> set (concat seen) \<or> row_position row \<in> vouched (isle_db s))"
  using assms(3)
proof (cases rule: archive_then_retain_cases)
  case idle
  then show ?thesis using plan_reach_None [of a plan s]
    by (cases r) (auto simp: is_ok_iff chosen_def filter_empty_conv intro!: filter_True [symmetric])
next
  case (stopped at cursor e)
  then show ?thesis using archive_pages_seen [OF stopped(1) assms(1,2)] by (simp add: only_receipts_def)
next
  case (applied at cursor s1)
  show ?thesis
  proof (cases r)
    case (Inl e)
    have "only_receipts (isle_db s) (isle_db s1)" using archive_pages_seen [OF applied(1) assms(1,2)] by blast
    then show ?thesis
      using apply_plan_outcome [OF _ applied(2)] only_receipts_ok [of "isle_db s" "isle_db s1" x] assms(1) Inl
      by (simp add: only_receipts_def)
  next
    case (Inr rep)
    then show ?thesis using archived_removal [OF assms(1,2) applied(1)] applied(2) by simp
  qed
qed simp

section \<open>The loop ends\<close>

lemma page_moves:
  assumes "db_ok x (isle_db s)" and "export x a from filter_all limit s = Inr events" and "events \<noteq> []"
  shows "\<exists>r \<in> set (tbl_events (isle_db s)). page_through from events = row_place r \<and> from < row_place r"
proof -
  let ?rows = "take (unat limit) (List.filter (\<lambda>r. from < row_place r) (tbl_events (isle_db s)))"
  have events: "events = map (exported_of x) ?rows"
    using export_page [OF assms(1,2)] assms(3) unfolding matching_all by blast
  then have ne: "?rows \<noteq> []" using assms(3) by auto
  then have "last ?rows \<in> set (List.filter (\<lambda>r. from < row_place r) (tbl_events (isle_db s)))"
    by (meson in_set_takeD last_in_set)
  moreover have "page_through from events = row_place (last ?rows)"
    unfolding events by (rule page_through_place [OF ne])
  ultimately show ?thesis by auto
qed

definition above :: "position \<Rightarrow> 'm database \<Rightarrow> event_row list" where
  "above c d = List.filter (\<lambda>r. c < row_place r) (tbl_events d)"

lemma above_shrinks:
  assumes "r \<in> set (tbl_events d)" and "c < row_place r"
  shows "length (above (row_place r) d) < length (above c d)"
proof -
  have "above (row_place r) d = List.filter (\<lambda>r'. row_place r < row_place r') (above c d)"
    using assms(2) by (auto simp: above_def intro!: filter_cong)
  moreover have "r \<in> set (above c d)" using assms by (simp add: above_def)
  ultimately show ?thesis by (metis length_filter_less less_irrefl)
qed

lemma archive_pages_returns:
  assumes "length (above cursor (isle_db s)) < length passes"
    and "db_ok x (isle_db s)" and "receipts_ok (isle_db s)"
  shows "archive_pages x write limit target passes cursor sink s \<noteq> None"
  using assms
proof (induction passes arbitrary: cursor sink s)
  case (Cons w passes)
  obtain r1 s1 where rec: "export_recorded x (pass_export w) (pass_receipt w) (pass_taken w) cursor filter_all limit s = (r1, s1)"
    by force
  note out = export_recorded_outcome [OF Cons.prems(2,3) rec]
  have next_pass: "archive_pages x write limit target passes (receipt_through receipt) sink2 s2 \<noteq> None"
    if page: "r1 = Inr (events, receipt)" and ne: "events \<noteq> []"
      and conf: "confirm_export (pass_confirm w) (pass_landed w) (receipt_id receipt) s1 = (Inr u, s2)"
    for events receipt sink2 s2 u
  proof (rule Cons.IH)
    have ok1: "receipts_ok (isle_db s1)" and exp: "export x (pass_export w) cursor filter_all limit s = Inr events"
      and through: "receipt_through receipt = page_through cursor events" and oo1: "only_receipts (isle_db s) (isle_db s1)"
      using out unfolding page by auto
    have d2: "isle_db s2 = landed_at (as_i64 (pass_landed w)) (uint (receipt_id receipt)) (isle_db s1)"
      using confirm_export_outcome [OF ok1 conf] by simp
    have oo: "only_receipts (isle_db s) (isle_db s2)" unfolding d2 by (rule only_receipts_trans [OF oo1 only_receipts_landed])
    obtain r where r: "r \<in> set (tbl_events (isle_db s))" "page_through cursor events = row_place r" "cursor < row_place r"
      using page_moves [OF Cons.prems(2) exp ne] by blast
    have "above (row_place r) (isle_db s2) = above (row_place r) (isle_db s)"
      using oo by (simp add: above_def only_receipts_def)
    then show "length (above (receipt_through receipt) (isle_db s2)) < length passes"
      using above_shrinks [OF r(1,3)] Cons.prems(1) by (simp add: through r(2))
    show "db_ok x (isle_db s2)" using only_receipts_ok [OF oo] Cons.prems(2) by simp
    show "receipts_ok (isle_db s2)" using ok1 by (simp add: d2)
  qed
  show ?case
    using next_pass
    by (auto simp: archive_pages.simps [of x "write" limit target "w # passes"] rec split: sum.splits prod.splits)
qed simp

lemma archive_then_retain_some:
  assumes "db_ok x (isle_db s)" and "receipts_ok (isle_db s)"
    and "length (tbl_events (isle_db s)) < length passes"
  shows "\<exists>r sink' s'. archive_then_retain x write a b passes c plan limit sink s = Some (r, sink', s')"
proof -
  have "length (above cursor (isle_db s)) < length passes" for cursor
    using assms(3) length_filter_le [of _ "tbl_events (isle_db s)"] unfolding above_def by (rule le_less_trans [rotated])
  from archive_pages_returns [OF this assms(1,2)]
  have "archive_pages x write limit target passes cursor sink s \<noteq> None" for target cursor .
  then have loop: "\<exists>r1 sink1 s1. archive_pages x write limit target passes cursor sink s = Some (r1, sink1, s1)"
    for target cursor
    by (metis option.exhaust prod_cases3)
  obtain o1 o2 where o: "plan_reach a plan s = o1" "exported_through_log b s = o2" by blast
  consider (first) e where "o1 = Inl e" | (none) "o1 = Inr None" | (second) target e where "o1 = Inr (Some target)" "o2 = Inl e"
    | (pages) target cursor where "o1 = Inr (Some target)" "o2 = Inr cursor"
    by (metis option.exhaust sum.exhaust)
  then show ?thesis
  proof cases
    case (pages target cursor)
    obtain r1 sink1 s1 where "archive_pages x write limit target passes cursor sink s = Some (r1, sink1, s1)"
      using loop by blast
    then show ?thesis
      by (cases r1; cases "apply_plan c plan Exported (describe_archived plan) s1")
        (simp_all add: archive_then_retain_def o pages)
  qed (simp_all add: archive_then_retain_def o)
qed

text \<open>
  The loop that archives before it removes always comes back. However the sink behaves and whatever
  fails, as many passes as there are events, and one, are enough for it to return an answer.
\<close>

theorem archive_then_retain_returns:
  assumes "db_ok x (isle_db s)" and "receipts_ok (isle_db s)"
    and "length (tbl_events (isle_db s)) < length passes"
  shows "\<exists>r sink' s'. archive_then_retain x write a b passes c plan limit sink s = Some (r, sink', s')"
  by (rule archive_then_retain_some [OF assms])

section \<open>Where nothing fails\<close>

definition calm_pass :: "pass \<Rightarrow> bool" where
  "calm_pass w \<longleftrightarrow> pass_export w \<in> range calm_at \<and> pass_receipt w \<in> range calm_at \<and> pass_confirm w \<in> range calm_at"

definition accepting :: "(exported_event list \<Rightarrow> 's \<Rightarrow> unit result \<times> 's) \<Rightarrow> bool" where
  "accepting write \<longleftrightarrow> (\<forall>events sink. fst (write events sink) = Inr ())"

lemma export_calm:
  assumes "db_ok x (isle_db s)" and "uint (get from) \<le> i64_max"
  shows "export x (calm_at t) from filter_all limit s = Inr (map (exported_of x) (take (unat limit) (above from (isle_db s))))"
proof -
  obtain at where "build_read from filter_all = Inr at"
    using askable_at_small [OF askable_at_all assms(2)] by (auto simp: askable_at_def is_ok_iff)
  from calm_run_export [OF assms(1) this, of limit "[t]"] show ?thesis
    by (simp add: export_def read_job_def isle_call_calm_at matching_all above_def)
qed

lemma calm_pass_run:
  assumes db: "db_ok x (isle_db s)" and ok: "receipts_ok (isle_db s)" and room: "exports_auto (isle_db s) < i64_max"
    and w: "calm_pass w" and lo: "uint (get from) \<le> cover (isle_db s)" and "limit \<noteq> 0"
    and r: "r \<in> set (tbl_events (isle_db s))" "from < row_place r"
  shows "\<exists>events receipt s1 s2. events \<noteq> [] \<and> export x (pass_export w) from filter_all limit s = Inr events
     \<and> export_recorded x (pass_export w) (pass_receipt w) (pass_taken w) from filter_all limit s = (Inr (events, receipt), s1)
     \<and> receipt_through receipt = page_through from events
     \<and> confirm_export (pass_confirm w) (pass_landed w) (receipt_id receipt) s1 = (Inr (), s2)
     \<and> only_receipts (isle_db s) (isle_db s2) \<and> receipts_ok (isle_db s2)
     \<and> exports_auto (isle_db s2) = exports_auto (isle_db s) + 1
     \<and> uint (get (page_through from events)) \<le> cover (isle_db s2)"
proof -
  let ?d = "isle_db s"
  obtain t1 t2 t3 where t: "pass_export w = calm_at t1" "pass_receipt w = calm_at t2" "pass_confirm w = calm_at t3"
    using w by (auto simp: calm_pass_def)
  have small: "uint (get from) \<le> i64_max" using lo cover_small [OF ok] by simp
  define events where "events = map (exported_of x) (take (unat limit) (above from ?d))"
  have page: "export x (pass_export w) from filter_all limit s = Inr events"
    unfolding t events_def by (rule export_calm [OF db small])
  have "r \<in> set (above from ?d)" using r by (simp add: above_def)
  then have ne: "events \<noteq> []" using \<open>limit \<noteq> 0\<close> by (auto simp: events_def unat_eq_0)
  obtain r' where r': "r' \<in> set (tbl_events ?d)" "page_through from events = row_place r'"
    using page_moves [OF db page ne] by blast
  have "uint (get (page_through from events)) \<le> i64_max" unfolding r'(2) by (rule row_place_small [OF db r'(1)])
  then obtain receipt s1 where written: "write_receipt (pass_receipt w) (pass_taken w) from filter_all events s = (Inr (events, receipt), s1)"
    using write_receipt_calm [OF small _ room, of events t2 "pass_taken w" filter_all] unfolding t by blast
  then have rec: "export_recorded x (pass_export w) (pass_receipt w) (pass_taken w) from filter_all limit s = (Inr (events, receipt), s1)"
    by (simp add: export_recorded_def page)
  note out = export_recorded_outcome [OF db ok rec, unfolded sum.case prod.case]
  have id: "receipt_id receipt = as_u64 (exports_auto ?d + 1)" using out by blast
  have id_uint: "uint (receipt_id receipt) = exports_auto ?d + 1"
    unfolding id using ok room by (simp add: receipts_ok_def uint_as_u64)
  have d1: "isle_db s1 = receipted (as_i64 (pass_taken w)) (uint (get from)) (uint (get (page_through from events)))
      (as_i64 (usize_of (length events))) True ?d" and ok1: "receipts_ok (isle_db s1)"
    using out by auto
  have known: "receipt_known (receipt_id receipt) (isle_db s1)"
    by (simp add: receipt_known_def d1 tbl_exports_receipted id_uint)
  have "uint (receipt_id receipt) \<le> i64_max" using room by (simp add: id_uint)
  from confirm_export_calm [OF known this] obtain s2 where conf: "confirm_export (pass_confirm w) (pass_landed w) (receipt_id receipt) s1 = (Inr (), s2)"
    and d2: "isle_db s2 = landed_at (as_i64 (pass_landed w)) (uint (receipt_id receipt)) (isle_db s1)"
    unfolding t by simp
  have "uint (get (page_through from events)) \<le> cover (isle_db s2)"
    unfolding d2 d1 id by (rule cover_recorded_landed [OF ok room lo])
  moreover have "only_receipts ?d (isle_db s2)"
    unfolding d2 d1 by (rule only_receipts_trans [OF only_receipts_receipted only_receipts_landed])
  moreover have "receipts_ok (isle_db s2)" "exports_auto (isle_db s2) = exports_auto ?d + 1"
    using ok1 unfolding d2 by (simp_all, simp add: d1)
  moreover have "receipt_through receipt = page_through from events" using out by blast
  ultimately show ?thesis using ne page rec conf by blast
qed

lemma archive_pages_calm:
  assumes "db_ok x (isle_db s)" and "receipts_ok (isle_db s)" and "exports_auto (isle_db s) + int (length passes) \<le> i64_max"
    and "list_all calm_pass passes" and "accepting write" and "limit \<noteq> 0" and "uint (get cursor) \<le> cover (isle_db s)"
    and "r \<in> set (tbl_events (isle_db s))" and "length (above cursor (isle_db s)) < length passes"
  shows "\<exists>sink' s'. archive_pages x write limit (row_place r) passes cursor sink s = Some (Inr (), sink', s')
     \<and> only_receipts (isle_db s) (isle_db s') \<and> receipts_ok (isle_db s') \<and> uint (get (row_place r)) \<le> cover (isle_db s')"
  using assms
proof (induction passes arbitrary: cursor sink s)
  case (Cons w passes)
  show ?case
  proof (cases "cursor < row_place r")
    case False
    then show ?thesis using Cons.prems by (auto simp: archive_pages.simps position_less_uint)
  next
    case True
    have "exports_auto (isle_db s) < i64_max" "calm_pass w" using Cons.prems(3,4) by simp_all
    from calm_pass_run [OF Cons.prems(1,2) this Cons.prems(7,6,8) True] obtain events receipt s1 s2 where
      p: "events \<noteq> []" "export x (pass_export w) cursor filter_all limit s = Inr events"
      "export_recorded x (pass_export w) (pass_receipt w) (pass_taken w) cursor filter_all limit s = (Inr (events, receipt), s1)"
      "receipt_through receipt = page_through cursor events"
      "confirm_export (pass_confirm w) (pass_landed w) (receipt_id receipt) s1 = (Inr (), s2)"
      "only_receipts (isle_db s) (isle_db s2)" "receipts_ok (isle_db s2)"
      "exports_auto (isle_db s2) = exports_auto (isle_db s) + 1"
      "uint (get (page_through cursor events)) \<le> cover (isle_db s2)" by blast
    obtain sink2 where sink2: "write events sink = (Inr (), sink2)"
      using Cons.prems(5) by (metis accepting_def prod.collapse)
    obtain r' where r': "r' \<in> set (tbl_events (isle_db s))" "page_through cursor events = row_place r'" "cursor < row_place r'"
      using page_moves [OF Cons.prems(1) p(2,1)] by blast
    have ev: "tbl_events (isle_db s2) = tbl_events (isle_db s)" using p(6) by (simp add: only_receipts_def)
    have fewer: "length (above (page_through cursor events) (isle_db s2)) < length passes"
      using above_shrinks [OF r'(1,3)] Cons.prems(9) by (simp add: r'(2) above_def ev)
    have "db_ok x (isle_db s2)" using only_receipts_ok [OF p(6)] Cons.prems(1) by simp
    from Cons.IH [OF this p(7) _ _ Cons.prems(5,6) p(9) _ fewer, of sink2] Cons.prems(3,4,8) p(8)
    obtain sink' s' where IH: "archive_pages x write limit (row_place r) passes (page_through cursor events) sink2 s2 = Some (Inr (), sink', s')"
      "only_receipts (isle_db s2) (isle_db s')" "receipts_ok (isle_db s')" "uint (get (row_place r)) \<le> cover (isle_db s')"
      by (auto simp: ev)
    then show ?thesis
      using only_receipts_trans [OF p(6) IH(2)] True p sink2
      by (simp add: archive_pages.simps [of x "write" limit "row_place r" "w # passes"])
  qed
qed simp

lemma topmost_in:
  assumes "db_ok x d" and "chosen p d \<noteq> []"
  shows "max_of (map row_position (chosen p d)) = Some (topmost p d)"
    and "\<exists>r \<in> set (tbl_events d). p r \<and> row_position r = topmost p d"
proof -
  have "sorted_wrt (<) (map row_position (chosen p d))"
    unfolding chosen_def by (rule sorted_wrt_filter_map) (use assms(1) in \<open>simp add: db_ok_def\<close>)
  then show "max_of (map row_position (chosen p d)) = Some (topmost p d)"
    using assms(2) by (simp add: max_of_sorted topmost_def last_map)
  show "\<exists>r \<in> set (tbl_events d). p r \<and> row_position r = topmost p d"
    using last_in_set [OF assms(2)] by (auto simp: topmost_def chosen_def)
qed

lemma plan_reach_calm:
  "predicate plan = Inr p \<Longrightarrow> plan_reach (calm_at t) plan s =
     Inr (map_option (\<lambda>at. Position (as_u64 at)) (max_of (map row_position (chosen p (isle_db s)))))"
  by (simp add: plan_reach_def read_job_def isle_call_calm highest_matching_def job_simps chosen_def)

lemma exported_through_log_calm: "exported_through_log (calm_at t) s = Inr (Position (as_u64 (cover (isle_db s))))"
  by (simp add: exported_through_log_def read_job_def isle_call_calm job_simps)

text \<open>
  C19. Where nothing fails, archiving then removing does both. The connection and SQLite answer, the sink
  accepts every page, no consumer with a checkpoint is behind the plan, and the numbers of receipts and
  ledger entries have not run out: the run returns, reports how many events it removed, and exactly the
  plan's events are gone.
\<close>

theorem archive_then_retain_removes_when_calm:
  assumes "db_ok x (isle_db s)" and "receipts_ok (isle_db s)" and "predicate plan = Inr p" and "limit \<noteq> 0"
    and "accepting write" and "list_all calm_pass passes" and "length (tbl_events (isle_db s)) < length passes"
    and "exports_auto (isle_db s) + int (length passes) \<le> i64_max" and "retention_auto (isle_db s) < i64_max"
    and "\<forall>row \<in> set (tbl_events (isle_db s)). p row \<longrightarrow>
           (\<forall>c \<in> set (tbl_checkpoints (isle_db s)). row_position row \<le> checkpoint_position (snd c))"
  shows "\<exists>rep sink' s'. archive_then_retain x write (calm_at t) (calm_at u) passes (calm_at v) plan limit sink s
       = Some (Inr rep, sink', s')
     \<and> removed rep = as_u64 (int (length (List.filter p (tbl_events (isle_db s)))))
     \<and> tbl_events (isle_db s') = List.filter (\<lambda>row. \<not> p row) (tbl_events (isle_db s))"
proof (cases "chosen p (isle_db s) = []")
  case True
  then show ?thesis
    using assms(4) by (auto simp: archive_then_retain_def plan_reach_calm [OF assms(3)] max_of_def nothing_removed_def
        chosen_def filter_empty_conv as_u64_def intro!: filter_True [symmetric])
next
  case False
  let ?d = "isle_db s"
  obtain r where r: "r \<in> set (tbl_events ?d)" "p r" "row_position r = topmost p ?d"
    using topmost_in(2) [OF assms(1) False] by blast
  have target: "Position (as_u64 (topmost p ?d)) = row_place r"
    using r(3) by (simp add: row_place_def position_of_stored_def)
  have small: "uint (as_u64 (cover ?d)) = cover ?d"
    using cover_spec(1) [of ?d] cover_small [OF assms(2)] by (simp add: uint_as_u64)
  have few: "length (above (Position (as_u64 (cover ?d))) ?d) < length passes"
    using assms(7) length_filter_le [of _ "tbl_events ?d"] unfolding above_def by (rule le_less_trans [rotated])
  obtain sink' s1 where loop: "archive_pages x write limit (row_place r) passes (Position (as_u64 (cover ?d))) sink s
      = Some (Inr (), sink', s1)"
    and oo: "only_receipts ?d (isle_db s1)" and cov: "uint (get (row_place r)) \<le> cover (isle_db s1)" and ok1': "receipts_ok (isle_db s1)"
    using archive_pages_calm [OF assms(1,2,8,6,5,4) _ r(1) few, of sink] small by auto
  have ok1: "db_ok x (isle_db s1)" using only_receipts_ok [OF oo] assms(1) by simp
  have same: "chosen p (isle_db s1) = chosen p ?d" "topmost p (isle_db s1) = topmost p ?d"
      "retention_auto (isle_db s1) = retention_auto ?d" "tbl_events (isle_db s1) = tbl_events ?d"
    using oo by (simp_all add: only_receipts_def chosen_def topmost_def)
  have "\<not> behind (topmost p (isle_db s1)) (isle_db s1)"
    using assms(10) r oo unfolding same behind_def only_receipts_def by (metis not_le)
  moreover have "as_u64 (topmost p (isle_db s1)) \<le> as_u64 (cover (isle_db s1))"
    using cov uint_row_place [OF assms(1) r(1)] r(3) position_small [OF assms(1) r(1)] cover_small [OF ok1']
    by (simp add: same word_le_def uint_as_u64)
  ultimately have "calm_run (transaction (retain_body plan Exported (describe_archived plan))) [v] (isle_db s1) =
     (Inr \<lparr> removed = as_u64 (int (length (chosen p ?d))), highest_removed = Some (position_of_stored (topmost p ?d)),
        streams_affected = as_u64 (int (length (remdups (map row_stream (chosen p ?d))))) \<rparr>,
      retained p (describe_archived plan) (as_i64 (first_reading [v])) (isle_db s1))"
    using False assms(9) by (simp add: retain_calm [OF ok1 assms(3)] same not_le)
  then show ?thesis
    using assms(4) loop
    by (simp add: archive_then_retain_def plan_reach_calm [OF assms(3)] topmost_in(1) [OF assms(1) False] target
        exported_through_log_calm apply_plan_def writer_job_def isle_call_calm_at same flip: chosen_def)
qed

section \<open>On a log of one event\<close>

definition calm_one :: pass where
  "calm_one = \<lparr> pass_export = calm_at 1, pass_receipt = calm_at 2, pass_taken = 2, pass_confirm = calm_at 3, pass_landed = 3 \<rparr>"

definition no_sink :: "exported_event list \<Rightarrow> unit \<Rightarrow> unit result \<times> unit" where
  "no_sink events sink = (Inr (), ())"

lemma one_event_facts:
  "receipts_ok one_event_db" "exports_auto one_event_db = 0" "retention_auto one_event_db = 0"
  "tbl_checkpoints one_event_db = []" "length (tbl_events one_event_db) = 1"
  "\<forall>r \<in> set (tbl_events one_event_db). row_position r = 1"
  by (simp_all add: receipts_ok_def one_event_db_def empty_database_def appended_def push_def upsert_counter_def i64_max_def row_of_def)

lemma calm_pass_one [simp]: "calm_pass calm_one" "accepting (shown no_sink)"
  by (auto simp: calm_pass_def calm_one_def accepting_def shown_def no_sink_def)

theorem archive_then_retain_removes_when_calm_witness:
  "\<exists>rep sink' s'. archive_then_retain toy_ext (shown no_sink) (calm_at 0) (calm_at 0) [calm_one, calm_one] (calm_at 0)
       (Before (Position 1)) 10 ((), []) (sample_log one_event_db) = Some (Inr rep, sink', s')
     \<and> tbl_events (isle_db s') = []"
proof -
  have pred: "predicate (Before (Position 1)) = Inr (\<lambda>r. row_position r \<le> 1)" by (simp add: predicate_Inr i64_max_def)
  have none: "List.filter (\<lambda>row. \<not> row_position row \<le> 1) (tbl_events one_event_db) = []"
    using one_event_facts(6) by (auto simp: filter_empty_conv)
  have "\<exists>rep sink' s'. archive_then_retain toy_ext (shown no_sink) (calm_at 0) (calm_at 0) [calm_one, calm_one] (calm_at 0)
       (Before (Position 1)) 10 ((), []) (sample_log one_event_db) = Some (Inr rep, sink', s')
     \<and> removed rep = as_u64 (int (length (List.filter (\<lambda>r. row_position r \<le> 1) (tbl_events (isle_db (sample_log one_event_db))))))
     \<and> tbl_events (isle_db s') = List.filter (\<lambda>row. \<not> row_position row \<le> 1) (tbl_events (isle_db (sample_log one_event_db)))"
    by (rule archive_then_retain_removes_when_calm [OF _ _ pred])
      (simp_all add: one_event_facts i64_max_def)
  then show ?thesis by (auto simp: none)
qed

theorem archive_then_retain_returns_witness:
  "\<exists>r sink' s'. archive_then_retain toy_ext no_sink (calm_at 0) (calm_at 0) [calm_one, calm_one] (calm_at 0)
     (Before (Position 1)) 10 () (sample_log one_event_db) = Some (r, sink', s')"
  by (rule archive_then_retain_returns [of toy_ext]) (simp_all add: one_event_facts)

theorem archive_then_retain_shows_what_it_removes_witness:
  "\<exists>r sink' seen s'. archive_then_retain toy_ext (shown no_sink) (calm_at 0) (calm_at 0) [calm_one, calm_one] (calm_at 0)
       (Before (Position 1)) 10 ((), []) (sample_log one_event_db) = Some (r, (sink', seen), s')
     \<and> (case r of
          Inl e \<Rightarrow> tbl_events (isle_db s') = tbl_events one_event_db
        | Inr rep \<Rightarrow> \<exists>p. predicate (Before (Position 1)) = Inr p \<and> (\<forall>row \<in> set (tbl_events one_event_db). p row \<longrightarrow>
            exported_of toy_ext row \<in> set (concat seen) \<or> row_position row \<in> vouched one_event_db))"
proof -
  have ok: "db_ok toy_ext (isle_db (sample_log one_event_db))" "receipts_ok (isle_db (sample_log one_event_db))"
    by (simp_all add: one_event_facts)
  obtain r sink' seen s' where run: "archive_then_retain toy_ext (shown no_sink) (calm_at 0) (calm_at 0) [calm_one, calm_one] (calm_at 0)
       (Before (Position 1)) 10 ((), []) (sample_log one_event_db) = Some (r, (sink', seen), s')"
    using archive_then_retain_some [OF ok, of "[calm_one, calm_one]" "shown no_sink" "calm_at 0" "calm_at 0" "calm_at 0"
        "Before (Position 1)" 10 "((), [])"] by (auto simp: one_event_facts)
  show ?thesis
    using archive_then_retain_shows_what_it_removes [OF ok run] run by (cases r) auto
qed

end
