(* ===== verification/Projection.thy ===== *)
theory Projection
  imports Retention
begin

text \<open>
  Projections: \<open>crates/eventsdb-sqlite/src/project.rs\<close>. A projection is caller code, a record of its
  methods over its own state \<open>'p\<close>; a method that writes runs against the open connection and answers,
  fails or panics. A runner holds the projection, except after a call that could not hand it back. The
  runner's own bookkeeping and the calls into the projection are steps of one transaction.
\<close>

type_synonym ('m, 'p) callback = "'p \<Rightarrow> 'm conn \<Rightarrow> unit ran \<times> 'p \<times> 'm conn"

record ('m, 'p) projection =
  projection_name :: "'p \<Rightarrow> rust_string"
  projection_kinds :: "'p \<Rightarrow> rust_string list option"
  projection_init :: "('m, 'p) callback"
  projection_reset :: "('m, 'p) callback"
  projection_apply :: "recorded \<Rightarrow> ('m, 'p) callback"
  projection_tolerates :: "'p \<Rightarrow> bool"

text \<open>What the trait provides: every kind, no tables to create, and no tolerance of truncation.\<close>

definition default_kinds :: "'p \<Rightarrow> rust_string list option" where
  "default_kinds p = None"

definition default_init :: "('m, 'p) callback" where
  "default_init p c = (Returned (Inr ()), p, c)"

definition default_tolerates :: "'p \<Rightarrow> bool" where
  "default_tolerates p = False"

definition DEFAULT_BATCH :: usize where
  "DEFAULT_BATCH = 256"

record ('m, 'p) runner =
  runner_code :: "('m, 'p) projection"
  runner_projection :: "'p option"
  runner_batch :: usize
  runner_name :: rust_string

section \<open>The registry of names\<close>

definition runner_new :: "('m, 'p) projection \<Rightarrow> 'p \<Rightarrow> 'm shared \<Rightarrow> ('m, 'p) runner result \<times> 'm shared" where
  "runner_new code p s =
     (let name = projection_name code p
      in if name \<in> live_runners s then (Inl (Unsupported (Running (RunnerAlreadyLive name))), s)
         else (Inr \<lparr> runner_code = code, runner_projection = Some p, runner_batch = DEFAULT_BATCH,
                     runner_name = name \<rparr>,
               s\<lparr>live_runners := insert name (live_runners s)\<rparr>))"

text \<open>\<open>runner_now\<close> panics where a runner of that name is live; \<open>None\<close> is that panic.\<close>

definition runner_now :: "('m, 'p) projection \<Rightarrow> 'p \<Rightarrow> 'm shared \<Rightarrow> (('m, 'p) runner \<times> 'm shared) option" where
  "runner_now code p s =
     (case runner_new code p s of (Inl e, s') \<Rightarrow> None | (Inr r, s') \<Rightarrow> Some (r, s'))"

definition runner_drop :: "('m, 'p) runner \<Rightarrow> 'm shared \<Rightarrow> 'm shared" where
  "runner_drop r s = s\<lparr>live_runners := live_runners s - {runner_name r}\<rparr>"

definition with_batch :: "usize \<Rightarrow> ('m, 'p) runner \<Rightarrow> ('m, 'p) runner" where
  "with_batch batch r = r\<lparr>runner_batch := max batch 1\<rparr>"

definition lost :: error where
  "lost = Storage (Running RunnerLost)"

text \<open>The runner is consumed, and dropped with what is left of it.\<close>

definition into_inner :: "('m, 'p) runner \<Rightarrow> 'm shared \<Rightarrow> 'p result \<times> 'm shared" where
  "into_inner r s =
     ((case runner_projection r of None \<Rightarrow> Inl lost | Some p \<Rightarrow> Inr p), runner_drop r s)"

section \<open>Steps of a runner's transaction\<close>

type_synonym ('m, 'p, 'a) fold_step = "'p \<Rightarrow> 'm conn \<Rightarrow> 'a ran \<times> 'p \<times> 'm conn"

definition freturn :: "'a \<Rightarrow> ('m, 'p, 'a) fold_step" where
  "freturn v = (\<lambda>p c. (Returned (Inr v), p, c))"

definition fbind :: "('m, 'p, 'a) fold_step \<Rightarrow> ('a \<Rightarrow> ('m, 'p, 'b) fold_step) \<Rightarrow> ('m, 'p, 'b) fold_step" where
  "fbind m f =
     (\<lambda>p c. case m p c of
        (Returned (Inr v), p', c') \<Rightarrow> f v p' c'
      | (Returned (Inl e), p', c') \<Rightarrow> (Returned (Inl e), p', c')
      | (Unwound message, p', c') \<Rightarrow> (Unwound message, p', c'))"

text \<open>The runner's own statements, and a question to the projection.\<close>

definition own :: "('m, error, 'a) job \<Rightarrow> ('m, 'p, 'a) fold_step" where
  "own job = (\<lambda>p c. case job c of (r, c') \<Rightarrow> (Returned r, p, c'))"

definition ask :: "('p \<Rightarrow> 'a) \<Rightarrow> ('m, 'p, 'a) fold_step" where
  "ask f = (\<lambda>p c. (Returned (Inr (f p)), p, c))"

text \<open>
  One transaction with the projection moved across. It comes back whenever the guard does, with what the
  body answered; a panic, a guard that could not be put on or taken off, and a failure of the connection
  thread leave the runner without it. A callback considered here leaves the transaction it is given open:
  the SQL that would end it passes the authorizer as it does in Txn, where such closures are modelled.
\<close>

definition folding :: "('m, 'p, 'a) fold_step \<Rightarrow> 'p \<Rightarrow> 'm conn \<Rightarrow> ('p \<times> 'a result) ran \<times> 'm conn" where
  "folding body p =
     (\<lambda>c. case next_fault c of
        (Some e, c1) \<Rightarrow> (Returned (Inr (p, Inl (classify e))), c1)
      | (None, c1) \<Rightarrow>
          (case body p c1 of
             (Returned (Inl e), p', c2) \<Rightarrow> (Returned (Inr (p', Inl e)), c2\<lparr>conn_db := conn_db c\<rparr>)
           | (Unwound message, p', c2) \<Rightarrow> (Unwound message, c2\<lparr>conn_db := conn_db c\<rparr>)
           | (Returned (Inr v), p', c2) \<Rightarrow>
               (case next_fault c2 of
                  (Some e, c3) \<Rightarrow> (Returned (Inr (p', Inl (classify e))), c3\<lparr>conn_db := conn_db c\<rparr>)
                | (None, c3) \<Rightarrow> (Returned (Inr (p', Inr v)), c3))))"

definition folding_job ::
  "guard_env \<Rightarrow> ('m, 'p, 'a) fold_step \<Rightarrow> 'p \<Rightarrow> ('m, error, 'p option \<times> 'a result) job" where
  "folding_job g body p =
     (\<lambda>c. case guarded g (folding body p) c of
        (Inr (p', Inr v), c') \<Rightarrow> (Inr (Some p', Inr v), c')
      | (Inr (p', Inl e), c') \<Rightarrow> (Inr (Some p', Inl (map_denial e)), c')
      | (Inl e, c') \<Rightarrow> (Inr (None, Inl e), c'))"

definition runner_transaction ::
  "guard_env \<Rightarrow> attempt \<Rightarrow> ('m, 'p, 'a) fold_step \<Rightarrow> ('m, 'p) runner \<Rightarrow> 'm shared
     \<Rightarrow> 'a result \<times> ('m, 'p) runner \<times> 'm shared" where
  "runner_transaction g a body r s =
     (case runner_projection r of
        None \<Rightarrow> (Inl lost, r, s)
      | Some p \<Rightarrow>
          (case isle_call a (folding_job g body p) (isle_db s) of
             (Inl e, d) \<Rightarrow> (Inl e, r\<lparr>runner_projection := None\<rparr>, s\<lparr>isle_db := d\<rparr>)
           | (Inr (p', outcome), d) \<Rightarrow> (outcome, r\<lparr>runner_projection := p'\<rparr>, s\<lparr>isle_db := d\<rparr>)))"

section \<open>The operations\<close>

definition runner_init ::
  "guard_env \<Rightarrow> attempt \<Rightarrow> ('m, 'p) runner \<Rightarrow> 'm shared \<Rightarrow> unit result \<times> ('m, 'p) runner \<times> 'm shared" where
  "runner_init g a r s = runner_transaction g a (projection_init (runner_code r)) r s"

definition kinds_filter :: "rust_string list option \<Rightarrow> filter" where
  "kinds_filter kinds = (case kinds of Some kinds \<Rightarrow> with_kinds kinds | None \<Rightarrow> filter_all)"

fun apply_events :: "('m, 'p) projection \<Rightarrow> recorded list \<Rightarrow> position \<Rightarrow> ('m, 'p, position) fold_step" where
  "apply_events code [] at = freturn at"
| "apply_events code (event # events) at =
     fbind (projection_apply code event) (\<lambda>_. apply_events code events (recorded_position event))"

definition batch_body ::
  "ext \<Rightarrow> upcast_chain \<Rightarrow> ('m, 'p) projection \<Rightarrow> usize \<Rightarrow> ('m, 'p, usize \<times> position) fold_step" where
  "batch_body x chain code batch =
     fbind (ask (projection_name code)) (\<lambda>name.
     fbind (ask (\<lambda>p. kinds_filter (projection_kinds code p))) (\<lambda>f.
     fbind (own (load_checkpoint name)) (\<lambda>cursor.
     fbind (ask (projection_tolerates code)) (\<lambda>tolerates.
     fbind (if tolerates then freturn () else own (require_complete_from cursor)) (\<lambda>_.
     fbind (own head_position_in) (\<lambda>at_head.
     fbind (own (select_recorded x chain cursor f batch)) (\<lambda>events.
     fbind (apply_events code events cursor) (\<lambda>last.
       let full = (usize_of (length events) = batch);
           seen_through = (if full then last else max last at_head)
       in fbind (if seen_through > cursor then own (save_checkpoint name seen_through) else freturn ()) (\<lambda>_.
          freturn (usize_of (length events), seen_through))))))))))"

definition run_once ::
  "ext \<Rightarrow> guard_env \<Rightarrow> attempt \<Rightarrow> ('m, 'p) runner \<Rightarrow> 'm shared \<Rightarrow> usize result \<times> ('m, 'p) runner \<times> 'm shared"
  where
  "run_once x g a r s =
     (case runner_transaction g a (batch_body x (upcasters s) (runner_code r) (runner_batch r)) r s of
        (Inl e, r', s') \<Rightarrow> (Inl e, r', s')
      | (Inr (applied, cursor), r', s') \<Rightarrow> (Inr applied, r', s'))"

text \<open>The loops, over what each of their transactions meets; \<open>None\<close> is a loop that has not ended within it.\<close>

fun catch_up ::
  "ext \<Rightarrow> (guard_env \<times> attempt) list \<Rightarrow> usize \<Rightarrow> ('m, 'p) runner \<Rightarrow> 'm shared
     \<Rightarrow> (usize result \<times> ('m, 'p) runner \<times> 'm shared) option" where
  "catch_up x [] applied_so_far r s = None"
| "catch_up x ((g, a) # rest) applied_so_far r s =
     (case run_once x g a r s of
        (Inl e, r', s') \<Rightarrow> Some (Inl e, r', s')
      | (Inr applied, r', s') \<Rightarrow>
          if applied = 0 then Some (Inr applied_so_far, r', s') else catch_up x rest (applied_so_far + applied) r' s')"

text \<open>
  Each round of \<open>follow\<close> catches up and waits; it ends on an error only. What others commit while it waits
  is a change of the shared state.
\<close>

fun follow ::
  "ext \<Rightarrow> ((guard_env \<times> attempt) list \<times> ('m shared \<Rightarrow> 'm shared)) list \<Rightarrow> ('m, 'p) runner \<Rightarrow> 'm shared
     \<Rightarrow> (error \<times> ('m, 'p) runner \<times> 'm shared) option" where
  "follow x [] r s = None"
| "follow x ((attempts, others) # rounds) r s =
     (case catch_up x attempts 0 r s of
        None \<Rightarrow> None
      | Some (Inl e, r', s') \<Rightarrow> Some (e, r', s')
      | Some (Inr _, r', s') \<Rightarrow> follow x rounds r' (others s'))"

definition rebuild_body :: "('m, 'p) projection \<Rightarrow> ('m, 'p, unit) fold_step" where
  "rebuild_body code =
     fbind (ask (projection_tolerates code)) (\<lambda>tolerates.
     fbind (if tolerates then freturn () else own (require_complete_from BEGINNING)) (\<lambda>_.
     fbind (ask (projection_name code)) (\<lambda>name.
     fbind (projection_reset code) (\<lambda>_.
     fbind (projection_init code) (\<lambda>_.
       own (save_checkpoint name BEGINNING))))))"

definition rebuild ::
  "ext \<Rightarrow> guard_env \<Rightarrow> attempt \<Rightarrow> (guard_env \<times> attempt) list \<Rightarrow> ('m, 'p) runner \<Rightarrow> 'm shared
     \<Rightarrow> (usize result \<times> ('m, 'p) runner \<times> 'm shared) option" where
  "rebuild x g a rest r s =
     (case runner_transaction g a (rebuild_body (runner_code r)) r s of
        (Inl e, r', s') \<Rightarrow> Some (Inl e, r', s')
      | (Inr _, r', s') \<Rightarrow> catch_up x rest 0 r' s')"

definition runner_position ::
  "guard_env \<Rightarrow> attempt \<Rightarrow> ('m, 'p) runner \<Rightarrow> 'm shared \<Rightarrow> position result \<times> ('m, 'p) runner \<times> 'm shared" where
  "runner_position g a r s =
     runner_transaction g a
       (fbind (ask (projection_name (runner_code r))) (\<lambda>name. own (load_checkpoint name))) r s"

end
