(* ===== verification/Projection_Theorems.thy ===== *)
theory Projection_Theorems
  imports Projection Paging Archive
begin

text \<open>
  What a runner guarantees. A batch applies and moves the cursor or does neither; over a log that others
  write and trim, the read model is the fold of the whole history up to the cursor; catching up ends.
\<close>

section \<open>What a projection promises\<close>

text \<open>
  The documented part of a projection: its name, kinds and tolerance do not change; a method that answers
  \<open>Ok\<close> has changed the projection's own tables, as the read model says, and nothing else, which for any
  other table the authorizer sees to. What a method does when it fails or panics is not restricted.
\<close>

record 'm read_model =
  model_apply :: "recorded \<Rightarrow> 'm \<Rightarrow> 'm"
  model_init :: "'m \<Rightarrow> 'm"
  model_reset :: "'m \<Rightarrow> 'm"
  model_empty :: 'm

definition steady :: "('m, 'p) projection \<Rightarrow> rust_string \<Rightarrow> rust_string list option \<Rightarrow> bool \<Rightarrow> bool" where
  "steady code name kinds tolerates \<longleftrightarrow>
     (\<forall>p. projection_name code p = name \<and> projection_kinds code p = kinds \<and> projection_tolerates code p = tolerates)"

definition writes_only :: "('m, 'p) callback \<Rightarrow> ('m \<Rightarrow> 'm) \<Rightarrow> bool" where
  "writes_only cb f \<longleftrightarrow>
     (\<forall>p c p' c'. cb p c = (Returned (Inr ()), p', c') \<longrightarrow>
        conn_db c' = (conn_db c)\<lparr>caller_tables := f (caller_tables (conn_db c))\<rparr>)"

definition implements :: "('m, 'p) projection \<Rightarrow> 'm read_model \<Rightarrow> bool" where
  "implements code M \<longleftrightarrow>
     (\<forall>event. writes_only (projection_apply code event) (model_apply M event))
     \<and> writes_only (projection_init code) (model_init M) \<and> writes_only (projection_reset code) (model_reset M)
     \<and> (\<forall>m. model_init M (model_reset M m) = model_empty M)
     \<and> (\<forall>recs. model_init M (fold (model_apply M) recs (model_empty M)) = fold (model_apply M) recs (model_empty M))"

section \<open>A transaction that succeeded\<close>

lemma fbind_Inr:
  "fbind m f p c = (Returned (Inr v), p2, c2) \<longleftrightarrow>
     (\<exists>u p1 c1. m p c = (Returned (Inr u), p1, c1) \<and> f u p1 c1 = (Returned (Inr v), p2, c2))"
  by (auto simp: fbind_def split: prod.splits ran.splits sum.splits)

lemma ask_Inr: "ask f p c = (Returned (Inr v), p', c') \<longleftrightarrow> v = f p \<and> p' = p \<and> c' = c"
  and freturn_Inr: "freturn u p c = (Returned (Inr v), p', c') \<longleftrightarrow> v = u \<and> p' = p \<and> c' = c"
  by (auto simp: ask_def freturn_def)

lemma own_Inr: "own job p c = (Returned (Inr v), p', c') \<longleftrightarrow> job c = (Inr v, c') \<and> p' = p"
  by (auto simp: own_def split: prod.splits)

lemma optional_Inr:
  "(if b then own job else freturn ()) p c = (Returned (Inr v), p', c') \<longleftrightarrow> (if b then job c = (Inr v, c') else c' = c) \<and> p' = p"
  "(if b then freturn () else own job) p c = (Returned (Inr v), p', c') \<longleftrightarrow> (if b then c' = c else job c = (Inr v, c')) \<and> p' = p"
  by (auto simp: own_Inr freturn_Inr)

lemmas fold_Inr = optional_Inr fbind_Inr ask_Inr freturn_Inr own_Inr

lemma load_success: "load_checkpoint name c = (Inr v, c') \<Longrightarrow> conn_db c' = conn_db c \<and> v = cursor_of (conn_db c) name"
  using read_success [OF transparent_load_checkpoint reads_load_checkpoint, of name c v c'] by (simp add: job_simps)

lemma head_success:
  "db_ok x (conn_db c) \<Longrightarrow> head_position_in c = (Inr v, c') \<Longrightarrow>
     conn_db c' = conn_db c \<and> v = position_of_stored (newest (conn_db c))"
  using read_success [OF transparent_head reads_head, of c v c']
  by (simp add: head_position_in_def job_simps max_position_newest position_of_stored_def)

lemma select_success:
  assumes "db_ok x (conn_db c)" and "select_recorded x chain from f limit c = (Inr recs, c')"
  shows "conn_db c' = conn_db c \<and> log_page x chain from f (unat limit) (conn_db c) = Inr recs"
proof -
  have "matching x f (conn_db c) = []" if "selects_nothing f"
    using row_matches_nothing [OF that] by (simp add: matching_def)
  then show ?thesis
    using read_success [OF transparent_select_recorded reads_select_recorded assms(2)] assms(1)
    by (auto simp: select_recorded_calm log_page_def result_simps split: if_splits)
qed

lemma transparent_watermark [transparent_intros]: "transparent surfaced watermark"
  and reads_watermark [reads_intros]: "reads_only watermark"
  unfolding watermark_def by (intro transparent_intros reads_intros)+

lemma transparent_require [transparent_intros]: "transparent surfaced (require_complete_from from)"
  and reads_require [reads_intros]: "reads_only (require_complete_from from)"
  unfolding require_complete_from_def by (intro transparent_intros reads_intros)+

lemma watermark_calm [job_simps]:
  "faults c = [] \<Longrightarrow> watermark c = (Inr (Position (as_u64 (ledger_high (conn_db c)))), c)"
  by (simp add: watermark_def job_simps)

lemma require_success:
  "require_complete_from from c = (Inr v, c') \<Longrightarrow>
     conn_db c' = conn_db c \<and> \<not> from < Position (as_u64 (ledger_high (conn_db c)))"
  using read_success [OF transparent_require reads_require, of "from" c v c']
  by (simp add: require_complete_from_def job_simps split: if_splits)

lemma save_success:
  assumes "save_checkpoint name at c = (Inr v, c')"
  shows "uint (get at) \<le> i64_max \<and> (\<exists>now. conn_db c' = upsert_checkpoint name (uint (get at)) now (conn_db c))"
proof -
  from calm_success [OF transparent_save_checkpoint assms] have "save_checkpoint name at (calm c) = (Inr v, calm c')" .
  moreover have "conn_db (calm c') = conn_db c'" by simp
  ultimately show ?thesis
    by (cases "stored_position at") (auto simp: save_checkpoint_calm stored_position_iff dest!: arg_cong [where f = conn_db] sym [where t = "conn_db c'"])
qed

lemma apply_success:
  assumes "\<forall>event. writes_only (projection_apply code event) (f event)"
    and "apply_events code events at p c = (Returned (Inr v), p', c')"
  shows "conn_db c' = (conn_db c)\<lparr>caller_tables := fold f events (caller_tables (conn_db c))\<rparr>
     \<and> v = fold (\<lambda>event _. recorded_position event) events at"
  using assms(2)
proof (induction events arbitrary: at p c)
  case (Cons event events)
  then obtain p1 c1 where step: "projection_apply code event p c = (Returned (Inr ()), p1, c1)"
    and rest: "apply_events code events (recorded_position event) p1 c1 = (Returned (Inr v), p', c')"
    by (auto simp: fold_Inr)
  then show ?case using Cons.IH [OF rest] assms(1) by (auto simp: writes_only_def)
qed (simp add: fold_Inr)

section \<open>What a transaction of a runner leaves\<close>

lemma folding_cases:
  assumes "folding body p c = (r, c')"
  obtains p' e where "r = Returned (Inr (p', Inl e))" "conn_db c' = conn_db c"
  | message where "r = Unwound message" "conn_db c' = conn_db c"
  | p' v c1 c2 where "r = Returned (Inr (p', Inr v))" "conn_db c1 = conn_db c"
      "body p c1 = (Returned (Inr v), p', c2)" "conn_db c' = conn_db c2"
proof -
  obtain f c1 where f: "next_fault c = (f, c1)" and c1: "conn_db c1 = conn_db c"
    using next_fault_clock [of c] by (metis prod.exhaust)
  obtain out p' c2 where b: "body p c1 = (out, p', c2)" by (metis prod.exhaust)
  obtain f' c3 where f': "next_fault c2 = (f', c3)" and c3: "conn_db c3 = conn_db c2"
    using next_fault_clock [of c2] by (metis prod.exhaust)
  show ?thesis
    using assms f b f' c3 c1 that by (auto simp: folding_def split: option.splits ran.splits sum.splits)
qed

definition committed_by :: "('m, 'p, 'a) fold_step \<Rightarrow> 'p \<Rightarrow> 'a \<Rightarrow> 'p \<Rightarrow> 'm database \<Rightarrow> 'm database \<Rightarrow> bool" where
  "committed_by body p v p' d d' \<longleftrightarrow>
     (\<exists>c c'. conn_db c = d \<and> conn_db c' = d' \<and> body p c = (Returned (Inr v), p', c'))"

lemma folding_job_cases:
  assumes "folding_job g body p c = (r, c')"
  shows "(\<exists>p' e. r = Inr (p', Inl e)) \<and> conn_db c' = conn_db c
    \<or> (\<exists>v p'. committed_by body p v p' (conn_db c) (conn_db c')
          \<and> (r = Inr (Some p', Inr v) \<or> remove_fault g \<noteq> None \<and> (\<exists>e. r = Inr (None, Inl e))))"
proof (cases "install_fault g")
  case (Some e)
  then show ?thesis using assms by (auto simp: folding_job_def guarded_def)
next
  case None
  obtain o1 c1 where f: "folding body p c = (o1, c1)" by force
  then show ?thesis
  proof (cases rule: folding_cases)
    case 1
    then show ?thesis using assms f None by (auto simp: folding_job_def guarded_def split: option.splits)
  next
    case 2
    then show ?thesis using assms f None by (auto simp: folding_job_def guarded_def split: option.splits)
  next
    case (3 p' v c2 c3)
    then have "committed_by body p v p' (conn_db c) (conn_db c1)" by (auto simp: committed_by_def)
    then show ?thesis using assms f None 3(1) by (auto simp: folding_job_def guarded_def split: option.splits)
  qed
qed

lemma runner_transaction_cases:
  assumes "runner_transaction g a body r s = (out, r', s')"
  shows "s' = s\<lparr>isle_db := isle_db s'\<rparr> \<and> r' = r\<lparr>runner_projection := runner_projection r'\<rparr>"
    and "(\<exists>e. out = Inl e) \<and> isle_db s' = isle_db s
      \<or> (\<exists>p v p'. runner_projection r = Some p \<and> committed_by body p v p' (isle_db s) (isle_db s')
            \<and> (out = Inr v \<and> runner_projection r' = Some p'
               \<or> remove_fault g \<noteq> None \<and> (\<exists>e. out = Inl e) \<and> runner_projection r' = None))"
proof -
  show "s' = s\<lparr>isle_db := isle_db s'\<rparr> \<and> r' = r\<lparr>runner_projection := runner_projection r'\<rparr>"
    using assms by (auto simp: runner_transaction_def split: option.splits prod.splits sum.splits)
  show "(\<exists>e. out = Inl e) \<and> isle_db s' = isle_db s
      \<or> (\<exists>p v p'. runner_projection r = Some p \<and> committed_by body p v p' (isle_db s) (isle_db s')
            \<and> (out = Inr v \<and> runner_projection r' = Some p'
               \<or> remove_fault g \<noteq> None \<and> (\<exists>e. out = Inl e) \<and> runner_projection r' = None))"
  proof (cases "runner_projection r")
    case None
    then show ?thesis using assms by (auto simp: runner_transaction_def)
  next
    case (Some p)
    show ?thesis
    proof (cases "isle_fault a")
      case (Some e)
      then show ?thesis using assms \<open>runner_projection r = Some p\<close>
        by (auto simp: runner_transaction_def isle_call_def)
    next
      case None
      let ?c = "\<lparr> conn_db = isle_db s, faults = stmt_faults a, clock = readings a \<rparr>"
      obtain o1 c1 where run: "folding_job g body p ?c = (o1, c1)" by force
      have "runner_transaction g a body r s =
          (case o1 of Inl e \<Rightarrow> (Inl e, r\<lparr>runner_projection := None\<rparr>, s\<lparr>isle_db := conn_db c1\<rparr>)
           | Inr (p', outcome) \<Rightarrow> (outcome, r\<lparr>runner_projection := p'\<rparr>, s\<lparr>isle_db := conn_db c1\<rparr>))"
        using Some None run by (simp add: runner_transaction_def isle_call_def split: sum.splits)
      with folding_job_cases [OF run] assms Some show ?thesis by (fastforce split: sum.splits)
    qed
  qed
qed

section \<open>One batch\<close>

text \<open>What a projection's transaction leaves alone: the log, and the other consumers' cursors.\<close>

definition only_folds :: "rust_string \<Rightarrow> 'm database \<Rightarrow> 'm database \<Rightarrow> bool" where
  "only_folds name d d' \<longleftrightarrow>
     tbl_events d' = tbl_events d \<and> events_auto d' = events_auto d \<and> tbl_stream_seq d' = tbl_stream_seq d
     \<and> tbl_retention d' = tbl_retention d \<and> retention_auto d' = retention_auto d
     \<and> tbl_exports d' = tbl_exports d \<and> exports_auto d' = exports_auto d
     \<and> (distinct (map fst (tbl_checkpoints d)) \<longrightarrow> distinct (map fst (tbl_checkpoints d')))
     \<and> (\<forall>other. other \<noteq> name \<longrightarrow> cursor_of d' other = cursor_of d other)"

lemma only_folds_refl [simp]: "only_folds name d (d\<lparr>caller_tables := m\<rparr>)"
  by (simp add: only_folds_def cursor_of_def)

lemma only_folds_upsert [simp]: "only_folds name d (upsert_checkpoint name at now (d\<lparr>caller_tables := m\<rparr>))"
  by (simp add: only_folds_def cursor_of_upsert) (simp add: cursor_of_def upsert_checkpoint_def distinct_update)

lemma only_folds_ok: "only_folds name d d' \<Longrightarrow> db_ok x d' = db_ok x d"
  using db_ok_same_events [of d' d x] by (simp add: only_folds_def)

definition folded_batch ::
  "ext \<Rightarrow> upcast_chain \<Rightarrow> 'm read_model \<Rightarrow> rust_string \<Rightarrow> rust_string list option \<Rightarrow> bool \<Rightarrow> nat
     \<Rightarrow> recorded list \<Rightarrow> 'm database \<Rightarrow> 'm database \<Rightarrow> bool" where
  "folded_batch x chain M name kinds tolerates n recs d d' \<longleftrightarrow>
     log_page x chain (cursor_of d name) (kinds_filter kinds) n d = Inr recs
     \<and> (tolerates \<or> \<not> cursor_of d name < Position (as_u64 (ledger_high d)))
     \<and> cursor_of d' name = reached_by n recs (cursor_of d name) (position_of_stored (newest d))
     \<and> caller_tables d' = fold (model_apply M) recs (caller_tables d) \<and> only_folds name d d'"

lemma page_is_full:
  assumes "log_page x chain c f (unat batch) d = Inr recs"
  shows "usize_of (length recs) = batch \<longleftrightarrow> length recs = unat batch"
proof -
  have "length recs \<le> unat batch"
    using traverse_length [OF assms [unfolded log_page_def]] by simp
  then have "unat (usize_of (length recs)) = length recs"
    using unsigned_less [of batch, where 'a = nat] by (simp add: usize_of_def unsigned_of_nat take_bit_nat_eq_self)
  then show ?thesis by (auto simp: word_unat_eq_iff)
qed

lemma reached_forward:
  assumes "db_ok x d" and "log_page x chain c f n d = Inr recs"
  shows "c \<le> reached_by n recs c (position_of_stored (newest d))"
proof (cases "n = 0")
  case True
  then show ?thesis using assms(2) by (simp add: log_page_def reached_by_def)
next
  case False
  then show ?thesis using page_reached(1) [OF assms _ newest_le_auto [OF assms(1)] refl] by simp
qed

lemma cursor_after_save:
  assumes "if at > cursor_of d name then \<exists>now. d' = upsert_checkpoint name (uint (get at)) now d else d' = d"
    and "cursor_of d name \<le> at"
  shows "cursor_of d' name = at"
proof -
  have "Position (as_u64 (uint (get at))) = at" by (cases at) (simp add: as_u64_def)
  then show ?thesis using assms by (auto simp: cursor_of_upsert split: if_splits)
qed

lemma batch_committed:
  assumes "committed_by (batch_body x chain code batch) p v p' d d'" and "db_ok x d"
    and "steady code name kinds tolerates" and "implements code M"
  shows "\<exists>recs. fst v = usize_of (length recs) \<and> folded_batch x chain M name kinds tolerates (unat batch) recs d d'"
proof -
  obtain p c c' where c: "conn_db c = d" "conn_db c' = d'" and run: "batch_body x chain code batch p c = (Returned (Inr v), p', c')"
    using assms(1) by (auto simp: committed_by_def)
  have st: "projection_name code p = name" "projection_kinds code p = kinds" "projection_tolerates code p = tolerates" for p
    using assms(3) by (simp_all add: steady_def)
  let ?f = "kinds_filter kinds"
  define advance where "advance recs reached hd = (if usize_of (length recs) = batch then reached else max reached hd)"
    for recs :: "recorded list" and reached hd :: position
  obtain cursor c1 c2 hd c3 recs c4 reached p5 c5 u1 u2 where
    load: "load_checkpoint name c = (Inr cursor, c1)"
    and comp: "if tolerates then c2 = c1 else require_complete_from cursor c1 = (Inr u1, c2)"
    and hd: "head_position_in c2 = (Inr hd, c3)"
    and sel: "select_recorded x chain cursor ?f batch c3 = (Inr recs, c4)"
    and app: "apply_events code recs cursor p c4 = (Returned (Inr reached), p5, c5)"
    and save: "if advance recs reached hd > cursor then save_checkpoint name (advance recs reached hd) c5 = (Inr u2, c') else c' = c5"
    and v: "v = (usize_of (length recs), advance recs reached hd)"
    using run unfolding batch_body_def fold_Inr Let_def st advance_def by (elim exE conjE, hypsubst) (rule that [unfolded advance_def], assumption+)
  have d: "conn_db c1 = d" "cursor = cursor_of d name" using load_success [OF load] c by simp_all
  have d2: "conn_db c2 = d" and tol: "tolerates \<or> \<not> cursor < Position (as_u64 (ledger_high d))"
    using comp require_success [of cursor c1 u1 c2] d by (auto split: if_splits)
  have d3: "conn_db c3 = d" and hd': "hd = position_of_stored (newest d)"
    using head_success [OF _ hd] assms(2) d2 by simp_all
  have d4: "conn_db c4 = d" and page: "log_page x chain cursor ?f (unat batch) d = Inr recs"
    using select_success [OF _ sel] assms(2) d3 by simp_all
  have d5: "conn_db c5 = d\<lparr>caller_tables := fold (model_apply M) recs (caller_tables d)\<rparr>"
    and reached: "reached = fold (\<lambda>event _. recorded_position event) recs cursor"
    using apply_success [OF _ app] assms(4) d4 by (auto simp: implements_def)
  let ?at = "advance recs reached hd" and ?folded = "d\<lparr>caller_tables := fold (model_apply M) recs (caller_tables d)\<rparr>"
  have at: "?at = reached_by (unat batch) recs cursor (position_of_stored (newest d))"
    by (simp add: advance_def reached_by_def Let_def page_is_full [OF page] reached hd')
  have saved: "if ?at > cursor_of ?folded name then \<exists>now. d' = upsert_checkpoint name (uint (get ?at)) now ?folded
      else d' = ?folded"
    using save save_success [of name ?at c5 u2 c'] c(2) d(2) d5 by (auto simp: cursor_of_def split: if_splits)
  have "cursor_of ?folded name = cursor" using d(2) by (simp add: cursor_of_def)
  then have "cursor_of d' name = ?at"
    using cursor_after_save [OF saved] reached_forward [OF assms(2) page] at by simp
  moreover have "caller_tables d' = fold (model_apply M) recs (caller_tables d)" "only_folds name d d'"
    using saved by (auto split: if_splits)
  ultimately have "folded_batch x chain M name kinds tolerates (unat batch) recs d d'"
    using page tol at d(2) by (simp add: folded_batch_def)
  then show ?thesis using v by auto
qed

lemma run_once_cases:
  assumes "run_once x g a r s = (out, r', s')" and "db_ok x (isle_db s)"
    and "steady (runner_code r) name kinds tolerates" and "implements (runner_code r) M"
  shows "s' = s\<lparr>isle_db := isle_db s'\<rparr> \<and> r' = r\<lparr>runner_projection := runner_projection r'\<rparr>"
    and "(\<exists>e. out = Inl e) \<and> isle_db s' = isle_db s
      \<or> (\<exists>recs. folded_batch x (upcasters s) M name kinds tolerates (unat (runner_batch r)) recs (isle_db s) (isle_db s')
            \<and> (out = Inr (usize_of (length recs)) \<and> runner_projection r' \<noteq> None
               \<or> remove_fault g \<noteq> None \<and> (\<exists>e. out = Inl e) \<and> runner_projection r' = None))"
proof -
  obtain o1 where run: "runner_transaction g a (batch_body x (upcasters s) (runner_code r) (runner_batch r)) r s = (o1, r', s')"
    and out: "out = rmap fst o1"
    using assms(1) by (auto simp: run_once_def split: prod.splits sum.splits)
  show "s' = s\<lparr>isle_db := isle_db s'\<rparr> \<and> r' = r\<lparr>runner_projection := runner_projection r'\<rparr>"
    by (rule runner_transaction_cases(1) [OF run])
  from runner_transaction_cases(2) [OF run] batch_committed [OF _ assms(2-4)]
  show "(\<exists>e. out = Inl e) \<and> isle_db s' = isle_db s
      \<or> (\<exists>recs. folded_batch x (upcasters s) M name kinds tolerates (unat (runner_batch r)) recs (isle_db s) (isle_db s')
            \<and> (out = Inr (usize_of (length recs)) \<and> runner_projection r' \<noteq> None
               \<or> remove_fault g \<noteq> None \<and> (\<exists>e. out = Inl e) \<and> runner_projection r' = None))"
    by (fastforce simp: out result_simps)
qed

section \<open>One runner per name\<close>

text \<open>The runners that live: made through the log, dropped, or taken apart for their projection.\<close>

inductive runners_alive :: "'m shared \<Rightarrow> ('m, 'p) runner list \<Rightarrow> bool" where
  none: "live_runners s = {} \<Longrightarrow> runners_alive s []"
| making: "runners_alive s rs \<Longrightarrow> runner_new code p s = (Inr r, s') \<Longrightarrow> runners_alive s' (with_batch b r # rs)"
| dropping: "runners_alive s (rs @ r # rs') \<Longrightarrow> runners_alive (runner_drop r s) (rs @ rs')"
| unwrapping: "runners_alive s (rs @ r # rs') \<Longrightarrow> into_inner r s = (out, s') \<Longrightarrow> runners_alive s' (rs @ rs')"
| working: "runners_alive s (rs @ r # rs') \<Longrightarrow> run_once x g a r s = (out', r', s') \<Longrightarrow> runners_alive s' (rs @ r' # rs')"

lemma runner_transaction_names:
  assumes "runner_transaction g a body r s = (out, r', s')"
  shows "live_runners s' = live_runners s" and "runner_name r' = runner_name r"
  using runner_transaction_cases(1) [OF assms] by (metis shared.simps(8) shared.surjective shared.update_convs(1),
    metis runner.select_convs(4) runner.surjective runner.update_convs(2))

lemma runners_alive_names: "runners_alive s rs \<Longrightarrow> live_runners s = set (map runner_name rs) \<and> distinct (map runner_name rs)"
proof (induction rule: runners_alive.induct)
  case (working s rs r rs' x g a out' r' s')
  then obtain o1 where "runner_transaction g a (batch_body x (upcasters s) (runner_code r) (runner_batch r)) r s = (o1, r', s')"
    by (auto simp: run_once_def split: prod.splits sum.splits)
  from runner_transaction_names [OF this] working show ?case by simp
qed (auto simp: runner_new_def runner_drop_def into_inner_def with_batch_def Let_def split: if_splits)

end
