(* ===== verification/Projection_Run.thy ===== *)
theory Projection_Run
  imports Projection_Theorems
begin

text \<open>
  A runner that meets no failure: one batch applies exactly the next page, and catching up returns,
  having folded everything the log holds past the cursor.
\<close>

section \<open>A projection that does not fail\<close>

definition obliges :: "('m, 'p) callback \<Rightarrow> bool" where
  "obliges cb \<longleftrightarrow> (\<forall>p c. \<exists>p' c'. cb p c = (Returned (Inr ()), p', c') \<and> faults c' = faults c)"

definition obliging :: "('m, 'p) projection \<Rightarrow> bool" where
  "obliging code \<longleftrightarrow> (\<forall>event. obliges (projection_apply code event))
     \<and> obliges (projection_init code) \<and> obliges (projection_reset code)"

lemma obligesD: "obliges cb \<Longrightarrow> \<exists>p' c'. cb p c = (Returned (Inr ()), p', c') \<and> faults c' = faults c"
  by (simp add: obliges_def)

lemma apply_runs:
  assumes "obliging code"
  shows "\<exists>p' c'. apply_events code recs at p c =
     (Returned (Inr (fold (\<lambda>rec _. recorded_position rec) recs at)), p', c') \<and> faults c' = faults c"
proof (induction recs arbitrary: at p c)
  case (Cons rec recs)
  obtain p1 c1 where "projection_apply code rec p c = (Returned (Inr ()), p1, c1)" "faults c1 = faults c"
    using assms unfolding obliging_def obliges_def by blast
  then show ?case
    using Cons.IH [of "recorded_position rec" p1 c1] by (auto simp: fbind_def)
qed (simp add: freturn_def)

text \<open>What a read and a save of the cursor ask: a filter the log can take, and a place it can store.\<close>

definition foldable :: "ext \<Rightarrow> rust_string list option \<Rightarrow> 'm database \<Rightarrow> rust_string \<Rightarrow> bool" where
  "foldable x kinds d name \<longleftrightarrow>
     askable (kinds_filter kinds) \<and> uint (get (cursor_of d name)) \<le> i64_max \<and> db_ok x d"

lemma newest_small: "db_ok x d \<Longrightarrow> uint (get (position_of_stored (newest d))) \<le> i64_max"
  using newest_bounds [of x d] db_ok_auto [of x d] by (simp add: position_of_stored_def uint_as_u64)

lemma reached_small:
  assumes "foldable x kinds d name" and "log_page x chain (cursor_of d name) (kinds_filter kinds) n d = Inr recs"
  shows "uint (get (reached_by n recs (cursor_of d name) (position_of_stored (newest d)))) \<le> i64_max"
proof (cases "n = 0")
  case True
  then show ?thesis using assms by (simp add: log_page_def reached_by_def foldable_def)
next
  case False
  then have "reached_by n recs (cursor_of d name) (position_of_stored (newest d))
      \<le> max (cursor_of d name) (position_of_stored (events_auto d))"
    using page_reached(2) [OF _ assms(2) _ newest_le_auto refl, of x] assms(1) by (simp add: foldable_def)
  then show ?thesis using small_max place_small [of x d] assms(1) by (auto simp: foldable_def)
qed

lemma select_page:
  assumes "faults c = []" and "db_ok x (conn_db c)" and "askable f" and "uint (get from) \<le> i64_max"
  shows "select_recorded x chain from f limit c = (log_page x chain from f (unat limit) (conn_db c), c)"
proof -
  obtain at where "build_read from f = Inr at" using assms(3,4) by (auto simp: askable_def is_ok_iff)
  moreover have "matching x f (conn_db c) = []" if "selects_nothing f"
    using row_matches_nothing [OF that] by (simp add: matching_def)
  ultimately show ?thesis using select_recorded_calm [OF assms(1,2), of chain "from" f limit] by (auto simp: log_page_def)
qed

lemma head_runs:
  "faults c = [] \<Longrightarrow> db_ok x (conn_db c) \<Longrightarrow> head_position_in c = (Inr (position_of_stored (newest (conn_db c))), c)"
  by (simp add: head_position_in_def job_simps max_position_newest position_of_stored_def)

lemma save_runs:
  "faults c = [] \<Longrightarrow> uint (get at) \<le> i64_max \<Longrightarrow> \<exists>c'. save_checkpoint name at c = (Inr (), c') \<and> faults c' = []"
  using stored_position_iff [of at "uint (get at)"] by (simp add: job_simps)

lemma batch_runs:
  assumes "faults c = []" and "foldable x kinds (conn_db c) name" and "obliging code" and "steady code name kinds tolerates"
    and "tolerates \<or> \<not> cursor_of (conn_db c) name < Position (as_u64 (ledger_high (conn_db c)))"
    and "log_page x chain (cursor_of (conn_db c) name) (kinds_filter kinds) (unat batch) (conn_db c) = Inr recs"
  shows "\<exists>v p' c'. batch_body x chain code batch p c = (Returned (Inr v), p', c') \<and> faults c' = []"
proof -
  let ?d = "conn_db c"
  have ok: "db_ok x ?d" and ask: "askable (kinds_filter kinds)" and small: "uint (get (cursor_of ?d name)) \<le> i64_max"
    using assms(2) by (simp_all add: foldable_def)
  have st: "projection_name code p = name" "projection_kinds code p = kinds" "projection_tolerates code p = tolerates" for p
    using assms(4) by (simp_all add: steady_def)
  note head = head_runs [OF assms(1) ok]
  have sel: "select_recorded x chain (cursor_of ?d name) (kinds_filter kinds) batch c = (Inr recs, c)"
    using select_page [OF assms(1) ok ask small] assms(6) by simp
  obtain p1 c1 where app: "apply_events code recs (cursor_of ?d name) p c =
      (Returned (Inr (fold (\<lambda>rec _. recorded_position rec) recs (cursor_of ?d name))), p1, c1)" "faults c1 = []"
    using apply_runs [OF assms(3)] assms(1) by metis
  let ?at = "reached_by (unat batch) recs (cursor_of ?d name) (position_of_stored (newest ?d))"
  obtain c2 where save: "save_checkpoint name ?at c1 = (Inr (), c2)" "faults c2 = []"
    using save_runs [OF app(2) reached_small [OF assms(2,6)]] by blast
  have guard: "\<not> tolerates \<Longrightarrow> require_complete_from (cursor_of ?d name) c = (Inr (), c)"
    using assms(1,5) by (auto simp: require_complete_from_def job_simps)
  show ?thesis
    using save app(2)
    by (auto simp: batch_body_def fbind_def ask_def own_def st guard freturn_def load_checkpoint_calm [OF assms(1)] head sel app(1)
        Let_def page_is_full [OF assms(6)] reached_by_def split: if_splits)
qed

lemma run_once_runs:
  assumes "foldable x kinds (isle_db s) name" and "obliging (runner_code r)" and "steady (runner_code r) name kinds tolerates"
    and "tolerates \<or> \<not> cursor_of (isle_db s) name < Position (as_u64 (ledger_high (isle_db s)))"
    and "log_page x (upcasters s) (cursor_of (isle_db s) name) (kinds_filter kinds) (unat (runner_batch r)) (isle_db s) = Inr recs"
    and "runner_projection r = Some p"
  shows "\<exists>v r' s'. run_once x quiet (calm_at t) r s = (Inr v, r', s')"
proof -
  let ?c = "\<lparr> conn_db = isle_db s, faults = [], clock = [t] \<rparr>"
  obtain v p' c' where "batch_body x (upcasters s) (runner_code r) (runner_batch r) p ?c = (Returned (Inr v), p', c')" "faults c' = []"
    using batch_runs [of ?c x kinds name "runner_code r" tolerates "upcasters s" "runner_batch r" recs p] assms by auto
  then show ?thesis
    using assms(6)
    by (cases v) (simp add: run_once_def runner_transaction_def isle_call_def calm_at_def folding_job_def folding_def next_fault_def)
qed

section \<open>What is still to fold\<close>

definition pending :: "ext \<Rightarrow> rust_string list option \<Rightarrow> rust_string \<Rightarrow> 'm database \<Rightarrow> event_row list" where
  "pending x kinds name d =
     List.filter (\<lambda>r. cursor_of d name < row_place r) (matching x (kinds_filter kinds) d)"

lemma pending_page: "log_page x chain (cursor_of d name) (kinds_filter kinds) n d = traverse (record_row x chain) (take n (pending x kinds name d))"
  by (simp add: log_page_def pending_def)

lemma traverse_prefix: "traverse f (xs @ ys) = Inr zs \<Longrightarrow> \<exists>us vs. zs = us @ vs \<and> traverse f xs = Inr us \<and> traverse f ys = Inr vs"
  by (auto simp: traverse_append result_simps)

text \<open>A batch takes the first of what is pending, in the log's order, and leaves the rest pending.\<close>

lemma folded_pending:
  assumes batch: "folded_batch x chain M name kinds tolerates n recs d d'" and ok: "db_ok x d" and n: "0 < n"
  shows "\<exists>rows. pending x kinds name d = rows @ pending x kinds name d' \<and> traverse (record_row x chain) rows = Inr recs"
    and "cursor_of d name \<le> cursor_of d' name"
    and "recs = [] \<Longrightarrow> pending x kinds name d = [] \<and> position_of_stored (newest d) \<le> cursor_of d' name"
proof -
  let ?c = "cursor_of d name" and ?c' = "cursor_of d' name" and ?f = "kinds_filter kinds"
  have page: "log_page x chain ?c ?f n d = Inr recs"
    and c': "?c' = reached_by n recs ?c (position_of_stored (newest d))" and same: "matching x ?f d' = matching x ?f d"
    using batch by (simp_all add: folded_batch_def only_folds_def matching_def)
  note reached = page_reached [OF ok page n newest_le_auto [OF ok] c']
  show "?c \<le> ?c'" by (rule reached(1))
  have "pending x kinds name d = range_rows x ?f ?c ?c' d @ pending x kinds name d'"
    unfolding pending_def same range_rows_def
    by (rule filter_above_append [OF matching_place_sorted [OF ok] reached(1), symmetric])
  moreover have "traverse (record_row x chain) (range_rows x ?f ?c ?c' d) = Inr recs"
    using reached(3) by (auto simp: delivered_def)
  ultimately show "\<exists>rows. pending x kinds name d = rows @ pending x kinds name d' \<and> traverse (record_row x chain) rows = Inr recs"
    by blast
  show "pending x kinds name d = [] \<and> position_of_stored (newest d) \<le> ?c'" if "recs = []"
  proof -
    have "take n (pending x kinds name d) = []"
      using traverse_length [OF page [unfolded pending_page]] that by (auto simp: min_def split: if_splits)
    then show ?thesis using n that c' by (simp add: reached_by_def)
  qed
qed

section \<open>Catching up\<close>

definition clear_to_fold :: "bool \<Rightarrow> rust_string \<Rightarrow> 'm database \<Rightarrow> bool" where
  "clear_to_fold tolerates name d \<longleftrightarrow> tolerates \<or> \<not> cursor_of d name < Position (as_u64 (ledger_high d))"

lemma folded_keeps:
  assumes batch: "folded_batch x chain M name kinds tolerates n recs d d'" and ok: "foldable x kinds d name"
    and n: "0 < n"
  shows "foldable x kinds d' name" and "clear_to_fold tolerates name d'"
proof -
  have same: "only_folds name d d'" and page: "log_page x chain (cursor_of d name) (kinds_filter kinds) n d = Inr recs"
    and c': "cursor_of d' name = reached_by n recs (cursor_of d name) (position_of_stored (newest d))"
    and clear: "clear_to_fold tolerates name d"
    using batch by (simp_all add: folded_batch_def clear_to_fold_def)
  have db: "db_ok x d" using ok by (simp add: foldable_def)
  show "foldable x kinds d' name"
    using reached_small [OF ok page] ok only_folds_ok [OF same, of x] by (simp add: foldable_def c')
  have "ledger_high d' = ledger_high d" using same by (simp add: only_folds_def ledger_high_def)
  then show "clear_to_fold tolerates name d'"
    using clear folded_pending(2) [OF batch db n] unfolding clear_to_fold_def by (metis order_le_less_trans)
qed

lemma only_folds_trans: "only_folds name d d' \<Longrightarrow> only_folds name d' d'' \<Longrightarrow> only_folds name d d''"
  by (simp add: only_folds_def)

definition calmly :: "i64 list \<Rightarrow> (guard_env \<times> attempt) list" where
  "calmly ts = map (\<lambda>t. (quiet, calm_at t)) ts"

text \<open>A runner and the log it folds, in order.\<close>

definition ready ::
  "ext \<Rightarrow> 'm read_model \<Rightarrow> rust_string \<Rightarrow> rust_string list option \<Rightarrow> bool \<Rightarrow> ('m, 'p) runner \<Rightarrow> 'm shared \<Rightarrow> bool" where
  "ready x M name kinds tolerates r s \<longleftrightarrow>
     foldable x kinds (isle_db s) name \<and> clear_to_fold tolerates name (isle_db s)
     \<and> steady (runner_code r) name kinds tolerates \<and> implements (runner_code r) M \<and> obliging (runner_code r)
     \<and> 0 < runner_batch r \<and> runner_projection r \<noteq> None"

lemma run_once_calm:
  assumes ready: "ready x M name kinds tolerates r s"
    and recs: "traverse (record_row x (upcasters s)) (pending x kinds name (isle_db s)) = Inr recs"
  shows "\<exists>page rest r' s'. run_once x quiet (calm_at t) r s = (Inr (usize_of (length page)), r', s')
     \<and> recs = page @ rest \<and> (page = [] \<longrightarrow> recs = []) \<and> length page \<le> unat (runner_batch r)
     \<and> folded_batch x (upcasters s) M name kinds tolerates (unat (runner_batch r)) page (isle_db s) (isle_db s')
     \<and> traverse (record_row x (upcasters s)) (pending x kinds name (isle_db s')) = Inr rest
     \<and> ready x M name kinds tolerates r' s' \<and> upcasters s' = upcasters s \<and> runner_batch r' = runner_batch r"
proof -
  let ?d = "isle_db s" and ?n = "unat (runner_batch r)"
  have r: "foldable x kinds ?d name" "clear_to_fold tolerates name ?d" "steady (runner_code r) name kinds tolerates"
    "implements (runner_code r) M" "obliging (runner_code r)" "0 < ?n" "db_ok x ?d"
    using ready by (simp_all add: ready_def foldable_def word_less_nat_alt)
  obtain p where p: "runner_projection r = Some p" using ready by (auto simp: ready_def)
  obtain page where page: "log_page x (upcasters s) (cursor_of ?d name) (kinds_filter kinds) ?n ?d = Inr page"
    using recs traverse_prefix [of _ "take ?n (pending x kinds name ?d)" "drop ?n (pending x kinds name ?d)" recs]
    by (auto simp: pending_page)
  obtain v r' s' where run: "run_once x quiet (calm_at t) r s = (Inr v, r', s')"
    using run_once_runs [OF r(1,5,3) r(2) [unfolded clear_to_fold_def] page p] by blast
  obtain page' where batch: "folded_batch x (upcasters s) M name kinds tolerates ?n page' ?d (isle_db s')"
    and out: "v = usize_of (length page')" "runner_projection r' \<noteq> None"
    using run_once_cases(2) [OF run r(7,3,4)] by auto
  have same: "s' = s\<lparr>isle_db := isle_db s'\<rparr>" "r' = r\<lparr>runner_projection := runner_projection r'\<rparr>"
    using run_once_cases(1) [OF run r(7,3,4)] by auto
  have "page' = page" using batch page by (simp add: folded_batch_def)
  note batch = batch [unfolded this]
  obtain rows where rows: "pending x kinds name ?d = rows @ pending x kinds name (isle_db s')"
    "traverse (record_row x (upcasters s)) rows = Inr page"
    using folded_pending(1) [OF batch r(7,6)] by blast
  obtain rest where rest: "recs = page @ rest" "traverse (record_row x (upcasters s)) (pending x kinds name (isle_db s')) = Inr rest"
    using traverse_prefix [OF recs [unfolded rows(1)]] rows(2) by auto
  have len: "length page \<le> ?n" using traverse_length [OF page [unfolded log_page_def]] by simp
  have "page = [] \<longrightarrow> recs = []" using folded_pending(3) [OF batch r(7,6)] recs by auto
  moreover have "ready x M name kinds tolerates r' s'"
    using folded_keeps [OF batch r(1,6)] ready out(2) by (simp add: ready_def) (metis same(2) runner.select_convs runner.surjective runner.update_convs(2))
  moreover have "upcasters s' = upcasters s" "runner_batch r' = runner_batch r"
    by (subst same(1), simp, subst same(2), simp)
  ultimately show ?thesis using run out rest batch len \<open>page' = page\<close> by blast
qed

lemma usize_of_add: "usize_of (m + n) = usize_of m + usize_of n"
  by (simp add: usize_of_def)

lemma usize_of_length_zero:
  assumes "length page \<le> unat (b :: usize)"
  shows "usize_of (length page) = 0 \<longleftrightarrow> page = []"
proof -
  have "unat (usize_of (length page)) = length page"
    using assms unsigned_less [of b, where 'a = nat] by (simp add: usize_of_def unsigned_of_nat take_bit_nat_eq_self)
  then show ?thesis by (metis length_0_conv unat_eq_zero usize_of_def of_nat_0)
qed

definition caught_up ::
  "ext \<Rightarrow> 'm read_model \<Rightarrow> rust_string \<Rightarrow> rust_string list option \<Rightarrow> recorded list \<Rightarrow> 'm database \<Rightarrow> 'm database \<Rightarrow> bool" where
  "caught_up x M name kinds recs d d' \<longleftrightarrow>
     caller_tables d' = fold (model_apply M) recs (caller_tables d) \<and> only_folds name d d'
     \<and> pending x kinds name d' = [] \<and> position_of_stored (newest d') \<le> cursor_of d' name"

lemma catch_up_calm:
  assumes "ready x M name kinds tolerates r s"
    and "traverse (record_row x (upcasters s)) (pending x kinds name (isle_db s)) = Inr recs"
    and "length recs < length ts"
  shows "\<exists>r' s'. catch_up x (calmly ts) applied r s = Some (Inr (applied + usize_of (length recs)), r', s')
     \<and> ready x M name kinds tolerates r' s' \<and> caught_up x M name kinds recs (isle_db s) (isle_db s')"
  using assms
proof (induction ts arbitrary: applied r s recs)
  case (Cons t ts)
  obtain page rest r1 s1 where run: "run_once x quiet (calm_at t) r s = (Inr (usize_of (length page)), r1, s1)"
    and recs: "recs = page @ rest" "page = [] \<longrightarrow> recs = []" and len: "length page \<le> unat (runner_batch r)"
    and batch: "folded_batch x (upcasters s) M name kinds tolerates (unat (runner_batch r)) page (isle_db s) (isle_db s1)"
    and rest: "traverse (record_row x (upcasters s)) (pending x kinds name (isle_db s1)) = Inr rest"
    and ready: "ready x M name kinds tolerates r1 s1" "upcasters s1 = upcasters s"
    using run_once_calm [OF Cons.prems(1,2)] by blast
  have same: "only_folds name (isle_db s) (isle_db s1)"
    and folded: "caller_tables (isle_db s1) = fold (model_apply M) page (caller_tables (isle_db s))"
    using batch by (simp_all add: folded_batch_def)
  note zero = usize_of_length_zero [OF len]
  show ?case
  proof (cases "page = []")
    case True
    have "db_ok x (isle_db s)" "0 < unat (runner_batch r)"
      using Cons.prems(1) by (simp_all add: ready_def foldable_def word_less_nat_alt)
    from folded_pending [OF batch this] True have
      "pending x kinds name (isle_db s1) = []" "position_of_stored (newest (isle_db s)) \<le> cursor_of (isle_db s1) name"
      by auto
    moreover have "newest (isle_db s1) = newest (isle_db s)" using same by (simp add: newest_def only_folds_def)
    ultimately show ?thesis
      using run zero True recs ready(1) same folded by (auto simp: calmly_def caught_up_def usize_of_def)
  next
    case False
    have "traverse (record_row x (upcasters s1)) (pending x kinds name (isle_db s1)) = Inr rest" "length rest < length ts"
      using rest ready(2) recs(1) False Cons.prems(3) by (simp, cases page) auto
    from Cons.IH [OF ready(1) this, of "applied + usize_of (length page)"] obtain r2 s2 where
      loop: "catch_up x (calmly ts) (applied + usize_of (length page)) r1 s1
          = Some (Inr (applied + usize_of (length page) + usize_of (length rest)), r2, s2)"
      and last: "ready x M name kinds tolerates r2 s2" "caught_up x M name kinds rest (isle_db s1) (isle_db s2)"
      by blast
    have "catch_up x (calmly (t # ts)) applied r s = catch_up x (calmly ts) (applied + usize_of (length page)) r1 s1"
      using run zero False by (simp add: calmly_def)
    moreover have "caught_up x M name kinds recs (isle_db s) (isle_db s2)"
      using last(2) same folded only_folds_trans [OF same] by (simp add: caught_up_def recs(1))
    ultimately show ?thesis using loop last(1) by (simp add: recs(1) usize_of_add add.assoc)
  qed
qed simp

text \<open>
  C24. Catching up returns, with everything folded. Where nothing fails, the projection answers, and no
  event past the cursor was removed, the loop ends after at most one round more than there are events to
  fold, in batches of whatever size: it answers how many it applied; the projection's tables are those
  before with every pending event of its kinds folded in, each once and in the log's order; nothing of
  them is pending any more, the cursor is at the head or past it, and the log and every other consumer's
  cursor are as they were.
\<close>

theorem catch_up_folds_everything:
  assumes "ready x M name kinds tolerates r s"
    and "traverse (record_row x (upcasters s)) (pending x kinds name (isle_db s)) = Inr recs"
    and "length recs < length ts"
  shows "\<exists>r' s'. catch_up x (calmly ts) 0 r s = Some (Inr (usize_of (length recs)), r', s')
     \<and> caller_tables (isle_db s') = fold (model_apply M) recs (caller_tables (isle_db s))
     \<and> pending x kinds name (isle_db s') = [] \<and> position_of_stored (newest (isle_db s')) \<le> cursor_of (isle_db s') name
     \<and> only_folds name (isle_db s) (isle_db s')"
  using catch_up_calm [OF assms, of 0] by (auto simp: caught_up_def)

section \<open>A small projection\<close>

text \<open>It counts what it is given.\<close>

definition tally :: "(nat, unit) projection" where
  "tally = \<lparr> projection_name = (\<lambda>_. ''tally''), projection_kinds = default_kinds, projection_init = default_init,
     projection_reset = (\<lambda>p c. (Returned (Inr ()), p, c\<lparr>conn_db := (conn_db c)\<lparr>caller_tables := 0\<rparr>\<rparr>)),
     projection_apply = (\<lambda>event p c. (Returned (Inr ()), p,
        c\<lparr>conn_db := (conn_db c)\<lparr>caller_tables := Suc (caller_tables (conn_db c))\<rparr>\<rparr>)),
     projection_tolerates = default_tolerates \<rparr>"

definition tally_model :: "nat read_model" where
  "tally_model = \<lparr> model_apply = (\<lambda>_. Suc), model_init = id, model_reset = (\<lambda>_. 0), model_empty = 0 \<rparr>"

definition tally_runner :: "(nat, unit) runner" where
  "tally_runner = \<lparr> runner_code = tally, runner_projection = Some (), runner_batch = DEFAULT_BATCH, runner_name = ''tally'' \<rparr>"

definition tallied_db :: "nat database" where
  "tallied_db = appended toy_ext ''s'' (event_object ''paid'' (JObject []) (JObject []) 1 9 1) (empty_database 0)"

lemma tallied_db_ok [simp]: "db_ok toy_ext tallied_db"
  unfolding tallied_db_def
  by (rule db_ok_appended)
    (simp_all add: stored_formI, simp_all add: empty_database_def i64_max_def next_of_def)

lemma tallied_db_sel [simp]:
  "tbl_events tallied_db = [row_of toy_ext ''s'' (event_object ''paid'' (JObject []) (JObject []) 1 9 1) 1]"
  "caller_tables tallied_db = 0" "cursor_of tallied_db name = BEGINNING" "ledger_high tallied_db = 0"
  "events_auto tallied_db = 1" "newest tallied_db = 1"
  by (simp_all add: tallied_db_def empty_database_def cursor_of_def ledger_high_def max_of_def newest_def row_of_def
      appended_def push_def upsert_counter_def)

lemma tally_steady [simp]: "steady tally ''tally'' None False"
  by (simp add: steady_def tally_def default_kinds_def default_tolerates_def)

lemma tally_implements [simp]: "implements tally tally_model"
  by (simp add: implements_def writes_only_def tally_def tally_model_def default_init_def)

lemma tally_obliging [simp]: "obliging tally"
  by (simp add: obliging_def obliges_def tally_def default_init_def)

lemma tally_ready: "ready toy_ext tally_model ''tally'' None False tally_runner (sample_log tallied_db)"
  by (simp add: ready_def foldable_def clear_to_fold_def kinds_filter_def tally_runner_def DEFAULT_BATCH_def
      BEGINNING_def i64_max_def as_u64_def less_position_def)

lemma tally_pending:
  "\<exists>rec. traverse (record_row toy_ext []) (pending toy_ext None ''tally'' tallied_db) = Inr [rec]
     \<and> recorded_position rec = Position 1"
proof -
  have "row_place (row_of toy_ext ''s'' (event_object ''paid'' (JObject []) (JObject []) 1 9 1) 1) = Position 1"
    by (simp add: row_place_def row_of_def position_of_stored_def as_u64_def)
  then show ?thesis
    by (simp add: pending_def kinds_filter_def matching_all BEGINNING_def less_position_def record_row_def
        row_of_event_object(2) result_simps)
qed

theorem catch_up_folds_everything_witness:
  "\<exists>r' s'. catch_up toy_ext (calmly [1, 2]) 0 tally_runner (sample_log tallied_db) = Some (Inr 1, r', s')
     \<and> caller_tables (isle_db s') = 1 \<and> cursor_of (isle_db s') ''tally'' \<ge> Position 1"
proof -
  obtain rec where rec: "traverse (record_row toy_ext []) (pending toy_ext None ''tally'' tallied_db) = Inr [rec]"
    using tally_pending by blast
  have "traverse (record_row toy_ext (upcasters (sample_log tallied_db)))
      (pending toy_ext None ''tally'' (isle_db (sample_log tallied_db))) = Inr [rec]" using rec by simp
  from catch_up_folds_everything [OF tally_ready this, of "[1, 2]"] obtain r' s' where
    run: "catch_up toy_ext (calmly [1, 2]) 0 tally_runner (sample_log tallied_db) = Some (Inr 1, r', s')"
    and out: "caller_tables (isle_db s') = 1" "position_of_stored (newest (isle_db s')) \<le> cursor_of (isle_db s') ''tally''"
      "only_folds ''tally'' tallied_db (isle_db s')"
    by (auto simp: tally_model_def usize_of_def)
  have "newest (isle_db s') = newest tallied_db" using out(3) by (simp add: newest_def only_folds_def)
  then show ?thesis using run out(1,2) by (auto simp: position_of_stored_def as_u64_def)
qed

section \<open>One batch, all or nothing\<close>

text \<open>
  C23. A batch folds and moves the cursor together, or does neither. Whatever fails, panics or is refused in
  one \<open>run_once\<close> of a projection whose callbacks leave the transaction they are given open, a call that answers an error has left the database exactly as it was, unless SQLite would
  not let the guard be taken off after the commit. A call that answers has applied exactly the next page of the
  projection's kinds, in order; has moved the cursor to the last of a full page, and past everything else
  that was there to the head when the page came up short, so a projection of rare kinds does not hold
  retention back; and, unless the projection tolerates it, had lost no event to a removal past its cursor. The log
  and every other cursor stay.
\<close>

theorem run_once_folds_a_page_or_nothing:
  assumes "db_ok x (isle_db s)" and "steady (runner_code r) name kinds tolerates" and "implements (runner_code r) M"
    and "run_once x g a r s = (out, r', s')"
  shows "case out of
     Inl e \<Rightarrow> remove_fault g = None \<longrightarrow> isle_db s' = isle_db s
   | Inr applied \<Rightarrow> \<exists>recs. applied = usize_of (length recs)
       \<and> log_page x (upcasters s) (cursor_of (isle_db s) name) (kinds_filter kinds) (unat (runner_batch r)) (isle_db s) = Inr recs
       \<and> (tolerates \<or> \<not> cursor_of (isle_db s) name < Position (as_u64 (ledger_high (isle_db s))))
       \<and> cursor_of (isle_db s') name = reached_by (unat (runner_batch r)) recs (cursor_of (isle_db s) name)
            (position_of_stored (newest (isle_db s)))
       \<and> caller_tables (isle_db s') = fold (model_apply M) recs (caller_tables (isle_db s))
       \<and> only_folds name (isle_db s) (isle_db s')"
  using run_once_cases(2) [OF assms(4,1-3)] by (auto simp: folded_batch_def split: sum.splits)

theorem run_once_folds_a_page_or_nothing_witness:
  "\<exists>r' s'. run_once toy_ext quiet (calm_at 1) tally_runner (sample_log tallied_db) = (Inr 1, r', s')
     \<and> caller_tables (isle_db s') = 1 \<and> cursor_of (isle_db s') ''tally'' = Position 1"
proof -
  obtain rec where rec: "traverse (record_row toy_ext []) (pending toy_ext None ''tally'' tallied_db) = Inr [rec]"
    and place: "recorded_position rec = Position 1"
    using tally_pending by blast
  let ?s = "sample_log tallied_db"
  obtain v r' s' where run: "run_once toy_ext quiet (calm_at 1) tally_runner ?s = (Inr v, r', s')"
    using run_once_calm [OF tally_ready, of "[rec]" 1] rec by auto
  have code: "runner_code tally_runner = tally" "unat (runner_batch tally_runner) = 256"
    by (simp_all add: tally_runner_def DEFAULT_BATCH_def)
  obtain recs where recs: "v = usize_of (length recs)" "log_page toy_ext [] BEGINNING (kinds_filter None) 256 tallied_db = Inr recs"
    "caller_tables (isle_db s') = fold (model_apply tally_model) recs 0"
    "cursor_of (isle_db s') ''tally'' = reached_by 256 recs BEGINNING (position_of_stored 1)"
    using run_once_folds_a_page_or_nothing [OF _ _ _ run, of "''tally''" None False tally_model] by (auto simp: code)
  have "length (pending toy_ext None ''tally'' tallied_db) \<le> 1"
    by (simp add: pending_def matching_def)
  then have "recs = [rec]" using recs(2) rec pending_page [of toy_ext "[]" tallied_db "''tally''" None 256] by simp
  moreover have "reached_by 256 [rec] BEGINNING (position_of_stored 1) = Position 1"
    by (simp add: place reached_by_def position_of_stored_def as_u64_def)
  ultimately show ?thesis using run recs by (auto simp: tally_model_def usize_of_def)
qed

section \<open>Rebuilding a log with a gap\<close>

lemma rebuild_committed:
  assumes "committed_by (rebuild_body code) p v p' d d'" and "db_ok x d"
    and "steady code name kinds tolerates" and "implements code M"
  shows "(tolerates \<or> \<not> BEGINNING < Position (as_u64 (ledger_high d)))
     \<and> cursor_of d' name = BEGINNING \<and> caller_tables d' = model_empty M \<and> only_folds name d d'"
proof -
  obtain c c' where c: "conn_db c = d" "conn_db c' = d'" and run: "rebuild_body code p c = (Returned (Inr v), p', c')"
    using assms(1) by (auto simp: committed_by_def)
  have st: "projection_name code p = name" "projection_tolerates code p = tolerates" for p
    using assms(3) by (simp_all add: steady_def)
  obtain c1 u1 u2 u3 p2 c2 p3 c3 u4 where
    comp: "if tolerates then c1 = c else require_complete_from BEGINNING c = (Inr u1, c1)"
    and reset: "projection_reset code p c1 = (Returned (Inr u2), p2, c2)"
    and init: "projection_init code p2 c2 = (Returned (Inr u3), p3, c3)"
    and save: "save_checkpoint name BEGINNING c3 = (Inr u4, c')"
    using run unfolding rebuild_body_def fold_Inr Let_def st by (elim exE conjE, hypsubst) (rule that, assumption+)
  have d1: "conn_db c1 = d" and tol: "tolerates \<or> \<not> BEGINNING < Position (as_u64 (ledger_high d))"
    using comp require_success [of BEGINNING c u1 c1] c by (auto split: if_splits)
  have "conn_db c3 = d\<lparr>caller_tables := model_empty M\<rparr>"
    using reset init assms(4) d1 by (auto simp: implements_def writes_only_def)
  then show ?thesis
    using tol save_success [OF save] c(2) by (auto simp: cursor_of_upsert BEGINNING_def as_u64_def)
qed

text \<open>
  Rebuilding refuses a log with a gap before it empties anything. Where events were removed and the
  projection does not tolerate it, \<open>rebuild\<close> answers an error, whatever else happens, and the read model, the
  cursor and everything else in the database are as they were: what cannot be rebuilt is not thrown away.
\<close>

theorem rebuild_refuses_a_gap_before_it_empties:
  assumes "db_ok x (isle_db s)" and "steady (runner_code r) name kinds False" and "implements (runner_code r) M"
    and "0 < ledger_high (isle_db s)" and "ledger_high (isle_db s) \<le> i64_max"
    and "rebuild x g a rest r s = Some (out, r', s')"
  shows "(\<exists>e. out = Inl e) \<and> isle_db s' = isle_db s"
proof -
  obtain o1 r1 s1 where run: "runner_transaction g a (rebuild_body (runner_code r)) r s = (o1, r1, s1)"
    by (metis prod.exhaust)
  have "BEGINNING < Position (as_u64 (ledger_high (isle_db s)))"
    using assms(4,5) by (simp add: BEGINNING_def position_less_uint uint_as_u64)
  then have "\<not> committed_by (rebuild_body (runner_code r)) p v p' (isle_db s) d'" for p v p' d'
    using rebuild_committed [OF _ assms(1-3)] by blast
  then have "(\<exists>e. o1 = Inl e) \<and> isle_db s1 = isle_db s"
    using runner_transaction_cases(2) [OF run] by blast
  then show ?thesis using assms(6) run by (auto simp: rebuild_def)
qed

definition gap_db :: "nat database" where
  "gap_db = tallied_db\<lparr>caller_tables := 7, tbl_retention := [\<lparr> retention_id = 1, retention_applied_ms = 3,
     retention_plan = ''before 1'', retention_removed_count = 1, retention_highest_removed = 1 \<rparr>]\<rparr>"

lemma gap_db_ok: "db_ok toy_ext gap_db" "ledger_high gap_db = 1"
  using db_ok_same_events [of gap_db tallied_db toy_ext] by (simp_all add: gap_db_def ledger_high_def max_of_def)

theorem rebuild_refuses_a_gap_before_it_empties_witness:
  "\<exists>e r' s'. rebuild toy_ext quiet (calm_at 1) [] tally_runner (sample_log gap_db) = Some (Inl e, r', s')
     \<and> caller_tables (isle_db s') = 7"
proof -
  have "\<exists>out r' s'. rebuild toy_ext quiet (calm_at 1) [] tally_runner (sample_log gap_db) = Some (out, r', s')"
    using gap_db_ok(2)
    by (simp add: rebuild_def runner_transaction_def tally_runner_def isle_call_def calm_at_def folding_job_def folding_def
        next_fault_def rebuild_body_def fbind_def ask_def own_def require_complete_from_def job_simps tally_def
        default_tolerates_def BEGINNING_def as_u64_def less_position_def Let_def split: sum.splits)
  then obtain out r' s' where run: "rebuild toy_ext quiet (calm_at 1) [] tally_runner (sample_log gap_db) = Some (out, r', s')"
    by blast
  have "runner_code tally_runner = tally" by (simp add: tally_runner_def)
  from rebuild_refuses_a_gap_before_it_empties [OF _ _ _ _ _ run, of "''tally''" None tally_model] this gap_db_ok
  have "(\<exists>e. out = Inl e) \<and> isle_db s' = gap_db" by (simp add: i64_max_def)
  then show ?thesis using run by (auto simp: gap_db_def)
qed

lemma rebuild_first_runs:
  assumes "steady (runner_code r) name kinds tolerates" and "implements (runner_code r) M" and "obliging (runner_code r)"
    and "db_ok x (isle_db s)" and "tolerates \<or> ledger_high (isle_db s) = 0" and "runner_projection r = Some p"
  shows "\<exists>r' s'. runner_transaction quiet (calm_at t) (rebuild_body (runner_code r)) r s = (Inr (), r', s')"
proof -
  let ?c = "\<lparr> conn_db = isle_db s, faults = [], clock = [t] \<rparr>" and ?code = "runner_code r"
  have st: "projection_name ?code p = name" "projection_tolerates ?code p = tolerates" for p
    using assms(1) by (simp_all add: steady_def)
  have guard: "\<not> tolerates \<Longrightarrow> require_complete_from BEGINNING ?c = (Inr (), ?c)"
    using assms(5) by (auto simp: require_complete_from_def job_simps BEGINNING_def as_u64_def less_position_def)
  obtain p1 c1 where reset: "projection_reset ?code p ?c = (Returned (Inr ()), p1, c1)" "faults c1 = []"
    using obligesD [of "projection_reset ?code" p ?c] assms(3) by (auto simp: obliging_def)
  obtain p2 c2 where init: "projection_init ?code p1 c1 = (Returned (Inr ()), p2, c2)" "faults c2 = []"
    using obligesD [of "projection_init ?code" p1 c1] assms(3) reset(2) by (auto simp: obliging_def)
  obtain c3 where save: "save_checkpoint name BEGINNING c2 = (Inr (), c3)" "faults c3 = []"
    using save_runs [OF init(2), of BEGINNING name] by (auto simp: BEGINNING_def i64_max_def)
  have "rebuild_body ?code p ?c = (Returned (Inr ()), p2, c3)"
    using reset init save guard by (simp add: rebuild_body_def fbind_def ask_def own_def freturn_def st)
  then show ?thesis
    using assms(6) save(2) by (simp add: runner_transaction_def isle_call_def calm_at_def folding_job_def folding_def next_fault_def)
qed

text \<open>
  C25. Rebuilding is folding afresh. Over a log that nothing was removed from, and where nothing fails,
  \<open>rebuild\<close> returns: whatever the read model held and wherever its cursor was, the tables are then the empty
  read model with every event of the log, of the projection's kinds, folded in, and nothing is pending. The
  callbacks are those that leave the transaction they are given open.
\<close>

theorem rebuild_folds_the_log_afresh:
  assumes "db_ok x (isle_db s)" and "steady (runner_code r) name kinds tolerates" and "implements (runner_code r) M"
    and "obliging (runner_code r)" and "0 < runner_batch r" and "runner_projection r \<noteq> None"
    and "askable (kinds_filter kinds)" and "ledger_high (isle_db s) = 0"
    and "traverse (record_row x (upcasters s)) (matching x (kinds_filter kinds) (isle_db s)) = Inr recs"
    and "length recs < length ts"
  shows "\<exists>r' s'. rebuild x quiet (calm_at t) (calmly ts) r s = Some (Inr (usize_of (length recs)), r', s')
     \<and> caller_tables (isle_db s') = fold (model_apply M) recs (model_empty M)
     \<and> pending x kinds name (isle_db s') = [] \<and> only_folds name (isle_db s) (isle_db s')"
proof -
  obtain p where p: "runner_projection r = Some p" using assms(6) by blast
  obtain r1 s1 where run: "runner_transaction quiet (calm_at t) (rebuild_body (runner_code r)) r s = (Inr (), r1, s1)"
    using rebuild_first_runs [OF assms(2-4,1) _ p] assms(8) by blast
  obtain p1 where com: "committed_by (rebuild_body (runner_code r)) p () p1 (isle_db s) (isle_db s1)" "runner_projection r1 = Some p1"
    using runner_transaction_cases(2) [OF run] p by auto
  note after = rebuild_committed [OF com(1) assms(1-3)]
  have same: "s1 = s\<lparr>isle_db := isle_db s1\<rparr>" "r1 = r\<lparr>runner_projection := runner_projection r1\<rparr>"
    using runner_transaction_cases(1) [OF run] by auto
  have kept: "upcasters s1 = upcasters s" "runner_batch r1 = runner_batch r" "runner_code r1 = runner_code r"
    by (subst same(1), simp, (subst same(2), simp)+)
  have rows: "pending x kinds name (isle_db s1) = matching x (kinds_filter kinds) (isle_db s)"
  proof -
    have "matching x (kinds_filter kinds) (isle_db s1) = matching x (kinds_filter kinds) (isle_db s)"
      using after by (simp add: matching_def only_folds_def)
    moreover have "BEGINNING < row_place row" if "row \<in> set (matching x (kinds_filter kinds) (isle_db s))" for row
    proof -
      have "row \<in> set (tbl_events (isle_db s))" using that by (simp add: matching_def)
      then show ?thesis
        using uint_row_place [OF assms(1)] db_ok_row [OF assms(1)] by (fastforce simp: BEGINNING_def position_less_uint row_ok_def)
    qed
    ultimately show ?thesis using after by (simp add: pending_def)
  qed
  have "ready x M name kinds tolerates r1 s1"
    using assms(1-5,7,8) after only_folds_ok [of name "isle_db s" "isle_db s1" x] com(2) kept
    by (simp add: ready_def foldable_def clear_to_fold_def only_folds_def ledger_high_def)
      (simp add: BEGINNING_def i64_max_def as_u64_def less_position_def)
  from catch_up_calm [OF this _ assms(10), of 0] obtain r' s' where
    "catch_up x (calmly ts) 0 r1 s1 = Some (Inr (usize_of (length recs)), r', s')" "caught_up x M name kinds recs (isle_db s1) (isle_db s')"
    using assms(9) kept(1) rows by auto
  then show ?thesis
    using run after only_folds_trans by (auto simp: rebuild_def caught_up_def)
qed

theorem rebuild_folds_the_log_afresh_witness:
  "\<exists>r' s'. rebuild toy_ext quiet (calm_at 1) (calmly [2, 3]) tally_runner (sample_log (tallied_db\<lparr>caller_tables := 7\<rparr>))
       = Some (Inr 1, r', s') \<and> caller_tables (isle_db s') = 1"
proof -
  let ?d = "tallied_db\<lparr>caller_tables := 7\<rparr>"
  have all: "kinds_filter None = filter_all" by (simp add: kinds_filter_def)
  obtain rec where "traverse (record_row toy_ext []) (pending toy_ext None ''tally'' tallied_db) = Inr [rec]"
    using tally_pending by blast
  then have rec: "traverse (record_row toy_ext []) (matching toy_ext filter_all ?d) = Inr [rec]"
    by (simp add: pending_def all matching_all row_place_def row_of_def BEGINNING_def position_of_stored_def as_u64_def
        less_position_def)
  have ok: "db_ok toy_ext (isle_db (sample_log ?d))" using db_ok_same_events [of ?d tallied_db toy_ext] by simp
  have high: "ledger_high (isle_db (sample_log ?d)) = 0" using tallied_db_sel(4) by (simp add: ledger_high_def)
  have r: "runner_code tally_runner = tally" "0 < runner_batch tally_runner" "runner_projection tally_runner \<noteq> None"
    by (simp_all add: tally_runner_def DEFAULT_BATCH_def)
  have "\<exists>r' s'. rebuild toy_ext quiet (calm_at 1) (calmly [2, 3]) tally_runner (sample_log ?d) = Some (Inr (usize_of (length [rec])), r', s')
     \<and> caller_tables (isle_db s') = fold (model_apply tally_model) [rec] (model_empty tally_model)
     \<and> pending toy_ext None ''tally'' (isle_db s') = [] \<and> only_folds ''tally'' (isle_db (sample_log ?d)) (isle_db s')"
    by (rule rebuild_folds_the_log_afresh [where tolerates = False, OF ok _ _ _ r(2,3) _ high]) (use rec in \<open>simp_all add: r(1) all\<close>)
  then show ?thesis by (auto simp: tally_model_def usize_of_def)
qed

section \<open>The registry\<close>

text \<open>
  One live runner per name. However runners are made, used, dropped and taken apart, no two that are alive
  have the same name; a runner is refused exactly when one of its name is alive, with the error that says
  so, and a dropped runner's name is free again.
\<close>

theorem one_live_runner_per_name:
  assumes "runners_alive s rs"
  shows "distinct (map runner_name rs)
     \<and> (fst (runner_new code p s) = Inl (Unsupported (Running (RunnerAlreadyLive (projection_name code p))))
          \<longleftrightarrow> (\<exists>r \<in> set rs. runner_name r = projection_name code p))
     \<and> (is_ok (fst (runner_new code p s)) \<longleftrightarrow> projection_name code p \<notin> set (map runner_name rs))"
  using runners_alive_names [OF assms]
  by (cases "projection_name code p \<in> live_runners s") (force simp: runner_new_def Let_def is_ok_iff)+

theorem one_live_runner_per_name_witness:
  "\<exists>(r :: (nat, unit) runner) s. runners_alive s [r] \<and> runner_name r = ''tally'' \<and> \<not> is_ok (fst (runner_new tally () s))
     \<and> is_ok (fst (runner_new tally () (runner_drop r s)))"
proof -
  let ?s = "sample_log tallied_db"
  obtain r s where run: "runner_new tally () ?s = (Inr r, s)"
    by (simp add: runner_new_def Let_def sample_log_def)
  have none: "runners_alive ?s []" by (rule runners_alive.none) (simp add: sample_log_def)
  have one: "runners_alive s [with_batch 5 r]" by (rule runners_alive.making [OF none run])
  have zero: "runners_alive (runner_drop (with_batch 5 r) s) ([] :: (nat, unit) runner list)"
    using runners_alive.dropping [of s "[]" "with_batch 5 r" "[]"] one by simp
  have name: "runner_name (with_batch 5 r) = ''tally''"
    using run by (auto simp: runner_new_def Let_def tally_def with_batch_def split: if_splits)
  have tally_name: "projection_name tally () = ''tally''" by (simp add: tally_def)
  have "\<not> is_ok (fst (runner_new tally () s))"
    using one_live_runner_per_name [OF one, of tally "()"] name tally_name by simp
  moreover have "is_ok (fst (runner_new tally () (runner_drop (with_batch 5 r) s)))"
    using one_live_runner_per_name [OF zero, of tally "()"] by simp
  ultimately show ?thesis using one name by blast
qed

end
