(* ===== verification/Abstract_Log.thy ===== *)
theory Abstract_Log
  imports Retention_Theorems
begin

text \<open>
  What the log is, told without tables, jobs or failures: a list of entries, the highest number given, and
  the next number of every stream. It does two things, record an entry and forget some. Every write of the
  program is a sequence of these.
\<close>

section \<open>The specification\<close>

record ideal_log =
  ideal_entries :: "event_row list"
  ideal_high :: int
  ideal_next :: "rust_string \<Rightarrow> int"

definition ideal_record :: "event_row \<Rightarrow> ideal_log \<Rightarrow> ideal_log" where
  "ideal_record r L = L\<lparr>ideal_entries := ideal_entries L @ [r], ideal_high := ideal_high L + 1,
     ideal_next := (ideal_next L)(row_stream r := ideal_next L (row_stream r) + 1)\<rparr>"

text \<open>An entry is recorded under the next position and its stream's next number, and only so.\<close>

inductive ideal_run :: "ideal_log \<Rightarrow> event_row list \<Rightarrow> ideal_log \<Rightarrow> bool" where
  resting: "ideal_run L [] L"
| recording: "ideal_run L rows L' \<Longrightarrow> row_position r = ideal_high L' + 1 \<Longrightarrow> row_seq r = ideal_next L' (row_stream r) \<Longrightarrow>
     ideal_run L (rows @ [r]) (ideal_record r L')"
| forgetting: "ideal_run L rows L' \<Longrightarrow> ideal_run L rows (L'\<lparr>ideal_entries := List.filter keep (ideal_entries L')\<rparr>)"

inductive_cases ideal_run_restingE: "ideal_run L [] L'"

lemma ideal_run_trans: "ideal_run L' rows' L'' \<Longrightarrow> ideal_run L rows L' \<Longrightarrow> ideal_run L (rows @ rows') L''"
proof (induction rule: ideal_run.induct)
  case (recording L' rows' L'' r)
  from ideal_run.recording [OF recording.IH [OF recording.prems] recording.hyps(2,3)] show ?case by simp
qed (auto intro: ideal_run.intros)

text \<open>What the specification promises of any run.\<close>

lemma upto_snoc: "i \<le> j + 1 \<Longrightarrow> [i..j] @ [j + 1] = [i..j + 1]" for i j :: int
  using upto_rec2 [of i "j + 1"] by simp

lemma ideal_run_positions: "ideal_run L rows L' \<Longrightarrow> map row_position rows = [ideal_high L + 1..ideal_high L'] \<and> ideal_high L \<le> ideal_high L'"
proof (induction rule: ideal_run.induct)
  case (recording L rows L' r)
  have "[ideal_high L + 1..ideal_high L'] @ [ideal_high L' + 1] = [ideal_high L + 1..ideal_high L' + 1]"
    by (rule upto_snoc) (use recording.IH in simp)
  then show ?case using recording.IH recording.hyps(2) by (simp only: map_append list.map) (simp add: ideal_record_def)
qed simp_all

lemma ideal_run_seqs:
  "ideal_run L rows L' \<Longrightarrow>
     map row_seq (List.filter (\<lambda>r. row_stream r = stream) rows) = [ideal_next L stream..ideal_next L' stream - 1]
     \<and> ideal_next L stream \<le> ideal_next L' stream"
proof (induction rule: ideal_run.induct)
  case (recording L rows L' r)
  let ?n = "ideal_next L' stream"
  have "[ideal_next L stream..?n - 1] @ [?n - 1 + 1] = [ideal_next L stream..?n - 1 + 1]"
    by (rule upto_snoc) (use recording.IH in simp)
  then have "[ideal_next L stream..?n - 1] @ [?n] = [ideal_next L stream..?n]" by (simp only: diff_add_cancel)
  then show ?case using recording.IH recording.hyps(3)
    by (cases "row_stream r = stream") (simp_all add: ideal_record_def)
qed simp_all

lemma ideal_run_entries: "ideal_run L rows L' \<Longrightarrow> subseq (ideal_entries L') (ideal_entries L @ rows)"
proof (induction rule: ideal_run.induct)
  case (recording L rows L' r)
  have "subseq (ideal_entries L' @ [r]) ((ideal_entries L @ rows) @ [r])"
    by (rule list_emb_append_mono [OF recording.IH]) simp
  then show ?case by (simp add: ideal_record_def)
next
  case (forgetting L rows L' keep)
  have "subseq (List.filter keep (ideal_entries L')) (ideal_entries L @ rows)"
    by (rule subseq_order.trans [OF subseq_filter_left forgetting.IH])
  then show ?case by simp
qed simp

section \<open>The log as one\<close>

definition ideal_of :: "'m database \<Rightarrow> ideal_log" where
  "ideal_of d = \<lparr> ideal_entries = tbl_events d, ideal_high = events_auto d, ideal_next = (\<lambda>stream. uint (next_of d stream)) \<rparr>"

definition follows_ideal :: "'m database \<Rightarrow> 'm database \<Rightarrow> bool" where
  "follows_ideal d d' \<longleftrightarrow> (\<exists>rows. ideal_run (ideal_of d) rows (ideal_of d'))"

lemma follows_ideal_trans: "follows_ideal d d' \<Longrightarrow> follows_ideal d' d'' \<Longrightarrow> follows_ideal d d''"
  unfolding follows_ideal_def by (blast intro: ideal_run_trans)

lemma follows_ideal_same:
  "tbl_events d' = tbl_events d \<Longrightarrow> events_auto d' = events_auto d \<Longrightarrow> tbl_stream_seq d' = tbl_stream_seq d \<Longrightarrow> follows_ideal d d'"
  unfolding follows_ideal_def by (rule exI [of _ "[]"]) (simp add: ideal_of_def next_of_def ideal_run.resting)

lemma follows_ideal_retained: "follows_ideal d (retained p described now d)"
  unfolding follows_ideal_def
  using ideal_run.forgetting [OF ideal_run.resting, of "ideal_of d" "\<lambda>r. \<not> p r"] by (auto simp: ideal_of_def)

lemma follows_ideal_appended:
  assumes ok: "db_ok x d" and room: "events_auto d < i64_max" and seq: "u64_of FIELD_SEQ e = next_of d stream"
  shows "follows_ideal d (appended x stream e d)"
proof -
  let ?r = "row_of x stream e (events_auto d + 1)"
  have "as_i64 (next_of d stream) = uint (next_of d stream)"
    using db_ok_next [OF ok, of stream] room by (simp add: as_i64_small)
  then have "ideal_run (ideal_of d) ([] @ [?r]) (ideal_record ?r (ideal_of d))"
    by (intro ideal_run.recording ideal_run.resting) (simp_all add: ideal_of_def row_of_def seq)
  moreover have "ideal_record ?r (ideal_of d) = ideal_of (appended x stream e d)"
    using next_of_suc [OF ok room, of stream] by (auto simp: ideal_record_def ideal_of_def row_of_def seq)
  ultimately show ?thesis unfolding follows_ideal_def by auto
qed

end
