(* ===== verification/Whole_Log.thy ===== *)
theory Whole_Log
  imports Projection_Run Archive_Loop Abstract_Log
begin

text \<open>
  Everything that writes, together: the appends of a stream handle, a caller's transaction, an import, a
  checkpoint, the receipts of an export, a removal, a detached append and the batches of projections, in
  any order and with any failures. Two invariants of the event log hold over all of them: an event never
  changes and no number is given twice, and the position that wakes a subscription is committed and covers
  every position an awaited write has answered.
\<close>

section \<open>How the tables of a log may change\<close>

text \<open>
  What is stored is an event that was there before, unchanged, or one above every position ever given and
  at or above its stream's counter; neither the highest position nor a counter goes back.
\<close>

definition evolves :: "'m database \<Rightarrow> 'm database \<Rightarrow> bool" where
  "evolves d d' \<longleftrightarrow>
     events_auto d \<le> events_auto d' \<and> (\<forall>stream. next_of d stream \<le> next_of d' stream)
     \<and> (\<forall>r \<in> set (tbl_events d'). r \<in> set (tbl_events d)
          \<or> (events_auto d < row_position r \<and> uint (next_of d (row_stream r)) \<le> row_seq r))
     \<and> follows_ideal d d'"

lemma evolves_same_events:
  "tbl_events d' = tbl_events d \<Longrightarrow> events_auto d' = events_auto d \<Longrightarrow> tbl_stream_seq d' = tbl_stream_seq d \<Longrightarrow> evolves d d'"
  using follows_ideal_same [of d' d] by (simp add: evolves_def next_of_def)

lemma evolves_refl [simp]: "evolves d d"
  by (rule evolves_same_events) simp_all

lemma evolves_trans: "evolves d d' \<Longrightarrow> evolves d' d'' \<Longrightarrow> evolves d d''"
  unfolding evolves_def by (meson order_trans order_le_less_trans word_le_def follows_ideal_trans)

lemma evolves_appended:
  assumes ok: "db_ok x d" and room: "events_auto d < i64_max"
    and seq: "u64_of FIELD_SEQ e = next_of d stream"
  shows "evolves d (appended x stream e d)"
proof -
  have "as_i64 (next_of d stream) = uint (next_of d stream)"
    using db_ok_next [OF ok, of stream] room by (simp add: as_i64_small)
  then show ?thesis
    using next_of_suc [OF ok room, of stream] follows_ideal_appended [OF ok room seq]
    by (auto simp: evolves_def seq row_of_def word_le_def)
qed

lemma evolves_appended_all:
  "db_ok x d \<Longrightarrow> consecutive x ses d \<Longrightarrow> events_auto d + int (length ses) \<le> i64_max \<Longrightarrow> evolves d (appended_all x ses d)"
proof (induction x ses d rule: consecutive.induct)
  case (2 x stream e ses d)
  then have step: "db_ok x (appended x stream e d)" "evolves d (appended x stream e d)"
    using evolves_appended [of x d e stream] by (auto intro: db_ok_appended)
  with 2 show ?case by (auto intro: evolves_trans [OF step(2)])
qed simp

lemma evolves_retained [simp]: "evolves d (retained p described now d)"
  using follows_ideal_retained [of d p described now] by (auto simp: evolves_def)

section \<open>The positions a write answers\<close>

definition told :: "'m database \<Rightarrow> position list \<Rightarrow> 'm database \<Rightarrow> bool" where
  "told d ps d' \<longleftrightarrow>
     sorted_wrt (<) ps \<and> (\<forall>p \<in> set ps. events_auto d < uint (get p) \<and> uint (get p) \<le> events_auto d')"

lemma told_nothing [simp]: "told d [] d'"
  by (simp add: told_def)

lemma told_append:
  assumes "told d ps d'" and "told d' qs d''" and "events_auto d \<le> events_auto d'" and "events_auto d' \<le> events_auto d''"
  shows "told d (ps @ qs) d''"
  using assms by (fastforce simp: told_def sorted_wrt_append position_less_uint)

lemma positions_of_landings_Cons:
  "positions_of (landings (e # es) prev) = position_of_stored (prev + 1) # positions_of (landings es (prev + 1))"
  by (simp add: landed_def)

lemma positions_of_landings:
  "0 \<le> n \<Longrightarrow> n + int (length es) \<le> i64_max \<Longrightarrow>
     map (\<lambda>p. uint (get p)) (positions_of (landings es n)) = [n + 1..n + int (length es)]"
proof (induction es arbitrary: n)
  case (Cons e es)
  have "uint (get (position_of_stored (n + 1))) = n + 1"
    using Cons.prems by (simp add: position_of_stored_def uint_as_u64)
  with Cons.IH [of "n + 1"] Cons.prems show ?case
    unfolding positions_of_landings_Cons by (simp add: upto_rec1 algebra_simps)
qed simp

lemma told_landings:
  assumes "0 \<le> events_auto d" and "events_auto d + int (length es) \<le> i64_max"
    and "events_auto d' = events_auto d + int (length es)"
  shows "told d (positions_of (landings es (events_auto d))) d'"
proof -
  let ?ps = "positions_of (landings es (events_auto d))"
  note at = positions_of_landings [OF assms(1,2)]
  have "sorted_wrt (<) (map (\<lambda>p. uint (get p)) ?ps)" unfolding at by simp
  then have "sorted_wrt (<) ?ps"
    unfolding sorted_wrt_map by (rule sorted_wrt_mono_rel [rotated]) (simp add: position_less_uint)
  moreover have "\<forall>p \<in> set ?ps. uint (get p) \<in> {events_auto d + 1..events_auto d'}"
    using arg_cong [OF at, of set] assms(3) by auto
  ultimately show ?thesis by (auto simp: told_def)
qed

text \<open>What is published after a write: the highest of the positions it answers, if there is one.\<close>

definition wakes :: "position list \<Rightarrow> position option \<Rightarrow> bool" where
  "wakes ps published \<longleftrightarrow>
     (case published of None \<Rightarrow> ps = [] | Some q \<Rightarrow> q \<in> set ps \<and> (\<forall>p \<in> set ps. p \<le> q))"

lemma length_positions_of_landings [simp]: "length (positions_of (landings es n)) = length es"
  by (induction es arbitrary: n) (simp_all add: landed_def)

lemma last_position_landings:
  "es \<noteq> [] \<Longrightarrow> last_position (landings es n) = Some (last (positions_of (landings es n)))"
proof (induction es arbitrary: n)
  case (Cons e es)
  show ?case
  proof (cases "es = []")
    case False
    then have "landings es (n + 1) \<noteq> []" "positions_of (landings es (n + 1)) \<noteq> []"
      using length_landings [of es "n + 1"] length_positions_of_landings [of es "n + 1"]
      by (metis length_0_conv)+
    then show ?thesis using Cons.IH [OF False, of "n + 1"] by (simp add: last_position_def landed_def)
  qed (simp add: last_position_def landed_def)
qed simp

lemma wakes_last:
  assumes "told d (positions_of (landings es n)) d'" and "es \<noteq> []"
  shows "wakes (positions_of (landings es n)) (last_position (landings es n))"
proof -
  let ?ps = "positions_of (landings es n)"
  have "?ps \<noteq> []" using assms(2) length_positions_of_landings [of es n] by (metis length_0_conv)
  then have "?ps = butlast ?ps @ [last ?ps]" by simp
  moreover have "sorted_wrt (<) ?ps" using assms(1) by (simp add: told_def)
  ultimately have "\<forall>p \<in> set ?ps. p \<le> last ?ps"
    by (metis Un_iff insert_iff less_imp_le list.set(2) order_refl set_append sorted_wrt_append empty_iff list.set(1))
  then show ?thesis using \<open>?ps \<noteq> []\<close> assms(2) by (simp add: wakes_def last_position_landings)
qed

lemma wakes_highest: "wakes ps (highest_position ps)"
proof (cases ps)
  case (Cons p rest)
  have "foldr max rest p = Max (insert p (set rest))"
    by (induction rest) (auto simp: insert_commute max.left_commute)
  then show ?thesis
    using Max_in [of "insert p (set rest)"] Max_ge [of "insert p (set rest)"]
    by (simp add: wakes_def highest_position_def Cons)
qed (simp add: wakes_def highest_position_def)

lemma wakes_one: "wakes (positions_of [c]) (committed_position c)"
  by (simp add: wakes_def split: option.splits)

text \<open>What an append leaves of everything else, and what it keeps of the table of counters.\<close>

definition beside :: "'m database \<Rightarrow> 'm database \<Rightarrow> bool" where
  "beside d d' \<longleftrightarrow>
     set (tbl_events d) \<subseteq> set (tbl_events d')
     \<and> tbl_exports d' = tbl_exports d \<and> exports_auto d' = exports_auto d
     \<and> tbl_retention d' = tbl_retention d \<and> retention_auto d' = retention_auto d \<and> tbl_checkpoints d' = tbl_checkpoints d
     \<and> (distinct (map fst (tbl_stream_seq d)) \<longrightarrow> distinct (map fst (tbl_stream_seq d')))"

lemma beside_refl [simp]: "beside d d" "beside d (d\<lparr>caller_tables := m\<rparr>)"
  by (simp_all add: beside_def)

lemma beside_trans: "beside d d' \<Longrightarrow> beside d' d'' \<Longrightarrow> beside d d''"
  by (auto simp: beside_def)

lemma beside_appended [simp]: "beside d (appended x stream e d)"
  by (auto simp: beside_def appended_def push_def upsert_counter_def distinct_update)

lemma beside_appended_all [simp]: "beside d (appended_all x ses d)"
proof (induction ses arbitrary: d)
  case (Cons p ses)
  then show ?case by (cases p) (auto intro: beside_trans [OF beside_appended])
qed simp

text \<open>A step forward of the log: the tables stay well formed and evolve, and the positions given are new ones.\<close>

definition moves :: "ext \<Rightarrow> 'm database \<Rightarrow> position list \<Rightarrow> 'm database \<Rightarrow> bool" where
  "moves x d ps d' \<longleftrightarrow> db_ok x d' \<and> evolves d d' \<and> told d ps d' \<and> beside d d'"

lemma moves_nothing: "db_ok x d \<Longrightarrow> moves x d [] d"
  by (simp add: moves_def)

lemma moves_trans: "moves x d ps d' \<Longrightarrow> moves x d' qs d'' \<Longrightarrow> moves x d (ps @ qs) d''"
  using told_append [of d ps d' qs d''] by (auto simp: moves_def evolves_def intro: beside_trans)
    (meson evolves_def evolves_trans)+

section \<open>Closures that keep to the rules\<close>

text \<open>
  A closure is \<open>tidy\<close> when, run on well-formed tables where nothing fails, it leaves well-formed tables that
  have evolved, and has noted positions above those given before, in order. It is \<open>built\<close> when it is a
  sequence of operations of the context and own statements, each on what the earlier ones answered, that
  hands every error on. What is built is tidy and steadfast; a closure that keeps an error of theirs to itself,
  or ends the transaction, need not be.
\<close>

inductive built :: "ext \<Rightarrow> ('m, 'a) txn \<Rightarrow> bool" for x where
  answering: "built x (treturn v)"
| failing: "built x (tfail e)"
| panicking: "built x (tpanic message)"
| querying: "(\<And>d. built x (k d)) \<Longrightarrow> built x (tbind own_query k)"
| executing: "(\<And>u. built x (k u)) \<Longrightarrow> built x (tbind (own_execute f) k)"
| reading: "(\<And>events. built x (k events)) \<Longrightarrow> built x (tbind (tx_read x' chain stream kinds from_seq limit) k)"
| asking_head: "(\<And>h. built x (k h)) \<Longrightarrow> built x (tbind (tx_head stream) k)"
| appending: "storable x event \<Longrightarrow> (\<And>c. built x (k c)) \<Longrightarrow> built x (tbind (tx_append x stream event) k)"
| appending_at: "storable x event \<Longrightarrow> (\<And>c. built x (k c)) \<Longrightarrow> built x (tbind (tx_append_at x stream t event) k)"
| appending_many: "\<forall>event \<in> set events. storable x event \<Longrightarrow> (\<And>cs. built x (k cs)) \<Longrightarrow>
     built x (tbind (tx_append_many x stream events) k)"
| appending_many_at: "\<forall>p \<in> set timed. storable x (snd p) \<Longrightarrow> (\<And>cs. built x (k cs)) \<Longrightarrow>
     built x (tbind (tx_append_many_at x stream timed) k)"
| importing: "storable x (exported_object ev) \<Longrightarrow> (\<And>c. built x (k c)) \<Longrightarrow> built x (tbind (tx_import x ev) k)"
| importing_many: "\<forall>ev \<in> set evs. storable x (exported_object ev) \<Longrightarrow> (\<And>cs. built x (k cs)) \<Longrightarrow>
     built x (tbind (tx_import_many x evs) k)"

lemma built_steadfast: "built x body \<Longrightarrow> steadfast body"
  by (induction rule: built.induct) (auto intro: steadfast_intros)

definition tidy :: "ext \<Rightarrow> ('m, 'a) txn \<Rightarrow> bool" where
  "tidy x body \<longleftrightarrow>
     (\<forall>sc. transparent surfaced (as_job body sc))
     \<and> (\<forall>sc c v sc' c'. faults c = [] \<longrightarrow> db_ok x (conn_db c) \<longrightarrow> as_job body sc c = (Inr (v, sc'), c') \<longrightarrow>
          (\<exists>new. sc' = note_positions new sc \<and> moves x (conn_db c) new (conn_db c')))"

named_theorems tidy_intros

lemma tidyI:
  assumes "\<And>sc. transparent surfaced (as_job body sc)"
    and "\<And>sc c v sc' c'. faults c = [] \<Longrightarrow> db_ok x (conn_db c) \<Longrightarrow> as_job body sc c = (Inr (v, sc'), c') \<Longrightarrow>
       \<exists>new. sc' = note_positions new sc \<and> moves x (conn_db c) new (conn_db c')"
  shows "tidy x body"
  using assms by (simp add: tidy_def)

lemma tidyD:
  assumes "tidy x body" and "faults c = []" and "db_ok x (conn_db c)"
    and "as_job body (entered aborts d) c = (Inr (v, sc), c')"
  shows "moves x (conn_db c) (scope_positions sc) (conn_db c')"
proof -
  obtain new where "sc = note_positions new (entered aborts d)" "moves x (conn_db c) new (conn_db c')"
    using assms unfolding tidy_def by blast
  then show ?thesis by simp
qed

lemma tidy_ends [tidy_intros]: "tidy x (treturn v)" "tidy x (tpanic message)" "tidy x (tfail e)"
  by (rule tidyI; (intro transparent_as_job | auto simp: job_simps intro: exI [of _ "[]"] moves_nothing))+

lemma tidy_bind [tidy_intros]:
  assumes m: "tidy x m" and f: "\<And>v. tidy x (f v)"
  shows "tidy x (tbind m f)"
proof (rule tidyI)
  show "transparent surfaced (as_job (tbind m f) sc)" for sc
    using assms by (intro transparent_as_job) (simp_all add: tidy_def)
next
  fix sc c w sc'' c''
  assume calm: "faults c = []" and ok: "db_ok x (conn_db c)" and run: "as_job (tbind m f) sc c = (Inr (w, sc''), c'')"
  obtain v sc' c' where one: "as_job m sc c = (Inr (v, sc'), c')" and two: "as_job (f v) sc' c' = (Inr (w, sc''), c'')"
    using run by (auto simp: job_simps split: sum.splits prod.splits)
  obtain qs where qs: "sc' = note_positions qs sc" "moves x (conn_db c) qs (conn_db c')"
    using m calm ok one unfolding tidy_def by blast
  have "transparent surfaced (as_job m sc)" using m by (simp add: tidy_def)
  then have "faults c' = []" by (rule transparent_stays_calm) (rule one, rule calm)
  moreover have "db_ok x (conn_db c')" using qs(2) by (simp add: moves_def)
  ultimately obtain rs where rs: "sc'' = note_positions rs sc'" "moves x (conn_db c') rs (conn_db c'')"
    using f [of v] two unfolding tidy_def by blast
  show "\<exists>new. sc'' = note_positions new sc \<and> moves x (conn_db c) new (conn_db c'')"
    using rs qs moves_trans [OF qs(2) rs(2)] by auto
qed

lemma tidy_traverse [tidy_intros]: "(\<And>v. tidy x (f v)) \<Longrightarrow> tidy x (ttraverse f vs)"
  by (induction vs) (auto intro!: tidy_intros)

lemma tidy_within:
  assumes "transparent surfaced job"
    and "\<And>c v c'. faults c = [] \<Longrightarrow> db_ok x (conn_db c) \<Longrightarrow> job c = (Inr v, c') \<Longrightarrow> moves x (conn_db c) (note v) (conn_db c')"
  shows "tidy x (within job note)"
proof (rule tidyI)
  show "transparent surfaced (as_job (within job note) sc)" for sc
    using assms(1) by (intro transparent_as_job)
qed (use assms(2) in \<open>fastforce simp: job_simps split: sum.splits prod.splits\<close>)

lemma tidy_reading [tidy_intros]:
  assumes "transparent surfaced job" and "reads_only job"
  shows "tidy x (within job (\<lambda>_. []))"
proof (rule tidy_within [OF assms(1)])
  fix c v c' assume "db_ok x (conn_db c)" "job c = (Inr v, c')"
  moreover have "conn_db c' = conn_db c" using assms(2) calculation(2) by (metis reads_only_def snd_conv)
  ultimately show "moves x (conn_db c) [] (conn_db c')" by (simp add: moves_nothing)
qed

lemma moves_caller_tables: "db_ok x d \<Longrightarrow> moves x d [] (d\<lparr>caller_tables := m\<rparr>)"
  using db_ok_same_events [of "d\<lparr>caller_tables := m\<rparr>" d x] by (simp add: moves_def evolves_same_events)

lemma tidy_own_query [tidy_intros]: "tidy x own_query"
  unfolding own_query_def by (intro tidy_intros transparent_intros reads_intros)

lemma tidy_own_execute [tidy_intros]: "tidy x (own_execute f)"
  unfolding own_execute_def
proof (rule tidy_within)
  fix c u c'
  assume "faults c = []" "db_ok x (conn_db c)"
    and "map_err classify (execute (\<lambda>d. rmap (\<lambda>m. d\<lparr>caller_tables := m\<rparr>) (f d))) c = (Inr u, c')"
  then obtain m where "c' = c\<lparr>conn_db := (conn_db c)\<lparr>caller_tables := m\<rparr>\<rparr>"
    by (auto simp: job_simps result_simps split: sum.splits)
  then show "moves x (conn_db c) [] (conn_db c')"
    using \<open>db_ok x (conn_db c)\<close> by (simp add: moves_caller_tables)
qed (intro transparent_intros)

lemma appended_run:
  assumes "db_ok x d" and "consecutive x ses d" and "events_auto d + int (length ses) \<le> i64_max"
    and "map snd ses = es"
  shows "moves x d (positions_of (landings es (events_auto d))) (appended_all x ses d)"
proof -
  have "length es = length ses" using assms(4) by auto
  then show ?thesis
    unfolding moves_def
    using assms(3) db_ok_auto [OF assms(1)] told_landings [of d es "appended_all x ses d"]
      db_ok_appended_all [OF assms(1-3)] evolves_appended_all [OF assms(1-3)] by simp
qed

lemma tidy_append_at [tidy_intros]:
  assumes "storable x event"
  shows "tidy x (tx_append_at x stream t event)"
  unfolding tx_append_at_def
proof (rule tidy_within)
  fix c v c'
  assume calm: "faults c = []" and ok: "db_ok x (conn_db c)" and run: "append_at_in x stream t event c = (Inr v, c')"
  obtain e where e: "stamp event (next_of (conn_db c) stream) t = Inr e" "events_auto (conn_db c) < i64_max"
    "v = landed e (events_auto (conn_db c))" "c' = c\<lparr>conn_db := appended x stream e (conn_db c)\<rparr>"
    using append_at_in_calm [OF calm ok assms run] by blast
  then show "moves x (conn_db c) (positions_of [v]) (conn_db c')"
    using appended_run [OF ok, of "[(stream, e)]" "[e]"] stored_form_stamp [OF assms e(1)] by simp
qed (intro transparent_intros)

lemma tidy_append [tidy_intros]: "storable x event \<Longrightarrow> tidy x (tx_append x stream event)"
  unfolding tx_append_def by (intro tidy_intros transparent_intros reads_intros)

text \<open>Several events in one call, each with its own time.\<close>

lemma many_rows_calm:
  assumes "faults c = []" and "\<forall>p \<in> set events. storable x (snd p)"
    and "db_ok x (upsert_counter stream (as_i64 (base + usize_of k)) (conn_db c))"
    and "jtraverse (many_step x stream base) (List.enumerate k events) c = (Inr cs, c')"
  shows "\<exists>es. length es = length events \<and> cs = landings es (events_auto (conn_db c))
     \<and> events_auto (conn_db c) + int (length events) \<le> i64_max \<and> faults c' = []
     \<and> consecutive x (in_stream stream es) (upsert_counter stream (as_i64 (base + usize_of k)) (conn_db c))
     \<and> upsert_counter stream (as_i64 (base + usize_of (k + length events))) (conn_db c')
       = appended_all x (in_stream stream es) (upsert_counter stream (as_i64 (base + usize_of k)) (conn_db c))"
  using assms
proof (induction events arbitrary: k c cs)
  case Nil
  then show ?case using db_ok_auto [OF Nil(3)] by (simp add: job_simps)
next
  case (Cons p events)
  obtain t event where p: "p = (t, event)" by force
  let ?q = "base + usize_of k"
  have st: "storable x event" using Cons.prems(2) p by simp
  obtain e where e: "stamp event ?q t = Inr e"
    using Cons.prems(4) p by (cases "stamp event ?q t") (simp_all add: many_step_def job_simps)
  note form = stored_form_stamp [OF st e]
  have room: "events_auto (conn_db c) < i64_max"
    using Cons.prems(4) p e insert_stamped_full [OF Cons.prems(1) form(1), of stream]
    by (cases "events_auto (conn_db c) < i64_max") (simp_all add: many_step_def job_simps)
  note one = insert_pending [OF Cons.prems(1) form(1,2) Cons.prems(3) room]
  let ?c = "c\<lparr>conn_db := push x stream e (conn_db c)\<rparr>"
  have q: "base + usize_of (Suc k) = ?q + 1" by (simp add: usize_of_Suc)
  obtain vs where rest: "jtraverse (many_step x stream base) (List.enumerate (Suc k) events) ?c = (Inr vs, c')"
    and cs: "cs = landed e (events_auto (conn_db c)) # vs"
    using Cons.prems(4) p e one(1) by (auto simp: many_step_def job_simps split: sum.splits prod.splits)
  have calm: "faults ?c = []" and all: "\<forall>p \<in> set events. storable x (snd p)"
    using Cons.prems(1,2) by simp_all
  have step: "upsert_counter stream (as_i64 (base + usize_of (Suc k))) (conn_db ?c)
      = appended x stream e (upsert_counter stream (as_i64 ?q) (conn_db c))"
    unfolding q using one(2) by simp
  from Cons.IH [OF calm all _ rest, unfolded step] one(3) obtain es where "length es = length events"
    "vs = landings es (events_auto (conn_db c) + 1)" "events_auto (conn_db c) + 1 + int (length events) \<le> i64_max" "faults c' = []"
    "consecutive x (in_stream stream es) (appended x stream e (upsert_counter stream (as_i64 ?q) (conn_db c)))"
    "upsert_counter stream (as_i64 (base + usize_of (Suc k + length events))) (conn_db c')
      = appended_all x (in_stream stream es) (appended x stream e (upsert_counter stream (as_i64 ?q) (conn_db c)))"
    by auto
  then show ?case using form cs by (intro exI [of _ "e # es"]) simp
qed

lemma append_many_at_in_calm:
  assumes "faults c = []" and "db_ok x (conn_db c)" and "\<forall>p \<in> set events. storable x (snd p)"
    and "append_many_at_in x stream events c = (Inr cs, c')"
  shows "\<exists>es. cs = landings es (events_auto (conn_db c)) \<and> consecutive x (in_stream stream es) (conn_db c)
     \<and> events_auto (conn_db c) + int (length es) \<le> i64_max
     \<and> conn_db c' = appended_all x (in_stream stream es) (conn_db c)"
proof (cases "events = []")
  case True
  then show ?thesis using assms(4) db_ok_auto [OF assms(2)]
    by (intro exI [of _ "[]"]) (auto simp: append_many_at_in_def job_simps)
next
  case False
  let ?d = "conn_db c"
  let ?base = "next_of ?d stream"
  obtain c1 where rows: "jtraverse (many_step x stream ?base) (List.enumerate 0 events) c = (Inr cs, c1)"
    and last: "set_next_seq stream (?base + usize_of (length cs)) c1 = (Inr (), c')"
    using assms(1,4) False by (auto simp: append_many_at_in_def job_simps split: sum.splits prod.splits)
  have "db_ok x (upsert_counter stream (as_i64 (?base + usize_of 0)) ?d)"
    using assms(2) by (simp add: db_ok_upsert_same)
  from many_rows_calm [OF assms(1,3) this rows] obtain es where es: "length es = length events"
    "cs = landings es (events_auto ?d)" "events_auto ?d + int (length events) \<le> i64_max" "faults c1 = []"
    "consecutive x (in_stream stream es) (upsert_counter stream (as_i64 ?base) ?d)"
    "upsert_counter stream (as_i64 (?base + usize_of (length events))) (conn_db c1)
      = appended_all x (in_stream stream es) (upsert_counter stream (as_i64 ?base) ?d)"
    by auto
  have ne: "es \<noteq> []" using es(1) False by auto
  have "conn_db c' = upsert_counter stream (as_i64 (?base + usize_of (length events))) (conn_db c1)"
    using last es(1,2,4) by (auto simp: set_next_seq_calm)
  then show ?thesis
    using es by (intro exI [of _ es]) (simp add: consecutive_upsert [OF ne] appended_all_upsert [OF ne])
qed

lemma tidy_append_many_at [tidy_intros]:
  assumes "\<forall>p \<in> set events. storable x (snd p)"
  shows "tidy x (tx_append_many_at x stream events)"
  unfolding tx_append_many_at_def
proof (rule tidy_within)
  fix c cs c'
  assume calm: "faults c = []" and ok: "db_ok x (conn_db c)" and run: "append_many_at_in x stream events c = (Inr cs, c')"
  then obtain es where "cs = landings es (events_auto (conn_db c))" "consecutive x (in_stream stream es) (conn_db c)"
    "events_auto (conn_db c) + int (length es) \<le> i64_max" "conn_db c' = appended_all x (in_stream stream es) (conn_db c)"
    using append_many_at_in_calm [OF _ _ assms] by blast
  then show "moves x (conn_db c) (positions_of cs) (conn_db c')"
    using appended_run [OF ok, of "in_stream stream es" es] by simp
qed (intro transparent_intros)

lemma tidy_append_many [tidy_intros]: "\<forall>event \<in> set events. storable x event \<Longrightarrow> tidy x (tx_append_many x stream events)"
  unfolding tx_append_many_def by (intro tidy_intros transparent_intros reads_intros) auto

lemma tidy_import_many [tidy_intros]:
  assumes "\<forall>ev \<in> set events. storable x (exported_object ev)"
  shows "tidy x (tx_import_many x events)"
  unfolding tx_import_many_def
proof (rule tidy_within)
  fix c cs c'
  assume calm: "faults c = []" and ok: "db_ok x (conn_db c)" and run: "import_many_in x events c = (Inr cs, c')"
  obtain es where es: "list_all2 as_restamped events es" "consecutive x (zip (map exported_stream events) es) (conn_db c)"
    "events_auto (conn_db c) + int (length events) \<le> i64_max" "cs = landings es (events_auto (conn_db c))"
    "conn_db c' = appended_all x (zip (map exported_stream events) es) (conn_db c)"
    using import_many_calm [OF calm ok assms run] by blast
  then show "moves x (conn_db c) (positions_of cs) (conn_db c')"
    using appended_run [OF ok es(2), of es] list_all2_lengthD [OF es(1)] by simp
qed (intro transparent_intros)

lemma tidy_import [tidy_intros]:
  "storable x (exported_object ev) \<Longrightarrow> tidy x (tx_import x ev)"
  unfolding tx_import_def by (intro tidy_intros) (auto intro: tidy_intros split: list.splits)

lemma reads_select_stream [reads_intros]: "reads_only (select_stream x stream kinds from_seq limit)"
  unfolding select_stream_def by (intro reads_intros)

lemma tidy_read [tidy_intros]: "tidy x (tx_read x' chain stream kinds from_seq limit)"
  unfolding tx_read_def by (intro tidy_intros transparent_intros reads_intros)

lemma tidy_head [tidy_intros]: "tidy x (tx_head stream)"
  unfolding tx_head_def by (intro tidy_intros transparent_intros reads_intros)

lemma built_tidy: "built x body \<Longrightarrow> tidy x body"
  by (induction rule: built.induct) (auto intro: tidy_intros)

section \<open>Every write\<close>

definition answers :: "('a \<Rightarrow> position list) \<Rightarrow> 'a result \<Rightarrow> position list" where
  "answers f r = (case r of Inl _ \<Rightarrow> [] | Inr v \<Rightarrow> f v)"

text \<open>
  One write, with the positions its caller learns when it answers. What a closure in a transaction
  appended counts as learnt by it; an import answers a report and a detached append nothing. The closures are
  those built from the operations of the context and own statements, handing errors on, with SQLite
  rolling their transaction back wherever it will; the projections are those of a given set. Receipts of
  exports are written apart, in \<open>log_write\<close>.
\<close>

inductive plain_write ::
  "ext \<Rightarrow> ('m, 'p) projection set \<Rightarrow> 'm shared \<Rightarrow> position list \<Rightarrow> 'm shared \<Rightarrow> bool" for x codes where
  appending: "storable x event \<Longrightarrow> append_store x env stream event s = (r, s') \<Longrightarrow>
     plain_write x codes s (answers (\<lambda>c. positions_of [c]) r) s'"
| appending_at: "storable x event \<Longrightarrow> append_at x env stream t event s = (r, s') \<Longrightarrow>
     plain_write x codes s (answers (\<lambda>c. positions_of [c]) r) s'"
| appending_expecting: "storable x event \<Longrightarrow> append_expecting x env stream wanted event s = (r, s') \<Longrightarrow>
     plain_write x codes s (answers (\<lambda>c. positions_of [c]) r) s'"
| appending_many: "\<forall>event \<in> set events. storable x event \<Longrightarrow> append_many x env stream events s = (rs, s') \<Longrightarrow>
     plain_write x codes s (answers positions_of rs) s'"
| deciding: "\<forall>seen event. decide seen = Some event \<longrightarrow> storable x event \<Longrightarrow>
     append_if x a stream kinds decide s = (ro, s') \<Longrightarrow>
     plain_write x codes s (answers (\<lambda>out. case out of None \<Rightarrow> [] | Some c \<Rightarrow> positions_of [c]) ro) s'"
| detaching: "storable x event \<Longrightarrow> detach_append x a stream event s = (ru, s') \<Longrightarrow> plain_write x codes s [] s'"
| transacting: "built x (body :: ('m, unit) txn) \<Longrightarrow>
     isle_call a (guarded g (in_transaction (engine_aborts a) body)) (isle_db s) = (rt, d) \<Longrightarrow>
     with_transaction g a body s = (ru, s') \<Longrightarrow> plain_write x codes s (answers snd rt) s'"
| importing: "\<forall>ev \<in> set evs. storable x (exported_object ev) \<Longrightarrow> log_import x g a evs s = (ri, s') \<Longrightarrow>
     plain_write x codes s [] s'"
| saving: "checkpoint_save a consumer p s = (ru, s') \<Longrightarrow> plain_write x codes s [] s'"
| removing: "retain a plan guard s = (rr, s') \<Longrightarrow> plain_write x codes s [] s'"
| folding: "runner_code w \<in> codes \<Longrightarrow> run_once x g a w s = (rf, w', s') \<Longrightarrow> plain_write x codes s [] s'"
| emptying: "runner_code w \<in> codes \<Longrightarrow> runner_transaction g a (rebuild_body (runner_code w)) w s = (re, w', s') \<Longrightarrow>
     plain_write x codes s [] s'"
| initialising: "runner_code w \<in> codes \<Longrightarrow> runner_init g a w s = (re, w', s') \<Longrightarrow> plain_write x codes s [] s'"

inductive log_write ::
  "ext \<Rightarrow> ('m, 'p) projection set \<Rightarrow> 'm shared \<Rightarrow> position list \<Rightarrow> 'm shared \<Rightarrow> bool" for x codes where
  plain: "plain_write x codes s ps s' \<Longrightarrow> log_write x codes s ps s'"
| recording: "write_receipt a now from f evs s = (rw, s') \<Longrightarrow> log_write x codes s [] s'"
| confirming: "confirm_export a now receipt s = (ru, s') \<Longrightarrow> log_write x codes s [] s'"

inductive log_writes ::
  "ext \<Rightarrow> ('m, 'p) projection set \<Rightarrow> 'm shared \<Rightarrow> position list \<Rightarrow> 'm shared \<Rightarrow> bool" for x codes where
  none: "log_writes x codes s [] s"
| more: "log_writes x codes s ps s' \<Longrightarrow> log_write x codes s' qs s'' \<Longrightarrow> log_writes x codes s (ps @ qs) s''"

section \<open>What every write keeps\<close>

definition settled :: "ext \<Rightarrow> 'm shared \<Rightarrow> position list \<Rightarrow> 'm shared \<Rightarrow> bool" where
  "settled x s ps s' \<longleftrightarrow>
     db_ok x (isle_db s') \<and> evolves (isle_db s) (isle_db s') \<and> told (isle_db s) ps (isle_db s')
     \<and> upcasters s' = upcasters s \<and> notify s \<le> notify s' \<and> (\<forall>p \<in> set ps. p \<le> notify s')
     \<and> (uint (get (notify s)) \<le> events_auto (isle_db s) \<longrightarrow> uint (get (notify s')) \<le> events_auto (isle_db s'))"

lemma upcasters_publish [simp]: "upcasters (publish_committed p s) = upcasters s"
  by (simp add: publish_committed_def publish_def split: option.splits)

lemma settled_publish:
  assumes "db_ok x d' \<and> evolves (isle_db s) d' \<and> told (isle_db s) ps d'" and "wakes ps published"
  shows "settled x s ps (publish_committed published (s\<lparr>isle_db := d'\<rparr>))"
proof (cases published)
  case None
  then show ?thesis using assms by (simp add: settled_def wakes_def publish_committed_def evolves_def)
next
  case (Some q)
  then have "uint (get q) \<le> events_auto d'" "\<forall>p \<in> set ps. p \<le> q"
    using assms by (auto simp: wakes_def told_def)
  then show ?thesis
    using assms(1) Some by (auto simp: settled_def publish_committed_def publish_def evolves_def)
qed

lemma settled_silent:
  "db_ok x d' \<Longrightarrow> evolves (isle_db s) d' \<Longrightarrow> settled x s [] (s\<lparr>isle_db := d'\<rparr>)"
  using settled_publish [of x d' s "[]" None] by (simp add: wakes_def publish_committed_def)

lemma settled_refl: "db_ok x (isle_db s) \<Longrightarrow> settled x s [] s"
  using settled_silent [of x "isle_db s" s] by simp

lemma settled_appended_as:
  assumes "db_ok x (isle_db s)" and "storable x event" and "appended_as x stream event t c (isle_db s) d'"
  shows "settled x s (positions_of [c]) (publish_committed (committed_position c) (s\<lparr>isle_db := d'\<rparr>))"
proof (rule settled_publish [OF _ wakes_one])
  obtain e where e: "events_auto (isle_db s) < i64_max" "stamp event (next_of (isle_db s) stream) t = Inr e"
    "c = landed e (events_auto (isle_db s))" "d' = appended x stream e (isle_db s)"
    using assms(3) by (auto simp: appended_as_def)
  then show "db_ok x d' \<and> evolves (isle_db s) d' \<and> told (isle_db s) (positions_of [c]) d'"
    using appended_run [OF assms(1), of "[(stream, e)]" "[e]"] stored_form_stamp [OF assms(2) e(2)] by (simp add: moves_def)
qed

lemmas settled_appending = settled_appended_as settled_refl

lemma append_settled:
  assumes "db_ok x (isle_db s)" and "storable x event" and "append_store x env stream event s = (r, s')"
  shows "settled x s (answers (\<lambda>c. positions_of [c]) r) s'"
  using append_outcome [OF assms(1,2), where env = env and stream = stream] assms settled_appending
  by (cases r) (auto simp: answers_def simp del: positions_of_simps)

lemma append_at_settled:
  assumes "db_ok x (isle_db s)" and "storable x event" and "append_at x env stream t event s = (r, s')"
  shows "settled x s (answers (\<lambda>c. positions_of [c]) r) s'"
  using append_at_outcome [OF assms(1,2), where env = env and stream = stream and epoch_ms = t] assms settled_appending
  by (cases r) (auto simp: answers_def simp del: positions_of_simps)

lemma append_expecting_settled:
  assumes "db_ok x (isle_db s)" and "storable x event" and "append_expecting x env stream wanted event s = (r, s')"
  shows "settled x s (answers (\<lambda>c. positions_of [c]) r) s'"
  using append_expecting_outcome [OF assms(1,2), where env = env and stream = stream and wanted = wanted] assms settled_appending
  by (cases r) (auto simp: answers_def simp del: positions_of_simps)

lemma append_if_settled:
  assumes "db_ok x (isle_db s)" and "\<forall>seen event. decide seen = Some event \<longrightarrow> storable x event"
    and "append_if x a stream kinds decide s = (r, s')"
  shows "settled x s (answers (\<lambda>out. case out of None \<Rightarrow> [] | Some c \<Rightarrow> positions_of [c]) r) s'"
proof (cases r)
  case (Inl e)
  then show ?thesis
    using append_if_outcome [OF assms(1,2), where a = a and stream = stream and kinds = kinds] assms settled_refl by (simp add: answers_def)
next
  case (Inr out)
  then obtain seen where "case decide seen of
         None \<Rightarrow> out = None \<and> s' = s
       | Some event \<Rightarrow> \<exists>c t d'. out = Some c \<and> appended_as x stream event t c (isle_db s) d' \<and> db_ok x d'
           \<and> s' = publish_committed (committed_position c) (s\<lparr>isle_db := d'\<rparr>)"
    using append_if_outcome [OF assms(1,2), where a = a and stream = stream and kinds = kinds] assms(3) by auto
  then show ?thesis
  proof (cases "decide seen")
    case (Some event)
    then have "storable x event" using assms(2) by blast
    then show ?thesis
      using \<open>case decide seen of None \<Rightarrow> _ | Some event \<Rightarrow> _ event\<close> Inr Some settled_appended_as [OF assms(1)]
      by (auto simp: answers_def simp del: positions_of_simps)
  qed (use Inr settled_refl [OF assms(1)] in \<open>simp add: answers_def\<close>)
qed

lemma append_many_settled:
  assumes ok: "db_ok x (isle_db s)" and "\<forall>event \<in> set events. storable x event"
    and "append_many x env stream events s = (r, s')"
  shows "settled x s (answers positions_of r) s'"
proof -
  have "settled x s (positions_of cs) (publish_committed (last_position cs) (s\<lparr>isle_db := d'\<rparr>))"
    if batch: "batch_as x stream events t cs (isle_db s) d'" and ne: "events \<noteq> []" for t cs d'
  proof -
    obtain es where es: "stamps events (next_of (isle_db s) stream) t es" "cs = landings es (events_auto (isle_db s))"
      "consecutive x (in_stream stream es) (isle_db s)" "d' = appended_all x (in_stream stream es) (isle_db s)"
      "events_auto (isle_db s) + int (length events) \<le> i64_max"
      using batch by (auto simp: batch_as_def)
    then have run: "db_ok x d' \<and> evolves (isle_db s) d' \<and> told (isle_db s) (positions_of cs) d'"
      using appended_run [OF ok es(3), of es] by (simp add: stamps_def moves_def)
    moreover have "es \<noteq> []" using es(1) ne by (auto simp: stamps_def)
    ultimately show ?thesis
      using wakes_last [of "isle_db s" es "events_auto (isle_db s)" d'] es(2) by (intro settled_publish) simp_all
  qed
  then show ?thesis
    using append_many_outcome [OF ok, where events = events and env = env and stream = stream] assms settled_refl [OF ok]
    by (cases r) (auto simp: answers_def split: if_splits)
qed

lemma detach_settled:
  assumes "db_ok x (isle_db s)" and "storable x event" and "detach_append x a stream event s = (r, s')"
  shows "settled x s [] s'"
proof (cases "validate event")
  case (Inr u)
  obtain q d' where run: "isle_call a (append_stamped_now x stream event) (isle_db s) = (q, d')" by force
  then have s': "s' = s\<lparr>isle_db := d'\<rparr>" using assms(3) by (simp add: detach_append_def Inr)
  from append_job_outcome [OF assms(1,2) run] show ?thesis
  proof
    assume "\<exists>t c. appended_as x stream event t c (isle_db s) d' \<and> db_ok x d'"
    then obtain t c where "appended_as x stream event t c (isle_db s) d'" by blast
    from settled_appended_as [OF assms(1,2) this] show ?thesis
      unfolding s' by (intro settled_silent) (simp_all add: settled_def)
  qed (simp add: s' settled_refl assms(1))
qed (use assms settled_refl in \<open>auto simp: detach_append_def\<close>)

text \<open>An authorizer that fails to go on stops the call; one that fails to come off hides what it did.\<close>

lemma guarded_any:
  assumes "isle_call a (guarded g body) d = (r, d')"
  shows "(\<exists>e. r = Inl e) \<and> d' = d \<or> (\<exists>q. isle_call a (guarded quiet body) d = (q, d') \<and> (r = q \<or> (\<exists>e. r = Inl e)))"
  using assms
  by (auto simp: isle_call_def guarded_def quiet_def Let_def split: option.splits prod.splits ran.splits sum.splits)

lemma transaction_moves:
  assumes tidy: "tidy x body" and still: "steadfast body" and ok: "db_ok x d"
    and call: "isle_call a (guarded g (in_transaction aborts body)) d = (rt, d')"
  shows "(\<exists>e. rt = Inl e) \<and> d' = d \<or> (\<exists>ps. moves x d ps d' \<and> (\<forall>v qs. rt = Inr (v, qs) \<longrightarrow> qs = ps))"
proof -
  have tr: "transparent surfaced (as_job body sc)" for sc using tidy by (simp add: tidy_def)
  have ran: "(\<exists>e. q = Inl e) \<and> d' = d \<or> (\<exists>v ps. q = Inr (v, ps) \<and> moves x d ps d')"
    if quiet: "isle_call a (guarded quiet (in_transaction aborts body)) d = (q, d')" for q
  proof (rule transaction_call_outcome [OF still tr, of a aborts d])
    fix e assume "isle_call a (guarded quiet (in_transaction aborts body)) d = (Inl e, d)"
    then show ?thesis using quiet by simp
  next
    fix v sc d1
    assume calm: "calm_run (as_job body (entered aborts d)) (readings a) d = (Inr (v, sc), d1)"
      and out: "isle_call a (guarded quiet (in_transaction aborts body)) d = (Inr (v, scope_positions sc), d1)"
    obtain c' where c': "as_job body (entered aborts d) \<lparr>conn_db = d, faults = [], clock = readings a\<rparr> = (Inr (v, sc), c')" "conn_db c' = d1"
      using calm by (auto simp: calm_run_def split: prod.splits)
    from tidyD [OF tidy _ _ c'(1)] ok c'(2) have "moves x d (scope_positions sc) d1" by simp
    then show ?thesis using quiet out by auto
  qed
  from guarded_any [OF call] show ?thesis
  proof (elim disjE exE conjE)
    fix q assume q: "isle_call a (guarded quiet (in_transaction aborts body)) d = (q, d')" "rt = q"
    from ran [OF q(1)] show ?thesis unfolding q(2) by fastforce
  next
    fix q e assume q: "isle_call a (guarded quiet (in_transaction aborts body)) d = (q, d')" "rt = Inl e"
    from ran [OF q(1)] show ?thesis unfolding q(2) by fastforce
  qed simp
qed

lemma transaction_settled:
  assumes built: "built x body" and ok: "db_ok x (isle_db s)"
    and call: "isle_call a (guarded g (in_transaction (engine_aborts a) body)) (isle_db s) = (rt, d)"
    and run: "with_transaction g a body s = (r, s')"
  shows "settled x s (answers snd rt) s'"
  using transaction_moves [OF built_tidy [OF built] built_steadfast [OF built] ok call]
proof (elim disjE conjE exE)
  fix e assume "rt = Inl e" "d = isle_db s"
  then show ?thesis using run call settled_refl [OF ok] by (simp add: with_transaction_def answers_def)
next
  fix ps assume ps: "moves x (isle_db s) ps d" "\<forall>v qs. rt = Inr (v, qs) \<longrightarrow> qs = ps"
  show ?thesis
  proof (cases rt)
    case (Inl e)
    then show ?thesis
      using run call ps settled_silent [of x d s] by (simp add: with_transaction_def answers_def moves_def)
  next
    case (Inr p)
    then obtain v where "p = (v, ps)" using ps(2) by (cases p) simp
    then show ?thesis
      using run call ps(1) Inr settled_publish [OF _ wakes_highest, of x d s ps]
      by (simp add: with_transaction_def answers_def moves_def)
  qed
qed

text \<open>An import is a closure too, and one of those.\<close>

lemma import_built:
  assumes "\<forall>ev \<in> set evs. storable x (exported_object ev)"
  shows "built x (tbind (tx_import_many x evs) (\<lambda>committed. treturn (report_of committed evs)))"
  using assms by (intro built.importing_many built.answering) simp

lemma import_settled:
  assumes ok: "db_ok x (isle_db s)" and ev: "\<forall>ev \<in> set evs. storable x (exported_object ev)"
    and run: "log_import x g a evs s = (r, s')"
  shows "settled x s [] s'"
proof (cases "evs = []")
  case False
  let ?body = "tbind (tx_import_many x evs) (\<lambda>committed. treturn (report_of committed evs))"
  obtain rt d where call: "isle_call a (guarded g (in_transaction (engine_aborts a) ?body)) (isle_db s) = (rt, d)" by force
  have "with_transaction g a ?body s = (r, s')" using run False by (simp add: log_import_def)
  from transaction_settled [OF import_built [OF ev] ok call this] show ?thesis by (simp add: settled_def)
qed (use run settled_refl [OF ok] in \<open>simp add: log_import_def\<close>)

lemma retain_settled:
  assumes "db_ok x (isle_db s)" and "retain a plan guard s = (r, s')"
  shows "settled x s [] s'"
proof -
  have "s' = s \<or> (\<exists>p now. s' = s\<lparr>isle_db := retained p (describe plan) now (isle_db s)\<rparr>)"
    using apply_plan_outcome [OF assms(1), of a plan guard "describe plan" r s'] assms(2)
    by (cases r) (auto simp: retain_def)
  then show ?thesis
    using assms(1) by (auto intro!: settled_silent settled_refl db_ok_retained)
qed

text \<open>The writes that touch no event.\<close>

lemma settled_same:
  assumes "db_ok x (isle_db s)" and "s' = s\<lparr>isle_db := isle_db s'\<rparr>" and "tbl_events (isle_db s') = tbl_events (isle_db s)"
    and "events_auto (isle_db s') = events_auto (isle_db s)" and "tbl_stream_seq (isle_db s') = tbl_stream_seq (isle_db s)"
  shows "settled x s [] s'"
  using settled_silent [of x "isle_db s'" s] db_ok_same_events [OF assms(3-5), of x] evolves_same_events [OF assms(3-5)]
    assms(1) assms(2) [symmetric] by simp

lemma save_settled:
  assumes "db_ok x (isle_db s)" and "checkpoint_save a consumer p s = (r, s')"
  shows "settled x s [] s'"
proof -
  have "s' = s \<or> (\<exists>i now. s' = s\<lparr>isle_db := upsert_checkpoint consumer i now (isle_db s)\<rparr>)"
    using checkpoint_save_outcome [OF assms(2)] by (cases r) auto
  then show ?thesis
    using assms(1) by (auto intro!: settled_same settled_refl simp: upsert_checkpoint_def)
qed

lemma receipt_settled:
  assumes "db_ok x (isle_db s)" and "write_receipt a now from f evs s = (r, s')"
  shows "settled x s [] s'"
proof (cases r)
  case (Inr p)
  then show ?thesis
    using write_receipt_outcome [OF assms(2)] assms(1) by (cases p) (auto intro!: settled_same)
qed (use write_receipt_outcome [OF assms(2)] settled_refl [OF assms(1)] in simp)

lemma confirm_changes:
  assumes "confirm_export a now receipt s = (r, s')"
  shows "s' = s\<lparr>isle_db := isle_db s'\<rparr>"
    and "isle_db s' = isle_db s \<or> (\<exists>t i. isle_db s' = landed_at t i (isle_db s))"
proof -
  have "isle_call a (confirm_job t i receipt) d = (q, d') \<Longrightarrow> d' = d \<or> d' = landed_at t i d" for t i q and d d' :: "'a database"
    by (auto simp: isle_call_def confirm_job_def job_calm statement_def query_row_def next_fault_def Let_def land_export_eq
        split: option.splits prod.splits sum.splits list.splits if_splits rusqlite_error.splits)
  then show "s' = s\<lparr>isle_db := isle_db s'\<rparr>" "isle_db s' = isle_db s \<or> (\<exists>t i. isle_db s' = landed_at t i (isle_db s))"
    using assms by (fastforce simp: confirm_export_def writer_job_def split: option.splits prod.splits)+
qed

lemma confirm_settled:
  assumes "db_ok x (isle_db s)" and "confirm_export a now receipt s = (r, s')"
  shows "settled x s [] s'"
  using confirm_changes [OF assms(2)] assms(1) by (intro settled_same) auto

lemma record_row_plain: "\<exists>rec. record_row x [] r = Inr rec"
  by (simp add: record_row_def row_object_def Let_def result_simps)

lemma init_committed:
  assumes "committed_by (projection_init code) p v p' d d'" and "implements code M"
  shows "d' = d\<lparr>caller_tables := model_init M (caller_tables d)\<rparr>"
  using assms by (auto simp: committed_by_def implements_def writes_only_def)

lemma only_folds_settled:
  assumes "db_ok x (isle_db s)" and "s' = s\<lparr>isle_db := isle_db s'\<rparr>" and "only_folds name (isle_db s) (isle_db s')"
  shows "settled x s [] s'"
  using assms(3) by (intro settled_same [OF assms(1,2)]) (simp_all add: only_folds_def)

definition well_behaved :: "('m, 'p) projection set \<Rightarrow> bool" where
  "well_behaved codes \<longleftrightarrow> (\<forall>code \<in> codes. \<exists>name kinds tolerates M. steady code name kinds tolerates \<and> implements code M)"

lemma folding_settled:
  assumes ok: "db_ok x (isle_db s)" and code: "runner_code w \<in> codes" "well_behaved codes"
    and run: "run_once x g a w s = (r, w', s')"
  shows "settled x s [] s'"
proof -
  obtain name kinds tolerates M where st: "steady (runner_code w) name kinds tolerates" "implements (runner_code w) M"
    using code by (auto simp: well_behaved_def)
  note cases = run_once_cases [OF run ok st]
  have s': "s' = s\<lparr>isle_db := isle_db s'\<rparr>" using cases(1) by blast
  from cases(2) have "isle_db s' = isle_db s \<or> only_folds name (isle_db s) (isle_db s')"
    unfolding folded_batch_def by blast
  then show ?thesis
    using only_folds_settled [OF ok s'] settled_refl [OF ok] s' by (metis shared.surjective shared.update_convs(1))
qed

lemma emptying_settled:
  assumes ok: "db_ok x (isle_db s)" and code: "runner_code w \<in> codes" "well_behaved codes"
    and run: "runner_transaction g a (rebuild_body (runner_code w)) w s = (r, w', s')"
  shows "settled x s [] s'"
proof -
  obtain name kinds tolerates M where st: "steady (runner_code w) name kinds tolerates" "implements (runner_code w) M"
    using code by (auto simp: well_behaved_def)
  note cases = runner_transaction_cases [OF run]
  have s': "s' = s\<lparr>isle_db := isle_db s'\<rparr>" using cases(1) by blast
  from cases(2) rebuild_committed [OF _ ok st] have "isle_db s' = isle_db s \<or> only_folds name (isle_db s) (isle_db s')"
    by blast
  then show ?thesis
    using only_folds_settled [OF ok s'] settled_refl [OF ok] s' by (metis shared.surjective shared.update_convs(1))
qed

lemma initialising_settled:
  assumes ok: "db_ok x (isle_db s)" and code: "runner_code w \<in> codes" "well_behaved codes"
    and run: "runner_init g a w s = (r, w', s')"
  shows "settled x s [] s'"
proof -
  obtain M where M: "implements (runner_code w) M"
    using code by (auto simp: well_behaved_def)
  note cases = runner_transaction_cases [OF run [unfolded runner_init_def]]
  have s': "s' = s\<lparr>isle_db := isle_db s'\<rparr>" using cases(1) by blast
  from cases(2) init_committed [OF _ M] have "isle_db s' = isle_db s \<or> only_folds [] (isle_db s) (isle_db s')"
    by (metis only_folds_refl)
  then show ?thesis
    using only_folds_settled [OF ok s'] settled_refl [OF ok] s' by (metis shared.surjective shared.update_convs(1))
qed

lemma plain_write_settled:
  assumes "plain_write x codes s ps s'" and ok: "db_ok x (isle_db s)" and "well_behaved codes"
  shows "settled x s ps s'"
  using assms(1)
  by cases (use ok assms(3) in \<open>auto intro: append_settled append_at_settled append_expecting_settled append_many_settled
      append_if_settled detach_settled transaction_settled import_settled save_settled retain_settled
      folding_settled emptying_settled initialising_settled simp del: positions_of_simps\<close>)

lemma log_write_settled:
  assumes "log_write x codes s ps s'" and ok: "db_ok x (isle_db s)" and "well_behaved codes"
  shows "settled x s ps s'"
  using assms(1)
  by cases (use ok assms(3) in \<open>auto intro: plain_write_settled receipt_settled confirm_settled\<close>)

lemma settled_trans:
  assumes one: "settled x s ps s'" and two: "settled x s' qs s''"
  shows "settled x s (ps @ qs) s''"
proof -
  have "evolves (isle_db s) (isle_db s'')"
    using one two by (auto simp: settled_def intro: evolves_trans)
  moreover have "told (isle_db s) (ps @ qs) (isle_db s'')"
    by (rule told_append [where d' = "isle_db s'"]) (use one two in \<open>simp_all add: settled_def evolves_def\<close>)
  ultimately show ?thesis using one two by (fastforce simp: settled_def)
qed

lemma log_writes_settled:
  assumes "log_writes x codes s ps s'" and "db_ok x (isle_db s)" and "well_behaved codes"
  shows "settled x s ps s'"
  using assms(1,2)
proof (induction rule: log_writes.induct)
  case (more s ps s' qs s'')
  then have one: "settled x s ps s'" by simp
  then have "db_ok x (isle_db s')" by (simp add: settled_def)
  then show ?case by (intro settled_trans [OF one] log_write_settled [OF more.hyps(2) _ assms(3)])
qed (simp add: settled_refl)

text \<open>
  An event is never rewritten and its numbers are never given again. Over any run of appends, of
  decisions, of closures in transactions that hand every error on, of imports, detached appends, checkpoints,
  receipts, removals and projection batches, in any order and with any failures: whatever is stored at the end was stored at the
  beginning, exactly as it is, or lies above every position and at or above its stream's counter as they
  were at the beginning; and neither the highest position nor any counter has gone back, removals included.
\<close>

theorem events_are_never_rewritten:
  assumes "log_writes x codes s ps s'" and "db_ok x (isle_db s)" and "well_behaved codes"
  shows "(\<forall>r \<in> set (tbl_events (isle_db s')). r \<in> set (tbl_events (isle_db s))
       \<or> (events_auto (isle_db s) < row_position r \<and> uint (next_of (isle_db s) (row_stream r)) \<le> row_seq r))
     \<and> events_auto (isle_db s) \<le> events_auto (isle_db s')
     \<and> (\<forall>stream. next_of (isle_db s) stream \<le> next_of (isle_db s') stream) \<and> db_ok x (isle_db s')"
  using log_writes_settled [OF assms] by (auto simp: settled_def evolves_def)

text \<open>Two appends and a removal of both.\<close>

lemma append_once:
  fixes s :: "'m shared"
  assumes "db_ok toy_ext (isle_db s)" and "events_auto (isle_db s) < i64_max"
  shows "\<exists>s'. log_write toy_ext codes s [position_of_stored (events_auto (isle_db s) + 1)] s'
     \<and> db_ok toy_ext (isle_db s') \<and> events_auto (isle_db s') = events_auto (isle_db s) + 1"
proof -
  obtain c e s' where run: "append_store toy_ext (\<lambda>_. calm_at 9) ''s'' (sample_event ''paid'') s = (Inr c, s')"
    and s': "isle_db s' = appended toy_ext ''s'' e (isle_db s)" "db_ok toy_ext (isle_db s')"
    and c: "committed_position c = Some (position_of_stored (events_auto (isle_db s) + 1))"
    by (rule sample_append [OF assms])
  have "log_write toy_ext codes s [position_of_stored (events_auto (isle_db s) + 1)] s'"
    using log_write.plain [OF plain_write.appending [OF sample_event_ok(1) run, of codes]] c by (simp add: answers_def)
  then show ?thesis using s' by auto
qed

lemma append_twice:
  "\<exists>s'. log_writes toy_ext codes (sample_log (empty_database m)) [Position 1, Position 2] s'"
proof -
  let ?s = "sample_log (empty_database m)"
  have at: "position_of_stored 1 = Position 1" "position_of_stored 2 = Position 2" "events_auto (empty_database m) = 0"
    by (simp_all add: position_of_stored_def as_u64_def empty_database_def)
  obtain s1 where s1: "log_write toy_ext codes ?s [Position 1] s1" "db_ok toy_ext (isle_db s1)" "events_auto (isle_db s1) = 1"
    using append_once [of ?s codes] at by (auto simp: i64_max_def)
  then obtain s2 where s2: "log_write toy_ext codes s1 [Position 2] s2"
    using append_once [of s1 codes] at by (auto simp: i64_max_def)
  from log_writes.more [OF log_writes.more [OF log_writes.none s1(1)] s2] show ?thesis by auto
qed

theorem events_are_never_rewritten_witness:
  "\<exists>s' :: unit shared. log_writes toy_ext ({} :: (unit, unit) projection set) (sample_log (empty_database ())) [Position 1, Position 2] s'
     \<and> (\<forall>r \<in> set (tbl_events (isle_db s')). 0 < row_position r)"
proof -
  obtain s' where run: "log_writes toy_ext ({} :: (unit, unit) projection set) (sample_log (empty_database ())) [Position 1, Position 2] s'"
    using append_twice [of "{} :: (unit, unit) projection set" "()"] by blast
  have "db_ok toy_ext (isle_db (sample_log (empty_database ())))" "well_behaved ({} :: (unit, unit) projection set)"
    by (simp_all add: well_behaved_def)
  from events_are_never_rewritten [OF run this] run show ?thesis
    by (intro exI [of _ s']) (auto simp: empty_database_def)
qed

text \<open>
  C5. The whole log refines a log that only records and forgets. Over any run of appends, of decisions, of
  closures in transactions, of imports, detached appends, checkpoints, receipts, removals, and of
  projections set up, run and rebuilt, in any order and with any failures, where the closures are built
  from the operations of the context and their own statements and hand every error on (what a closure
  that swallows one can do is \<open>swallowed_import_breaks_the_stream\<close>, and what one that ends its transaction
  can, \<open>commit_inside_splits_the_transaction\<close>) and the projections write no
  tables but their own, there is a run of the specification from what was stored to what is
  stored: it recorded entries under every position from the old highest to the new one, without
  a gap and in order, and in each stream under every number from the old counter to the new one; what is
  stored now is what was stored and was recorded, in that order, less what was forgotten, each entry as it
  was; and every position a caller was told of is that of a recorded entry.
\<close>

theorem every_run_refines_the_log:
  assumes "log_writes x codes s ps s'" and "db_ok x (isle_db s)" and "well_behaved codes"
  shows "\<exists>rows. ideal_run (ideal_of (isle_db s)) rows (ideal_of (isle_db s'))
     \<and> map row_position rows = [events_auto (isle_db s) + 1..events_auto (isle_db s')]
     \<and> (\<forall>stream. map row_seq (List.filter (\<lambda>r. row_stream r = stream) rows)
          = [uint (next_of (isle_db s) stream)..uint (next_of (isle_db s') stream) - 1])
     \<and> subseq (tbl_events (isle_db s')) (tbl_events (isle_db s) @ rows)
     \<and> set ps \<subseteq> row_place ` set rows"
proof -
  have settled: "evolves (isle_db s) (isle_db s')" "told (isle_db s) ps (isle_db s')"
    using log_writes_settled [OF assms] by (simp_all add: settled_def)
  then obtain rows where run: "ideal_run (ideal_of (isle_db s)) rows (ideal_of (isle_db s'))"
    unfolding evolves_def follows_ideal_def by blast
  have at: "map row_position rows = [events_auto (isle_db s) + 1..events_auto (isle_db s')]"
    using ideal_run_positions [OF run] by (simp add: ideal_of_def)
  have "p \<in> row_place ` set rows" if "p \<in> set ps" for p
  proof -
    have "uint (get p) \<in> set (map row_position rows)"
      unfolding at using settled(2) that by (auto simp: told_def)
    then obtain row where row: "row \<in> set rows" "row_position row = uint (get p)" by auto
    then have "row_place row = p" by (cases p) (simp add: row_place_def position_of_stored_def as_u64_def)
    then show ?thesis using row(1) by blast
  qed
  then show ?thesis
    using run at ideal_run_seqs [OF run] ideal_run_entries [OF run] by (intro exI [of _ rows]) (auto simp: ideal_of_def)
qed

theorem every_run_refines_the_log_witness:
  "\<exists>(s' :: unit shared) rows. ideal_run (ideal_of (empty_database ())) rows (ideal_of (isle_db s'))
     \<and> {Position 1, Position 2} \<subseteq> row_place ` set rows"
proof -
  obtain s' where run: "log_writes toy_ext ({} :: (unit, unit) projection set) (sample_log (empty_database ())) [Position 1, Position 2] s'"
    using append_twice [of "{} :: (unit, unit) projection set" "()"] by blast
  have "db_ok toy_ext (isle_db (sample_log (empty_database ())))" "well_behaved ({} :: (unit, unit) projection set)"
    by (simp_all add: well_behaved_def)
  from every_run_refines_the_log [OF run this] obtain rows where
    "ideal_run (ideal_of (empty_database ())) rows (ideal_of (isle_db s'))" "{Position 1, Position 2} \<subseteq> row_place ` set rows"
    by auto
  then show ?thesis by blast
qed



end
