(* ===== verification/Catalog.thy ===== *)
theory Catalog
  imports Retention "HOL-Library.Option_ord"
begin

text \<open>
  The five listings: \<open>crates/eventsdb-sqlite/src/catalog.rs\<close>. Each is one statement on a reader: the rows
  whose key is above an exclusive cursor, in the order of the key, as many as the limit allows.
\<close>

section \<open>What a listing answers\<close>

record stream_info =
  info_stream :: rust_string
  head_seq :: u64

record consumer_checkpoint =
  consumer_name :: rust_string
  consumer_position :: position
  updated_ms :: u64

record retention_entry =
  entry_id :: u64
  applied_ms :: u64
  entry_plan :: rust_string
  removed_count :: usize
  entry_highest :: position

record export_record =
  record_receipt :: export_receipt
  taken_ms :: u64
  landed_ms :: "u64 option"

definition record_landed :: "export_record \<Rightarrow> bool" where
  "record_landed r \<longleftrightarrow> landed_ms r \<noteq> None"

section \<open>Columns\<close>

definition at_least_zero :: "i64 \<Rightarrow> u64" where
  "at_least_zero stored = as_u64 (max stored 0)"

definition saturating_sub :: "u64 \<Rightarrow> u64 \<Rightarrow> u64" where
  "saturating_sub a b = (if b \<le> a then a - b else 0)"

definition position_of :: "i64 \<Rightarrow> position" where
  "position_of stored = Position (at_least_zero stored)"

definition after_id :: "u64 \<Rightarrow> i64" where
  "after_id after = (case i64_try_from after of Some n \<Rightarrow> n | None \<Rightarrow> i64_max)"

definition stream_info_of :: "rust_string \<times> i64 \<Rightarrow> stream_info" where
  "stream_info_of row = \<lparr> info_stream = fst row, head_seq = saturating_sub (at_least_zero (snd row)) 1 \<rparr>"

definition consumer_of :: "rust_string \<times> checkpoint_row \<Rightarrow> consumer_checkpoint" where
  "consumer_of row = \<lparr> consumer_name = fst row, consumer_position = position_of (checkpoint_position (snd row)),
     updated_ms = at_least_zero (checkpoint_updated_ms (snd row)) \<rparr>"

definition entry_of :: "retention_row \<Rightarrow> retention_entry" where
  "entry_of row = \<lparr> entry_id = at_least_zero (retention_id row), applied_ms = at_least_zero (retention_applied_ms row),
     entry_plan = retention_plan row, removed_count = at_least_zero (retention_removed_count row),
     entry_highest = position_of (retention_highest_removed row) \<rparr>"

definition record_of :: "export_row \<Rightarrow> export_record" where
  "record_of row = \<lparr> record_receipt = \<lparr> receipt_id = at_least_zero (export_id row),
       receipt_from = position_of (export_from_position row), receipt_through = position_of (export_through row),
       receipt_count = at_least_zero (export_count row), receipt_whole = export_whole row \<rparr>,
     taken_ms = at_least_zero (export_taken_ms row),
     landed_ms = map_option at_least_zero (export_landed_ms row) \<rparr>"

section \<open>The listings\<close>

text \<open>The condition a cursor places on the key of a row.\<close>

definition beyond :: "'k :: linorder option \<Rightarrow> 'k \<Rightarrow> bool" where
  "beyond after key \<longleftrightarrow> (case after of None \<Rightarrow> True | Some at \<Rightarrow> at < key)"

text \<open>Prepare, run and collect; and the reader every listing goes to.\<close>

definition collect :: "('m database \<Rightarrow> 'r list) \<Rightarrow> ('r \<Rightarrow> 'a) \<Rightarrow> ('m, error, 'a list) job" where
  "collect rows read = map_err classify (query_map rows (\<lambda>row. Inr (read row)))"

definition listing :: "attempt \<Rightarrow> ('m, error, 'a list) job \<Rightarrow> 'm shared \<Rightarrow> 'a list result" where
  "listing a job s = read_job a job s"

definition streams ::
  "attempt \<Rightarrow> rust_string option \<Rightarrow> rust_string option \<Rightarrow> usize \<Rightarrow> 'm shared \<Rightarrow> stream_info list result" where
  "streams a after p limit s =
     (if limit = 0 then Inr []
      else listing a (collect
        (\<lambda>d. sql_limit (clamp_limit limit) (sort_key fst
           (List.filter (\<lambda>row. beyond after (fst row) \<and> in_prefix_range p (fst row)) (tbl_stream_seq d))))
        stream_info_of) s)"

definition kinds :: "attempt \<Rightarrow> rust_string option \<Rightarrow> usize \<Rightarrow> 'm shared \<Rightarrow> rust_string list result" where
  "kinds a after limit s =
     (if limit = 0 then Inr []
      else listing a (collect
        (\<lambda>d. sql_limit (clamp_limit limit) (sort (remdups
           (List.filter (beyond after) (map row_kind (tbl_events d))))))
        (\<lambda>kind. kind)) s)"

definition checkpoints :: "attempt \<Rightarrow> rust_string option \<Rightarrow> usize \<Rightarrow> 'm shared \<Rightarrow> consumer_checkpoint list result" where
  "checkpoints a after limit s =
     (if limit = 0 then Inr []
      else listing a (collect
        (\<lambda>d. sql_limit (clamp_limit limit) (sort_key fst (List.filter (\<lambda>row. beyond after (fst row)) (tbl_checkpoints d))))
        consumer_of) s)"

definition retention_ledger :: "attempt \<Rightarrow> u64 option \<Rightarrow> usize \<Rightarrow> 'm shared \<Rightarrow> retention_entry list result" where
  "retention_ledger a after limit s =
     (if limit = 0 then Inr []
      else listing a (collect
        (\<lambda>d. sql_limit (clamp_limit limit) (sort_key retention_id
           (List.filter (\<lambda>row. beyond (map_option after_id after) (retention_id row)) (tbl_retention d))))
        entry_of) s)"

definition export_receipts :: "attempt \<Rightarrow> u64 option \<Rightarrow> usize \<Rightarrow> 'm shared \<Rightarrow> export_record list result" where
  "export_receipts a after limit s =
     (if limit = 0 then Inr []
      else listing a (collect
        (\<lambda>d. sql_limit (clamp_limit limit) (sort_key export_id
           (List.filter (\<lambda>row. beyond (map_option after_id after) (export_id row)) (tbl_exports d))))
        record_of) s)"

end
