(* ===== verification/Catalog_Theorems.thy ===== *)
theory Catalog_Theorems
  imports Catalog Archive
begin

text \<open>
  What a listing promises: paged from the beginning it shows every row of its table once, in order; and what
  a removal leaves of each of the five.
\<close>

section \<open>The tables behind the listings\<close>

text \<open>Primary keys are unique, and ids are rowids handed out in order.\<close>

definition keys_ok :: "'m database \<Rightarrow> bool" where
  "keys_ok d \<longleftrightarrow>
     distinct (map fst (tbl_stream_seq d)) \<and> distinct (map fst (tbl_checkpoints d))
     \<and> sorted_wrt (<) (map retention_id (tbl_retention d))
     \<and> (\<forall>r \<in> set (tbl_retention d). 1 \<le> retention_id r \<and> retention_id r \<le> retention_auto d)
     \<and> 0 \<le> retention_auto d \<and> retention_auto d \<le> i64_max"

definition catalog_ok :: "'m database \<Rightarrow> bool" where
  "catalog_ok d \<longleftrightarrow> keys_ok d \<and> receipts_ok d"

text \<open>No table has as many rows as a file has rowids for.\<close>

definition rows_fit :: "'m database \<Rightarrow> bool" where
  "rows_fit d \<longleftrightarrow>
     int (length (tbl_stream_seq d)) \<le> i64_max \<and> int (length (tbl_events d)) \<le> i64_max
     \<and> int (length (tbl_checkpoints d)) \<le> i64_max \<and> int (length (tbl_retention d)) \<le> i64_max
     \<and> int (length (tbl_exports d)) \<le> i64_max"

section \<open>Whole listings\<close>

definition all_streams :: "rust_string option \<Rightarrow> 'm database \<Rightarrow> stream_info list" where
  "all_streams p d = map stream_info_of (sort_key fst (List.filter (\<lambda>row. in_prefix_range p (fst row)) (tbl_stream_seq d)))"

definition all_kinds :: "'m database \<Rightarrow> rust_string list" where
  "all_kinds d = sort (remdups (map row_kind (tbl_events d)))"

definition all_checkpoints :: "'m database \<Rightarrow> consumer_checkpoint list" where
  "all_checkpoints d = map consumer_of (sort_key fst (tbl_checkpoints d))"

definition all_entries :: "'m database \<Rightarrow> retention_entry list" where
  "all_entries d = map entry_of (tbl_retention d)"

definition all_receipts :: "'m database \<Rightarrow> export_record list" where
  "all_receipts d = map record_of (tbl_exports d)"

section \<open>A page\<close>

lemma beyond_Some: "beyond after key \<longleftrightarrow> after < Some key"
  by (cases after) (simp_all add: beyond_def)

lemma collect_calm: "listing (calm_at t) (collect rows read) s = Inr (map read (rows (isle_db s)))"
proof -
  have "traverse (\<lambda>row. Inr (read row)) (rows (isle_db s)) = (Inr (map read (rows (isle_db s))) :: rusqlite_error + _)"
    by (rule traverse_pure) simp
  then show ?thesis by (simp add: listing_def read_job_def isle_call_def calm_at_def collect_def job_simps)
qed

lemma sorted_strict: "distinct (map f xs) \<Longrightarrow> sorted_wrt (<) (map f (sort_key f xs))"
  by (simp add: strict_sorted_iff distinct_map)

lemma sort_key_sorted: "sorted_wrt (<) (map f xs) \<Longrightarrow> sort_key f xs = xs"
  by (rule sort_key_id_if_sorted) (auto simp: strict_sorted_iff)

lemma at_least_zero_id: "1 \<le> i \<Longrightarrow> i \<le> i64_max \<Longrightarrow> uint (at_least_zero i) = i"
  by (simp add: at_least_zero_def uint_as_u64)

lemma after_id_beyond:
  assumes "1 \<le> i" and "i \<le> i64_max"
  shows "beyond (map_option after_id after) i \<longleftrightarrow> after < Some (at_least_zero i)"
  using assms at_least_zero_id [OF assms]
  by (cases after) (auto simp: beyond_def after_id_def i64_try_from_def word_less_def)

lemma page_of_sorted:
  assumes "int (length rows) \<le> i64_max" and "\<And>r. r \<in> set rows \<Longrightarrow> P r = (c < key (f r))"
  shows "map f (sql_limit (clamp_limit n) (List.filter P rows)) = take (unat n) (List.filter (\<lambda>a. c < key a) (map f rows))"
proof -
  have "int (length (List.filter P rows)) \<le> i64_max" using assms(1) length_filter_le [of P rows] by linarith
  moreover have "List.filter P rows = List.filter (\<lambda>r. c < key (f r)) rows" using assms(2) by (auto intro: filter_cong)
  ultimately show ?thesis by (simp add: sql_limit_clamp filter_map o_def take_map)
qed

section \<open>Every listing pages\<close>

text \<open>A page of each, where nothing fails, as a function of the tables.\<close>

lemma streams_page:
  assumes "catalog_ok d" and "rows_fit d"
  shows "streams (calm_at t) after p n (sample_log d) =
     Inr (take (unat n) (List.filter (\<lambda>i. after < Some (info_stream i)) (all_streams p d)))"
proof -
  let ?rows = "sort_key fst (List.filter (\<lambda>row. in_prefix_range p (fst row)) (tbl_stream_seq d))"
  have "sort_key fst (List.filter (\<lambda>row. beyond after (fst row) \<and> in_prefix_range p (fst row)) (tbl_stream_seq d))
      = List.filter (\<lambda>row. beyond after (fst row)) ?rows"
    by (simp add: filter_sort conj_commute)
  moreover have "length ?rows \<le> length (tbl_stream_seq d)" by simp
  then have "int (length ?rows) \<le> i64_max" using assms(2) unfolding rows_fit_def by linarith
  moreover have "beyond after (fst row) = (after < Some (info_stream (stream_info_of row)))" for row
    by (simp add: beyond_Some stream_info_of_def)
  ultimately show ?thesis
    using page_of_sorted [of ?rows "\<lambda>row. beyond after (fst row)" after "\<lambda>i. Some (info_stream i)" stream_info_of n]
    by (simp add: streams_def collect_calm all_streams_def)
qed

lemma kinds_page:
  assumes "rows_fit d"
  shows "kinds (calm_at t) after n (sample_log d) = Inr (take (unat n) (List.filter (\<lambda>k. after < Some k) (all_kinds d)))"
proof -
  have "sort (remdups (List.filter (beyond after) (map row_kind (tbl_events d)))) = List.filter (beyond after) (all_kinds d)"
    by (simp add: all_kinds_def filter_sort remdups_filter [symmetric])
  moreover have "length (all_kinds d) \<le> length (tbl_events d)"
    using length_remdups_leq [of "map row_kind (tbl_events d)"] by (simp add: all_kinds_def)
  then have "int (length (all_kinds d)) \<le> i64_max" using assms unfolding rows_fit_def by linarith
  ultimately show ?thesis
    using page_of_sorted [of "all_kinds d" "beyond after" after Some "\<lambda>k. k" n]
    by (simp add: kinds_def collect_calm beyond_Some)
qed

lemma checkpoints_page:
  assumes "rows_fit d"
  shows "checkpoints (calm_at t) after n (sample_log d) =
     Inr (take (unat n) (List.filter (\<lambda>i. after < Some (consumer_name i)) (all_checkpoints d)))"
proof -
  have "sort_key fst (List.filter (\<lambda>row. beyond after (fst row)) (tbl_checkpoints d))
      = List.filter (\<lambda>row. beyond after (fst row)) (sort_key fst (tbl_checkpoints d))"
    by (simp add: filter_sort)
  moreover have "beyond after (fst row) = (after < Some (consumer_name (consumer_of row)))" for row
    by (simp add: beyond_Some consumer_of_def)
  ultimately show ?thesis
    using assms page_of_sorted [of "sort_key fst (tbl_checkpoints d)" "\<lambda>row. beyond after (fst row)" after
        "\<lambda>i. Some (consumer_name i)" consumer_of n]
    by (simp add: checkpoints_def collect_calm all_checkpoints_def rows_fit_def)
qed

lemma ledger_page:
  assumes "catalog_ok d" and "rows_fit d"
  shows "retention_ledger (calm_at t) after n (sample_log d) =
     Inr (take (unat n) (List.filter (\<lambda>i. after < Some (entry_id i)) (all_entries d)))"
proof -
  have "sort_key retention_id (List.filter (\<lambda>row. beyond (map_option after_id after) (retention_id row)) (tbl_retention d))
      = List.filter (\<lambda>row. beyond (map_option after_id after) (retention_id row)) (tbl_retention d)"
    by (rule sort_key_sorted [OF sorted_wrt_filter_map]) (use assms(1) in \<open>simp add: catalog_ok_def keys_ok_def\<close>)
  moreover have "beyond (map_option after_id after) (retention_id row) = (after < Some (entry_id (entry_of row)))"
    if "row \<in> set (tbl_retention d)" for row
    using after_id_beyond [of "retention_id row" after] assms(1) that by (force simp: catalog_ok_def keys_ok_def entry_of_def)
  ultimately show ?thesis
    using assms(2) page_of_sorted [of "tbl_retention d" "\<lambda>row. beyond (map_option after_id after) (retention_id row)" after
        "\<lambda>i. Some (entry_id i)" entry_of n]
    by (simp add: retention_ledger_def collect_calm all_entries_def rows_fit_def)
qed

lemma receipts_page:
  assumes "catalog_ok d" and "rows_fit d"
  shows "export_receipts (calm_at t) after n (sample_log d) =
     Inr (take (unat n) (List.filter (\<lambda>i. after < Some (receipt_id (record_receipt i))) (all_receipts d)))"
proof -
  have "sort_key export_id (List.filter (\<lambda>row. beyond (map_option after_id after) (export_id row)) (tbl_exports d))
      = List.filter (\<lambda>row. beyond (map_option after_id after) (export_id row)) (tbl_exports d)"
    by (rule sort_key_sorted [OF sorted_wrt_filter_map]) (use assms(1) in \<open>simp add: catalog_ok_def keys_ok_def receipts_ok_def\<close>)
  moreover have "beyond (map_option after_id after) (export_id row) = (after < Some (receipt_id (record_receipt (record_of row))))"
    if "row \<in> set (tbl_exports d)" for row
    using after_id_beyond [of "export_id row" after] assms(1) that
    by (force simp: catalog_ok_def keys_ok_def receipts_ok_def record_of_def)
  ultimately show ?thesis
    using assms(2) page_of_sorted [of "tbl_exports d" "\<lambda>row. beyond (map_option after_id after) (export_id row)" after
        "\<lambda>i. Some (receipt_id (record_receipt i))" record_of n]
    by (simp add: export_receipts_def collect_calm all_receipts_def rows_fit_def)
qed

text \<open>So each of the five pages as \<open>read_all\<close> and \<open>export\<close> do.\<close>

lemma Some_less: "sorted_wrt (<) (map (\<lambda>a. Some (f a)) xs) = sorted_wrt (<) (map f xs)"
  by (simp add: sorted_wrt_map)

interpretation stream_pages: cursor_pages "\<lambda>d. catalog_ok d \<and> rows_fit d" "all_streams p" "\<lambda>i. Some (info_stream i)"
    "\<lambda>_. True" "\<lambda>d c n. streams (calm_at 0) c p n (sample_log d)" for p
proof
  fix d :: "'a database"
  assume "catalog_ok d \<and> rows_fit d"
  then show "sorted_wrt (<) (map (\<lambda>i. Some (info_stream i)) (all_streams p d))"
    using sorted_strict [of fst "List.filter (\<lambda>row. in_prefix_range p (fst row)) (tbl_stream_seq d)"]
    by (simp add: Some_less all_streams_def stream_info_of_def o_def catalog_ok_def keys_ok_def distinct_map_filter)
qed (simp_all add: streams_page)

interpretation kind_pages: cursor_pages rows_fit all_kinds Some "\<lambda>_. True" "\<lambda>d c n. kinds (calm_at 0) c n (sample_log d)"
proof
  fix d :: "'a database"
  show "sorted_wrt (<) (map Some (all_kinds d))"
    using Some_less [of "\<lambda>k. k" "all_kinds d"] by (simp add: all_kinds_def strict_sorted_iff)
qed (simp_all add: kinds_page)

interpretation checkpoint_pages: cursor_pages "\<lambda>d. catalog_ok d \<and> rows_fit d" all_checkpoints "\<lambda>i. Some (consumer_name i)"
    "\<lambda>_. True" "\<lambda>d c n. checkpoints (calm_at 0) c n (sample_log d)"
proof
  fix d :: "'a database"
  assume "catalog_ok d \<and> rows_fit d"
  then show "sorted_wrt (<) (map (\<lambda>i. Some (consumer_name i)) (all_checkpoints d))"
    using sorted_strict [of fst "tbl_checkpoints d"]
    by (simp add: Some_less all_checkpoints_def consumer_of_def o_def catalog_ok_def keys_ok_def)
qed (simp_all add: checkpoints_page)

lemma ids_sorted:
  assumes "sorted_wrt (<) (map id_of rows)" and "\<forall>r \<in> set rows. 1 \<le> id_of r \<and> id_of r \<le> i64_max"
  shows "sorted_wrt (<) (map (\<lambda>r. at_least_zero (id_of r)) rows)"
proof -
  have less: "at_least_zero (id_of r) < at_least_zero (id_of r')" if "r \<in> set rows" "r' \<in> set rows" "id_of r < id_of r'" for r r'
    using that assms(2) by (simp add: word_less_def at_least_zero_id)
  from assms(1) have "sorted_wrt (\<lambda>r r'. id_of r < id_of r') rows" by (simp add: sorted_wrt_map)
  then have "sorted_wrt (\<lambda>r r'. at_least_zero (id_of r) < at_least_zero (id_of r')) rows"
    by (rule sorted_wrt_mono_rel [rotated]) (rule less)
  then show ?thesis by (simp add: sorted_wrt_map)
qed

interpretation ledger_pages: cursor_pages "\<lambda>d. catalog_ok d \<and> rows_fit d" all_entries "\<lambda>i. Some (entry_id i)"
    "\<lambda>_. True" "\<lambda>d c n. retention_ledger (calm_at 0) c n (sample_log d)"
proof
  fix d :: "'a database"
  assume "catalog_ok d \<and> rows_fit d"
  then show "sorted_wrt (<) (map (\<lambda>i. Some (entry_id i)) (all_entries d))"
    using ids_sorted [of retention_id "tbl_retention d"]
    by (force simp: Some_less all_entries_def entry_of_def o_def catalog_ok_def keys_ok_def)
qed (simp_all add: ledger_page)

interpretation receipt_pages: cursor_pages "\<lambda>d. catalog_ok d \<and> rows_fit d" all_receipts
    "\<lambda>i. Some (receipt_id (record_receipt i))" "\<lambda>_. True" "\<lambda>d c n. export_receipts (calm_at 0) c n (sample_log d)"
proof
  fix d :: "'a database"
  assume "catalog_ok d \<and> rows_fit d"
  then show "sorted_wrt (<) (map (\<lambda>i. Some (receipt_id (record_receipt i))) (all_receipts d))"
    using ids_sorted [of export_id "tbl_exports d"]
    by (force simp: Some_less all_receipts_def record_of_def o_def catalog_ok_def keys_ok_def receipts_ok_def)
qed (simp_all add: receipts_page)

lemma beyond_none: "List.filter (\<lambda>a. None < Some (f a)) xs = xs"
  by simp

text \<open>
  C31. Each of the five listings shows its table once, in order. Paged from the beginning with any page size,
  each page from the key the page before ended at: \<open>streams\<close> gives every stream with a counter under the
  prefix and the number it has reached, in the order of the names; \<open>kinds\<close> every kind an event has, once;
  \<open>checkpoints\<close> every consumer; \<open>retention_ledger\<close> every removal and \<open>export_receipts\<close> every receipt, in the
  order they were written. The walk ends after one page more than there are rows at the most.
\<close>

theorem listings_show_every_row_once:
  assumes "catalog_ok d" and "rows_fit d" and "n \<noteq> 0"
    and "length (tbl_stream_seq d) < fuel" and "length (tbl_events d) < fuel" and "length (tbl_checkpoints d) < fuel"
    and "length (tbl_retention d) < fuel" and "length (tbl_exports d) < fuel"
  shows "walk (\<lambda>c n. streams (calm_at 0) c p n (sample_log d)) (\<lambda>i. Some (info_stream i)) n fuel None
       = Inr (map stream_info_of (sort_key fst (List.filter (\<lambda>row. in_prefix_range p (fst row)) (tbl_stream_seq d))))
     \<and> walk (\<lambda>c n. kinds (calm_at 0) c n (sample_log d)) Some n fuel None = Inr (sort (remdups (map row_kind (tbl_events d))))
     \<and> walk (\<lambda>c n. checkpoints (calm_at 0) c n (sample_log d)) (\<lambda>i. Some (consumer_name i)) n fuel None
       = Inr (map consumer_of (sort_key fst (tbl_checkpoints d)))
     \<and> walk (\<lambda>c n. retention_ledger (calm_at 0) c n (sample_log d)) (\<lambda>i. Some (entry_id i)) n fuel None
       = Inr (map entry_of (tbl_retention d))
     \<and> walk (\<lambda>c n. export_receipts (calm_at 0) c n (sample_log d)) (\<lambda>i. Some (receipt_id (record_receipt i))) n fuel None
       = Inr (map record_of (tbl_exports d))"
proof -
  have ok: "catalog_ok d \<and> rows_fit d" using assms(1,2) by simp
  have len: "length (all_streams p d) < fuel" "length (all_kinds d) < fuel"
    using le_less_trans [OF length_filter_le assms(4), of "\<lambda>row. in_prefix_range p (fst row)"]
      le_less_trans [OF length_remdups_leq, of "map row_kind (tbl_events d)" fuel] assms(5)
    by (simp_all add: all_streams_def all_kinds_def)
  show ?thesis
    using stream_pages.walk_all [OF ok assms(3), of None p fuel] kind_pages.walk_all [OF assms(2,3), of None fuel]
      checkpoint_pages.walk_all [OF ok assms(3), of None fuel] ledger_pages.walk_all [OF ok assms(3), of None fuel]
      receipt_pages.walk_all [OF ok assms(3), of None fuel] len assms(6-8)
    by (simp add: all_streams_def all_kinds_def all_checkpoints_def all_entries_def all_receipts_def)
qed

lemma one_event_catalog: "catalog_ok one_event_db" "rows_fit one_event_db"
  by (simp_all add: catalog_ok_def keys_ok_def rows_fit_def receipts_ok_def one_event_db_def empty_database_def appended_def
      push_def upsert_counter_def i64_max_def)

theorem listings_show_every_row_once_witness:
  "walk (\<lambda>c n. streams (calm_at 0) c None n (sample_log one_event_db)) (\<lambda>i. Some (info_stream i)) 1 3 None
     = Inr [\<lparr> info_stream = ''s'', head_seq = 1 \<rparr>]
   \<and> walk (\<lambda>c n. kinds (calm_at 0) c n (sample_log one_event_db)) Some 1 3 None = Inr [''paid'']"
proof -
  have "tbl_stream_seq one_event_db = [(''s'', 2)]" "map row_kind (tbl_events one_event_db) = [''paid'']"
    "length (tbl_events one_event_db) = 1"
    "tbl_checkpoints one_event_db = []" "tbl_retention one_event_db = []" "tbl_exports one_event_db = []"
    by (simp_all add: one_event_db_def empty_database_def appended_def push_def upsert_counter_def row_of_def as_i64_def)
  then show ?thesis
    using listings_show_every_row_once [OF one_event_catalog, of 1 3 None]
    by (simp add: stream_info_of_def saturating_sub_def at_least_zero_def as_u64_def in_prefix_range_def)
qed

section \<open>The tables stay well formed\<close>

lemma keys_ok_appended: "keys_ok d \<Longrightarrow> keys_ok (appended x stream e d)"
  by (simp add: keys_ok_def appended_def push_def upsert_counter_def distinct_update)

lemma keys_ok_appended_all: "keys_ok d \<Longrightarrow> keys_ok (appended_all x pairs d)"
proof (induction pairs arbitrary: d)
  case (Cons p pairs)
  then show ?case by (cases p) (simp add: keys_ok_appended)
qed simp

lemma keys_ok_upsert: "keys_ok d \<Longrightarrow> keys_ok (upsert_checkpoint consumer at now d)"
  by (simp add: keys_ok_def upsert_checkpoint_def distinct_update)

lemma keys_ok_retained: "keys_ok d \<Longrightarrow> retention_auto d < i64_max \<Longrightarrow> keys_ok (retained p described now d)"
  by (auto simp: keys_ok_def retained_def delete_events_def sorted_wrt_append)

lemma keys_ok_receipts:
  "keys_ok (receipted t f u n w d) = keys_ok d" "keys_ok (landed_at t i d) = keys_ok d"
  by (simp_all add: keys_ok_def receipted_def landed_at_def)

lemma append_keys:
  assumes "db_ok x (isle_db s)" and "storable x event" and "keys_ok (isle_db s)"
  shows "keys_ok (isle_db (snd (append_store x env stream event s)))"
  using append_outcome [OF assms(1,2), where env = env and stream = stream] assms(3)
  by (auto simp: appended_as_def keys_ok_appended split: prod.splits sum.splits)

lemma append_many_keys:
  assumes "db_ok x (isle_db s)" and "\<forall>event \<in> set events. storable x event" and "keys_ok (isle_db s)"
  shows "keys_ok (isle_db (snd (append_many x env stream events s)))"
  using append_many_outcome [OF assms(1), where events = events and env = env and stream = stream] assms
  by (auto simp: batch_as_def keys_ok_appended_all split: prod.splits sum.splits if_splits)

lemma import_keys:
  assumes "db_ok x (isle_db s)" and "\<forall>ev \<in> set evs. storable x (exported_object ev)" and "keys_ok (isle_db s)"
  shows "keys_ok (isle_db (snd (log_import x quiet a evs s)))"
  using log_import_outcome [OF assms(1,2) prod.collapse [symmetric], of a] assms(3)
  by (auto simp: keys_ok_appended_all split: sum.splits)

lemma save_keys: "keys_ok (isle_db s) \<Longrightarrow> keys_ok (isle_db (snd (checkpoint_save a consumer p s)))"
  using checkpoint_save_outcome [OF prod.collapse [symmetric], of a consumer p s]
  by (auto simp: keys_ok_upsert split: sum.splits)

lemma retain_keys:
  "db_ok x (isle_db s) \<Longrightarrow> keys_ok (isle_db s) \<Longrightarrow> keys_ok (isle_db (snd (retain a plan guard s)))"
  using apply_plan_outcome [OF _ prod.collapse [symmetric], of x s a plan guard "describe plan"]
  by (auto simp: retain_def keys_ok_retained split: sum.splits)

section \<open>What a removal leaves of each listing\<close>

lemma listing_same:
  "rows (isle_db s') = rows (isle_db s) \<Longrightarrow> listing b (collect rows read) s' = listing b (collect rows read) s"
proof -
  assume same: "rows (isle_db s') = rows (isle_db s)"
  have "traverse (\<lambda>row. Inr (read row)) (rows d) = (Inr (map read (rows d)) :: rusqlite_error + _)" for d
    by (rule traverse_pure) simp
  then show ?thesis
    by (simp add: listing_def read_job_def isle_call_def collect_def map_err_def query_map_def statement_def
        next_fault_def Let_def same split: option.splits list.splits)
qed

text \<open>
  A removal leaves each table as the listings say. Whatever is removed, every stream is still listed with
  the number it had reached, and checkpoints and receipts are as they were; a kind is listed after it
  exactly where an event of that kind is left; and the ledger has one entry more, which says what was
  taken, or none where nothing was.
\<close>

theorem removal_leaves_the_listings:
  assumes "db_ok x (isle_db s)" and "catalog_ok (isle_db s)" and "retain a plan guard s = (Inr rep, s')"
  shows "streams b after p n s' = streams b after p n s \<and> checkpoints b after n s' = checkpoints b after n s
     \<and> export_receipts b past n s' = export_receipts b past n s
     \<and> (kind \<in> set (all_kinds (isle_db s')) \<longleftrightarrow>
          (\<exists>row \<in> set (tbl_events (isle_db s)). row_kind row = kind \<and> row \<in> set (tbl_events (isle_db s'))))
     \<and> (case highest_removed rep of
          None \<Rightarrow> all_entries (isle_db s') = all_entries (isle_db s)
        | Some high \<Rightarrow> \<exists>now. all_entries (isle_db s') = all_entries (isle_db s)
            @ [\<lparr> entry_id = as_u64 (retention_auto (isle_db s) + 1), applied_ms = now, entry_plan = describe plan,
                 removed_count = removed rep, entry_highest = high \<rparr>])"
proof -
  have outcome: "rep = nothing_removed \<and> s' = s \<or>
      (\<exists>p' now. chosen p' (isle_db s) \<noteq> [] \<and> removed rep = as_u64 (int (length (chosen p' (isle_db s))))
         \<and> highest_removed rep = Some (position_of_stored (topmost p' (isle_db s)))
         \<and> s' = s\<lparr>isle_db := retained p' (describe plan) now (isle_db s)\<rparr>)"
    using apply_plan_outcome [OF assms(1) assms(3) [unfolded retain_def], unfolded sum.case]
  proof (elim exE conjE disjE)
    fix p' now
    assume "chosen p' (isle_db s) \<noteq> []" and "s' = s\<lparr>isle_db := retained p' (describe plan) now (isle_db s)\<rparr>"
      and "rep = \<lparr> removed = as_u64 (int (length (chosen p' (isle_db s)))),
                highest_removed = Some (position_of_stored (topmost p' (isle_db s))),
                streams_affected = as_u64 (int (length (remdups (map row_stream (chosen p' (isle_db s)))))) \<rparr>"
    then show ?thesis by (intro disjI2 exI [of _ p'] exI [of _ now]) simp
  qed (intro disjI1 conjI, assumption+)
  have same: "tbl_stream_seq (isle_db s') = tbl_stream_seq (isle_db s)" "tbl_checkpoints (isle_db s') = tbl_checkpoints (isle_db s)"
    "tbl_exports (isle_db s') = tbl_exports (isle_db s)" "set (tbl_events (isle_db s')) \<subseteq> set (tbl_events (isle_db s))"
    using outcome by auto
  have "streams b after p n s' = streams b after p n s" "checkpoints b after n s' = checkpoints b after n s"
    "export_receipts b past n s' = export_receipts b past n s"
    unfolding streams_def checkpoints_def export_receipts_def by (simp_all add: same listing_same [of _ s' s])
  moreover have "kind \<in> set (all_kinds (isle_db s')) \<longleftrightarrow>
      (\<exists>row \<in> set (tbl_events (isle_db s)). row_kind row = kind \<and> row \<in> set (tbl_events (isle_db s')))"
    using same(4) by (auto simp: all_kinds_def)
  moreover have "case highest_removed rep of
          None \<Rightarrow> all_entries (isle_db s') = all_entries (isle_db s)
        | Some high \<Rightarrow> \<exists>now. all_entries (isle_db s') = all_entries (isle_db s)
            @ [\<lparr> entry_id = as_u64 (retention_auto (isle_db s) + 1), applied_ms = now, entry_plan = describe plan,
                 removed_count = removed rep, entry_highest = high \<rparr>]"
    using outcome
  proof (elim disjE exE conjE)
    fix p' now
    assume some: "chosen p' (isle_db s) \<noteq> []" and rep: "removed rep = as_u64 (int (length (chosen p' (isle_db s))))"
      "highest_removed rep = Some (position_of_stored (topmost p' (isle_db s)))"
      and s': "s' = s\<lparr>isle_db := retained p' (describe plan) now (isle_db s)\<rparr>"
    have "0 \<le> topmost p' (isle_db s)" by (rule topmost_bounds(1) [OF assms(1) some])
    moreover have "0 \<le> retention_auto (isle_db s)" using assms(2) by (simp add: catalog_ok_def keys_ok_def)
    ultimately show ?thesis
      by (simp add: rep s' all_entries_def retained_def entry_of_def at_least_zero_def position_of_def position_of_stored_def)
  qed (simp add: nothing_removed_def)
  ultimately show ?thesis by blast
qed

theorem removal_leaves_the_listings_witness:
  "\<exists>rep s'. retain (calm_at 5) (Before (Position 1)) Force (sample_log one_event_db) = (Inr rep, s')
     \<and> streams (calm_at 0) None None 5 s' = Inr [\<lparr> info_stream = ''s'', head_seq = 1 \<rparr>]"
proof -
  let ?s = "sample_log one_event_db"
  have ok: "db_ok toy_ext (isle_db ?s)" "catalog_ok (isle_db ?s)" by (simp_all add: one_event_catalog)
  have "predicate (Before (Position 1)) = Inr (\<lambda>r. row_position r \<le> 1)" by (simp add: predicate_Inr i64_max_def)
  moreover have "retention_auto (isle_db ?s) < i64_max" by (simp add: one_event_db_def appended_def push_def upsert_counter_def)
  ultimately obtain rep s' where run: "retain (calm_at 5) (Before (Position 1)) Force ?s = (Inr rep, s')"
    using retain_forced_calm [OF ok(1)] by blast
  have "streams (calm_at 0) None None 5 s' = streams (calm_at 0) None None 5 ?s"
    using removal_leaves_the_listings [OF ok run] by blast
  also have "\<dots> = Inr [\<lparr> info_stream = ''s'', head_seq = 1 \<rparr>]"
  proof -
    have "tbl_stream_seq one_event_db = [(''s'', 2)]"
      by (simp add: one_event_db_def empty_database_def appended_def push_def upsert_counter_def as_i64_def)
    then show ?thesis
      by (simp add: streams_page [OF one_event_catalog] all_streams_def stream_info_of_def saturating_sub_def
          at_least_zero_def as_u64_def in_prefix_range_def)
  qed
  finally show ?thesis using run by blast
qed

end
