(* ===== verification/Log_Session.thy ===== *)
theory Log_Session
  imports Whole_Log Catalog_Theorems
begin

text \<open>
  A log in use, with those who export it: every write there is, the three acts of an export and the removals,
  in any order. The tables stay well formed, and \<open>Guard::Exported\<close> removes nothing that was not archived
  first.
\<close>

section \<open>A session\<close>

text \<open>
  What a log and those who use it do, in any order. A write is any of Whole_Log's but those of receipts: appends of
  every kind, decisions, detached appends, closures in transactions, imports, checkpoints, removals under any
  guard, and projections set up, run and rebuilt. Reading a page and writing its receipt are two jobs with
  anything in between, so a page read is kept until it is recorded. \<open>handed\<close> is what the callers of
  \<open>export_recorded\<close> were given, each page under its receipt; \<open>confirmed\<close> is the receipts they confirmed.
\<close>

record 'm session =
  store :: "'m shared"
  pages :: "(position \<times> filter \<times> exported_event list) list"
  handed :: "(u64 \<times> exported_event list) list"
  confirmed :: "u64 list"

inductive session_step :: "ext \<Rightarrow> ('m, 'p) projection set \<Rightarrow> 'm session \<Rightarrow> 'm session \<Rightarrow> bool" for x codes where
  writing: "plain_write x codes (store w) ps s' \<Longrightarrow> session_step x codes w (w\<lparr>store := s'\<rparr>)"
| reading: "export x a from f limit (store w) = Inr events \<Longrightarrow>
     session_step x codes w (w\<lparr>pages := (from, f, events) # pages w\<rparr>)"
| recording: "(from, f, events) \<in> set (pages w) \<Longrightarrow>
     write_receipt a now from f events (store w) = (Inr (page, receipt), s') \<Longrightarrow>
     session_step x codes w (w\<lparr>store := s', handed := (receipt_id receipt, page) # handed w\<rparr>)"
| recording_failed: "(from, f, events) \<in> set (pages w) \<Longrightarrow>
     write_receipt a now from f events (store w) = (Inl e, s') \<Longrightarrow> session_step x codes w (w\<lparr>store := s'\<rparr>)"
| confirming: "confirm_export a now receipt (store w) = (Inr (), s') \<Longrightarrow>
     session_step x codes w (w\<lparr>store := s', confirmed := receipt # confirmed w\<rparr>)"
| confirming_failed: "confirm_export a now receipt (store w) = (Inl e, s') \<Longrightarrow>
     session_step x codes w (w\<lparr>store := s'\<rparr>)"

definition session_start :: "'m shared \<Rightarrow> 'm session" where
  "session_start s = \<lparr> store = s, pages = [], handed = [], confirmed = [] \<rparr>"

inductive session_reachable :: "ext \<Rightarrow> ('m, 'p) projection set \<Rightarrow> 'm session \<Rightarrow> bool" for x codes where
  start: "isle_db s = empty_database m \<Longrightarrow> session_reachable x codes (session_start s)"
| step: "session_reachable x codes w \<Longrightarrow> session_step x codes w w' \<Longrightarrow> session_reachable x codes w'"

definition session_ok :: "ext \<Rightarrow> 'm session \<Rightarrow> bool" where
  "session_ok x w \<longleftrightarrow>
     db_ok x (isle_db (store w)) \<and> receipts_ok (isle_db (store w))
     \<and> (\<forall>(from, f, events) \<in> set (pages w). get from \<le> get (page_through from events)
          \<and> (whole_filter f \<longrightarrow>
               holds_stretch x (uint (get from)) (uint (get (page_through from events))) events (isle_db (store w))))
     \<and> (\<forall>row \<in> set (tbl_exports (isle_db (store w))).
          (export_whole row \<longrightarrow> (\<exists>page. (as_u64 (export_id row), page) \<in> set (handed w)
             \<and> holds_stretch x (export_from_position row) (export_through row) page (isle_db (store w))))
          \<and> (export_landed_ms row \<noteq> None \<longrightarrow> as_u64 (export_id row) \<in> set (confirmed w)))"

lemma session_ok_kept:
  assumes "session_ok x w" and "kept x (store w) s'"
  shows "session_ok x (w\<lparr>store := s'\<rparr>)"
proof -
  have only: "only_events (isle_db (store w)) (isle_db s')" and ok: "db_ok x (isle_db s')"
    using assms(2) by (simp_all add: kept_def)
  then have same: "tbl_exports (isle_db s') = tbl_exports (isle_db (store w))" "exports_auto (isle_db s') = exports_auto (isle_db (store w))"
    by (simp_all add: only_events_def)
  then have "receipts_ok (isle_db s') = receipts_ok (isle_db (store w))" by (simp add: receipts_ok_def)
  then show ?thesis
    using assms(1) ok holds_stretch_only [OF only] unfolding session_ok_def by (simp add: same) blast
qed

section \<open>What a write spares\<close>

text \<open>
  What is removed is remembered: the ledger's highest position does not go back, never passes the positions
  given, and covers every row that is gone.
\<close>

definition remembers :: "'m database \<Rightarrow> 'm database \<Rightarrow> bool" where
  "remembers d d' \<longleftrightarrow>
     ledger_high d \<le> ledger_high d' \<and> ledger_high d' \<le> max (ledger_high d) (events_auto d)
     \<and> (\<forall>r \<in> set (tbl_events d). r \<in> set (tbl_events d') \<or> row_position r \<le> ledger_high d')"

lemma remembers_refl [simp]: "remembers d d"
  by (simp add: remembers_def)

lemma remembers_all:
  "set (tbl_events d) \<subseteq> set (tbl_events d') \<Longrightarrow> tbl_retention d' = tbl_retention d \<Longrightarrow> remembers d d'"
  by (auto simp: remembers_def ledger_high_def)

lemma foldr_max_start: "foldr max ps (max t p) = max (foldr max ps p) (t :: 'a :: linorder)"
  by (induction ps) (simp_all add: max.commute max.left_commute)

lemma ledger_high_retained:
  assumes "0 \<le> topmost p d"
  shows "ledger_high (retained p described now d) = max (ledger_high d) (topmost p d)"
  using assms by (auto simp: ledger_high_def retained_def max_of_def foldr_max_start split: list.splits)

lemma remembers_retained:
  assumes "db_ok x d" and "chosen p d \<noteq> []"
  shows "remembers d (retained p described now d)"
  using topmost_bounds [OF assms] by (auto simp: remembers_def ledger_high_retained le_max_iff_disj)

text \<open>No write but those of receipts touches the receipts, and all of them keep the keys of the tables.\<close>

definition spares :: "'m database \<Rightarrow> 'm database \<Rightarrow> bool" where
  "spares d d' \<longleftrightarrow> tbl_exports d' = tbl_exports d \<and> exports_auto d' = exports_auto d \<and> (keys_ok d \<longrightarrow> keys_ok d') \<and> remembers d d'"

lemma spares_refl [simp]: "spares d d"
  by (simp add: spares_def)

lemma spares_beside: "beside d d' \<Longrightarrow> spares d d'"
  by (simp add: spares_def beside_def keys_ok_def remembers_all)

lemma spares_appended_as: "appended_as x stream event t c d d' \<Longrightarrow> spares d d'"
  by (auto simp: appended_as_def intro: spares_beside)

lemma spares_batch_as: "batch_as x stream events t cs d d' \<Longrightarrow> spares d d'"
  by (auto simp: batch_as_def intro: spares_beside)

lemma spares_folds: "only_folds name d d' \<Longrightarrow> spares d d'"
  by (simp add: spares_def only_folds_def keys_ok_def remembers_all)

lemma append_spares:
  assumes "db_ok x (isle_db s)" and "storable x event" and "append_store x env stream event s = (r, s')"
  shows "spares (isle_db s) (isle_db s')"
  using append_outcome [OF assms(1,2), where env = env and stream = stream] assms(3)
  by (cases r) (auto intro: spares_appended_as)

lemma append_at_spares:
  assumes "db_ok x (isle_db s)" and "storable x event" and "append_at x env stream t event s = (r, s')"
  shows "spares (isle_db s) (isle_db s')"
  using append_at_outcome [OF assms(1,2), where env = env and stream = stream and epoch_ms = t] assms(3)
  by (cases r) (auto intro: spares_appended_as)

lemma append_expecting_spares:
  assumes "db_ok x (isle_db s)" and "storable x event" and "append_expecting x env stream wanted event s = (r, s')"
  shows "spares (isle_db s) (isle_db s')"
  using append_expecting_outcome [OF assms(1,2), where env = env and stream = stream and wanted = wanted] assms(3)
  by (cases r) (auto intro: spares_appended_as)

lemma append_many_spares:
  assumes "db_ok x (isle_db s)" and "\<forall>event \<in> set events. storable x event" and "append_many x env stream events s = (r, s')"
  shows "spares (isle_db s) (isle_db s')"
  using append_many_outcome [OF assms(1), where events = events and env = env and stream = stream] assms(2,3)
  by (cases r) (auto intro: spares_batch_as split: if_splits)

lemma append_if_spares:
  assumes "db_ok x (isle_db s)" and "\<forall>seen event. decide seen = Some event \<longrightarrow> storable x event"
    and "append_if x a stream wanted decide s = (r, s')"
  shows "spares (isle_db s) (isle_db s')"
proof (cases r)
  case (Inr out)
  then obtain seen where "case decide seen of
         None \<Rightarrow> out = None \<and> s' = s
       | Some event \<Rightarrow> \<exists>c t d'. out = Some c \<and> appended_as x stream event t c (isle_db s) d' \<and> db_ok x d'
           \<and> s' = publish_committed (committed_position c) (s\<lparr>isle_db := d'\<rparr>)"
    using append_if_outcome [OF assms(1,2), where a = a and stream = stream and kinds = wanted] assms(3) by auto
  then show ?thesis by (cases "decide seen") (auto intro: spares_appended_as)
qed (use append_if_outcome [OF assms(1,2), where a = a and stream = stream and kinds = wanted] assms(3) in simp)

lemma detach_spares:
  assumes "db_ok x (isle_db s)" and "storable x event" and "detach_append x a stream event s = (r, s')"
  shows "spares (isle_db s) (isle_db s')"
proof (cases "validate event")
  case (Inr u)
  obtain q d' where run: "isle_call a (append_stamped_now x stream event) (isle_db s) = (q, d')" by force
  then have "s' = s\<lparr>isle_db := d'\<rparr>" using assms(3) by (simp add: detach_append_def Inr)
  then show ?thesis using append_job_outcome [OF assms(1,2) run] by (auto intro: spares_appended_as)
qed (use assms(3) in \<open>auto simp: detach_append_def\<close>)

lemma transaction_spares:
  assumes built: "built x body" and ok: "db_ok x (isle_db s)" and run: "with_transaction g a body s = (r, s')"
  shows "spares (isle_db s) (isle_db s')"
proof -
  obtain rt d where call: "isle_call a (guarded g (in_transaction (engine_aborts a) body)) (isle_db s) = (rt, d)" by force
  then have "isle_db s' = d" using run by (auto simp: with_transaction_def split: sum.splits prod.splits)
  then show ?thesis
    using transaction_moves [OF built_tidy [OF built] built_steadfast [OF built] ok call]
    by (auto simp: moves_def intro: spares_beside)
qed

lemma import_spares:
  assumes "db_ok x (isle_db s)" and "\<forall>ev \<in> set evs. storable x (exported_object ev)" and "log_import x g a evs s = (r, s')"
  shows "spares (isle_db s) (isle_db s')"
  using assms(3) transaction_spares [OF import_built [OF assms(2)] assms(1)]
  by (cases "evs = []") (auto simp: log_import_def)

lemma save_spares:
  assumes "checkpoint_save a consumer p s = (r, s')"
  shows "spares (isle_db s) (isle_db s')"
  using checkpoint_save_outcome [OF assms] by (cases r) (auto simp: spares_def keys_ok_upsert remembers_all)

lemma retain_spares:
  assumes "db_ok x (isle_db s)" and "retain a plan guard s = (r, s')"
  shows "spares (isle_db s) (isle_db s')"
  using apply_plan_outcome [OF assms(1) assms(2) [unfolded retain_def]]
  by (cases r) (auto simp: spares_def keys_ok_retained intro: remembers_retained [OF assms(1)])

lemma runner_spares:
  assumes "runner_transaction g a body w s = (r, w', s')"
    and "\<And>p v p' d'. committed_by body p v p' (isle_db s) d' \<Longrightarrow> only_folds name (isle_db s) d'"
  shows "spares (isle_db s) (isle_db s')"
  using runner_transaction_cases(2) [OF assms(1)] assms(2) spares_folds by fastforce

lemma projection_spares:
  assumes ok: "db_ok x (isle_db s)" and code: "runner_code w \<in> codes" "well_behaved codes"
  shows "run_once x g a w s = (rf, w', s') \<Longrightarrow> spares (isle_db s) (isle_db s')"
    and "runner_transaction g a (rebuild_body (runner_code w)) w s = (re, w', s') \<Longrightarrow> spares (isle_db s) (isle_db s')"
    and "runner_init g a w s = (re, w', s') \<Longrightarrow> spares (isle_db s) (isle_db s')"
proof -
  obtain name ks tolerates M where st: "steady (runner_code w) name ks tolerates" "implements (runner_code w) M"
    using code by (auto simp: well_behaved_def)
  show "run_once x g a w s = (rf, w', s') \<Longrightarrow> spares (isle_db s) (isle_db s')"
    using run_once_cases(2) [OF _ ok st] spares_folds by (fastforce simp: folded_batch_def)
  show "runner_transaction g a (rebuild_body (runner_code w)) w s = (re, w', s') \<Longrightarrow> spares (isle_db s) (isle_db s')"
    using rebuild_committed [OF _ ok st] by (blast intro: runner_spares)
  have init: "only_folds name (isle_db s) d'" if "committed_by (projection_init (runner_code w)) p v p' (isle_db s) d'" for p v p' d'
    unfolding init_committed [OF that st(2)] by (rule only_folds_refl)
  show "runner_init g a w s = (re, w', s') \<Longrightarrow> spares (isle_db s) (isle_db s')"
    unfolding runner_init_def by (erule runner_spares) (rule init)
qed

lemma plain_write_spares:
  assumes "plain_write x codes s ps s'" and "db_ok x (isle_db s)" and "well_behaved codes"
  shows "spares (isle_db s) (isle_db s')"
  using assms(1)
  by cases (use assms(2,3) in \<open>auto intro: append_spares append_at_spares append_expecting_spares append_many_spares
      append_if_spares detach_spares transaction_spares import_spares save_spares retain_spares projection_spares\<close>)

lemma plain_write_kept:
  assumes "plain_write x codes s ps s'" and "db_ok x (isle_db s)" and "well_behaved codes"
  shows "kept x s s'"
  using plain_write_settled [OF assms] plain_write_spares [OF assms]
  by (auto simp: kept_def only_events_def settled_def evolves_def spares_def)

lemma log_write_remembers:
  assumes "log_write x codes s ps s'" and "db_ok x (isle_db s)" and "well_behaved codes"
  shows "remembers (isle_db s) (isle_db s')"
  using assms(1)
proof cases
  case plain
  then show ?thesis using plain_write_spares [OF _ assms(2,3)] by (simp add: spares_def)
next
  case (recording a now "from" f evs rw)
  then show ?thesis using write_receipt_outcome [OF recording(2)] by (cases rw) (auto intro!: remembers_all simp: receipted_def)
next
  case (confirming a now receipt ru)
  then show ?thesis using confirm_changes(2) [OF confirming(2)] by (auto intro!: remembers_all simp: landed_at_def)
qed

section \<open>Every step keeps the session\<close>

lemma session_ok_start: "isle_db s = empty_database m \<Longrightarrow> session_ok x (session_start s)"
  by (simp add: session_ok_def session_start_def receipts_ok_def i64_max_def)

lemma session_ok_recorded:
  assumes ok: "session_ok x w" and page: "(from, f, events) \<in> set (pages w)"
    and run: "write_receipt a now from f events (store w) = (Inr (page, receipt), s')"
  shows "session_ok x (w\<lparr>store := s', handed := (receipt_id receipt, page) # handed w\<rparr>)"
proof -
  let ?d = "isle_db (store w)" and ?u = "uint (get (page_through from events))"
  have out: "page = events" "exports_auto ?d < i64_max" "?u \<le> i64_max"
    "receipt_id receipt = as_u64 (exports_auto ?d + 1)"
    "s' = (store w)\<lparr>isle_db := receipted (as_i64 now) (uint (get from)) ?u (as_i64 (usize_of (length events))) (whole_filter f) ?d\<rparr>"
    using write_receipt_outcome [OF run] by simp_all
  have in_page: "get from \<le> get (page_through from events)"
    "whole_filter f \<Longrightarrow> holds_stretch x (uint (get from)) ?u events ?d"
    using ok page by (auto simp: session_ok_def)
  have db: "db_ok x (isle_db s') = db_ok x ?d" by (rule db_ok_same_events) (simp_all add: out(5))
  have stretch: "holds_stretch x a b p (isle_db s') = holds_stretch x a b p ?d" for a b p
    by (simp add: holds_stretch_def out(5))
  have exports: "tbl_exports (isle_db s') = tbl_exports ?d @ [\<lparr> export_id = exports_auto ?d + 1, export_taken_ms = as_i64 now,
         export_from_position = uint (get from), export_through = ?u, export_count = as_i64 (usize_of (length events)),
         export_whole = whole_filter f, export_landed_ms = None \<rparr>]"
    by (simp add: out(5) receipted_def)
  have "receipts_ok (isle_db s')"
    using ok in_page(1) out(2,3) by (simp add: out(5) session_ok_def receipts_ok_receipted word_le_def)
  then show ?thesis
    using ok in_page(2) by (auto simp: session_ok_def db stretch exports out(1,4))
qed

lemma session_ok_confirmed:
  assumes ok: "session_ok x w" and run: "confirm_export a now receipt (store w) = (Inr (), s')"
  shows "session_ok x (w\<lparr>store := s', confirmed := receipt # confirmed w\<rparr>)"
proof -
  let ?d = "isle_db (store w)"
  have s': "s' = (store w)\<lparr>isle_db := landed_at (as_i64 now) (uint receipt) ?d\<rparr>"
    using confirm_export_outcome [OF _ run] ok by (simp add: session_ok_def)
  have db: "db_ok x (isle_db s') = db_ok x ?d" by (rule db_ok_same_events) (simp_all add: s')
  have stretch: "holds_stretch x a b p (isle_db s') = holds_stretch x a b p ?d" for a b p
    by (simp add: holds_stretch_def s')
  have "as_u64 (uint receipt) = receipt" by (simp add: as_u64_def)
  then have marked: "as_u64 (export_id row) \<in> set (receipt # confirmed w)"
    if "row \<in> set (tbl_exports ?d)" "export_landed_ms (land_row (as_i64 now) (uint receipt) row) \<noteq> None" for row
    using landed_land_row [OF that(2)] ok that(1) by (auto simp: session_ok_def)
  show ?thesis
    using ok marked unfolding session_ok_def by (simp add: db stretch del: not_None_eq) (simp add: s' del: not_None_eq)
qed

lemma session_ok_step:
  assumes "session_step x codes w w'" and ok: "session_ok x w" and codes: "well_behaved codes"
  shows "session_ok x w'"
proof -
  have db: "db_ok x (isle_db (store w))" using ok by (simp add: session_ok_def)
  from assms(1) show ?thesis
  proof cases
    case (writing ps s')
    then show ?thesis using session_ok_kept [OF ok plain_write_kept [OF writing(2) db codes]] by simp
  next
    case (reading a "from" f limit events)
    from page_stretch [OF db reading(2)] ok reading(1) show ?thesis by (auto simp: session_ok_def)
  next
    case (recording_failed "from" f events a now e s')
    then show ?thesis using write_receipt_outcome [OF recording_failed(3)] ok by simp
  next
    case (confirming_failed a now receipt e s')
    then show ?thesis using confirm_export_outcome [OF _ confirming_failed(2)] ok by (simp add: session_ok_def)
  qed (use ok in \<open>auto intro: session_ok_recorded session_ok_confirmed\<close>)
qed

lemma well_behaved_none: "well_behaved {}"
  by (simp add: well_behaved_def)

lemma session_reachable_ok: "session_reachable x codes w \<Longrightarrow> well_behaved codes \<Longrightarrow> session_ok x w"
  by (induction rule: session_reachable.induct) (auto intro: session_ok_start session_ok_step)

section \<open>What \<open>Guard::Exported\<close> promises\<close>

lemma session_vouched:
  assumes ok: "session_ok x w" and row: "row \<in> set (tbl_events (isle_db (store w)))"
    and "row_position row \<in> vouched (isle_db (store w))"
  shows "\<exists>receipt page. (receipt, page) \<in> set (handed w) \<and> receipt \<in> set (confirmed w) \<and> exported_of x row \<in> set page"
proof -
  obtain e where e: "e \<in> set (tbl_exports (isle_db (store w)))" "export_landed_ms e \<noteq> None" "export_whole e"
    "export_from_position e < row_position row" "row_position row \<le> export_through e"
    using assms(3) by (auto simp: vouched_def)
  obtain page where "(as_u64 (export_id e), page) \<in> set (handed w)"
    "holds_stretch x (export_from_position e) (export_through e) page (isle_db (store w))"
    using ok e(1,3) by (auto simp: session_ok_def)
  moreover have "as_u64 (export_id e) \<in> set (confirmed w)" using ok e(1,2) by (auto simp: session_ok_def)
  ultimately show ?thesis using row e(4,5) by (auto simp: holds_stretch_def)
qed

text \<open>
  C4. Under \<open>Guard::Exported\<close> nothing is removed that was not archived first. In whatever order a log is
  written by appends, decisions, detached appends, imports, projections and closures in transactions that
  hand their errors on, exported by several callers at once, confirmed, checkpointed and trimmed, and
  whatever fails in between: an event that a removal under that guard takes had been handed out, as an
  export gives it, in a page whose receipt its taker had confirmed. A page read before others were
  written, confirmed late or twice, a filtered page, and a receipt never confirmed do not break it.
\<close>

theorem exported_guard_removes_only_what_was_confirmed:
  assumes "session_reachable x codes w" and "well_behaved codes" and "retain a plan Exported (store w) = (r, s')"
    and "row \<in> set (tbl_events (isle_db (store w)))" and "row \<notin> set (tbl_events (isle_db s'))"
  shows "\<exists>receipt page. (receipt, page) \<in> set (handed w) \<and> receipt \<in> set (confirmed w) \<and> exported_of x row \<in> set page"
proof -
  have ok: "session_ok x w" by (rule session_reachable_ok [OF assms(1,2)])
  then have db: "db_ok x (isle_db (store w))" "receipts_ok (isle_db (store w))" by (simp_all add: session_ok_def)
  have "row_position row \<in> vouched (isle_db (store w))"
    using exported_removal_vouched [OF db assms(3) [unfolded retain_def]] assms(4,5) by blast
  then show ?thesis by (rule session_vouched [OF ok assms(4)])
qed


lemma archived_session:
  assumes reach: "session_reachable toy_ext codes (session_start s)" and ok: "db_ok toy_ext (isle_db s)"
    and row: "tbl_events (isle_db s) = [row]" "row_position row = 1"
    and none: "exports_auto (isle_db s) = 0" "tbl_exports (isle_db s) = []"
  shows "\<exists>w. session_reachable toy_ext codes w \<and> isle_db (store w) = landed_at 0 1 (receipted 0 0 1 1 True (isle_db s))"
proof -
  note page = sample_page [OF ok row]
  define w2 where "w2 = (session_start s)\<lparr>pages := [(BEGINNING, filter_all, [exported_of toy_ext row])]\<rparr>"
  have w2: "session_reachable toy_ext codes w2"
    using session_reachable.step [OF reach session_step.reading [of toy_ext "calm_at 0" BEGINNING filter_all 1 "session_start s"]] page(1)
    by (simp add: w2_def session_start_def)
  have start: "uint (get BEGINNING) = 0" and whole: "whole_filter filter_all = True"
    by (simp_all add: BEGINNING_def whole_filter_def filter_all_def)
  define s2 where "s2 = s\<lparr>isle_db := receipted 0 0 1 1 True (isle_db s)\<rparr>"
  obtain receipt where receipt: "receipt_id receipt = 1"
    and written: "write_receipt (calm_at 0) 0 BEGINNING filter_all [exported_of toy_ext row] s = (Inr ([exported_of toy_ext row], receipt), s2)"
    using write_receipt_calm [of BEGINNING "[exported_of toy_ext row]" s 0 0 filter_all]
    unfolding page(2) start whole none s2_def
    by (auto simp: i64_max_def as_i64_def usize_of_def as_u64_def)
  define w3 where "w3 = w2\<lparr>store := s2, handed := [(1, [exported_of toy_ext row])]\<rparr>"
  have w3: "session_reachable toy_ext codes w3"
    using session_reachable.step [OF w2 session_step.recording [of BEGINNING filter_all "[exported_of toy_ext row]" w2 "calm_at 0" 0]]
      written receipt by (simp add: w2_def w3_def session_start_def)
  define s3 where "s3 = s2\<lparr>isle_db := landed_at 0 1 (isle_db s2)\<rparr>"
  have "confirm_export (calm_at 0) 0 1 s2 = (Inr (), s3)"
    using confirm_export_calm [of 1 s2 0 0]
    by (simp add: receipt_known_def s2_def receipted_def none i64_max_def s3_def as_i64_def)
  then have "session_reachable toy_ext codes (w3\<lparr>store := s3, confirmed := [1]\<rparr>)"
    using session_reachable.step [OF w3 session_step.confirming [of "calm_at 0" 0 1 w3 s3]]
    by (simp add: w3_def w2_def session_start_def)
  then show ?thesis by (intro exI [of _ "w3\<lparr>store := s3, confirmed := [1]\<rparr>"]) (simp add: s3_def s2_def)
qed

lemma one_event_session:
  "\<exists>w row. session_reachable toy_ext codes w \<and> tbl_events (isle_db (store w)) = [row] \<and> row_position row = 1
     \<and> tbl_checkpoints (isle_db (store w)) = [] \<and> retention_auto (isle_db (store w)) = 0
     \<and> cover (isle_db (store w) :: unit database) = 1"
proof -
  let ?s0 = "sample_log (empty_database ())"
  obtain c e s1 where app: "append_store toy_ext (\<lambda>_. calm_at 9) ''s'' (sample_event ''paid'') ?s0 = (Inr c, s1)"
    and s1: "isle_db s1 = appended toy_ext ''s'' e (empty_database ())" "db_ok toy_ext (isle_db s1)"
    by (rule sample_append [of ?s0]) (auto simp: i64_max_def)
  have "plain_write toy_ext codes (store (session_start ?s0)) (answers (\<lambda>c. positions_of [c]) (Inr c)) s1"
    using plain_write.appending [OF sample_event_ok(1) app] by (simp add: session_start_def)
  from session_reachable.step [OF session_reachable.start session_step.writing [OF this]]
  have reach: "session_reachable toy_ext codes (session_start s1)"
    by (simp add: session_start_def)
  have fresh: "tbl_events (isle_db s1) = [row_of toy_ext ''s'' e 1]" "exports_auto (isle_db s1) = 0" "tbl_exports (isle_db s1) = []"
    "tbl_checkpoints (isle_db s1) = []" "retention_auto (isle_db s1) = 0"
    by (simp_all add: s1 appended_def push_def upsert_counter_def)
  obtain w where "session_reachable toy_ext codes w" "isle_db (store w) = landed_at 0 1 (receipted 0 0 1 1 True (isle_db s1))"
    using archived_session [OF reach s1(2) fresh(1) _ fresh(2,3)] by (auto simp: row_of_def)
  then show ?thesis
    using fresh by (intro exI [of _ w] exI [of _ "row_of toy_ext ''s'' e 1"])
      (simp add: receipted_def landed_at_def cover_def landed_pages_def land_row_def row_of_def)
qed

theorem exported_guard_removes_only_what_was_confirmed_witness:
  "\<exists>(w :: unit session) row s' rep. session_reachable toy_ext ({} :: (unit, unit) projection set) w \<and> row \<in> set (tbl_events (isle_db (store w)))
     \<and> retain (calm_at 5) (Before (Position 1)) Exported (store w) = (Inr rep, s') \<and> row \<notin> set (tbl_events (isle_db s'))
     \<and> (\<exists>receipt page. (receipt, page) \<in> set (handed w) \<and> receipt \<in> set (confirmed w) \<and> exported_of toy_ext row \<in> set page)"
proof -
  obtain w :: "unit session" and row where w: "session_reachable toy_ext ({} :: (unit, unit) projection set) w" "tbl_events (isle_db (store w)) = [row]" "row_position row = 1"
    "tbl_checkpoints (isle_db (store w)) = []" "retention_auto (isle_db (store w)) = 0" "cover (isle_db (store w)) = 1"
    using one_event_session by blast
  have ok: "db_ok toy_ext (isle_db (store w))" using session_reachable_ok [OF w(1) well_behaved_none] by (simp add: session_ok_def)
  have pred: "predicate (Before (Position 1)) = Inr (\<lambda>r. row_position r \<le> 1)" by (simp add: predicate_Inr i64_max_def)
  obtain rep s' where run: "retain (calm_at 5) (Before (Position 1)) Exported (store w) = (Inr rep, s')"
      "isle_db s' = retained (\<lambda>r. row_position r \<le> 1) (describe (Before (Position 1))) (as_i64 (first_reading [5])) (isle_db (store w))"
    using retain_calm [OF ok pred, of Exported "describe (Before (Position 1))" "[5]"]
    by (auto simp: retain_def apply_plan_def writer_job_def isle_call_calm_at chosen_def topmost_def w behind_def i64_max_def)
  have gone: "row \<notin> set (tbl_events (isle_db s'))" by (simp add: run(2) w)
  show ?thesis
    using exported_guard_removes_only_what_was_confirmed [OF w(1) well_behaved_none run(1) _ gone] w(1,2) run(1) gone
    by (intro exI [of _ w] exI [of _ row] exI [of _ s'] exI [of _ rep]) simp
qed

section \<open>The tables stay well formed\<close>

lemma session_step_keys:
  assumes "session_step x codes w w'" and ok: "session_ok x w" and codes: "well_behaved codes"
    and keys: "keys_ok (isle_db (store w))"
  shows "keys_ok (isle_db (store w'))"
proof -
  have db: "db_ok x (isle_db (store w))" "receipts_ok (isle_db (store w))" using ok by (simp_all add: session_ok_def)
  from assms(1) show ?thesis
  proof cases
    case (writing ps s')
    then show ?thesis using plain_write_spares [OF writing(2) db(1) codes] keys by (simp add: spares_def)
  next
    case (recording "from" f events a now page receipt s')
    then show ?thesis using write_receipt_outcome [OF recording(3)] keys by (simp add: keys_ok_receipts)
  next
    case (recording_failed "from" f events a now e s')
    then show ?thesis using write_receipt_outcome [OF recording_failed(3)] keys by simp
  next
    case (confirming a now receipt s')
    then show ?thesis using confirm_export_outcome [OF db(2) confirming(2)] keys by (simp add: keys_ok_receipts)
  next
    case (confirming_failed a now receipt e s')
    then show ?thesis using confirm_export_outcome [OF db(2) confirming_failed(2)] keys by simp
  qed (use keys in simp)
qed

lemma session_reachable_keys: "session_reachable x codes w \<Longrightarrow> well_behaved codes \<Longrightarrow> keys_ok (isle_db (store w))"
proof (induction rule: session_reachable.induct)
  case (start s m)
  then show ?case by (simp add: session_start_def keys_ok_def i64_max_def)
qed (use session_step_keys session_reachable_ok in blast)

text \<open>
  C30. Every table stays well formed under every operation. In whatever order a log is appended to, alone, in
  batches, with an expectation, by a decision or detached, worked on in transactions whose closures are built
  from the operations of the context and own statements and hand every error on (what one that swallows an
  error can do is \<open>swallowed_import_breaks_the_stream\<close>), imported into, exported, checkpointed, trimmed, and
  projected by projections that write no tables but their own, and whatever fails: positions rise through the table and stay between one and
  the highest ever given, which SQLite can store; a stream's events rise in number and stay below its
  counter; every row's texts parse; no stream, consumer, removal or receipt is listed twice, and the ids
  of removals and receipts rise from one.
\<close>

theorem reachable_tables_are_well_formed:
  assumes "session_reachable x codes w" and "well_behaved codes"
  shows "(let d = isle_db (store w)
      in sorted_wrt (<) (map row_position (tbl_events d)) \<and> events_auto d \<le> i64_max
       \<and> (\<forall>r \<in> set (tbl_events d). 1 \<le> row_position r \<and> row_position r \<le> events_auto d
            \<and> 1 \<le> row_seq r \<and> row_seq r < uint (next_of d (row_stream r)) \<and> readable x r)
       \<and> sorted_wrt (\<lambda>r r'. row_stream r = row_stream r' \<longrightarrow> row_seq r < row_seq r') (tbl_events d)
       \<and> distinct (map fst (tbl_stream_seq d)) \<and> distinct (map fst (tbl_checkpoints d))
       \<and> sorted_wrt (<) (map retention_id (tbl_retention d)) \<and> (\<forall>r \<in> set (tbl_retention d). 1 \<le> retention_id r)
       \<and> sorted_wrt (<) (map export_id (tbl_exports d))
       \<and> (\<forall>r \<in> set (tbl_exports d). 1 \<le> export_id r \<and> export_from_position r \<le> export_through r))"
  using session_reachable_ok [OF assms] session_reachable_keys [OF assms]
  by (auto simp: session_ok_def db_ok_def row_ok_def keys_ok_def receipts_ok_def Let_def)

theorem reachable_tables_are_well_formed_witness:
  "\<exists>w :: unit session. session_reachable toy_ext ({} :: (unit, unit) projection set) w \<and> length (tbl_events (isle_db (store w))) = 1
     \<and> (\<forall>r \<in> set (tbl_events (isle_db (store w))). row_seq r < uint (next_of (isle_db (store w)) (row_stream r)))"
proof -
  obtain w :: "unit session" and row where w: "session_reachable toy_ext ({} :: (unit, unit) projection set) w" "tbl_events (isle_db (store w)) = [row]"
    using one_event_session by blast
  from reachable_tables_are_well_formed [OF w(1) well_behaved_none] show ?thesis
    by (intro exI [of _ w]) (use w in \<open>auto simp: Let_def\<close>)
qed

end
