(* ===== verification/Projection_Session.thy ===== *)
theory Projection_Session
  imports Log_Session
begin

text \<open>
  A projection beside everything else that happens to the log: others write what they like in any way there is,
  as long as they keep to their own tables and checkpoints, at any time between the runner's batches, batches
  fail anywhere, the projection is rebuilt, and the runner is lost and made anew. At every moment its read
  model is the fold of the whole history, removed events included, up to its cursor.
\<close>

section \<open>What others do to the log\<close>

text \<open>
  A write of another stays apart from a projection when it leaves the tables the projection's read model is
  kept in, and the checkpoint of its name, as they were.
\<close>

definition stays_apart :: "rust_string \<Rightarrow> 'm database \<Rightarrow> 'm database \<Rightarrow> bool" where
  "stays_apart name d d' \<longleftrightarrow> caller_tables d' = caller_tables d \<and> cursor_of d' name = cursor_of d name"

definition log_moves :: "rust_string \<Rightarrow> 'm database \<Rightarrow> 'm database \<Rightarrow> bool" where
  "log_moves name d d' \<longleftrightarrow>
     evolves d d' \<and> remembers d d' \<and> stays_apart name d d'"

definition moved :: "ext \<Rightarrow> rust_string \<Rightarrow> 'm shared \<Rightarrow> 'm shared \<Rightarrow> bool" where
  "moved x name s s' \<longleftrightarrow>
     db_ok x (isle_db s') \<and> log_moves name (isle_db s) (isle_db s') \<and> upcasters s' = upcasters s"

lemma log_moves_unfold:
  assumes "log_moves name d d'"
  shows "caller_tables d' = caller_tables d" and "cursor_of d' name = cursor_of d name" and "events_auto d \<le> events_auto d'"
    and "\<forall>r \<in> set (tbl_events d'). r \<in> set (tbl_events d) \<or> events_auto d < row_position r"
    and "ledger_high d \<le> ledger_high d'" and "ledger_high d' \<le> max (ledger_high d) (events_auto d)"
    and "\<forall>r \<in> set (tbl_events d). r \<in> set (tbl_events d') \<or> row_position r \<le> ledger_high d'"
  using assms by (auto simp: log_moves_def evolves_def remembers_def stays_apart_def)

lemma moved_refl: "db_ok x (isle_db s) \<Longrightarrow> moved x name s s"
  by (simp add: moved_def log_moves_def stays_apart_def)

lemma log_write_moves:
  assumes "log_write x codes s ps s'" and "db_ok x (isle_db s)" and "well_behaved codes"
    and "stays_apart name (isle_db s) (isle_db s')"
  shows "moved x name s s'"
  using log_write_settled [OF assms(1-3)] log_write_remembers [OF assms(1-3)] assms(4)
  by (simp add: settled_def moved_def log_moves_def)

section \<open>The session\<close>

record ('m, 'p) fold_session =
  fs_store :: "'m shared"
  fs_runner :: "('m, 'p) runner"
  fs_history :: "event_row list"

text \<open>The history keeps every row the log ever held; what a step adds is appended to it.\<close>

definition commits :: "'m shared \<Rightarrow> ('m, 'p) fold_session \<Rightarrow> ('m, 'p) fold_session" where
  "commits s w = w\<lparr>fs_store := s, fs_history := fs_history w
     @ List.filter (\<lambda>r. r \<notin> set (tbl_events (isle_db (fs_store w)))) (tbl_events (isle_db s))\<rparr>"

inductive fold_session_step ::
  "ext \<Rightarrow> rust_string \<Rightarrow> ('m, 'p) fold_session \<Rightarrow> ('m, 'p) fold_session \<Rightarrow> bool" for x name where
  writing: "log_write x ({} :: ('m, 'p) projection set) (fs_store w) ps s \<Longrightarrow>
     stays_apart name (isle_db (fs_store w)) (isle_db s) \<Longrightarrow> fold_session_step x name w (commits s w)"
| batch: "run_once x g a (fs_runner w) (fs_store w) = (out, r, s) \<Longrightarrow>
     fold_session_step x name w ((commits s w)\<lparr>fs_runner := r\<rparr>)"
| initialising: "runner_init g a (fs_runner w) (fs_store w) = (out', r, s) \<Longrightarrow>
     fold_session_step x name w ((commits s w)\<lparr>fs_runner := r\<rparr>)"
| emptying: "runner_transaction g a (rebuild_body (runner_code (fs_runner w))) (fs_runner w) (fs_store w) = (out', r, s) \<Longrightarrow>
     fold_session_step x name w ((commits s w)\<lparr>fs_runner := r\<rparr>)"
| restarting: "runner_new (runner_code (fs_runner w)) p (runner_drop (fs_runner w) (fs_store w)) = (Inr r, s) \<Longrightarrow>
     fold_session_step x name w ((commits s w)\<lparr>fs_runner := with_batch b r\<rparr>)"

text \<open>A session starts with a new runner, over a store and a read model that hold nothing.\<close>

definition fold_session_start :: "'m database \<Rightarrow> ('m, 'p) fold_session \<Rightarrow> bool" where
  "fold_session_start d w \<longleftrightarrow>
     isle_db (fs_store w) = d \<and> 0 < runner_batch (fs_runner w) \<and> fs_history w = []"

inductive fold_session_reachable ::
  "ext \<Rightarrow> upcast_chain \<Rightarrow> ('m, 'p) projection \<Rightarrow> 'm read_model \<Rightarrow> rust_string \<Rightarrow> ('m, 'p) fold_session \<Rightarrow> bool"
  for x chain code M name where
  start: "fold_session_start (empty_database (model_empty M)) w \<Longrightarrow> upcasters (fs_store w) = chain \<Longrightarrow>
     runner_code (fs_runner w) = code \<Longrightarrow> fold_session_reachable x chain code M name w"
| step: "fold_session_reachable x chain code M name w \<Longrightarrow> fold_session_step x name w w' \<Longrightarrow>
     fold_session_reachable x chain code M name w'"

section \<open>The invariant\<close>

text \<open>The rows of the history a projection of these kinds has behind it.\<close>

definition folded_rows :: "ext \<Rightarrow> rust_string list option \<Rightarrow> position \<Rightarrow> event_row list \<Rightarrow> event_row list" where
  "folded_rows x ks cursor h = List.filter (\<lambda>r. row_matches x (kinds_filter ks) r \<and> row_place r \<le> cursor) h"

definition folds_to ::
  "ext \<Rightarrow> upcast_chain \<Rightarrow> 'm read_model \<Rightarrow> rust_string list option \<Rightarrow> position \<Rightarrow> event_row list \<Rightarrow> 'm \<Rightarrow> bool" where
  "folds_to x chain M ks cursor h m \<longleftrightarrow>
     (\<exists>recs. traverse (record_row x chain) (folded_rows x ks cursor h) = Inr recs
        \<and> m = fold (model_apply M) recs (model_empty M))"

definition history_ok :: "event_row list \<Rightarrow> 'm database \<Rightarrow> bool" where
  "history_ok h d \<longleftrightarrow>
     sorted_wrt (<) (map row_position h) \<and> (\<forall>r \<in> set h. 1 \<le> row_position r \<and> row_position r \<le> events_auto d)
     \<and> set (tbl_events d) \<subseteq> set h
     \<and> (\<forall>r \<in> set h. r \<in> set (tbl_events d) \<or> row_position r \<le> ledger_high d)
     \<and> 0 \<le> ledger_high d \<and> ledger_high d \<le> events_auto d"

definition fold_session_ok ::
  "ext \<Rightarrow> upcast_chain \<Rightarrow> ('m, 'p) projection \<Rightarrow> 'm read_model \<Rightarrow> rust_string \<Rightarrow> rust_string list option
     \<Rightarrow> ('m, 'p) fold_session \<Rightarrow> bool" where
  "fold_session_ok x chain code M name ks w \<longleftrightarrow>
     (let d = isle_db (fs_store w)
      in db_ok x d \<and> history_ok (fs_history w) d \<and> uint (get (cursor_of d name)) \<le> events_auto d
         \<and> folds_to x chain M ks (cursor_of d name) (fs_history w) (caller_tables d)
         \<and> upcasters (fs_store w) = chain \<and> runner_code (fs_runner w) = code \<and> 0 < runner_batch (fs_runner w))"

lemma sorted_same_set:
  fixes f :: "'a \<Rightarrow> 'k :: linorder"
  assumes "sorted_wrt (<) (map f xs)" and "sorted_wrt (<) (map f ys)" and "set xs = set ys"
  shows "xs = ys"
proof -
  have "map f xs = map f ys"
    using strict_sorted_equal [OF assms(1,2)] assms(3) by (simp add: image_set [symmetric])
  moreover have "inj_on f (set xs \<union> set ys)"
    using assms(2,3) by (simp add: strict_sorted_iff distinct_map)
  ultimately show ?thesis by (rule map_inj_on)
qed

lemma history_place:
  assumes "history_ok h d" and "db_ok x d" and "r \<in> set h"
  shows "uint (get (row_place r)) = row_position r" and "1 \<le> row_position r" and "row_position r \<le> events_auto d"
  using assms db_ok_auto [OF assms(2)]
  by (auto simp: history_ok_def row_place_def position_of_stored_def uint_as_u64)

lemma history_place_sorted:
  assumes "history_ok h d" and "db_ok x d"
  shows "sorted_wrt (<) (map row_place (List.filter P h))"
proof -
  have "sorted_wrt (\<lambda>r r'. row_position r < row_position r') (List.filter P h)"
    using assms(1) by (simp add: history_ok_def sorted_wrt_map sorted_wrt_filter)
  then have "sorted_wrt (\<lambda>r r'. row_place r < row_place r') (List.filter P h)"
    by (rule sorted_wrt_mono_rel [rotated]) (simp add: position_less_uint history_place(1) [OF assms])
  then show ?thesis by (simp add: sorted_wrt_map)
qed

lemma history_moves:
  assumes h: "history_ok h d" and ok: "db_ok x d" "db_ok x d'" and moves: "log_moves name d d'"
  shows "history_ok (h @ List.filter (\<lambda>r. r \<notin> set (tbl_events d)) (tbl_events d')) d'"
proof -
  note m = log_moves_unfold [OF moves]
  let ?new = "List.filter (\<lambda>r. r \<notin> set (tbl_events d)) (tbl_events d')"
  have new: "events_auto d < row_position r \<and> row_position r \<le> events_auto d'" if "r \<in> set ?new" for r
    using that m(4) db_ok_row [OF ok(2), of r] by (auto simp: row_ok_def)
  note auto = m(3)
  have "sorted_wrt (<) (map row_position ?new)"
    by (rule sorted_wrt_filter_map) (use ok(2) in \<open>simp add: db_ok_def\<close>)
  then have "sorted_wrt (<) (map row_position (h @ ?new))"
    using h new by (fastforce simp: history_ok_def sorted_wrt_append)
  moreover have "\<forall>r \<in> set (h @ ?new). 1 \<le> row_position r \<and> row_position r \<le> events_auto d'"
    using h new auto db_ok_auto [OF ok(1)] by (fastforce simp: history_ok_def)
  moreover have "\<forall>r \<in> set (h @ ?new). r \<in> set (tbl_events d') \<or> row_position r \<le> ledger_high d'"
    using h m(5,7) by (fastforce simp: history_ok_def)
  moreover have "set (tbl_events d') \<subseteq> set (h @ ?new)" using h by (auto simp: history_ok_def)
  ultimately show ?thesis using h m(5,6) auto by (auto simp: history_ok_def)
qed

lemma folded_rows_moves:
  assumes "history_ok h d" and "db_ok x d" and "db_ok x d'" and "log_moves name d d'"
    and "uint (get cursor) \<le> events_auto d"
  shows "folded_rows x ks cursor (h @ List.filter (\<lambda>r. r \<notin> set (tbl_events d)) (tbl_events d')) = folded_rows x ks cursor h"
proof -
  have "\<not> row_place r \<le> cursor" if "r \<in> set (tbl_events d')" "r \<notin> set (tbl_events d)" for r
    using that assms(4,5) uint_row_place [OF assms(3) that(1)]
      log_moves_unfold(4) [OF assms(4)]
    by (fastforce simp: position_le_uint)
  then show ?thesis by (auto simp: folded_rows_def filter_empty_conv)
qed

lemma fold_session_moves:
  assumes ok: "fold_session_ok x chain code M name ks w" and moved: "moved x name (fs_store w) s"
  shows "fold_session_ok x chain code M name ks (commits s w)"
proof -
  let ?d = "isle_db (fs_store w)" and ?h = "fs_history w"
  have d: "db_ok x ?d" "history_ok ?h ?d" "uint (get (cursor_of ?d name)) \<le> events_auto ?d"
    using ok by (simp_all add: fold_session_ok_def Let_def)
  have m: "db_ok x (isle_db s)" "log_moves name ?d (isle_db s)" "upcasters s = upcasters (fs_store w)"
    using moved by (simp_all add: moved_def)
  have "cursor_of (isle_db s) name = cursor_of ?d name" "caller_tables (isle_db s) = caller_tables ?d"
    "events_auto ?d \<le> events_auto (isle_db s)"
    using log_moves_unfold [OF m(2)] by simp_all
  then show ?thesis
    using ok history_moves [OF d(2,1) m(1,2)] folded_rows_moves [OF d(2,1) m(1,2) d(3)] m(1,3)
    by (simp add: fold_session_ok_def Let_def commits_def folds_to_def)
qed

text \<open>A runner's own transaction leaves the log, so the history, as it is.\<close>

lemma commits_same: "tbl_events (isle_db s) = tbl_events (isle_db (fs_store w)) \<Longrightarrow> commits s w = w\<lparr>fs_store := s\<rparr>"
  by (simp add: commits_def)

lemma history_same:
  "only_folds name d d' \<Longrightarrow> history_ok h d' = history_ok h d"
  by (simp add: history_ok_def only_folds_def ledger_high_def)

lemma folded_rows_nothing:
  assumes "history_ok h d" and "db_ok x d"
  shows "folded_rows x ks BEGINNING h = []"
  using history_place [OF assms] by (fastforce simp: folded_rows_def filter_empty_conv position_le_uint BEGINNING_def)

lemma folded_rows_forward:
  assumes "history_ok h d" and "db_ok x d" and "c \<le> c'" and "\<not> c < Position (as_u64 (ledger_high d))"
  shows "folded_rows x ks c' h = folded_rows x ks c h @ range_rows x (kinds_filter ks) c c' d"
proof -
  let ?f = "kinds_filter ks"
  let ?rows = "List.filter (row_matches x ?f) h"
  have above: "BEGINNING < row_place r" if "r \<in> set ?rows" for r
    using history_place [OF assms(1,2), of r] that by (simp add: position_less_uint BEGINNING_def)
  have upto: "folded_rows x ks cursor h = List.filter (\<lambda>r. BEGINNING < row_place r \<and> row_place r \<le> cursor) ?rows" for cursor
    using above by (auto simp: folded_rows_def intro!: filter_cong)
  have "BEGINNING \<le> c" by (simp add: position_le_uint BEGINNING_def)
  then have "folded_rows x ks c' h = folded_rows x ks c h @ List.filter (\<lambda>r. c < row_place r \<and> row_place r \<le> c') ?rows"
    unfolding upto using filter_between_append [OF history_place_sorted [OF assms(1,2)] _ assms(3), of BEGINNING] by simp
  moreover have "List.filter (\<lambda>r. c < row_place r \<and> row_place r \<le> c') ?rows = range_rows x ?f c c' d"
  proof (rule sorted_same_set)
    show "sorted_wrt (<) (map row_place (List.filter (\<lambda>r. c < row_place r \<and> row_place r \<le> c') ?rows))"
      by (rule sorted_wrt_filter_map [OF history_place_sorted [OF assms(1,2)]])
    show "sorted_wrt (<) (map row_place (range_rows x ?f c c' d))" by (rule range_rows_sorted [OF assms(2)])
    have "uint (as_u64 (ledger_high d)) = ledger_high d"
      using assms(1) db_ok_auto [OF assms(2)] by (simp add: history_ok_def uint_as_u64)
    then have "r \<in> set (tbl_events d)" if "r \<in> set h" "c < row_place r" for r
      using that assms(1,4) history_place(1) [OF assms(1,2) that(1)]
      by (force simp: history_ok_def position_less_uint)
    then show "set (List.filter (\<lambda>r. c < row_place r \<and> row_place r \<le> c') ?rows) = set (range_rows x ?f c c' d)"
      using assms(1) by (auto simp: range_rows_def matching_def history_ok_def)
  qed
  ultimately show ?thesis by simp
qed

lemma fold_session_batch:
  assumes ok: "fold_session_ok x chain code M name ks w"
    and batch: "folded_batch x chain M name ks False n recs (isle_db (fs_store w)) (isle_db s)"
    and n: "0 < n" and "upcasters s = upcasters (fs_store w)"
  shows "fold_session_ok x chain code M name ks (commits s w)"
proof -
  let ?d = "isle_db (fs_store w)" and ?d' = "isle_db s" and ?h = "fs_history w"
  let ?c = "cursor_of ?d name" and ?c' = "cursor_of ?d' name"
  have d: "db_ok x ?d" "history_ok ?h ?d" "uint (get ?c) \<le> events_auto ?d"
    using ok by (simp_all add: fold_session_ok_def Let_def)
  obtain before where before: "traverse (record_row x chain) (folded_rows x ks ?c ?h) = Inr before"
    "caller_tables ?d = fold (model_apply M) before (model_empty M)"
    using ok by (auto simp: fold_session_ok_def Let_def folds_to_def)
  have b: "log_page x chain ?c (kinds_filter ks) n ?d = Inr recs" "\<not> ?c < Position (as_u64 (ledger_high ?d))"
    "?c' = reached_by n recs ?c (position_of_stored (newest ?d))"
    "caller_tables ?d' = fold (model_apply M) recs (caller_tables ?d)" "only_folds name ?d ?d'"
    using batch by (simp_all add: folded_batch_def)
  note reached = page_reached [OF d(1) b(1) n newest_le_auto [OF d(1)] b(3)]
  have "traverse (record_row x chain) (range_rows x (kinds_filter ks) ?c ?c' ?d) = Inr recs"
    using reached(3) by (auto simp: delivered_def)
  then have "folds_to x chain M ks ?c' ?h (caller_tables ?d')"
    using folded_rows_forward [OF d(2,1) reached(1) b(2), of ks] before b(4)
    by (simp add: folds_to_def traverse_append)
  moreover have "uint (get ?c') \<le> events_auto ?d"
  proof -
    have "uint (get (position_of_stored (events_auto ?d))) = events_auto ?d"
      using db_ok_auto [OF d(1)] by (simp add: position_of_stored_def uint_as_u64)
    then show ?thesis using reached(2) d(3) by (auto simp: position_le_uint le_max_iff_disj)
  qed
  moreover have "tbl_events ?d' = tbl_events ?d" "events_auto ?d' = events_auto ?d"
    using b(5) by (simp_all add: only_folds_def)
  ultimately show ?thesis
    using ok assms(4) only_folds_ok [OF b(5), of x] history_same [OF b(5), of ?h]
    by (simp add: fold_session_ok_def Let_def commits_same)
qed

lemma fold_session_emptied:
  assumes ok: "fold_session_ok x chain code M name ks w"
    and "cursor_of (isle_db s) name = BEGINNING" and "caller_tables (isle_db s) = model_empty M"
    and only: "only_folds name (isle_db (fs_store w)) (isle_db s)" and "upcasters s = upcasters (fs_store w)"
  shows "fold_session_ok x chain code M name ks (commits s w)"
proof -
  let ?d = "isle_db (fs_store w)"
  have d: "db_ok x ?d" "history_ok (fs_history w) ?d" using ok by (simp_all add: fold_session_ok_def Let_def)
  have "folds_to x chain M ks BEGINNING (fs_history w) (model_empty M)"
    unfolding folds_to_def folded_rows_nothing [OF d(2,1)] by simp
  moreover have "tbl_events (isle_db s) = tbl_events ?d" "events_auto (isle_db s) = events_auto ?d"
    using only by (simp_all add: only_folds_def)
  ultimately show ?thesis
    using ok assms(2,3,5) only_folds_ok [OF only, of x] history_same [OF only, of "fs_history w"] db_ok_auto [OF d(1)]
    by (simp add: fold_session_ok_def Let_def commits_same) (simp add: BEGINNING_def)
qed

lemma folds_to_init:
  "implements code M \<Longrightarrow> folds_to x chain M ks cursor h m \<Longrightarrow> model_init M m = m"
  by (auto simp: implements_def folds_to_def)

text \<open>The store and the runner a session goes on with.\<close>

lemma fold_session_runner:
  "fold_session_ok x chain code M name ks w \<Longrightarrow> runner_code r = runner_code (fs_runner w) \<Longrightarrow> 0 < runner_batch r \<Longrightarrow>
     fold_session_ok x chain code M name ks (w\<lparr>fs_runner := r\<rparr>)"
  by (simp add: fold_session_ok_def Let_def)

lemma fold_session_same:
  "fold_session_ok x chain code M name ks w \<Longrightarrow> isle_db s = isle_db (fs_store w) \<Longrightarrow> upcasters s = upcasters (fs_store w) \<Longrightarrow>
     fold_session_ok x chain code M name ks (commits s w)"
  by (simp add: fold_session_ok_def Let_def commits_same)

text \<open>What a transaction of the runner may be: nothing, or one of the three bodies committed.\<close>

lemma runner_step:
  assumes ok: "fold_session_ok x chain code M name ks w"
    and run: "runner_transaction g a body (fs_runner w) (fs_store w) = (out, r, s)"
    and kept: "\<And>p v p'. committed_by body p v p' (isle_db (fs_store w)) (isle_db s) \<Longrightarrow>
        upcasters s = upcasters (fs_store w) \<Longrightarrow> fold_session_ok x chain code M name ks (commits s w)"
  shows "fold_session_ok x chain code M name ks ((commits s w)\<lparr>fs_runner := r\<rparr>)"
proof -
  note cases = runner_transaction_cases [OF run]
  have up: "upcasters s = upcasters (fs_store w)" by (subst conjunct1 [OF cases(1)]) simp
  have r: "runner_code r = runner_code (fs_runner w)" "0 < runner_batch r"
    using ok by (subst conjunct2 [OF cases(1)], simp add: fold_session_ok_def Let_def)+
  have "fold_session_ok x chain code M name ks (commits s w)"
    using cases(2) fold_session_same [OF ok _ up] kept up by blast
  then show ?thesis by (rule fold_session_runner) (use r in \<open>simp_all add: commits_def\<close>)
qed

lemma batch_ok:
  assumes ok: "fold_session_ok x chain code M name ks w" and steady: "steady code name ks False" and impl: "implements code M"
    and once: "run_once x g a (fs_runner w) (fs_store w) = (out, r, s)"
  shows "fold_session_ok x chain code M name ks ((commits s w)\<lparr>fs_runner := r\<rparr>)"
proof -
  have db: "db_ok x (isle_db (fs_store w))" and code: "runner_code (fs_runner w) = code" and chain: "upcasters (fs_store w) = chain"
    and n: "0 < unat (runner_batch (fs_runner w))"
    using ok by (simp_all add: fold_session_ok_def Let_def word_less_nat_alt)
  let ?body = "batch_body x chain code (runner_batch (fs_runner w))"
  obtain o1 where run: "runner_transaction g a ?body (fs_runner w) (fs_store w) = (o1, r, s)"
    using once by (auto simp: run_once_def code chain split: prod.splits sum.splits)
  show ?thesis
  proof (rule runner_step [OF ok run])
    fix p v p'
    assume "committed_by ?body p v p' (isle_db (fs_store w)) (isle_db s)" and up: "upcasters s = upcasters (fs_store w)"
    then obtain recs where "folded_batch x chain M name ks False (unat (runner_batch (fs_runner w))) recs (isle_db (fs_store w)) (isle_db s)"
      using batch_committed [OF _ db steady impl] by blast
    then show "fold_session_ok x chain code M name ks (commits s w)"
      by (rule fold_session_batch [OF ok _ n up])
  qed
qed

lemma initialising_ok:
  assumes ok: "fold_session_ok x chain code M name ks w" and impl: "implements code M"
    and run: "runner_init g a (fs_runner w) (fs_store w) = (out, r, s)"
  shows "fold_session_ok x chain code M name ks ((commits s w)\<lparr>fs_runner := r\<rparr>)"
proof (rule runner_step [OF ok run [unfolded runner_init_def]])
  let ?d = "isle_db (fs_store w)"
  fix p v p'
  assume "committed_by (projection_init (runner_code (fs_runner w))) p v p' ?d (isle_db s)"
    and up: "upcasters s = upcasters (fs_store w)"
  then have "isle_db s = ?d\<lparr>caller_tables := model_init M (caller_tables ?d)\<rparr>"
    using init_committed impl ok by (simp add: fold_session_ok_def Let_def)
  moreover have "model_init M (caller_tables ?d) = caller_tables ?d"
    using ok folds_to_init [OF impl] by (auto simp: fold_session_ok_def Let_def)
  ultimately show "fold_session_ok x chain code M name ks (commits s w)"
    using fold_session_same [OF ok _ up] by simp
qed

lemma emptying_ok:
  assumes ok: "fold_session_ok x chain code M name ks w" and steady: "steady code name ks False" and impl: "implements code M"
    and run: "runner_transaction g a (rebuild_body (runner_code (fs_runner w))) (fs_runner w) (fs_store w) = (out, r, s)"
  shows "fold_session_ok x chain code M name ks ((commits s w)\<lparr>fs_runner := r\<rparr>)"
proof (rule runner_step [OF ok run])
  let ?d = "isle_db (fs_store w)"
  have db: "db_ok x ?d" and code: "runner_code (fs_runner w) = code"
    using ok by (simp_all add: fold_session_ok_def Let_def)
  fix p v p'
  assume "committed_by (rebuild_body (runner_code (fs_runner w))) p v p' ?d (isle_db s)"
    and up: "upcasters s = upcasters (fs_store w)"
  then have "cursor_of (isle_db s) name = BEGINNING \<and> caller_tables (isle_db s) = model_empty M \<and> only_folds name ?d (isle_db s)"
    using rebuild_committed [OF _ db steady impl] by (simp add: code)
  then show "fold_session_ok x chain code M name ks (commits s w)"
    using fold_session_emptied [OF ok _ _ _ up] by blast
qed

lemma restarting_ok:
  assumes ok: "fold_session_ok x chain code M name ks w"
    and new: "runner_new (runner_code (fs_runner w)) p (runner_drop (fs_runner w) (fs_store w)) = (Inr r, s)"
  shows "fold_session_ok x chain code M name ks ((commits s w)\<lparr>fs_runner := with_batch b r\<rparr>)"
proof -
  have "isle_db s = isle_db (fs_store w)" "upcasters s = upcasters (fs_store w)" "runner_code r = runner_code (fs_runner w)"
    using new by (auto simp: runner_new_def runner_drop_def Let_def split: if_splits)
  moreover have "0 < runner_batch (with_batch b r)" by (auto simp: with_batch_def word_gt_0 max_def)
  moreover have "runner_code (with_batch b r) = runner_code r" by (simp add: with_batch_def)
  ultimately show ?thesis
    using fold_session_same [OF ok] by (intro fold_session_runner) (simp_all add: commits_def)
qed

lemma fold_session_step_ok:
  assumes step: "fold_session_step x name w w'" and ok: "fold_session_ok x chain code M name ks w"
    and steady: "steady code name ks False" and impl: "implements code M"
  shows "fold_session_ok x chain code M name ks w'"
proof -
  have db: "db_ok x (isle_db (fs_store w))" using ok by (simp add: fold_session_ok_def Let_def)
  from step show ?thesis
  proof cases
    case (batch g a out r s)
    show ?thesis unfolding batch(1) by (rule batch_ok [OF ok steady impl batch(2)])
  next
    case (initialising g a out r s)
    show ?thesis unfolding initialising(1) by (rule initialising_ok [OF ok impl initialising(2)])
  next
    case (emptying g a out r s)
    show ?thesis unfolding emptying(1) by (rule emptying_ok [OF ok steady impl emptying(2)])
  next
    case (restarting p r s b)
    show ?thesis unfolding restarting(1) by (rule restarting_ok [OF ok restarting(2)])
  qed (auto intro!: fold_session_moves [OF ok] log_write_moves [OF _ db well_behaved_none])
qed

lemma fold_session_ok_start:
  assumes "fold_session_start (empty_database (model_empty M)) w" and "upcasters (fs_store w) = chain"
    and "runner_code (fs_runner w) = code"
  shows "fold_session_ok x chain code M name ks w"
  using assms by (simp add: fold_session_start_def fold_session_ok_def Let_def history_ok_def folds_to_def folded_rows_def
      ledger_high_def cursor_of_def max_of_def) (simp add: empty_database_def BEGINNING_def max_of_def)

lemma fold_session_reachable_ok:
  assumes "fold_session_reachable x chain code M name w" and "steady code name ks False" and "implements code M"
  shows "fold_session_ok x chain code M name ks w"
  using assms(1) by induction (use assms(2,3) fold_session_ok_start fold_session_step_ok in blast)+

text \<open>
  C2. A read model is the fold of the whole history. Whatever others write between the runner's batches,
  appends of every kind, decisions, closures in transactions that hand their errors on, imports,
  checkpoints, exports and removals, as long as they leave the projection's own tables and checkpoint
  alone; whatever fails or panics in a batch, however often the runner is lost and made anew, the batch size changed or
  the projection rebuilt: the tables of a projection that does not tolerate truncation are at every moment
  the fold, in order, of every event of its kinds that was ever written at or below its cursor, each once,
  those removed since included. A removal never makes it skip an event. The projection's callbacks are
  those that leave the transaction they are given open.
\<close>

theorem projection_is_the_fold_of_the_history:
  assumes "fold_session_reachable x chain code M name w" and "steady code name ks False" and "implements code M"
  shows "\<exists>recs. traverse (record_row x chain) (List.filter (\<lambda>r. row_matches x (kinds_filter ks) r
            \<and> row_place r \<le> cursor_of (isle_db (fs_store w)) name) (fs_history w)) = Inr recs
     \<and> caller_tables (isle_db (fs_store w)) = fold (model_apply M) recs (model_empty M)
     \<and> set (tbl_events (isle_db (fs_store w))) \<subseteq> set (fs_history w)"
  using fold_session_reachable_ok [OF assms]
  by (auto simp: fold_session_ok_def Let_def folds_to_def folded_rows_def history_ok_def)

text \<open>A session in which an event is written, folded and then removed.\<close>

lemma tally_written:
  "\<exists>w row. fold_session_reachable toy_ext [] tally tally_model ''tally'' w \<and> fs_runner w = tally_runner
     \<and> fs_history w = [row] \<and> row_position row = 1 \<and> upcasters (fs_store w) = []
     \<and> (let d = isle_db (fs_store w) in db_ok toy_ext d \<and> tbl_events d = [row] \<and> caller_tables d = 0
          \<and> tbl_checkpoints d = [] \<and> tbl_retention d = [] \<and> retention_auto d = 0)"
proof -
  let ?s0 = "sample_log (empty_database 0) :: nat shared"
  define w0 where "w0 = \<lparr> fs_store = ?s0, fs_runner = tally_runner, fs_history = [] \<rparr>"
  have reach0: "fold_session_reachable toy_ext [] tally tally_model ''tally'' w0"
    by (rule fold_session_reachable.start)
      (simp_all add: w0_def fold_session_start_def tally_model_def tally_runner_def DEFAULT_BATCH_def)
  obtain c e s1 where app: "append_store toy_ext (\<lambda>_. calm_at 9) ''s'' (sample_event ''paid'') ?s0 = (Inr c, s1)"
    and s1: "isle_db s1 = appended toy_ext ''s'' e (empty_database 0)" "db_ok toy_ext (isle_db s1)" "upcasters s1 = []"
    by (rule sample_append [of ?s0]) (auto simp: i64_max_def)
  have "fold_session_step toy_ext ''tally'' w0 (commits s1 w0)"
    by (rule fold_session_step.writing [OF log_write.plain [OF plain_write.appending [OF sample_event_ok(1)]]])
      (use app s1 in \<open>simp_all add: w0_def stays_apart_def cursor_of_def\<close>)
  from fold_session_reachable.step [OF reach0 this] show ?thesis
    using s1 by (intro exI [of _ "commits s1 w0"] exI [of _ "row_of toy_ext ''s'' e 1"])
      (simp add: commits_def w0_def row_of_def, simp add: empty_database_def appended_def push_def upsert_counter_def row_of_def)
qed

lemma tally_folded:
  "\<exists>w row. fold_session_reachable toy_ext [] tally tally_model ''tally'' w \<and> fs_history w = [row] \<and> row_position row = 1
     \<and> (let d = isle_db (fs_store w) in db_ok toy_ext d \<and> tbl_events d = [row] \<and> caller_tables d = 1 \<and> retention_auto d = 0)"
proof -
  obtain w1 row where reach1: "fold_session_reachable toy_ext [] tally tally_model ''tally'' w1"
    and w1: "fs_runner w1 = tally_runner" "fs_history w1 = [row]" "row_position row = 1" "upcasters (fs_store w1) = []"
    and d1: "db_ok toy_ext (isle_db (fs_store w1))" "tbl_events (isle_db (fs_store w1)) = [row]" "caller_tables (isle_db (fs_store w1)) = 0"
      "tbl_checkpoints (isle_db (fs_store w1)) = []" "tbl_retention (isle_db (fs_store w1)) = []" "retention_auto (isle_db (fs_store w1)) = 0"
    using tally_written unfolding Let_def by blast
  let ?s1 = "fs_store w1"
  have start: "cursor_of (isle_db ?s1) ''tally'' = BEGINNING" "ledger_high (isle_db ?s1) = 0"
    by (simp_all add: d1 cursor_of_def ledger_high_def max_of_def)
  have place: "row_place row = Position 1" by (simp add: row_place_def position_of_stored_def as_u64_def w1)
  have ready: "ready toy_ext tally_model ''tally'' None False tally_runner ?s1"
    using d1 by (simp add: ready_def foldable_def clear_to_fold_def kinds_filter_def tally_runner_def DEFAULT_BATCH_def start
      BEGINNING_def i64_max_def as_u64_def less_position_def)
  have "pending toy_ext None ''tally'' (isle_db ?s1) = [row]"
    by (simp add: pending_def kinds_filter_def matching_all d1 start place BEGINNING_def less_position_def)
  then obtain rec where rec: "traverse (record_row toy_ext (upcasters ?s1)) (pending toy_ext None ''tally'' (isle_db ?s1)) = Inr [rec]"
    using record_row_plain [of toy_ext row] by (auto simp: w1)
  obtain page rest r2 s2 where batch: "run_once toy_ext quiet (calm_at 1) tally_runner ?s1 = (Inr (usize_of (length page)), r2, s2)"
    and page: "[rec] = page @ rest" "page = [] \<longrightarrow> [rec] = []"
    and folded: "folded_batch toy_ext [] tally_model ''tally'' None False (unat (runner_batch tally_runner)) page (isle_db ?s1) (isle_db s2)"
    using run_once_calm [OF ready rec, of 1] w1 by auto
  have page: "page = [rec]" using page by (cases page) auto
  have "fold_session_reachable toy_ext [] tally tally_model ''tally'' ((commits s2 w1)\<lparr>fs_runner := r2\<rparr>)"
    using fold_session_reachable.step [OF reach1 fold_session_step.batch [where x = toy_ext and g = quiet and a = "calm_at 1" and w = w1]] batch
    by (simp add: w1)
  moreover have "only_folds ''tally'' (isle_db ?s1) (isle_db s2)" "caller_tables (isle_db s2) = 1"
    using folded by (simp_all add: folded_batch_def page d1 tally_model_def)
  moreover have "db_ok toy_ext (isle_db s2)" using only_folds_ok [OF calculation(2), of toy_ext] d1(1) by simp
  ultimately show ?thesis
    using w1 d1 by (intro exI [of _ "(commits s2 w1)\<lparr>fs_runner := r2\<rparr>"] exI [of _ row])
      (auto simp: commits_def only_folds_def)
qed

lemma tally_session:
  "\<exists>w. fold_session_reachable toy_ext [] tally tally_model ''tally'' w
     \<and> tbl_events (isle_db (fs_store w)) = [] \<and> length (fs_history w) = 1 \<and> caller_tables (isle_db (fs_store w)) = 1"
proof -
  obtain w row where reach: "fold_session_reachable toy_ext [] tally tally_model ''tally'' w" and w: "fs_history w = [row]" "row_position row = 1"
    and d: "db_ok toy_ext (isle_db (fs_store w))" "tbl_events (isle_db (fs_store w)) = [row]"
      "caller_tables (isle_db (fs_store w)) = 1" "retention_auto (isle_db (fs_store w)) = 0"
    using tally_folded unfolding Let_def by blast
  let ?p = "\<lambda>row. row_position row \<le> 1"
  obtain rep s' where run: "retain (calm_at 3) (Before (Position 1)) Force (fs_store w) = (Inr rep, s')"
    using retain_forced_calm [OF d(1), of "Before (Position 1)" ?p 3] d(4) by (auto simp: predicate_Inr i64_max_def)
  have gone: "tbl_events (isle_db s') = []" "caller_tables (isle_db s') = 1" "tbl_checkpoints (isle_db s') = tbl_checkpoints (isle_db (fs_store w))"
    using apply_plan_outcome [OF d(1) run [unfolded retain_def]] d w(2)
    by (auto simp: predicate_Inr chosen_def)
  have "fold_session_step toy_ext ''tally'' w (commits s' w)"
    by (rule fold_session_step.writing [OF log_write.plain [OF plain_write.removing [OF run]]])
      (simp add: stays_apart_def cursor_of_def d gone)
  then have "fold_session_reachable toy_ext [] tally tally_model ''tally'' (commits s' w)"
    using reach by (rule fold_session_reachable.step [rotated])
  then show ?thesis using w(1) gone(1,2) by (intro exI [of _ "commits s' w"]) (simp add: commits_def)
qed

theorem projection_is_the_fold_of_the_history_witness:
  "\<exists>w recs. fold_session_reachable toy_ext [] tally tally_model ''tally'' w \<and> tbl_events (isle_db (fs_store w)) = []
     \<and> length (fs_history w) = 1
     \<and> traverse (record_row toy_ext []) (List.filter (\<lambda>r. row_matches toy_ext (kinds_filter None) r
          \<and> row_place r \<le> cursor_of (isle_db (fs_store w)) ''tally'') (fs_history w)) = Inr recs
     \<and> 1 = fold (model_apply tally_model) recs 0"
proof -
  obtain w where w: "fold_session_reachable toy_ext [] tally tally_model ''tally'' w"
    "tbl_events (isle_db (fs_store w)) = []" "length (fs_history w) = 1" "caller_tables (isle_db (fs_store w)) = 1"
    using tally_session by blast
  from projection_is_the_fold_of_the_history [OF w(1) tally_steady tally_implements] w
  show ?thesis by (auto simp: tally_model_def)
qed

end
