(* ===== verification/Utf8_Decode.thy ===== *)
theory Utf8_Decode
  imports Utf8
begin

text \<open>
  The two ways Rust's standard library reads bytes as a string: \<open>str::from_utf8\<close>, which accepts UTF-8 and
  nothing else, and \<open>String::from_utf8_lossy\<close>, which puts U+FFFD in the place of each longest run of bytes
  that begins an encoding and does not complete it. Both walk the bytes with one step.
\<close>

section \<open>One step\<close>

definition byte_at :: "nat list \<Rightarrow> nat \<Rightarrow> nat" where
  "byte_at bs i = (if i < length bs then bs ! i else 0)"

definition is_continuation :: "nat \<Rightarrow> bool" where
  "is_continuation b \<longleftrightarrow> 128 \<le> b \<and> b < 192"

text \<open>What may follow the first byte of three or four.\<close>

definition second_of_three :: "nat \<Rightarrow> nat \<Rightarrow> bool" where
  "second_of_three b c \<longleftrightarrow>
     (if b = 224 then 160 \<le> c \<and> c < 192 else if b = 237 then 128 \<le> c \<and> c < 160 else is_continuation c)"

definition second_of_four :: "nat \<Rightarrow> nat \<Rightarrow> bool" where
  "second_of_four b c \<longleftrightarrow>
     (if b = 240 then 144 \<le> c \<and> c < 192 else if b = 244 then 128 \<le> c \<and> c < 144 else is_continuation c)"

text \<open>Whether the bytes begin with an encoding, and how many of them it or the broken run takes.\<close>

definition utf8_step :: "nat list \<Rightarrow> bool \<times> nat" where
  "utf8_step bs =
     (let b = byte_at bs 0
      in if b < 128 then (True, 1)
         else if 194 \<le> b \<and> b < 224 then (if is_continuation (byte_at bs 1) then (True, 2) else (False, 1))
         else if 224 \<le> b \<and> b < 240 then
           (if \<not> second_of_three b (byte_at bs 1) then (False, 1)
            else if \<not> is_continuation (byte_at bs 2) then (False, 2) else (True, 3))
         else if 240 \<le> b \<and> b < 245 then
           (if \<not> second_of_four b (byte_at bs 1) then (False, 1)
            else if \<not> is_continuation (byte_at bs 2) then (False, 2)
            else if \<not> is_continuation (byte_at bs 3) then (False, 3) else (True, 4))
         else (False, 1))"

lemma utf8_step_positive: "0 < snd (utf8_step bs)"
  by (simp add: utf8_step_def Let_def)

function utf8_chunks :: "nat list \<Rightarrow> (bool \<times> nat list) list" where
  "utf8_chunks [] = []"
| "utf8_chunks (b # bs) =
     (let (whole, n) = utf8_step (b # bs) in (whole, take n (b # bs)) # utf8_chunks (drop n (b # bs)))"
  by pat_completeness auto
termination
proof (relation "measure length")
  fix b and bs :: "nat list" and x whole n
  assume "x = utf8_step (b # bs)" "(whole, n) = x"
  then show "(drop n (b # bs), b # bs) \<in> measure length"
    using utf8_step_positive [of "b # bs"] by (auto dest: arg_cong [where f = snd])
qed simp

declare utf8_chunks.simps(2) [simp del]

definition from_utf8 :: "rust_string \<Rightarrow> rust_string option" where
  "from_utf8 s = (if list_all fst (utf8_chunks (map of_char s)) then Some s else None)"

definition from_utf8_lossy :: "rust_string \<Rightarrow> rust_string" where
  "from_utf8_lossy s =
     map char_of (concat (map (\<lambda>(whole, bs). if whole then bs else [239, 191, 189]) (utf8_chunks (map of_char s))))"

section \<open>A step reads an encoding exactly where one stands\<close>

lemma base_digits: "u < 64 \<Longrightarrow> (u + 64 * k) div 64 = (k :: nat) \<and> (u + 64 * k) mod 64 = u"
  by simp

lemma utf8_step_encode:
  assumes "scalar_value c"
  shows "utf8_step (encode_bytes c @ bs) = (True, length (encode_bytes c))"
proof -
  consider "c < 128" | "128 \<le> c" "c < 2048" | "2048 \<le> c" "c < 65536" | "65536 \<le> c" by linarith
  then show ?thesis
  proof cases
    case 2
    then have "2 \<le> c div 64" "c div 64 < 32" by simp_all
    then show ?thesis using 2 by (simp add: utf8_step_def encode_bytes_def byte_at_def is_continuation_def Let_def)
  next
    case 3
    have top: "c div 4096 < 16" "(c div 64) mod 64 < 64" "c mod 64 < 64" using 3 by simp_all
    have split: "c div 64 = c div 4096 * 64 + (c div 64) mod 64"
      using div_mult_mod_eq [of "c div 64" 64] by (simp add: div_mult2_eq [symmetric])
    have "c div 4096 = 0 \<Longrightarrow> 32 \<le> (c div 64) mod 64 \<and> c div 64 < 64" using 3 split top(2) by simp
    moreover have "c div 4096 = 13 \<Longrightarrow> (c div 64) mod 64 < 32"
    proof -
      assume thirteen: "c div 4096 = 13"
      then have "c < 57344" using div_less_iff_less_mult [of 4096 c 14] by simp
      then have "c < 55296" using assms by (auto simp: scalar_value_def)
      then have "c div 64 < 864" by simp
      then show ?thesis using split thirteen by simp
    qed
    ultimately show ?thesis
      using 3 top by (simp add: utf8_step_def encode_bytes_def byte_at_def is_continuation_def second_of_three_def Let_def)
  next
    case 4
    have small: "c \<le> CHAR_MAX" by (rule scalar_value_le [OF assms])
    have top: "c div 262144 \<le> 4" "(c div 4096) mod 64 < 64" "(c div 64) mod 64 < 64" "c mod 64 < 64"
      using small by (simp_all add: CHAR_MAX_def)
    have split: "c div 4096 = c div 262144 * 64 + (c div 4096) mod 64"
      using div_mult_mod_eq [of "c div 4096" 64] by (simp add: div_mult2_eq [symmetric])
    have "c div 262144 = 0 \<Longrightarrow> 16 \<le> (c div 4096) mod 64 \<and> c div 4096 < 64" using 4 split top(2) by simp
    moreover have "c div 262144 = 4 \<Longrightarrow> (c div 4096) mod 64 < 16"
    proof -
      assume "c div 262144 = 4"
      moreover have "c div 4096 < 272" using small by (simp add: CHAR_MAX_def)
      ultimately show ?thesis using split by simp
    qed
    ultimately show ?thesis
      using 4 top by (simp add: utf8_step_def encode_bytes_def byte_at_def is_continuation_def second_of_four_def Let_def)
  qed (simp add: utf8_step_def encode_bytes_def byte_at_def)
qed

lemma continuation_digit:
  assumes "is_continuation b"
  obtains r where "r < 64" "b = 128 + r"
  using assms that [of "b - 128"] by (auto simp: is_continuation_def)

lemma two_bytes_whole:
  assumes "194 \<le> b" "b < 224" "is_continuation b1"
  shows "\<exists>c. scalar_value c \<and> [b, b1] = encode_bytes c"
proof -
  obtain r where r: "r < 64" "b1 = 128 + r" using assms(3) by (rule continuation_digit)
  define q where "q = b - 192"
  have q: "2 \<le> q" "q < 32" "b = 192 + q" using assms by (simp_all add: q_def)
  have "(q * 64 + r) div 64 = q" "(q * 64 + r) mod 64 = r" using r by simp_all
  then show ?thesis
    using q r by (intro exI [of _ "q * 64 + r"]) (simp add: scalar_value_def encode_bytes_def)
qed

lemma three_bytes_whole:
  assumes "224 \<le> b" "b < 240" and second: "second_of_three b b1" and "is_continuation b2"
  shows "\<exists>c. scalar_value c \<and> [b, b1, b2] = encode_bytes c"
proof -
  have "is_continuation b1" using second by (auto simp: second_of_three_def is_continuation_def split: if_splits)
  then obtain r where r: "r < 64" "b1 = 128 + r" by (rule continuation_digit)
  obtain u where u: "u < 64" "b2 = 128 + u" using assms(4) by (rule continuation_digit)
  define q where "q = b - 224"
  have q: "q < 16" "b = 224 + q" using assms by (simp_all add: q_def)
  have low: "q = 0 \<Longrightarrow> 32 \<le> r" and sur: "q = 13 \<Longrightarrow> r < 32"
    using second r q by (auto simp: second_of_three_def)
  define c where "c = q * 4096 + r * 64 + u"
  have c': "c = u + 64 * (q * 64 + r)" by (simp add: c_def)
  have parts: "c div 64 = q * 64 + r" "c mod 64 = u"
    by (simp_all only: c' base_digits [OF u(1), THEN conjunct1] base_digits [OF u(1), THEN conjunct2])
  have "c div 4096 = c div 64 div 64" by (simp add: div_mult2_eq [symmetric])
  moreover have "q * 64 + r = r + 64 * q" by simp
  ultimately have parts2: "c div 4096 = q" "c div 64 mod 64 = r" using parts r by (simp_all only: base_digits)
  have "scalar_value c" "\<not> c < 2048" "c < 65536"
  proof -
    show "\<not> c < 2048" using low by (cases "q = 0") (auto simp: c_def)
    show "c < 65536" using q r u by (simp add: c_def)
    consider "q < 13" | "q = 13" | "13 < q" by linarith
    then show "scalar_value c" using q r u sur by cases (auto simp: c_def scalar_value_def CHAR_MAX_def)
  qed
  then show ?thesis
    using q r u parts2 parts by (intro exI [of _ c]) (simp add: encode_bytes_def)
qed

lemma four_bytes_whole:
  assumes "240 \<le> b" "b < 245" and second: "second_of_four b b1" and "is_continuation b2" "is_continuation b3"
  shows "\<exists>c. scalar_value c \<and> [b, b1, b2, b3] = encode_bytes c"
proof -
  have "is_continuation b1" using second by (auto simp: second_of_four_def is_continuation_def split: if_splits)
  then obtain r where r: "r < 64" "b1 = 128 + r" by (rule continuation_digit)
  obtain u where u: "u < 64" "b2 = 128 + u" using assms(4) by (rule continuation_digit)
  obtain v where v: "v < 64" "b3 = 128 + v" using assms(5) by (rule continuation_digit)
  define q where "q = b - 240"
  have q: "q \<le> 4" "b = 240 + q" using assms by (simp_all add: q_def)
  have low: "q = 0 \<Longrightarrow> 16 \<le> r" and high: "q = 4 \<Longrightarrow> r < 16"
    using second r q by (auto simp: second_of_four_def)
  define c where "c = q * 262144 + r * 4096 + u * 64 + v"
  have c': "c = v + 64 * (q * 4096 + r * 64 + u)" by (simp add: c_def)
  have parts: "c div 64 = q * 4096 + r * 64 + u" "c mod 64 = v"
    by (simp_all only: c' base_digits [OF v(1), THEN conjunct1] base_digits [OF v(1), THEN conjunct2])
  have "c div 4096 = c div 64 div 64" by (simp add: div_mult2_eq [symmetric])
  moreover have "q * 4096 + r * 64 + u = u + 64 * (q * 64 + r)" by simp
  ultimately have parts2: "c div 4096 = q * 64 + r" "c div 64 mod 64 = u" using parts u by (simp_all only: base_digits)
  have "c div 262144 = c div 4096 div 64" by (simp add: div_mult2_eq [symmetric])
  moreover have "q * 64 + r = r + 64 * q" by simp
  ultimately have parts3: "c div 262144 = q" "c div 4096 mod 64 = r" using parts2 r by (simp_all only: base_digits)
  have "\<not> c < 65536" using low by (cases "q = 0") (auto simp: c_def)
  moreover have "c \<le> CHAR_MAX" using q r u v high by (cases "q = 4") (auto simp: c_def CHAR_MAX_def)
  ultimately show ?thesis
    using q r u v parts parts2 parts3 by (intro exI [of _ c]) (simp add: encode_bytes_def scalar_value_def)
qed

text \<open>A whole step is over the bytes of one scalar value.\<close>

lemma take_bytes:
  "1 < length bs \<Longrightarrow> take 2 bs = [byte_at bs 0, byte_at bs 1]"
  "2 < length bs \<Longrightarrow> take 3 bs = [byte_at bs 0, byte_at bs 1, byte_at bs 2]"
  "3 < length bs \<Longrightarrow> take 4 bs = [byte_at bs 0, byte_at bs 1, byte_at bs 2, byte_at bs 3]"
proof -
  show "1 < length bs \<Longrightarrow> take 2 bs = [byte_at bs 0, byte_at bs 1]"
    by (cases bs) (auto simp: byte_at_def take_Suc_conv_app_nth numeral_2_eq_2)
  show "2 < length bs \<Longrightarrow> take 3 bs = [byte_at bs 0, byte_at bs 1, byte_at bs 2]"
    by (cases bs) (auto simp: byte_at_def take_Suc_conv_app_nth numeral_3_eq_3 numeral_2_eq_2)
  show "3 < length bs \<Longrightarrow> take 4 bs = [byte_at bs 0, byte_at bs 1, byte_at bs 2, byte_at bs 3]"
    by (cases bs) (auto simp: byte_at_def take_Suc_conv_app_nth eval_nat_numeral)
qed

lemma utf8_step_whole:
  assumes "utf8_step bs = (True, n)" and "bs \<noteq> []"
  shows "\<exists>c. scalar_value c \<and> take n bs = encode_bytes c \<and> n \<le> length bs"
proof -
  have inside: "is_continuation (byte_at bs i) \<Longrightarrow> i < length bs" for i
    by (simp add: byte_at_def is_continuation_def split: if_splits)
  let ?b = "byte_at bs 0"
  consider "?b < 128" "n = 1" | "194 \<le> ?b" "?b < 224" "is_continuation (byte_at bs 1)" "n = 2"
    | "224 \<le> ?b" "?b < 240" "second_of_three ?b (byte_at bs 1)" "is_continuation (byte_at bs 2)" "n = 3"
    | "240 \<le> ?b" "?b < 245" "second_of_four ?b (byte_at bs 1)" "is_continuation (byte_at bs 2)"
      "is_continuation (byte_at bs 3)" "n = 4"
    using assms(1) by (auto simp: utf8_step_def Let_def split: if_splits)
  then show ?thesis
  proof cases
    case 1
    then show ?thesis
      using assms(2) by (intro exI [of _ ?b]) (cases bs, auto simp: byte_at_def scalar_value_def encode_bytes_def)
  next
    case 2
    then show ?thesis using two_bytes_whole [OF 2(1-3)] inside [OF 2(3)] take_bytes(1) [of bs] by auto
  next
    case 3
    then show ?thesis using three_bytes_whole [OF 3(1-4)] inside [OF 3(4)] take_bytes(2) [of bs] by auto
  next
    case 4
    then show ?thesis using four_bytes_whole [OF 4(1-5)] inside [OF 4(5)] take_bytes(3) [of bs] by auto
  qed
qed

section \<open>The two readers\<close>

lemma encode_bytes_nonempty [simp]: "encode_bytes c \<noteq> []"
  by (simp add: encode_bytes_def)

lemma chunks_encode: "scalar_value c \<Longrightarrow> utf8_chunks (encode_bytes c @ bs) = (True, encode_bytes c) # utf8_chunks bs"
  using utf8_step_encode [of c bs] by (cases "encode_bytes c") (simp_all add: utf8_chunks.simps(2))

lemma chunks_whole:
  "list_all fst (utf8_chunks bs) \<longleftrightarrow> (\<exists>cs. bs = concat (map encode_bytes cs) \<and> (\<forall>c \<in> set cs. scalar_value c))"
proof
  show "list_all fst (utf8_chunks bs) \<Longrightarrow> \<exists>cs. bs = concat (map encode_bytes cs) \<and> (\<forall>c \<in> set cs. scalar_value c)"
  proof (induction bs rule: utf8_chunks.induct)
    case 1
    then show ?case by (intro exI [of _ "[]"]) simp
  next
    case (2 b bs)
    obtain n where n: "utf8_step (b # bs) = (True, n)" "list_all fst (utf8_chunks (drop n (b # bs)))"
      using "2.prems" by (auto simp: utf8_chunks.simps(2) split: prod.splits)
    obtain c where c: "scalar_value c" "take n (b # bs) = encode_bytes c" using utf8_step_whole [OF n(1)] by auto
    obtain cs where "drop n (b # bs) = concat (map encode_bytes cs)" "\<forall>c \<in> set cs. scalar_value c"
      using "2.IH" [OF n(1) [symmetric] refl n(2)] by blast
    then show ?case using c append_take_drop_id [of n "b # bs"] by (intro exI [of _ "c # cs"]) auto
  qed
  have "list_all fst (utf8_chunks (concat (map encode_bytes cs)))" if "\<forall>c \<in> set cs. scalar_value c" for cs
    using that by (induction cs) (simp_all add: chunks_encode)
  then show "\<exists>cs. bs = concat (map encode_bytes cs) \<and> (\<forall>c \<in> set cs. scalar_value c) \<Longrightarrow> list_all fst (utf8_chunks bs)"
    by blast
qed

lemma map_char_of_char: "map char_of (map (of_char :: char \<Rightarrow> nat) s) = s"
  by (induction s) auto

lemma from_utf8_Some: "from_utf8 s = Some t \<longleftrightarrow> t = s \<and> is_utf8 s"
proof -
  have "list_all fst (utf8_chunks (map of_char s)) \<longleftrightarrow> is_utf8 s"
    unfolding chunks_whole is_utf8_def utf8_def
  proof (intro iffI; elim exE conjE)
    fix cs
    assume "map of_char s = concat (map encode_bytes cs)" "\<forall>c \<in> set cs. scalar_value c"
    then show "\<exists>cs. s = map char_of (concat (map encode_bytes cs)) \<and> (\<forall>c \<in> set cs. scalar_value c)"
      using map_char_of_char [of s] by (intro exI [of _ cs]) simp
  next
    fix cs
    assume s: "s = map char_of (concat (map encode_bytes cs))" "\<forall>c \<in> set cs. scalar_value c"
    then have "\<forall>b \<in> set (concat (map encode_bytes cs)). b < 256" using encode_bytes_small by fastforce
    then show "\<exists>cs. map of_char s = concat (map encode_bytes cs) \<and> (\<forall>c \<in> set cs. scalar_value c)"
      using s of_char_map by (intro exI [of _ cs]) auto
  qed
  then show ?thesis by (auto simp: from_utf8_def)
qed

lemma from_utf8_None: "from_utf8 s = None \<longleftrightarrow> \<not> is_utf8 s"
  using from_utf8_Some [of s s] by (cases "from_utf8 s") (auto simp: from_utf8_def split: if_splits)

lemma replacement: "encode_bytes 65533 = [239, 191, 189]"
  by (simp add: encode_bytes_def)

text \<open>What the lossy reader answers is UTF-8, whatever the bytes; and of UTF-8 it is the string itself.\<close>

lemma chunks_lossy:
  "\<exists>cs. concat (map (\<lambda>(whole, bs). if whole then bs else [239, 191, 189]) (utf8_chunks bs)) = concat (map encode_bytes cs)
     \<and> (\<forall>c \<in> set cs. scalar_value c)"
proof (induction bs rule: utf8_chunks.induct)
  case 1
  show ?case by (intro exI [of _ "[]"]) simp
next
  case (2 b bs)
  obtain whole n where step: "utf8_step (b # bs) = (whole, n)" by force
  obtain cs where cs: "concat (map (\<lambda>(whole, bs). if whole then bs else [239, 191, 189]) (utf8_chunks (drop n (b # bs))))
      = concat (map encode_bytes cs)" "\<forall>c \<in> set cs. scalar_value c"
    using "2.IH" [OF step [symmetric] refl] by blast
  have "\<exists>c. scalar_value c \<and> (if whole then take n (b # bs) else [239, 191, 189]) = encode_bytes c"
  proof (cases whole)
    case True
    then show ?thesis using utf8_step_whole [of "b # bs" n] step by auto
  next
    case False
    then show ?thesis using replacement by (intro exI [of _ 65533]) (simp add: scalar_value_def CHAR_MAX_def)
  qed
  then obtain c where "scalar_value c" "(if whole then take n (b # bs) else [239, 191, 189]) = encode_bytes c" by blast
  then show ?case using cs step by (intro exI [of _ "c # cs"]) (auto simp: utf8_chunks.simps(2))
qed

lemma from_utf8_lossy_utf8: "is_utf8 (from_utf8_lossy s)"
proof -
  obtain cs where "concat (map (\<lambda>(whole, bs). if whole then bs else [239, 191, 189]) (utf8_chunks (map of_char s)))
      = concat (map encode_bytes cs)" "\<forall>c \<in> set cs. scalar_value c"
    using chunks_lossy [of "map of_char s"] by blast
  then show ?thesis by (auto simp: from_utf8_lossy_def is_utf8_def utf8_def)
qed

end
