(* ===== verification/Hatch_Query.thy ===== *)
theory Hatch_Query
  imports Guarded Utf8_Decode
begin

text \<open>
  A caller's own reads: the query half of \<open>crates/eventsdb-sqlite/src/hatch.rs\<close>, the parameters of
  \<open>crates/eventsdb-core/src/params.rs\<close>, and the two passthroughs of a stream handle in
  \<open>crates/eventsdb-sqlite/src/store.rs\<close>. The statement is the caller's text and SQLite's to read, so what
  SQLite makes of a text, and what running it gives, is the parameter \<open>sqlite\<close>; the program's own part is
  what it lets run, what it binds, and what it makes of the cells.
\<close>

section \<open>What a caller binds\<close>

datatype params = Positional "json list" | Named "(rust_string \<times> json) list"

definition params_from_values :: "json list \<Rightarrow> params" where
  "params_from_values values = Positional values"

definition params_from_map :: "json_map \<Rightarrow> params" where
  "params_from_map m = Named m"

record query_options =
  timeout :: "u64 option"
  lossy :: bool

definition default_query_options :: query_options where
  "default_query_options = \<lparr> timeout = None, lossy = False \<rparr>"

section \<open>SQLite\<close>

text \<open>
  A prepared statement: whether it is read-only, the names of its columns, the names of its parameters in
  the order of their indices, and what the authorizer was asked while it was compiled. Running it gives
  what each call for the next row gets, and leaves the tables.
\<close>

record prepared =
  stmt_readonly :: bool
  column_names :: "rust_string list"
  parameter_names :: "rust_string option list"
  asked :: "auth_action list"

record 'm sqlite =
  compile :: "rust_string \<Rightarrow> 'm database \<Rightarrow> rusqlite_error + prepared"
  rows_of :: "rust_string \<Rightarrow> sql_value list \<Rightarrow> 'm database \<Rightarrow> (rusqlite_error + sql_value list) list \<times> 'm database"

definition prepare :: "'m sqlite \<Rightarrow> rust_string \<Rightarrow> ('m, rusqlite_error, prepared) job" where
  "prepare q sql =
     statement (\<lambda>d. rbind (compile q sql d) (\<lambda>st.
       if list_ex (\<lambda>action. authorize action False = Deny) (asked st)
       then Inl (SqliteFailure OtherCode ''not authorized'') else Inr (st, d)))"

definition parameter_index :: "rust_string option list \<Rightarrow> rust_string \<Rightarrow> nat option" where
  "parameter_index names name = map_option fst (find (\<lambda>(_, n). n = Some name) (enumerate 0 names))"

definition bind_positional :: "rust_string option list \<Rightarrow> sql_value list \<Rightarrow> rusqlite_error + sql_value list" where
  "bind_positional names values =
     (if length values = length names then Inr values
      else Inl (InvalidParameterCount (min (length values) (length names + 1)) (length names)))"

text \<open>A parameter nothing is bound to stays \<open>NULL\<close>.\<close>

fun bind_named ::
  "rust_string option list \<Rightarrow> (rust_string \<times> sql_value) list \<Rightarrow> sql_value list \<Rightarrow> rusqlite_error + sql_value list" where
  "bind_named names [] slots = Inr slots"
| "bind_named names ((name, value) # rest) slots =
     (case parameter_index names name of
        None \<Rightarrow> Inl (InvalidParameterName name)
      | Some i \<Rightarrow> bind_named names rest (slots[i := value]))"

section \<open>Values in\<close>

text \<open>\<open>Value::to_string\<close>, which writes into a \<open>String\<close> and does not fail.\<close>

definition value_to_string :: "ext \<Rightarrow> json \<Rightarrow> rust_string" where
  "value_to_string x v = (case to_text x v of Some s \<Rightarrow> s | None \<Rightarrow> [])"

fun bind_value :: "ext \<Rightarrow> json \<Rightarrow> sql_value result" where
  "bind_value x JNull = Inr SqlNull"
| "bind_value x (JBool b) = Inr (SqlInteger (if b then 1 else 0))"
| "bind_value x (JNumber n) =
     (case number_as_i64 n of
        Some i \<Rightarrow> Inr (SqlInteger i)
      | None \<Rightarrow>
          (case n of
             PosInt u \<Rightarrow> Inl (Validation (InHatch (IntegerUnbindable u)))
           | _ \<Rightarrow> Inr (SqlReal (as_f64 x n))))"
| "bind_value x (JString s) = Inr (SqlText s)"
| "bind_value x other = Inr (SqlText (value_to_string x other))"

fun every_declared_name_was_supplied ::
  "nat \<Rightarrow> rust_string option list \<Rightarrow> (rust_string \<times> sql_value) list \<Rightarrow> unit result" where
  "every_declared_name_was_supplied index [] bound = Inr ()"
| "every_declared_name_was_supplied index (Some name # names) bound =
     (if list_ex (\<lambda>(supplied, _). supplied = name) bound
      then every_declared_name_was_supplied (index + 1) names bound
      else Inl (Validation (InHatch (ParameterUnbound name))))"
| "every_declared_name_was_supplied index (None # names) bound = Inl (Validation (InHatch (ParameterPositional index)))"

section \<open>Cells out\<close>

definition hex_upper_digit :: "nat \<Rightarrow> char" where
  "hex_upper_digit n = (if n < 10 then char_of (48 + n) else char_of (55 + n))"

definition hex_upper :: "rust_string \<Rightarrow> rust_string" where
  "hex_upper bytes = concat (map (\<lambda>b. [hex_upper_digit (of_char b div 16), hex_upper_digit (of_char b mod 16)]) bytes)"

text \<open>A double by its bits: the sign is the highest, and an exponent of ones is an infinity or no number.\<close>

definition is_finite :: "u64 \<Rightarrow> bool" where
  "is_finite f \<longleftrightarrow> unat f div 2 ^ 52 mod 2048 \<noteq> 2047"

definition infinity_as_text :: "u64 \<Rightarrow> rust_string" where
  "infinity_as_text f = (if 2 ^ 63 \<le> unat f then ''-Inf'' else ''Inf'')"

definition json_of_i64 :: "i64 \<Rightarrow> json" where
  "json_of_i64 i = JNumber (if i < 0 then NegInt i else PosInt (as_u64 i))"

fun cell_to_json :: "rust_string \<Rightarrow> bool \<Rightarrow> sql_value \<Rightarrow> json result" where
  "cell_to_json column loose SqlNull = Inr JNull"
| "cell_to_json column loose (SqlInteger i) = Inr (json_of_i64 i)"
| "cell_to_json column loose (SqlReal f) =
     (if is_finite f then Inr (JNumber (Float f))
      else if \<not> loose then Inl (Unsupported (InHatch (CellNotFinite column)))
      else Inr (JString (infinity_as_text f)))"
| "cell_to_json column loose (SqlText t) =
     (case from_utf8 t of
        Some text \<Rightarrow> Inr (JString text)
      | None \<Rightarrow> if loose then Inr (JString (from_utf8_lossy t)) else Inl (Unsupported (InHatch (CellNotUtf8 column))))"
| "cell_to_json column loose (SqlBlob bytes) =
     (if \<not> loose then Inl (Unsupported (InHatch (CellIsBlob column))) else Inr (JString (hex_upper bytes)))"

definition get_ref :: "sql_value list \<Rightarrow> nat \<Rightarrow> rusqlite_error + sql_value" where
  "get_ref row index = (if index < length row then Inr (row ! index) else Inl (OtherSqlError ''Invalid column index''))"

definition sql_to_json :: "sql_value list \<Rightarrow> nat \<Rightarrow> rust_string \<Rightarrow> bool \<Rightarrow> json result" where
  "sql_to_json row index column loose =
     (case get_ref row index of Inl e \<Rightarrow> Inl (classify e) | Inr cell \<Rightarrow> cell_to_json column loose cell)"

section \<open>A statement\<close>

fun object_of_row :: "sql_value list \<Rightarrow> bool \<Rightarrow> (nat \<times> rust_string) list \<Rightarrow> json_map \<Rightarrow> json_map result" where
  "object_of_row row loose [] object = Inr object"
| "object_of_row row loose ((index, name) # names) object =
     rbind (sql_to_json row index name loose) (\<lambda>v. object_of_row row loose names (map_insert name v object))"

text \<open>
  The loop over \<open>rows.next()\<close>: each call may fail, the one that finds no row too, and a row is turned into
  its object before the next is asked for.
\<close>

fun walk_rows :: "rust_string list \<Rightarrow> bool \<Rightarrow> (rusqlite_error + sql_value list) list \<Rightarrow> ('m, error, json_map list) job" where
  "walk_rows names loose [] = jbind (map_err classify (execute Inr)) (\<lambda>_. jreturn [])"
| "walk_rows names loose (row # rows) =
     jbind (map_err classify (statement (\<lambda>d. rmap (\<lambda>r. (r, d)) row))) (\<lambda>r.
     jbind (jlift (object_of_row r loose (enumerate 0 names) [])) (\<lambda>object.
     jbind (walk_rows names loose rows) (\<lambda>objects. jreturn (object # objects))))"

definition start_rows :: "'m sqlite \<Rightarrow> rust_string \<Rightarrow> sql_value list \<Rightarrow> ('m, error, (rusqlite_error + sql_value list) list) job" where
  "start_rows q sql slots = (\<lambda>c. let (rows, d) = rows_of q sql slots (conn_db c) in (Inr rows, c\<lparr>conn_db := d\<rparr>))"

definition bind_params :: "ext \<Rightarrow> prepared \<Rightarrow> params \<Rightarrow> sql_value list result" where
  "bind_params x st params =
     (case params of
        Positional values \<Rightarrow>
          rbind (traverse (bind_value x) values) (\<lambda>bound.
          case bind_positional (parameter_names st) bound of Inl e \<Rightarrow> Inl (classify e) | Inr slots \<Rightarrow> Inr slots)
      | Named pairs \<Rightarrow>
          rbind (traverse (\<lambda>(name, value). rmap (\<lambda>b. (name, b)) (bind_value x value)) pairs) (\<lambda>bound.
          rbind (every_declared_name_was_supplied 1 (parameter_names st) bound) (\<lambda>_.
          case bind_named (parameter_names st) bound (replicate (length (parameter_names st)) SqlNull) of
            Inl e \<Rightarrow> Inl (classify e) | Inr slots \<Rightarrow> Inr slots)))"

definition query_rows :: "'m sqlite \<Rightarrow> ext \<Rightarrow> rust_string \<Rightarrow> params \<Rightarrow> bool \<Rightarrow> ('m, error, json_map list) job" where
  "query_rows q x sql params loose =
     jbind (map_err classify (prepare q sql)) (\<lambda>checked.
     if \<not> stmt_readonly checked then jlift (Inl (Unsupported (InHatch StatementWrites)))
     else jbind (map_err classify (prepare q sql)) (\<lambda>st.
          jbind (jlift (bind_params x st params)) (\<lambda>slots.
          jbind (start_rows q sql slots) (\<lambda>rows.
          walk_rows (column_names st) loose rows))))"

definition returning :: "('m, error, 'a) job \<Rightarrow> 'm conn \<Rightarrow> 'a ran \<times> 'm conn" where
  "returning job = (\<lambda>c. let (r, c') = job c in (Returned r, c'))"

section \<open>The calls\<close>

text \<open>With or without a deadline the job is the same; a deadline that passes is the attempt's failure.\<close>

definition query_within ::
  "'m sqlite \<Rightarrow> ext \<Rightarrow> guard_env \<Rightarrow> attempt \<Rightarrow> rust_string \<Rightarrow> params \<Rightarrow> query_options \<Rightarrow> 'm shared
     \<Rightarrow> json_map list result \<times> 'm shared" where
  "query_within q x g a sql params options s =
     (let (r, d) = isle_call a (guarded g (returning (query_rows q x sql params (lossy options)))) (isle_db (snd (reader s)))
      in (r, (snd (reader s))\<lparr>isle_db := d\<rparr>))"

definition query ::
  "'m sqlite \<Rightarrow> ext \<Rightarrow> guard_env \<Rightarrow> attempt \<Rightarrow> rust_string \<Rightarrow> params \<Rightarrow> 'm shared \<Rightarrow> json_map list result \<times> 'm shared" where
  "query q x g a sql params s = query_within q x g a sql params default_query_options s"

definition query_timeout ::
  "'m sqlite \<Rightarrow> ext \<Rightarrow> guard_env \<Rightarrow> attempt \<Rightarrow> rust_string \<Rightarrow> params \<Rightarrow> u64 \<Rightarrow> 'm shared
     \<Rightarrow> json_map list result \<times> 'm shared" where
  "query_timeout q x g a sql params t s =
     query_within q x g a sql params (default_query_options\<lparr>timeout := Some t\<rparr>) s"

definition query_with ::
  "'m sqlite \<Rightarrow> ext \<Rightarrow> guard_env \<Rightarrow> attempt \<Rightarrow> rust_string \<Rightarrow> params \<Rightarrow> query_options \<Rightarrow> 'm shared
     \<Rightarrow> json_map list result \<times> 'm shared" where
  "query_with q x g a sql params options s = query_within q x g a sql params options s"

text \<open>The stream handle's own two: positional, strict, on a reader.\<close>

definition store_query ::
  "'m sqlite \<Rightarrow> ext \<Rightarrow> guard_env \<Rightarrow> attempt \<Rightarrow> rust_string \<Rightarrow> json list \<Rightarrow> 'm shared \<Rightarrow> json_map list result \<times> 'm shared" where
  "store_query q x g a sql params s =
     (let (r, d) = isle_call a (guarded g (returning (query_rows q x sql (params_from_values params) False)))
                     (isle_db (snd (reader s)))
      in (r, (snd (reader s))\<lparr>isle_db := d\<rparr>))"

definition store_query_timeout ::
  "'m sqlite \<Rightarrow> ext \<Rightarrow> guard_env \<Rightarrow> attempt \<Rightarrow> rust_string \<Rightarrow> json list \<Rightarrow> u64 \<Rightarrow> 'm shared
     \<Rightarrow> json_map list result \<times> 'm shared" where
  "store_query_timeout q x g a sql params t s =
     (let (r, d) = isle_call a (guarded g (returning (query_rows q x sql (params_from_values params) False)))
                     (isle_db (snd (reader s)))
      in (r, (snd (reader s))\<lparr>isle_db := d\<rparr>))"

end
