(* ===== verification/Query_Theorems.thy ===== *)
theory Query_Theorems
  imports Hatch_Query
begin

text \<open>
  What a caller's own read promises: it changes nothing, it binds what its statement declares, and in its
  strict form what it answers is what the cells held.
\<close>

section \<open>What the model relies on of SQLite\<close>

text \<open>
  The documented behaviour of the library: a statement \<open>sqlite3_stmt_readonly\<close> calls read-only leaves the
  tables as they are, a row has a cell for each column of the statement, an \<open>INTEGER\<close> is 64 bits
  wide, and a name stands for one parameter.
\<close>

definition cell_ok :: "sql_value \<Rightarrow> bool" where
  "cell_ok cell = (case cell of SqlInteger i \<Rightarrow> i64_min \<le> i \<and> i \<le> i64_max | _ \<Rightarrow> True)"

definition documented :: "'m sqlite \<Rightarrow> bool" where
  "documented q \<longleftrightarrow>
     (\<forall>sql d st. compile q sql d = Inr st \<longrightarrow>
        (\<forall>i j. i < length (parameter_names st) \<and> j < length (parameter_names st)
           \<and> parameter_names st ! i = parameter_names st ! j \<and> parameter_names st ! i \<noteq> None \<longrightarrow> i = j)
        \<and> (\<forall>slots. (stmt_readonly st \<longrightarrow> snd (rows_of q sql slots d) = d)
             \<and> (\<forall>cells. Inr cells \<in> set (fst (rows_of q sql slots d)) \<longrightarrow>
                  length cells = length (column_names st) \<and> list_all cell_ok cells)))"

lemma documentedD:
  assumes "documented q" and "compile q sql d = Inr st"
  shows "stmt_readonly st \<Longrightarrow> snd (rows_of q sql slots d) = d"
    and "Inr cells \<in> set (fst (rows_of q sql slots d)) \<Longrightarrow> length cells = length (column_names st) \<and> list_all cell_ok cells"
    and "i < length (parameter_names st) \<Longrightarrow> j < length (parameter_names st) \<Longrightarrow>
      parameter_names st ! i = Some name \<Longrightarrow> parameter_names st ! j = Some name \<Longrightarrow> i = j"
  using assms by (auto simp: documented_def)

section \<open>A prepared statement\<close>

lemma reads_only_prepare [reads_intros]: "reads_only (prepare q sql)"
  unfolding prepare_def by (rule reads_only_statement) (auto simp: result_simps split: if_splits)

lemma reads_only_walk [reads_intros]: "reads_only (walk_rows names loose rows)"
  by (induction rows)
    (auto intro!: reads_intros reads_only_statement simp: execute_def result_simps)

lemma reads_onlyD: "reads_only m \<Longrightarrow> m c = (r, c') \<Longrightarrow> conn_db c' = conn_db c"
  unfolding reads_only_def by (metis snd_conv)

lemma jbind_Inr: "jbind m f c = (Inr y, c') \<longleftrightarrow> (\<exists>v c1. m c = (Inr v, c1) \<and> f v c1 = (Inr y, c'))"
  by (auto simp: jbind_def split: prod.splits sum.splits)

lemma map_err_Inr: "map_err h m c = (Inr y, c') \<longleftrightarrow> m c = (Inr y, c')"
  by (auto simp: map_err_def split: prod.splits sum.splits)

lemma jlift_Inr: "jlift r c = (Inr y, c') \<longleftrightarrow> r = Inr y \<and> c' = c"
  by (auto simp: jlift_def)

lemma statement_Inr: "statement f c = (Inr v, c') \<Longrightarrow> \<exists>d. f (conn_db c) = Inr (v, d) \<and> conn_db c' = d"
  by (auto simp: statement_def next_fault_db split: prod.splits option.splits sum.splits dest: next_fault_db)

text \<open>A statement that was let through: known to SQLite, and asking for nothing the authorizer denies.\<close>

definition let_through :: "'m sqlite \<Rightarrow> rust_string \<Rightarrow> 'm database \<Rightarrow> prepared \<Rightarrow> bool" where
  "let_through q sql d st \<longleftrightarrow>
     compile q sql d = Inr st \<and> list_all (\<lambda>action. authorize action False = Allow) (asked st)"

lemma not_deny: "authorize action trusted \<noteq> Deny \<longleftrightarrow> authorize action trusted = Allow"
  by (cases "authorize action trusted") auto

lemma prepare_Inr: "prepare q sql c = (Inr st, c') \<Longrightarrow> let_through q sql (conn_db c) st \<and> conn_db c' = conn_db c"
  unfolding prepare_def
  by (drule statement_Inr)
    (auto simp: let_through_def result_simps list_ex_iff list_all_iff not_deny split: if_splits)

lemma walk_rows_Inr:
  "walk_rows names loose rows c = (Inr objects, c') \<Longrightarrow>
     \<exists>cells. rows = map Inr cells
       \<and> list_all2 (\<lambda>row object. object_of_row row loose (enumerate 0 names) [] = Inr object) cells objects"
proof (induction rows arbitrary: c objects)
  case (Cons row rows)
  then obtain r c1 object objects' where row: "statement (\<lambda>d. rmap (\<lambda>r. (r, d)) row) c = (Inr r, c1)"
    and object: "object_of_row r loose (enumerate 0 names) [] = Inr object"
    and rest: "walk_rows names loose rows c1 = (Inr objects', c')" and objects: "objects = object # objects'"
    by (auto simp: jbind_Inr map_err_Inr jlift_Inr jreturn_def)
  have "row = Inr r" using statement_Inr [OF row] by (auto simp: result_simps)
  moreover obtain cells where "rows = map Inr cells"
    "list_all2 (\<lambda>row object. object_of_row row loose (enumerate 0 names) [] = Inr object) cells objects'"
    using Cons.IH [OF rest] by blast
  ultimately show ?case using object objects by (intro exI [of _ "r # cells"]) simp
qed (auto simp: jbind_Inr jreturn_def intro: exI [of _ "[]"])

text \<open>A query that answers: what ran, on which values, and what its rows were.\<close>

definition ran_as ::
  "'m sqlite \<Rightarrow> ext \<Rightarrow> rust_string \<Rightarrow> params \<Rightarrow> 'm database \<Rightarrow> prepared \<Rightarrow> sql_value list \<Rightarrow> sql_value list list \<Rightarrow> bool" where
  "ran_as q x sql params d st slots cells \<longleftrightarrow>
     let_through q sql d st \<and> stmt_readonly st \<and> bind_params x st params = Inr slots
     \<and> fst (rows_of q sql slots d) = map Inr cells"

lemma query_rows_Inr:
  assumes "query_rows q x sql params loose c = (Inr objects, c')"
  shows "\<exists>st slots cells. ran_as q x sql params (conn_db c) st slots cells
     \<and> list_all2 (\<lambda>row object. object_of_row row loose (enumerate 0 (column_names st)) [] = Inr object) cells objects"
proof -
  obtain checked c1 where first: "prepare q sql c = (Inr checked, c1)"
    and rest: "(if \<not> stmt_readonly checked then jlift (Inl (Unsupported (InHatch StatementWrites)))
       else jbind (map_err classify (prepare q sql)) (\<lambda>st. jbind (jlift (bind_params x st params)) (\<lambda>slots.
          jbind (start_rows q sql slots) (walk_rows (column_names st) loose)))) c1 = (Inr objects, c')"
    using assms by (auto simp: query_rows_def jbind_Inr map_err_Inr)
  have readonly: "stmt_readonly checked" using rest by (auto simp: jlift_def split: if_splits)
  obtain st c2 slots c3 rows where second: "prepare q sql c1 = (Inr st, c2)" and slots: "bind_params x st params = Inr slots"
    and start: "start_rows q sql slots c2 = (Inr rows, c3)" and walk: "walk_rows (column_names st) loose rows c3 = (Inr objects, c')"
    using rest readonly by (auto simp: jbind_Inr map_err_Inr jlift_Inr)
  have "let_through q sql (conn_db c) checked" "conn_db c1 = conn_db c" using prepare_Inr [OF first] by simp_all
  moreover have "let_through q sql (conn_db c1) st" "conn_db c2 = conn_db c1" using prepare_Inr [OF second] by simp_all
  moreover have "rows = fst (rows_of q sql slots (conn_db c2))"
    using start by (auto simp: start_rows_def Let_def split: prod.splits)
  ultimately show ?thesis
    using walk_rows_Inr [OF walk] readonly slots by (auto simp: ran_as_def let_through_def)
qed

lemma query_rows_keeps:
  fixes q :: "'m sqlite"
  assumes "documented q"
  shows "reads_only (query_rows q x sql params loose)"
  unfolding reads_only_def
proof
  fix c
  have prep: "reads_only (map_err classify (prepare q sql))" by (intro reads_intros)
  obtain r1 c1 where first: "map_err classify (prepare q sql) c = (r1, c1)" by force
  have c1: "conn_db c1 = conn_db c" by (rule reads_onlyD [OF prep first])
  show "conn_db (snd (query_rows q x sql params loose c)) = conn_db c"
  proof (cases r1)
    case (Inl e)
    then show ?thesis using first c1 by (simp add: query_rows_def jbind_def)
  next
    case (Inr checked)
    then have checked: "let_through q sql (conn_db c) checked" using first prepare_Inr by (fastforce simp: map_err_Inr)
    obtain r2 c2 where second: "map_err classify (prepare q sql) c1 = (r2, c2)" by force
    have c2: "conn_db c2 = conn_db c1" by (rule reads_onlyD [OF prep second])
    have start: "conn_db (snd (start_rows q sql slots c2)) = conn_db c2" if "stmt_readonly checked" for slots
      using documentedD(1) [OF assms, of sql "conn_db c" checked slots] checked c1 c2 that
      by (auto simp: let_through_def start_rows_def Let_def split: prod.splits)
    have walk: "conn_db (snd (walk_rows names loose rows c')) = conn_db c'" for names rows and c' :: "'m conn"
      by (rule reads_only_walk [unfolded reads_only_def, rule_format])
    have "conn_db (snd (jbind (start_rows q sql slots) (walk_rows names loose) c2)) = conn_db c2"
      if "stmt_readonly checked" for slots names
      using start [OF that, of slots] walk by (auto simp: jbind_def split: prod.splits sum.splits)
    then show ?thesis
      using first second Inr c1 c2 by (cases r2) (auto simp: query_rows_def jbind_def jlift_def split: prod.splits sum.splits)
  qed
qed

lemma query_within_cases:
  assumes "query_within q x g a sql params options s = (r, s')"
  obtains (failed) e d where "r = Inl e" "s' = (snd (reader s))\<lparr>isle_db := d\<rparr>"
      "documented q \<Longrightarrow> d = isle_db s"
  | (answered) objects st slots cells d where "r = Inr objects" "s' = (snd (reader s))\<lparr>isle_db := d\<rparr>"
      "documented q \<Longrightarrow> d = isle_db s" "ran_as q x sql params (isle_db s) st slots cells"
      "list_all2 (\<lambda>row object. object_of_row row (lossy options) (enumerate 0 (column_names st)) [] = Inr object) cells objects"
proof -
  have same: "isle_db (snd (reader s)) = isle_db s" by (simp add: reader_def)
  obtain d where run: "isle_call a (guarded g (returning (query_rows q x sql params (lossy options)))) (isle_db s) = (r, d)"
    and s': "s' = (snd (reader s))\<lparr>isle_db := d\<rparr>"
    using assms by (auto simp: query_within_def same Let_def split: prod.splits)
  have keeps: "conn_db c' = conn_db c" if "documented q" "query_rows q x sql params (lossy options) c = (r', c')" for c r' c'
    by (rule reads_onlyD [OF query_rows_keeps [OF that(1)] that(2)])
  let ?c = "\<lparr> conn_db = isle_db s, faults = stmt_faults a, clock = readings a \<rparr>"
  obtain r' c' where job: "query_rows q x sql params (lossy options) ?c = (r', c')" by force
  have d: "documented q \<Longrightarrow> d = isle_db s"
    using run job keeps [OF _ job]
    by (auto simp: isle_call_def guarded_def returning_def Let_def split: option.splits sum.splits)
  show thesis
  proof (cases r)
    case (Inl e)
    then show ?thesis using failed s' d by blast
  next
    case (Inr objects)
    then have "query_rows q x sql params (lossy options) ?c = (Inr objects, c')"
      using run job by (auto simp: isle_call_def guarded_def returning_def Let_def split: option.splits sum.splits)
    from query_rows_Inr [OF this] show ?thesis using answered Inr s' d by auto
  qed
qed

section \<open>A small engine\<close>

text \<open>Three statements of a made-up SQLite: a read of the kinds, one that attaches, one that writes.\<close>

definition toy_sqlite :: "'m sqlite" where
  "toy_sqlite = \<lparr>
     compile = (\<lambda>sql d.
       if sql = ''select'' then Inr \<lparr> stmt_readonly = True, column_names = [''kind'', ''n''],
         parameter_names = [Some '':kind''], asked = [AuthSelect, AuthRead ''events'' ''kind''] \<rparr>
       else if sql = ''attach'' then Inr \<lparr> stmt_readonly = True, column_names = [], parameter_names = [],
         asked = [AuthAttach ''other.db''] \<rparr>
       else Inr \<lparr> stmt_readonly = False, column_names = [], parameter_names = [], asked = [AuthInsert ''mine''] \<rparr>),
     rows_of = (\<lambda>sql slots d.
       if sql = ''select'' then
         (map (\<lambda>row. Inr [SqlText (row_kind row), SqlInteger 7])
            (List.filter (\<lambda>row. slots = [SqlText (row_kind row)]) (tbl_events d)), d)
       else ([], d)) \<rparr>"

lemma toy_documented: "documented toy_sqlite"
  by (auto simp: documented_def toy_sqlite_def cell_ok_def i64_min_def i64_max_def split: if_splits)

section \<open>A query changes nothing\<close>

lemma guarded_calm_job:
  "isle_call (calm_at t) (guarded quiet (returning job)) d =
     (let (r, c) = job \<lparr> conn_db = d, faults = [], clock = [t] \<rparr>
      in (case r of Inl e \<Rightarrow> Inl (map_denial e) | Inr v \<Rightarrow> Inr v, conn_db c))"
  by (auto simp: isle_call_def calm_at_def returning_def Let_def split: prod.splits sum.splits)

lemma prepare_calm:
  "faults c = [] \<Longrightarrow> compile q sql (conn_db c) = Inr st \<Longrightarrow>
     map_err classify (prepare q sql) c =
       (if list_ex (\<lambda>action. authorize action False = Deny) (asked st)
        then Inl (classify (SqliteFailure OtherCode ''not authorized'')) else Inr st, c)"
  by (simp add: prepare_def statement_def map_err_def)

lemma denial_is_denied: "map_denial (classify (SqliteFailure OtherCode ''not authorized'')) = denied"
proof -
  have "contains ''not authorized'' ''not authorized''" by code_simp
  then show ?thesis by (simp add: classify_def)
qed

text \<open>
  C33. A query changes nothing, and runs nothing but reads. Whatever the statement, its parameters and the
  failures met, the database is as it was; a query that answers ran a statement SQLite calls read-only and
  that asked for nothing the authorizer denies. Where nothing fails, a statement that asks for a denied
  action, though SQLite calls it read-only as it does an \<open>ATTACH\<close>, is answered with the hatch's refusal,
  and one that writes with that of \<open>query\<close>.
\<close>

theorem query_changes_nothing:
  assumes "documented q" and "query_with q x g a sql params options s = (r, s')"
  shows "isle_db s' = isle_db s \<and> s' = snd (reader s)
     \<and> (\<forall>objects. r = Inr objects \<longrightarrow> (\<exists>st. compile q sql (isle_db s) = Inr st \<and> stmt_readonly st
          \<and> list_all (\<lambda>action. authorize action False = Allow) (asked st)))
     \<and> (\<forall>st t. compile q sql (isle_db s) = Inr st \<and> a = calm_at t \<and> g = quiet \<longrightarrow>
          (if list_ex (\<lambda>action. authorize action False = Deny) (asked st) then r = Inl denied
           else if \<not> stmt_readonly st then r = Inl (Unsupported (InHatch StatementWrites)) else True))"
proof -
  have same: "isle_db (snd (reader s)) = isle_db s" by (simp add: reader_def)
  have run: "query_within q x g a sql params options s = (r, s')" using assms(2) by (simp add: query_with_def)
  have "isle_db s' = isle_db s \<and> s' = snd (reader s)
     \<and> (\<forall>objects. r = Inr objects \<longrightarrow> (\<exists>st. compile q sql (isle_db s) = Inr st \<and> stmt_readonly st
          \<and> list_all (\<lambda>action. authorize action False = Allow) (asked st)))"
    using run assms(1) same by (cases rule: query_within_cases) (auto simp: ran_as_def let_through_def)
  moreover have "if list_ex (\<lambda>action. authorize action False = Deny) (asked st) then r = Inl denied
      else if \<not> stmt_readonly st then r = Inl (Unsupported (InHatch StatementWrites)) else True"
    if "compile q sql (isle_db s) = Inr st" "a = calm_at t" "g = quiet" for st t
    using run that
    by (auto simp: query_within_def same guarded_calm_job query_rows_def prepare_calm jbind_def jlift_def denial_is_denied
        Let_def split: prod.splits)
  ultimately show ?thesis by blast
qed

theorem query_changes_nothing_witness:
  "fst (query_with toy_sqlite toy_ext quiet (calm_at 0) ''attach'' (Positional []) default_query_options
     (sample_log (empty_database ()))) = Inl denied"
proof -
  obtain r s' where run: "query_with toy_sqlite toy_ext quiet (calm_at 0) ''attach'' (Positional []) default_query_options
      (sample_log (empty_database ())) = (r, s')" by force
  have "r = Inl denied"
    using query_changes_nothing [OF toy_documented run] by (auto simp: toy_sqlite_def authorize_def)
  then show ?thesis by (simp add: run)
qed

section \<open>What is bound\<close>

lemma map_of_list_all2:
  "list_all2 (\<lambda>p b. fst p = fst b \<and> f (snd p) = Inr (snd b)) ps bs \<Longrightarrow> map_of bs n = Some b \<Longrightarrow>
     \<exists>v. map_of ps n = Some v \<and> f v = Inr b"
  by (induction ps bs rule: list_all2_induct) (auto split: if_splits)

lemma classified_Inr: "(case m of Inl e \<Rightarrow> Inl (classify e) | Inr v \<Rightarrow> Inr v) = Inr y \<longleftrightarrow> m = Inr y"
  by (cases m) auto

lemma every_declared_Inr:
  "every_declared_name_was_supplied index names bound = Inr () \<Longrightarrow> i < length names \<Longrightarrow>
     \<exists>name. names ! i = Some name \<and> name \<in> fst ` set bound"
proof (induction index names bound arbitrary: i rule: every_declared_name_was_supplied.induct)
  case (2 index name names bound)
  then show ?case by (cases i) (force simp: list_ex_iff split: if_splits)+
qed auto

lemma parameter_index_Some: "parameter_index names name = Some i \<Longrightarrow> i < length names \<and> names ! i = Some name"
  by (auto simp: parameter_index_def find_Some_iff nth_enumerate_eq)

lemma bind_named_Inr:
  assumes "\<And>i j name. i < length names \<Longrightarrow> j < length names \<Longrightarrow> names ! i = Some name \<Longrightarrow> names ! j = Some name \<Longrightarrow> i = j"
  shows "bind_named names bound slots = Inr out \<Longrightarrow> length slots = length names \<Longrightarrow>
     length out = length names
     \<and> (\<forall>i name. i < length names \<and> names ! i = Some name \<longrightarrow>
          out ! i = (case map_of (rev bound) name of Some b \<Rightarrow> b | None \<Rightarrow> slots ! i))"
proof (induction bound arbitrary: slots)
  case (Cons p bound)
  obtain name b where p: "p = (name, b)" by force
  from Cons.prems p obtain j where j: "parameter_index names name = Some j"
    and rest: "bind_named names bound (slots[j := b]) = Inr out"
    by (auto split: option.splits)
  have "length (slots[j := b]) = length names" using Cons.prems(2) by simp
  from Cons.IH [OF rest this] show ?case
    using parameter_index_Some [OF j] p Cons.prems(2) assms
    by (fastforce simp: map_add_def nth_list_update split: option.splits)
qed simp

text \<open>
  No placeholder of a named query is left to read as \<open>NULL\<close>. A query that answers ran with every
  parameter its statement declares bound to the last value given under that parameter's own name; its
  objects are those of the rows that gives.
\<close>

theorem query_binds_every_placeholder:
  assumes "documented q" and "query_with q x g a sql (Named pairs) options s = (Inr objects, s')"
  shows "\<exists>st slots. compile q sql (isle_db s) = Inr st \<and> length slots = length (parameter_names st)
     \<and> (\<forall>i < length (parameter_names st). \<exists>name v. parameter_names st ! i = Some name
          \<and> map_of (rev pairs) name = Some v \<and> bind_value x v = Inr (slots ! i))
     \<and> length objects = length (fst (rows_of q sql slots (isle_db s)))"
proof -
  have "query_within q x g a sql (Named pairs) options s = (Inr objects, s')" using assms(2) by (simp add: query_with_def)
  then obtain st slots cells where ran: "ran_as q x sql (Named pairs) (isle_db s) st slots cells"
    and objects: "list_all2 (\<lambda>row object. object_of_row row (lossy options) (enumerate 0 (column_names st)) [] = Inr object) cells objects"
    by (cases rule: query_within_cases) auto
  have st: "compile q sql (isle_db s) = Inr st" using ran by (simp add: ran_as_def let_through_def)
  let ?names = "parameter_names st"
  obtain bound where bound: "traverse (\<lambda>(name, value). rmap (\<lambda>b. (name, b)) (bind_value x value)) pairs = Inr bound"
    and every: "every_declared_name_was_supplied 1 ?names bound = Inr ()"
    and named: "bind_named ?names bound (replicate (length ?names) SqlNull) = Inr slots"
    using ran by (auto simp: ran_as_def bind_params_def result_simps classified_Inr)
  have pairs: "list_all2 (\<lambda>p b. fst p = fst b \<and> bind_value x (snd p) = Inr (snd b)) pairs bound"
    using bound by (auto simp: traverse_Inr result_simps elim!: list_all2_mono)
  have slots: "length slots = length ?names"
    "\<And>i name. i < length ?names \<Longrightarrow> ?names ! i = Some name \<Longrightarrow>
       slots ! i = (case map_of (rev bound) name of Some b \<Rightarrow> b | None \<Rightarrow> replicate (length ?names) SqlNull ! i)"
    using bind_named_Inr [OF documentedD(3) [OF assms(1) st] named] by auto
  have "\<exists>name v. ?names ! i = Some name \<and> map_of (rev pairs) name = Some v \<and> bind_value x v = Inr (slots ! i)"
    if i: "i < length ?names" for i
  proof -
    obtain name where name: "?names ! i = Some name" "name \<in> fst ` set bound" using every_declared_Inr [OF every i] by blast
    then have "map_of (rev bound) name \<noteq> None" by (simp add: map_of_eq_None_iff)
    then obtain b where b: "map_of (rev bound) name = Some b" by blast
    obtain v where "map_of (rev pairs) name = Some v" "bind_value x v = Inr b"
      using map_of_list_all2 [of "bind_value x" "rev pairs" "rev bound" name b] pairs b by auto
    then show ?thesis using slots(2) [OF i name(1)] name(1) b by auto
  qed
  moreover have "length objects = length (fst (rows_of q sql slots (isle_db s)))"
    using ran objects by (simp add: ran_as_def list_all2_lengthD)
  ultimately show ?thesis using st slots(1) by blast
qed

text \<open>A log of one event, and what the small engine answers about it.\<close>

definition paid_row :: event_row where
  "paid_row = \<lparr> row_position = 1, row_stream = ''s'', row_seq = 1, row_epoch_ms = 0, row_kind = ''paid'',
     row_schema_version = 1, row_meta = ''{}'', row_data = ''{}'' \<rparr>"

definition paid_log :: "unit shared" where
  "paid_log = sample_log ((empty_database ())\<lparr>tbl_events := [paid_row]\<rparr>)"

definition paid_statement :: prepared where
  "paid_statement = \<lparr> stmt_readonly = True, column_names = [''kind'', ''n''],
     parameter_names = [Some '':kind''], asked = [AuthSelect, AuthRead ''events'' ''kind''] \<rparr>"

lemma toy_select:
  "compile toy_sqlite ''select'' d = Inr paid_statement"
  "rows_of toy_sqlite ''select'' slots d =
     (map (\<lambda>row. Inr [SqlText (row_kind row), SqlInteger 7])
        (List.filter (\<lambda>row. slots = [SqlText (row_kind row)]) (tbl_events d)), d)"
  by (simp_all add: toy_sqlite_def paid_statement_def)

lemma paid_walk:
  "faults c = [] \<Longrightarrow> walk_rows [''kind'', ''n''] loose [Inr [SqlText ''paid'', SqlInteger 7]] c
     = (Inr [[(''kind'', JString ''paid''), (''n'', JNumber (PosInt 7))]], c)"
proof -
  have "from_utf8 ''paid'' = Some ''paid''" by code_simp
  then have "object_of_row [SqlText ''paid'', SqlInteger 7] loose (enumerate 0 [''kind'', ''n'']) []
      = Inr [(''kind'', JString ''paid''), (''n'', JNumber (PosInt 7))]"
    by (simp add: sql_to_json_def get_ref_def json_of_i64_def as_u64_def)
  then show "faults c = [] \<Longrightarrow> ?thesis"
    by (simp add: jbind_def jlift_def jreturn_def map_err_def statement_def execute_def)
qed

lemma paid_query:
  "query_with toy_sqlite toy_ext quiet (calm_at 0) ''select'' (Named [('':kind'', JString ''paid'')]) options paid_log
     = (Inr [[(''kind'', JString ''paid''), (''n'', JNumber (PosInt 7))]], paid_log)"
proof -
  let ?c = "\<lparr> conn_db = isle_db paid_log, faults = [], clock = [0] \<rparr>"
  have prep: "map_err classify (prepare toy_sqlite ''select'') ?c = (Inr paid_statement, ?c)"
    by (subst prepare_calm [where st = paid_statement]) (simp_all add: toy_select, simp add: paid_statement_def authorize_def)
  have slots: "bind_params toy_ext paid_statement (Named [('':kind'', JString ''paid'')]) = Inr [SqlText ''paid'']"
    by (simp add: bind_params_def paid_statement_def parameter_index_def)
  have start: "start_rows toy_sqlite ''select'' [SqlText ''paid''] ?c = (Inr [Inr [SqlText ''paid'', SqlInteger 7]], ?c)"
    by (simp add: start_rows_def toy_select paid_log_def paid_row_def)
  have "query_rows toy_sqlite toy_ext ''select'' (Named [('':kind'', JString ''paid'')]) loose ?c
      = (Inr [[(''kind'', JString ''paid''), (''n'', JNumber (PosInt 7))]], ?c)" for loose
  proof -
    have "stmt_readonly paid_statement" "column_names paid_statement = [''kind'', ''n'']" by (simp_all add: paid_statement_def)
    then show ?thesis
      using paid_walk [of ?c loose]
      by (simp add: query_rows_def jbind_def jlift_def prep slots start del: walk_rows.simps)
  qed
  moreover have "snd (reader paid_log) = paid_log" by (simp add: paid_log_def sample_log_def reader_def)
  ultimately show ?thesis by (simp add: query_with_def query_within_def guarded_calm_job)
qed

theorem query_binds_every_placeholder_witness:
  "\<exists>st slots. compile toy_sqlite ''select'' (isle_db paid_log) = Inr st \<and> slots = [SqlText ''paid'']
     \<and> length (fst (rows_of toy_sqlite ''select'' slots (isle_db paid_log))) = 1"
proof -
  obtain st slots where st: "compile toy_sqlite ''select'' (isle_db paid_log) = Inr st"
    and slots: "length slots = length (parameter_names st)"
      "\<forall>i < length (parameter_names st). \<exists>name v. parameter_names st ! i = Some name
        \<and> map_of (rev [('':kind'', JString ''paid'')]) name = Some v \<and> bind_value toy_ext v = Inr (slots ! i)"
    and rows: "length [[(''kind'', JString ''paid''), (''n'', JNumber (PosInt 7))]]
        = length (fst (rows_of toy_sqlite ''select'' slots (isle_db paid_log)))"
    using query_binds_every_placeholder [OF toy_documented paid_query [of default_query_options]] by blast
  have "st = paid_statement" using st by (simp add: toy_select)
  then have "length slots = 1" "slots ! 0 = SqlText ''paid''"
    using slots(1) slots(2) [rule_format, of 0] by (auto simp: paid_statement_def)
  then have "slots = [SqlText ''paid'']" by (cases slots) auto
  then show ?thesis using st rows by auto
qed

section \<open>What is answered\<close>

text \<open>The cell a strict answer stands for.\<close>

fun cell_of :: "json \<Rightarrow> sql_value option" where
  "cell_of JNull = Some SqlNull"
| "cell_of (JNumber (PosInt n)) = Some (SqlInteger (uint n))"
| "cell_of (JNumber (NegInt i)) = Some (SqlInteger i)"
| "cell_of (JNumber (Float f)) = Some (SqlReal f)"
| "cell_of (JString s) = Some (SqlText s)"
| "cell_of _ = None"

lemma cell_of_i64: "i64_min \<le> i \<Longrightarrow> i \<le> i64_max \<Longrightarrow> cell_of (json_of_i64 i) = Some (SqlInteger i)"
  by (simp add: json_of_i64_def uint_as_u64)

lemma strict_cell: "cell_to_json column False cell = Inr v \<Longrightarrow> cell_ok cell \<Longrightarrow> cell_of v = Some cell"
  by (cases cell) (auto simp: cell_ok_def cell_of_i64 from_utf8_Some split: if_splits option.splits)

lemma object_of_row_Inr:
  "object_of_row row loose columns object = Inr out \<Longrightarrow> map_ok object \<Longrightarrow>
     map_ok out \<and> fst ` set out = fst ` set object \<union> snd ` set columns
     \<and> (\<forall>k. k \<notin> snd ` set columns \<longrightarrow> map_of out k = map_of object k)
     \<and> (\<forall>m < length columns. (\<forall>j < length columns. m < j \<longrightarrow> snd (columns ! j) \<noteq> snd (columns ! m)) \<longrightarrow>
          (\<exists>v. sql_to_json row (fst (columns ! m)) (snd (columns ! m)) loose = Inr v
             \<and> map_of out (snd (columns ! m)) = Some v))"
proof (induction columns arbitrary: object)
  case (Cons p columns)
  obtain index name where p: "p = (index, name)" by force
  from Cons.prems(1) p obtain v where v: "sql_to_json row index name loose = Inr v"
    and rest: "object_of_row row loose columns (map_insert name v object) = Inr out"
    by (auto simp: result_simps)
  note IH = Cons.IH [OF rest map_ok_insert [OF Cons.prems(2)]]
  have "\<exists>v. sql_to_json row (fst ((p # columns) ! m)) (snd ((p # columns) ! m)) loose = Inr v
      \<and> map_of out (snd ((p # columns) ! m)) = Some v"
    if m: "m < length (p # columns)"
      and last: "\<forall>j < length (p # columns). m < j \<longrightarrow> snd ((p # columns) ! j) \<noteq> snd ((p # columns) ! m)" for m
  proof (cases m)
    case 0
    have "name \<notin> snd ` set columns"
    proof
      assume "name \<in> snd ` set columns"
      then obtain j where "j < length columns" "snd (columns ! j) = name" by (auto simp: in_set_conv_nth)
      then show False using last [rule_format, of "Suc j"] 0 p by simp
    qed
    then show ?thesis using IH v 0 p Cons.prems(2) by simp
  next
    case (Suc m')
    have "\<forall>j < length columns. m' < j \<longrightarrow> snd (columns ! j) \<noteq> snd (columns ! m')"
      using last Suc by fastforce
    then show ?thesis using IH m Suc by simp
  qed
  then show ?case using IH p Cons.prems(2) by auto
qed simp

lemma last_occurrence:
  assumes "xs ! i \<notin> set (drop (Suc i) xs)" and "j < length xs" and "i < j"
  shows "xs ! j \<noteq> xs ! i"
proof -
  have "drop (Suc i) xs ! (j - Suc i) = xs ! j" "j - Suc i < length (drop (Suc i) xs)" using assms(2,3) by simp_all
  then have "xs ! j \<in> set (drop (Suc i) xs)" by (metis nth_mem)
  then show ?thesis using assms(1) by auto
qed

text \<open>One row of a strict answer: under each name the value of its last column.\<close>

definition faithful_row :: "rust_string list \<Rightarrow> sql_value list \<Rightarrow> json_map \<Rightarrow> bool" where
  "faithful_row names row object \<longleftrightarrow> map_ok object \<and> fst ` set object = set names
     \<and> (\<forall>i < length names. names ! i \<notin> set (drop (Suc i) names) \<longrightarrow>
          (\<exists>v. map_of object (names ! i) = Some v \<and> cell_of v = Some (row ! i)))"

lemma strict_row_faithful:
  assumes "object_of_row row False (enumerate 0 names) [] = Inr object" and "length row = length names" and "list_all cell_ok row"
  shows "faithful_row names row object"
proof -
  note spec = object_of_row_Inr [OF assms(1) map_ok_Nil]
  have "\<exists>v. map_of object (names ! i) = Some v \<and> cell_of v = Some (row ! i)"
    if i: "i < length names" and last: "names ! i \<notin> set (drop (Suc i) names)" for i
  proof -
    have "\<forall>j < length names. i < j \<longrightarrow> names ! j \<noteq> names ! i" using last_occurrence [OF last] by blast
    then obtain v where "sql_to_json row i (names ! i) False = Inr v" "map_of object (names ! i) = Some v"
      using spec [THEN conjunct2, THEN conjunct2, THEN conjunct2, rule_format, of i] i
      by (auto simp: nth_enumerate_eq)
    moreover from this have "cell_to_json (names ! i) False (row ! i) = Inr v"
      using i assms(2) by (simp add: sql_to_json_def get_ref_def)
    moreover have "cell_ok (row ! i)" using assms(2,3) i by (simp add: list_all_length)
    ultimately show ?thesis using strict_cell by blast
  qed
  moreover have "snd ` set (enumerate 0 names) = set names" by (metis list.set_map map_snd_enumerate)
  ultimately show ?thesis using spec by (simp add: faithful_row_def)
qed

text \<open>
  C35. A strict answer is what the cells held. Where a strict query answers, each object has the columns of
  its row for its keys and no others, and the value under the name of a column, the last of that name,
  is one that this cell and no other reads as; so no cell was answered with a stand-in.
\<close>

theorem strict_answers_are_faithful:
  assumes "documented q" and "query_with q x g a sql params options s = (Inr objects, s')" and "\<not> lossy options"
  shows "\<exists>st slots cells. compile q sql (isle_db s) = Inr st \<and> bind_params x st params = Inr slots
     \<and> fst (rows_of q sql slots (isle_db s)) = map Inr cells \<and> length objects = length cells
     \<and> (\<forall>k < length cells. map_ok (objects ! k) \<and> fst ` set (objects ! k) = set (column_names st)
          \<and> (\<forall>i < length (column_names st). column_names st ! i \<notin> set (drop (Suc i) (column_names st)) \<longrightarrow>
               (\<exists>v. map_of (objects ! k) (column_names st ! i) = Some v \<and> cell_of v = Some (cells ! k ! i))))"
proof -
  have run: "query_within q x g a sql params options s = (Inr objects, s')" using assms(2) by (simp add: query_with_def)
  obtain st slots cells where ran: "ran_as q x sql params (isle_db s) st slots cells"
    and objects: "list_all2 (\<lambda>row object. object_of_row row False (enumerate 0 (column_names st)) [] = Inr object) cells objects"
    using run assms(3) by (cases rule: query_within_cases) auto
  have st: "compile q sql (isle_db s) = Inr st" and rows: "fst (rows_of q sql slots (isle_db s)) = map Inr cells"
    and bound: "bind_params x st params = Inr slots"
    using ran by (simp_all add: ran_as_def let_through_def)
  have "faithful_row (column_names st) (cells ! k) (objects ! k)" if k: "k < length cells" for k
  proof (rule strict_row_faithful)
    have "Inr (cells ! k) \<in> set (fst (rows_of q sql slots (isle_db s)))" using rows k by simp
    then show "length (cells ! k) = length (column_names st)" "list_all cell_ok (cells ! k)"
      using documentedD(2) [OF assms(1) st] by blast+
    show "object_of_row (cells ! k) False (enumerate 0 (column_names st)) [] = Inr (objects ! k)"
      using objects k by (simp add: list_all2_conv_all_nth)
  qed
  moreover have "length objects = length cells" using list_all2_lengthD [OF objects] by simp
  ultimately show ?thesis using st rows bound unfolding faithful_row_def by blast
qed

theorem strict_answers_are_faithful_witness:
  "\<exists>st slots cells. compile toy_sqlite ''select'' (isle_db paid_log) = Inr st \<and> column_names st = [''kind'', ''n'']
     \<and> fst (rows_of toy_sqlite ''select'' slots (isle_db paid_log)) = map Inr cells
     \<and> (\<exists>v. map_of [(''kind'', JString ''paid''), (''n'', JNumber (PosInt 7))] ''kind'' = Some v \<and> cell_of v = Some (cells ! 0 ! 0))"
proof -
  let ?objects = "[[(''kind'', JString ''paid''), (''n'', JNumber (PosInt 7))]]"
  have "\<not> lossy default_query_options" by (simp add: default_query_options_def)
  from strict_answers_are_faithful [OF toy_documented paid_query this] obtain st slots cells
    where st: "compile toy_sqlite ''select'' (isle_db paid_log) = Inr st"
      and rows: "fst (rows_of toy_sqlite ''select'' slots (isle_db paid_log)) = map Inr cells"
      and len: "length ?objects = length cells"
      and cell: "\<forall>k < length cells. map_ok (?objects ! k) \<and> fst ` set (?objects ! k) = set (column_names st)
        \<and> (\<forall>i < length (column_names st). column_names st ! i \<notin> set (drop (Suc i) (column_names st)) \<longrightarrow>
             (\<exists>v. map_of (?objects ! k) (column_names st ! i) = Some v \<and> cell_of v = Some (cells ! k ! i)))"
    by (elim exE conjE) (rule that, assumption+)
  have "st = paid_statement" using st by (simp add: toy_select)
  then have names: "column_names st = [''kind'', ''n'']" by (simp add: paid_statement_def)
  have "\<exists>v. map_of [(''kind'', JString ''paid''), (''n'', JNumber (PosInt 7))] ''kind'' = Some v \<and> cell_of v = Some (cells ! 0 ! 0)"
  proof -
    have "0 < length cells" using len by (simp flip: len)
    from cell [rule_format, OF this, THEN conjunct2, THEN conjunct2, rule_format, of 0] show ?thesis using names by simp
  qed
  then show ?thesis using st rows names by blast
qed

section \<open>Substitutes\<close>

lemma hex_digit_inject: "n < 16 \<Longrightarrow> m < 16 \<Longrightarrow> hex_upper_digit n = hex_upper_digit m \<Longrightarrow> n = m"
  by (simp add: hex_upper_digit_def split: if_splits)

lemma hex_upper_inject: "hex_upper b = hex_upper b' \<longleftrightarrow> b = b'"
proof
  show "hex_upper b = hex_upper b' \<Longrightarrow> b = b'"
  proof (induction b arbitrary: b')
    case Nil
    then show ?case by (cases b') (auto simp: hex_upper_def)
  next
    case (Cons c b)
    then obtain c' b1 where b': "b' = c' # b1" by (cases b') (auto simp: hex_upper_def)
    have "hex_upper b = hex_upper b1"
      and "hex_upper_digit (of_char c div 16) = hex_upper_digit (of_char c' div 16)"
        "hex_upper_digit (of_char c mod 16) = hex_upper_digit (of_char c' mod 16)"
      using Cons.prems by (simp_all add: b' hex_upper_def)
    moreover have "of_char c div 16 < (16 :: nat)" "of_char c' div 16 < (16 :: nat)"
      by (simp_all add: less_mult_imp_div_less)
    ultimately have "of_char c div 16 = (of_char c' div 16 :: nat)" "of_char c mod 16 = (of_char c' mod 16 :: nat)"
      using hex_digit_inject by (meson mod_less_divisor zero_less_numeral)+
    then have "of_char c = (of_char c' :: nat)" by (metis div_mult_mod_eq)
    then show ?case using Cons.IH b' \<open>hex_upper b = hex_upper b1\<close> by simp
  qed
qed simp

lemma lossy_cell:
  "\<exists>v. cell_to_json column True cell = Inr v \<and> (cell_to_json column False cell = Inr v
     \<or> (\<exists>t. v = JString t \<and> (\<exists>e. cell_to_json column False cell = Inl (Unsupported e))))"
  by (cases cell) (auto split: option.splits)

lemma lossy_text: "cell_to_json column loose (SqlText t) = Inr (JString u) \<Longrightarrow> is_utf8 u"
  by (auto simp: from_utf8_Some from_utf8_lossy_utf8 split: option.splits if_splits)

text \<open>
  \<open>lossy\<close> changes only what strict refuses. Every cell has an answer under it: the strict one
  where there is one, and else a string in its place, UTF-8 where the cell was text and the bytes' own
  digits where it was a \<open>BLOB\<close>, so that two of them differ where their bytes do; what strict answers to
  the others is the refusal that names the column.
\<close>

theorem lossy_agrees_with_strict:
  "\<exists>v. cell_to_json column True cell = Inr v
     \<and> (case cell_to_json column False cell of
          Inr strict \<Rightarrow> v = strict
        | Inl e \<Rightarrow> (\<exists>t. v = JString t) \<and> e \<in> {Unsupported (InHatch (CellNotFinite column)),
            Unsupported (InHatch (CellNotUtf8 column)), Unsupported (InHatch (CellIsBlob column))})
     \<and> (\<forall>t. cell = SqlText t \<longrightarrow> (\<exists>u. v = JString u \<and> is_utf8 u \<and> (is_utf8 t \<longrightarrow> u = t)))
     \<and> (\<forall>b b'. cell = SqlBlob b \<and> cell_to_json column True (SqlBlob b') = Inr v \<longrightarrow> b' = b)"
proof (cases cell)
  case (SqlText t)
  show ?thesis
  proof (cases "is_utf8 t")
    case True
    then have "from_utf8 t = Some t" by (simp add: from_utf8_Some)
    then show ?thesis using SqlText True by simp
  next
    case False
    then have "from_utf8 t = None" by (simp add: from_utf8_None)
    then show ?thesis using SqlText False by (simp add: from_utf8_lossy_utf8)
  qed
qed (auto simp: hex_upper_inject)

definition bad_text :: rust_string where
  "bad_text = [char_of (255 :: nat)]"

lemma bad_text_read: "from_utf8 bad_text = None" "from_utf8_lossy bad_text = utf8 [65533]"
  by (simp_all add: bad_text_def from_utf8_def from_utf8_lossy_def utf8_chunks.simps(2) utf8_step_def byte_at_def
      encode_bytes_def)

theorem lossy_agrees_with_strict_witness:
  "cell_to_json ''c'' True (SqlText bad_text) = Inr (JString (utf8 [65533]))
   \<and> (\<exists>e. cell_to_json ''c'' False (SqlText bad_text) = Inl e) \<and> is_utf8 (utf8 [65533])"
proof -
  obtain v where "cell_to_json ''c'' True (SqlText bad_text) = Inr v"
    "\<forall>t. SqlText bad_text = SqlText t \<longrightarrow> (\<exists>u. v = JString u \<and> is_utf8 u \<and> (is_utf8 t \<longrightarrow> u = t))"
    using lossy_agrees_with_strict [of "''c''" "SqlText bad_text"] by (elim exE conjE) (rule that, assumption+)
  then show ?thesis by (auto simp: bad_text_read)
qed

section \<open>Bound values\<close>

text \<open>A number as \<open>serde_json\<close> keeps one: negative where it says so, finite, and its own double where it is one.\<close>

definition proper_number :: "ext \<Rightarrow> number \<Rightarrow> bool" where
  "proper_number x n \<longleftrightarrow> (case n of NegInt i \<Rightarrow> i < 0 | Float f \<Rightarrow> is_finite f \<and> as_f64 x n = f | PosInt _ \<Rightarrow> True)"

text \<open>
  What is bound reads back as it was, or is refused. A null, a number or a string that is bound comes
  back from its cell, strict or lossy, as the value that was bound; and the one thing that is refused is an
  integer above \<open>i64::MAX\<close>, by its value.
\<close>

theorem bound_values_read_back:
  assumes "v = JNull \<or> (\<exists>n. v = JNumber n \<and> proper_number x n) \<or> (\<exists>s. v = JString s \<and> is_utf8 s)"
  shows "case bind_value x v of
     Inr cell \<Rightarrow> cell_to_json column loose cell = Inr v \<and> (\<forall>n. v = JNumber (PosInt n) \<longrightarrow> uint n \<le> i64_max)
   | Inl e \<Rightarrow> \<exists>n. v = JNumber (PosInt n) \<and> i64_max < uint n \<and> e = Validation (InHatch (IntegerUnbindable n))"
proof -
  have valid: "from_utf8 s = Some s" if "is_utf8 s" for s using that from_utf8_Some by blast
  have number: "case bind_value x (JNumber n) of
       Inr cell \<Rightarrow> cell_to_json column loose cell = Inr (JNumber n) \<and> (\<forall>u. JNumber n = JNumber (PosInt u) \<longrightarrow> uint u \<le> i64_max)
     | Inl e \<Rightarrow> \<exists>u. n = PosInt u \<and> i64_max < uint u \<and> e = Validation (InHatch (IntegerUnbindable u))"
    if "proper_number x n" for n
    using that by (cases n) (auto simp: proper_number_def json_of_i64_def i64_try_from_def as_u64_def)
  show ?thesis using assms
  proof (elim disjE exE conjE)
    fix n
    assume "v = JNumber n" "proper_number x n"
    then show ?thesis using number [of n] by (auto split: sum.splits)
  qed (simp_all add: valid)
qed

theorem bound_values_read_back_witness:
  "bind_value toy_ext (JNumber (PosInt (2 ^ 63))) = Inl (Validation (InHatch (IntegerUnbindable (2 ^ 63))))
   \<and> (\<exists>cell. bind_value toy_ext (JNumber (PosInt 7)) = Inr cell \<and> cell_to_json ''c'' False cell = Inr (JNumber (PosInt 7)))"
proof -
  have big: "bind_value toy_ext (JNumber (PosInt (2 ^ 63))) = Inl (Validation (InHatch (IntegerUnbindable (2 ^ 63))))"
    by (simp add: i64_try_from_def i64_max_def)
  have "case bind_value toy_ext (JNumber (PosInt 7)) of
      Inr cell \<Rightarrow> cell_to_json ''c'' False cell = Inr (JNumber (PosInt 7))
        \<and> (\<forall>n. JNumber (PosInt 7) = JNumber (PosInt n) \<longrightarrow> uint n \<le> i64_max)
    | Inl e \<Rightarrow> \<exists>n. JNumber (PosInt 7) = JNumber (PosInt n) \<and> i64_max < uint n \<and> e = Validation (InHatch (IntegerUnbindable n))"
    by (rule bound_values_read_back) (simp add: proper_number_def)
  then show ?thesis using big by (auto simp: i64_max_def split: sum.splits)
qed

end
