(* ===== verification/Backup.thy ===== *)
theory Backup
  imports Shared
begin

text \<open>
  The physical copy: \<open>crates/eventsdb-sqlite/src/backup.rs\<close>. What the destination's directory holds is a
  map from paths to contents; what the file system and SQLite's online backup answer is an input, the
  content a step leaves at the destination included.
\<close>

datatype 'm content = EmptyFile | PartialCopy | Database "'m database" | OtherContent

type_synonym 'm files = "rust_string \<rightharpoonup> 'm content"

datatype step_result = StepDone | StepMore | StepBusy | StepLocked

record 'm copying =
  create_fault :: "rust_string option"
  open_fault :: "rusqlite_error option"
  start_fault :: "rusqlite_error option"
  step_all :: "'m database \<Rightarrow> (rusqlite_error + step_result) \<times> 'm content"
  page_count :: i64
  remove_fails :: bool

text \<open>An exclusive create: one call both checks and makes the file.\<close>

definition claim :: "'m copying \<Rightarrow> rust_string \<Rightarrow> 'm files \<Rightarrow> unit result \<times> 'm files" where
  "claim k destination fs =
     (case create_fault k of
        Some failure \<Rightarrow> (Inl (Storage (InFile (DestinationUnclaimable destination failure))), fs)
      | None \<Rightarrow>
          (case fs destination of
             Some _ \<Rightarrow> (Inl (Validation (InFile (DestinationExists destination))), fs)
           | None \<Rightarrow> (Inr (), fs(destination \<mapsto> EmptyFile))))"

definition copy_pages :: "'m copying \<Rightarrow> 'm database \<Rightarrow> rust_string \<Rightarrow> 'm files \<Rightarrow> i64 result \<times> 'm files" where
  "copy_pages k source destination fs =
     (case open_fault k of
        Some e \<Rightarrow> (Inl (classify e), fs)
      | None \<Rightarrow>
          (case start_fault k of
             Some e \<Rightarrow> (Inl (classify e), fs)
           | None \<Rightarrow>
               let (stepped, content) = step_all k source; fs' = fs(destination \<mapsto> content)
               in (case stepped of
                     Inl e \<Rightarrow> (Inl (classify e), fs')
                   | Inr StepDone \<Rightarrow> (Inr (page_count k), fs')
                   | Inr StepBusy \<Rightarrow> (Inl (Busy (InFile (BackupLocked destination))), fs')
                   | Inr StepLocked \<Rightarrow> (Inl (Busy (InFile (BackupLocked destination))), fs')
                   | Inr StepMore \<Rightarrow> (Inl (Storage (InFile (BackupUnfinished destination))), fs'))))"

text \<open>What follows the claim: the copy on a reader, and the removal of what a failed one leaves.\<close>

definition take_copy ::
  "'m copying \<Rightarrow> isle_error option \<Rightarrow> 'm database \<Rightarrow> rust_string \<Rightarrow> 'm files \<Rightarrow> unit result \<times> 'm files" where
  "take_copy k isle source destination fs =
     (let (outcome, fs') = (case isle of Some e \<Rightarrow> (Inl (map_isle e), fs) | None \<Rightarrow> copy_pages k source destination fs)
      in (case outcome of
            Inr pages \<Rightarrow> (Inr (), fs')
          | Inl e \<Rightarrow> (Inl e, if remove_fails k then fs' else fs'(destination := None))))"

definition backup_to ::
  "'m copying \<Rightarrow> isle_error option \<Rightarrow> rust_string \<Rightarrow> 'm shared \<Rightarrow> 'm files \<Rightarrow> unit result \<times> 'm files" where
  "backup_to k isle path s fs =
     (case claim k path fs of
        (Inl e, fs') \<Rightarrow> (Inl e, fs')
      | (Inr _, fs') \<Rightarrow> take_copy k isle (isle_db s) path fs')"

end
