(* ===== verification/Schema.thy ===== *)
theory Schema
  imports Guarded
begin

text \<open>
  The ladder that brings a file to the tables this build expects: \<open>crates/eventsdb-sqlite/src/schema.rs\<close>. A
  file is the tables of \<open>Sql\<close> with, beside them, \<open>PRAGMA user_version\<close> and the names of
  \<open>sqlite_master\<close>; the tables of a name that is not there hold nothing. One step is one transaction. The
  retry around the connection's pragmas is here too, over what its rounds meet.
\<close>

section \<open>A file\<close>

datatype object_kind = TableObject | IndexObject | ViewObject | TriggerObject

record 'm schema =
  user_version :: i64
  master :: "(object_kind \<times> rust_string) list"
  foreign_tables :: 'm

abbreviation schema_of :: "'m schema database \<Rightarrow> 'm schema" where
  "schema_of d \<equiv> caller_tables d"

definition has_object :: "object_kind \<Rightarrow> rust_string \<Rightarrow> 'm schema \<Rightarrow> bool" where
  "has_object kind name f = list_ex (\<lambda>(k, n). k = kind \<and> same_identifier n name) (master f)"

text \<open>Tables, indices and views share one name space; triggers have their own.\<close>

definition name_taken :: "rust_string \<Rightarrow> 'm schema \<Rightarrow> bool" where
  "name_taken name f \<longleftrightarrow> has_object TableObject name f \<or> has_object IndexObject name f \<or> has_object ViewObject name f"

section \<open>The statements of the ladder\<close>

datatype ddl =
    CreateTable rust_string bool
  | CreateIndex rust_string rust_string
  | CreateTrigger rust_string rust_string
  | BackfillCounters

definition add_objects :: "(object_kind \<times> rust_string) list \<Rightarrow> 'm schema database \<Rightarrow> 'm schema database" where
  "add_objects objects d = d\<lparr>caller_tables := (schema_of d)\<lparr>master := master (schema_of d) @ objects\<rparr>\<rparr>"

text \<open>A table that is created holds no row, and its \<open>AUTOINCREMENT\<close> has given nothing out.\<close>

definition fresh_table :: "rust_string \<Rightarrow> 'm database \<Rightarrow> 'm database" where
  "fresh_table name d =
     (if name = ''events'' then d\<lparr>tbl_events := [], events_auto := 0\<rparr>
      else if name = ''checkpoints'' then d\<lparr>tbl_checkpoints := []\<rparr>
      else if name = ''retention'' then d\<lparr>tbl_retention := [], retention_auto := 0\<rparr>
      else if name = ''stream_seq'' then d\<lparr>tbl_stream_seq := []\<rparr>
      else if name = ''exports'' then d\<lparr>tbl_exports := [], exports_auto := 0\<rparr>
      else d)"

text \<open>\<open>SELECT stream, MAX(seq) + 1 FROM events GROUP BY stream\<close>.\<close>

definition counters_of :: "event_row list \<Rightarrow> (rust_string \<times> i64) list" where
  "counters_of rows =
     map (\<lambda>stream. (stream, Max (set (map row_seq (List.filter (\<lambda>r. row_stream r = stream) rows))) + 1))
       (sort (remdups (map row_stream rows)))"

definition sql_error :: "rust_string \<Rightarrow> rusqlite_error" where
  "sql_error message = SqliteFailure OtherCode message"

fun exec_ddl :: "ddl \<Rightarrow> 'm schema database \<Rightarrow> rusqlite_error + 'm schema database" where
  "exec_ddl (CreateTable name autoincrement) d =
     (if name_taken name (schema_of d) then Inl (sql_error (''table '' @ name @ '' already exists''))
      else Inr (add_objects ((TableObject, name) #
                  (if autoincrement \<and> \<not> has_object TableObject ''sqlite_sequence'' (schema_of d)
                   then [(TableObject, ''sqlite_sequence'')] else [])) (fresh_table name d)))"
| "exec_ddl (CreateIndex name table) d =
     (if \<not> has_object TableObject table (schema_of d) then Inl (sql_error (''no such table: '' @ table))
      else if name_taken name (schema_of d) then Inl (sql_error (''index '' @ name @ '' already exists''))
      else Inr (add_objects [(IndexObject, name)] d))"
| "exec_ddl (CreateTrigger name table) d =
     (if \<not> has_object TableObject table (schema_of d) then Inl (sql_error (''no such table: '' @ table))
      else if has_object TriggerObject name (schema_of d) then Inl (sql_error (''trigger '' @ name @ '' already exists''))
      else Inr (add_objects [(TriggerObject, name)] d))"
| "exec_ddl BackfillCounters d =
     (if \<not> has_object TableObject ''events'' (schema_of d) then Inl (sql_error ''no such table: events'')
      else Inr (d\<lparr>tbl_stream_seq := counters_of (tbl_events d)\<rparr>))"

definition STEP_1 :: "ddl list" where
  "STEP_1 = [CreateTable ''events'' True, CreateIndex ''events_stream_kind_seq'' ''events'',
     CreateIndex ''events_kind_position'' ''events'', CreateTable ''checkpoints'' False]"

definition STEP_2 :: "ddl list" where
  "STEP_2 = [CreateTable ''retention'' True, CreateIndex ''events_epoch_ms'' ''events'']"

definition STEP_3 :: "ddl list" where
  "STEP_3 = [CreateTable ''stream_seq'' False, BackfillCounters]"

definition STEP_4 :: "ddl list" where
  "STEP_4 = [CreateTrigger ''trg_events_no_update'' ''events'']"

definition STEP_5 :: "ddl list" where
  "STEP_5 = [CreateTable ''exports'' True]"

definition LADDER :: "ddl list list" where
  "LADDER = [STEP_1, STEP_2, STEP_3, STEP_4, STEP_5]"

definition TARGET_USER_VERSION :: i64 where
  "TARGET_USER_VERSION = 5"

section \<open>The ladder\<close>

definition foreign_name :: "rust_string \<Rightarrow> bool" where
  "foreign_name name =
     list_ex (\<lambda>reserved. same_identifier reserved name)
       (List.filter (\<lambda>reserved. \<not> same_identifier reserved ''sqlite_sequence'') RESERVED_TABLES)"

definition table_names :: "'m schema \<Rightarrow> rust_string list" where
  "table_names f = map snd (List.filter (\<lambda>(kind, _). kind = TableObject) (master f))"

definition refuse_a_foreign_table :: "('m schema, error, unit) job" where
  "refuse_a_foreign_table =
     jbind (map_err classify (query_map (\<lambda>d. table_names (schema_of d)) Inr)) (\<lambda>present.
       case find foreign_name present of
         None \<Rightarrow> jreturn ()
       | Some name \<Rightarrow> jlift (Inl (Unsupported (InFile (ForeignTable name)))))"

definition execute_batch :: "ddl list \<Rightarrow> ('m schema, error, unit) job" where
  "execute_batch step = jbind (jtraverse (\<lambda>s. map_err classify (execute (exec_ddl s))) step) (\<lambda>_. jreturn ())"

definition read_version :: "('m schema, error, i64) job" where
  "read_version = map_err classify (query_row (\<lambda>d. Some (user_version (schema_of d))))"

definition set_version :: "i64 \<Rightarrow> 'm schema database \<Rightarrow> 'm schema database" where
  "set_version v d = d\<lparr>caller_tables := (schema_of d)\<lparr>user_version := v\<rparr>\<rparr>"

text \<open>One turn of the loop: a transaction that reads the version inside itself.\<close>

definition rung :: "i64 \<Rightarrow> ddl list \<Rightarrow> ('m schema, error, unit) job" where
  "rung from step =
     transaction
       (jbind read_version (\<lambda>current.
        if current > TARGET_USER_VERSION then jlift (Inl (Storage (InFile (NewerUserVersion current))))
        else if current \<noteq> from then jreturn (Dropped ())
        else jbind (if from = 0 then refuse_a_foreign_table else jreturn ()) (\<lambda>_.
             jbind (execute_batch step) (\<lambda>_.
             jbind (map_err classify (execute (\<lambda>d. Inr (set_version (from + 1) d)))) (\<lambda>_. jreturn (Commit ()))))))"

fun climb :: "i64 \<Rightarrow> ddl list list \<Rightarrow> ('m schema, error, unit) job" where
  "climb from [] = jreturn ()"
| "climb from (step # rest) = jbind (rung from step) (\<lambda>_. climb (from + 1) rest)"

definition migrate :: "('m schema, error, unit) job" where
  "migrate = climb 0 LADDER"

section \<open>The connection's pragmas\<close>

text \<open>
  Each round of the loop runs the batch and, where it failed, looks at the clock: what it answered and how
  much time had passed since the loop began. Durations are in nanoseconds. The answer comes with what was
  slept in between; \<open>None\<close> is a loop that has not ended within the rounds given.
\<close>

fun pragma_rounds ::
  "nat \<Rightarrow> (rusqlite_error option \<times> nat) list \<Rightarrow> nat \<Rightarrow> ((rusqlite_error + unit) \<times> nat list) option" where
  "pragma_rounds busy_timeout [] pause = None"
| "pragma_rounds busy_timeout ((None, elapsed) # rounds) pause = Some (Inr (), [])"
| "pragma_rounds busy_timeout ((Some error, elapsed) # rounds) pause =
     (let left = busy_timeout - elapsed
      in if left = 0 \<or> \<not> is_contention error then Some (Inl error, [])
         else map_option (\<lambda>(r, slept). (r, min pause left # slept))
                (pragma_rounds busy_timeout rounds (min (pause * 2) 50000000)))"

text \<open>Installing the timeout comes first, and its own failure is the answer.\<close>

definition apply_pragmas ::
  "rusqlite_error + unit \<Rightarrow> nat \<Rightarrow> (rusqlite_error option \<times> nat) list \<Rightarrow> ((rusqlite_error + unit) \<times> nat list) option" where
  "apply_pragmas installed busy_timeout rounds =
     (case installed of
        Inl e \<Rightarrow> Some (Inl e, [])
      | Inr _ \<Rightarrow> pragma_rounds busy_timeout rounds 1000000)"

end
