(* ===== verification/Schema_Theorems.thy ===== *)
theory Schema_Theorems
  imports Schema
begin

text \<open>
  What opening a file promises: it stops between two steps whatever fails, two openers never collide, and
  the tables it ends with are those the store relies on.
\<close>

section \<open>Steps without a connection\<close>

fun run_ddl :: "ddl list \<Rightarrow> 'm schema database \<Rightarrow> rusqlite_error + 'm schema database" where
  "run_ddl [] d = Inr d"
| "run_ddl (s # step) d = rbind (exec_ddl s d) (run_ddl step)"

definition file_version :: "'m schema database \<Rightarrow> i64" where
  "file_version d = user_version (schema_of d)"

lemma file_version_set [simp]: "file_version (set_version v d) = v"
  by (simp add: file_version_def set_version_def)

text \<open>One turn on the tables alone, and all of them.\<close>

definition climbs :: "i64 \<Rightarrow> ddl list \<Rightarrow> 'm schema database \<Rightarrow> 'm schema database \<Rightarrow> bool" where
  "climbs from step d d' \<longleftrightarrow>
     (if file_version d = from then \<exists>d1. run_ddl step d = Inr d1 \<and> d' = set_version (from + 1) d1
        \<and> (from = 0 \<longrightarrow> find foreign_name (table_names (schema_of d)) = None)
      else d' = d)"

fun climbed :: "i64 \<Rightarrow> ddl list list \<Rightarrow> 'm schema database \<Rightarrow> 'm schema database \<Rightarrow> bool" where
  "climbed from [] d d' \<longleftrightarrow> d' = d"
| "climbed from (step # rest) d d' \<longleftrightarrow> (\<exists>d1. climbs from step d d1 \<and> climbed (from + 1) rest d1 d')"

section \<open>One turn\<close>

lemma transparent_execute_batch [transparent_intros]: "transparent surfaced (execute_batch step)"
  unfolding execute_batch_def by (intro transparent_intros)

lemma transparent_refuse [transparent_intros]: "transparent surfaced refuse_a_foreign_table"
  unfolding refuse_a_foreign_table_def by (intro transparent_intros)

lemma transparent_rung [transparent_intros]: "transparent surfaced (rung from step)"
  unfolding rung_def read_version_def by (intro transparent_intros)

lemma steps_calm:
  assumes "faults c = []"
  shows "\<exists>d. jtraverse (\<lambda>s. map_err classify (execute (exec_ddl s))) step c =
     ((case run_ddl step (conn_db c) of Inl e \<Rightarrow> Inl (classify e) | Inr _ \<Rightarrow> Inr (map (\<lambda>_. ()) step)), c\<lparr>conn_db := d\<rparr>)
     \<and> (\<forall>d'. run_ddl step (conn_db c) = Inr d' \<longrightarrow> d = d')"
  using assms
proof (induction step arbitrary: c)
  case Nil
  then show ?case by (simp add: job_simps)
next
  case (Cons s step)
  show ?case
  proof (cases "exec_ddl s (conn_db c)")
    case (Inl e)
    then show ?thesis using Cons.prems by (auto simp: job_simps intro!: exI [of _ "conn_db c"])
  next
    case (Inr d1)
    then show ?thesis
      using Cons.prems Cons.IH [of "c\<lparr>conn_db := d1\<rparr>"]
      by (auto simp: job_simps split: sum.splits)
  qed
qed

lemma execute_batch_calm:
  assumes "faults c = []"
  shows "\<exists>d. execute_batch step c =
     ((case run_ddl step (conn_db c) of Inl e \<Rightarrow> Inl (classify e) | Inr _ \<Rightarrow> Inr ()), c\<lparr>conn_db := d\<rparr>)
     \<and> (\<forall>d'. run_ddl step (conn_db c) = Inr d' \<longrightarrow> d = d')"
  using steps_calm [OF assms, of step] by (auto simp: execute_batch_def job_simps split: sum.splits)

lemma rung_calm:
  assumes "faults c = []"
  shows "rung from step c =
     (if file_version (conn_db c) > TARGET_USER_VERSION then
        (Inl (Storage (InFile (NewerUserVersion (file_version (conn_db c))))), c)
      else if file_version (conn_db c) \<noteq> from then (Inr (), c)
      else case (if from = 0 then find foreign_name (table_names (schema_of (conn_db c))) else None) of
          Some name \<Rightarrow> (Inl (Unsupported (InFile (ForeignTable name))), c)
        | None \<Rightarrow>
            (case run_ddl step (conn_db c) of
               Inl e \<Rightarrow> (Inl (classify e), c)
             | Inr d \<Rightarrow> (Inr (), c\<lparr>conn_db := set_version (from + 1) d\<rparr>)))"
proof -
  have ref: "(if from = 0 then refuse_a_foreign_table else jreturn ()) c =
      (case (if from = 0 then find foreign_name (table_names (schema_of (conn_db c))) else None) of
         Some name \<Rightarrow> (Inl (Unsupported (InFile (ForeignTable name))), c) | None \<Rightarrow> (Inr (), c))"
  proof -
    have "traverse Inr (table_names (schema_of (conn_db c))) = (Inr (table_names (schema_of (conn_db c))) :: rusqlite_error + _)"
      by (rule traverse_pure [of "table_names (schema_of (conn_db c))" Inr "\<lambda>n. n", simplified])
    then show ?thesis using assms by (simp add: refuse_a_foreign_table_def job_simps split: option.splits)
  qed
  obtain d where "execute_batch step c =
     ((case run_ddl step (conn_db c) of Inl e \<Rightarrow> Inl (classify e) | Inr _ \<Rightarrow> Inr ()), c\<lparr>conn_db := d\<rparr>)"
    "\<forall>d'. run_ddl step (conn_db c) = Inr d' \<longrightarrow> d = d'"
    using execute_batch_calm [OF assms, of step] by blast
  then show ?thesis
    using assms ref
    by (simp add: rung_def transaction_def next_fault_def read_version_def job_simps file_version_def split: option.splits sum.splits)
qed

lemma rung_success:
  assumes "rung from step c = (Inr (), c')"
  shows "climbs from step (conn_db c) (conn_db c')" and "file_version (conn_db c) \<le> TARGET_USER_VERSION"
proof -
  have run: "rung from step (calm c) = (Inr (), calm c')" by (rule calm_success [OF transparent_rung assms])
  have db: "conn_db (calm c') = conn_db c'" "conn_db (calm c) = conn_db c" "faults (calm c) = []" by (simp_all add: calm_def)
  show "climbs from step (conn_db c) (conn_db c')" "file_version (conn_db c) \<le> TARGET_USER_VERSION"
    using run rung_calm [OF db(3), of "from" step] db(1,2)
    by (auto simp: climbs_def split: if_splits option.splits sum.splits dest!: arg_cong [where f = conn_db])
qed

lemma rung_failure: "rung from step c = (Inl e, c') \<Longrightarrow> conn_db c' = conn_db c"
  by (auto simp: rung_def transaction_def next_fault_def split: list.splits option.splits prod.splits sum.splits tx_end.splits)

section \<open>The whole ladder\<close>

lemma climb_success:
  "climb from ladder c = (Inr (), c') \<Longrightarrow> climbed from ladder (conn_db c) (conn_db c')"
proof (induction ladder arbitrary: "from" c)
  case (Cons step rest)
  then obtain c1 where "rung from step c = (Inr (), c1)" "climb (from + 1) rest c1 = (Inr (), c')"
    by (auto simp: jbind_def split: prod.splits sum.splits)
  then show ?case using rung_success Cons.IH by fastforce
qed (simp add: jreturn_def)

lemma climb_failure:
  "climb from ladder c = (Inl e, c') \<Longrightarrow> \<exists>k < length ladder. climbed from (take k ladder) (conn_db c) (conn_db c')"
proof (induction ladder arbitrary: "from" c)
  case (Cons step rest)
  obtain r c1 where run: "rung from step c = (r, c1)" by force
  show ?case
  proof (cases r)
    case (Inl e')
    then have "c1 = c'" using Cons.prems run by (simp add: jbind_def)
    then have "conn_db c' = conn_db c" using rung_failure run Inl by blast
    then show ?thesis by (intro exI [of _ 0]) simp
  next
    case (Inr u)
    then have "climb (from + 1) rest c1 = (Inl e, c')" using Cons.prems run by (simp add: jbind_def)
    from Cons.IH [OF this] obtain k where "k < length rest" "climbed (from + 1) (take k rest) (conn_db c1) (conn_db c')" by blast
    moreover have "climbs from step (conn_db c) (conn_db c1)" by (rule rung_success(1)) (use run Inr in simp)
    ultimately show ?thesis by (intro exI [of _ "Suc k"]) auto
  qed
qed (simp add: jreturn_def)

text \<open>
  Opening a file stops between two steps, never inside one. Whatever fails, \<open>migrate\<close> leaves the file as
  running its steps up to one of them would, each with the version it brings; when it answers \<open>Ok\<close> that is
  all of the ladder.
\<close>

theorem migrate_stops_between_steps:
  assumes "migrate c = (r, c')"
  shows "case r of
     Inl e \<Rightarrow> \<exists>k < length LADDER. climbed 0 (take k LADDER) (conn_db c) (conn_db c')
   | Inr _ \<Rightarrow> climbed 0 LADDER (conn_db c) (conn_db c')"
  using assms climb_success [of 0 LADDER c c'] climb_failure [of 0 LADDER c _ c']
  by (cases r) (auto simp: migrate_def)

definition newer_file :: "unit schema conn" where
  "newer_file = \<lparr> conn_db = empty_database \<lparr> user_version = 9, master = [], foreign_tables = () \<rparr>, faults = [], clock = [] \<rparr>"

lemma newer_file_refused:
  "migrate newer_file = (Inl (Storage (InFile (NewerUserVersion 9))), newer_file)"
  by (simp add: migrate_def LADDER_def jbind_def rung_calm newer_file_def file_version_def TARGET_USER_VERSION_def)

theorem migrate_stops_between_steps_witness:
  "\<exists>k < 5. climbed 0 (take k LADDER) (conn_db newer_file) (conn_db newer_file)"
  using migrate_stops_between_steps [OF newer_file_refused] by (simp add: LADDER_def eval_nat_numeral)

lemma climb_skips:
  assumes "faults c = []" and "file_version (conn_db c) < from" and "file_version (conn_db c) \<le> TARGET_USER_VERSION"
  shows "climb from ladder c = (Inr (), c)"
  using assms
proof (induction ladder arbitrary: "from")
  case (Cons step rest)
  have "rung from step c = (Inr (), c)" using Cons.prems by (simp add: rung_calm)
  moreover have "climb (from + 1) rest c = (Inr (), c)" using Cons by simp
  ultimately show ?case by (simp add: jbind_def)
qed (simp add: jreturn_def)

text \<open>
  A negative \<open>user_version\<close> is taken for a file that is up to date. No step has it for its start and
  none is newer than this build, so \<open>migrate\<close> answers \<open>Ok\<close>, on any file, with no table made.
\<close>

theorem migrate_accepts_a_negative_version:
  assumes "faults c = []" and "file_version (conn_db c) < 0"
  shows "migrate c = (Inr (), c)"
  using climb_skips [OF assms, of LADDER] assms(2) by (simp add: migrate_def TARGET_USER_VERSION_def)

definition foreign_file :: "i64 \<Rightarrow> unit schema conn" where
  "foreign_file v = \<lparr> conn_db = empty_database \<lparr> user_version = v, master = [], foreign_tables = () \<rparr>,
     faults = [], clock = [] \<rparr>"

theorem migrate_accepts_a_negative_version_witness:
  "migrate (foreign_file (- 1)) = (Inr (), foreign_file (- 1))
   \<and> \<not> has_object TableObject ''events'' (schema_of (conn_db (foreign_file (- 1))))"
  using migrate_accepts_a_negative_version [of "foreign_file (- 1)"]
  by (simp add: foreign_file_def file_version_def has_object_def)

section \<open>The names of the ladder\<close>

definition objects_of :: "(object_kind \<times> rust_string) list list" where
  "objects_of =
     [[(TableObject, ''events''), (IndexObject, ''events_stream_kind_seq''), (IndexObject, ''events_kind_position''),
       (TableObject, ''checkpoints'')],
      [(TableObject, ''retention''), (IndexObject, ''events_epoch_ms'')],
      [(TableObject, ''stream_seq'')],
      [(TriggerObject, ''trg_events_no_update'')],
      [(TableObject, ''exports'')]]"

definition ladder_names :: "rust_string list" where
  "ladder_names = ''sqlite_sequence'' # map snd (concat objects_of)"

text \<open>No two names of the ladder are one identifier, whatever their case.\<close>

lemma ladder_names_lower: "list_all (\<lambda>n. map ascii_lower n = n) ladder_names"
  by code_simp

lemma ladder_names_differ:
  "n \<in> set ladder_names \<Longrightarrow> m \<in> set ladder_names \<Longrightarrow> same_identifier n m \<longleftrightarrow> n = m"
  using ladder_names_lower by (simp add: same_identifier_def list_all_iff)

lemma in_ladder [simp]:
  "''sqlite_sequence'' \<in> set ladder_names" "''events'' \<in> set ladder_names" "''events_stream_kind_seq'' \<in> set ladder_names"
  "''events_kind_position'' \<in> set ladder_names" "''checkpoints'' \<in> set ladder_names" "''retention'' \<in> set ladder_names"
  "''events_epoch_ms'' \<in> set ladder_names" "''stream_seq'' \<in> set ladder_names"
  "''trg_events_no_update'' \<in> set ladder_names" "''exports'' \<in> set ladder_names"
  by (simp_all add: ladder_names_def objects_of_def)

lemma has_object_add:
  "has_object kind name (schema_of (add_objects objects d)) \<longleftrightarrow>
     has_object kind name (schema_of d) \<or> (\<exists>(k, n) \<in> set objects. k = kind \<and> same_identifier n name)"
  by (auto simp: has_object_def add_objects_def list_ex_iff)

lemma schema_fresh [simp]: "schema_of (fresh_table name d) = schema_of d"
  by (simp add: fresh_table_def)

lemma has_object_version [simp]: "has_object kind name (schema_of (set_version v d)) = has_object kind name (schema_of d)"
  by (simp add: has_object_def set_version_def)

text \<open>
  A file the ladder has brought to a version: what the steps up to it make is there, and nothing has the
  name of what the others will make.
\<close>

definition free_object :: "'m schema \<Rightarrow> object_kind \<times> rust_string \<Rightarrow> bool" where
  "free_object f object \<longleftrightarrow>
     (if fst object = TriggerObject then \<not> has_object TriggerObject (snd object) f else \<not> name_taken (snd object) f)"

definition file_at :: "nat \<Rightarrow> 'm schema database \<Rightarrow> bool" where
  "file_at v d \<longleftrightarrow>
     v \<le> 5 \<and> file_version d = int v
     \<and> (\<forall>object \<in> set (concat (take v objects_of)). has_object (fst object) (snd object) (schema_of d))
     \<and> (\<forall>object \<in> set (concat (drop v objects_of)). free_object (schema_of d) object)"

text \<open>What a step does to the rows.\<close>

definition step_data :: "nat \<Rightarrow> 'm database \<Rightarrow> 'm database" where
  "step_data v d =
     (if v = 0 then fresh_table ''checkpoints'' (fresh_table ''events'' d)
      else if v = 1 then fresh_table ''retention'' d
      else if v = 2 then d\<lparr>tbl_stream_seq := counters_of (tbl_events d)\<rparr>
      else if v = 4 then fresh_table ''exports'' d
      else d)"

lemma schema_step_data [simp]: "schema_of (step_data v d) = schema_of d"
  by (simp add: step_data_def)

lemma add_objects_data:
  "fresh_table name (add_objects objects d) = add_objects objects (fresh_table name d)"
  "add_objects objects' (add_objects objects d) = add_objects (objects @ objects') d"
  "(add_objects objects d)\<lparr>tbl_stream_seq := c\<rparr> = add_objects objects (d\<lparr>tbl_stream_seq := c\<rparr>)"
  "tbl_events (add_objects objects d) = tbl_events d"
  by (simp_all add: fresh_table_def add_objects_def)

lemma free_add:
  "free_object (schema_of (add_objects objects d)) object \<longleftrightarrow>
     free_object (schema_of d) object
     \<and> (\<forall>(k, n) \<in> set objects. same_identifier n (snd object) \<longrightarrow> (k = TriggerObject) \<noteq> (fst object = TriggerObject))"
  by (cases object; cases "fst object = TriggerObject")
    (auto simp: free_object_def name_taken_def has_object_add intro: object_kind.exhaust)

lemma free_version [simp]: "free_object (schema_of (set_version v d)) object = free_object (schema_of d) object"
  by (simp add: free_object_def name_taken_def)

lemma free_names:
  "free_object f (IndexObject, n) = free_object f (TableObject, n)"
  "name_taken n f = (\<not> free_object f (TableObject, n))"
  "has_object TriggerObject n f = (\<not> free_object f (TriggerObject, n))"
  by (simp_all add: free_object_def)

text \<open>The objects a step makes, and \<open>sqlite_sequence\<close> where SQLite makes it for the first \<open>AUTOINCREMENT\<close>.\<close>

definition made :: "nat \<Rightarrow> 'm schema \<Rightarrow> (object_kind \<times> rust_string) list" where
  "made v f =
     (hd (objects_of ! v) # (if v \<noteq> 2 \<and> v \<noteq> 3 \<and> \<not> has_object TableObject ''sqlite_sequence'' f
         then [(TableObject, ''sqlite_sequence'')] else [])) @ tl (objects_of ! v)"

lemmas ladder_simps = file_at_def objects_of_def LADDER_def STEP_1_def STEP_2_def STEP_3_def STEP_4_def STEP_5_def
  has_object_add free_add add_objects_data ladder_names_differ step_data_def made_def free_names

lemma step_1_runs: "file_at 0 d \<Longrightarrow> run_ddl STEP_1 d = Inr (add_objects (made 0 (schema_of d)) (step_data 0 d))"
  by (simp add: ladder_simps)

lemma step_2_runs: "file_at 1 d \<Longrightarrow> run_ddl STEP_2 d = Inr (add_objects (made 1 (schema_of d)) (step_data 1 d))"
  by (simp add: ladder_simps)

lemma step_3_runs: "file_at 2 d \<Longrightarrow> run_ddl STEP_3 d = Inr (add_objects (made 2 (schema_of d)) (step_data 2 d))"
  by (simp add: ladder_simps numeral_2_eq_2) (simp add: fresh_table_def add_objects_def)

lemma step_4_runs: "file_at 3 d \<Longrightarrow> run_ddl STEP_4 d = Inr (add_objects (made 3 (schema_of d)) (step_data 3 d))"
  by (simp add: ladder_simps numeral_3_eq_3)

lemma step_5_runs: "file_at 4 d \<Longrightarrow> run_ddl STEP_5 d = Inr (add_objects (made 4 (schema_of d)) (step_data 4 d))"
  by (simp add: ladder_simps)

definition stepped :: "nat \<Rightarrow> 'm schema database \<Rightarrow> 'm schema database" where
  "stepped v d = set_version (int v + 1) (add_objects (made v (schema_of d)) (step_data v d))"

lemma made_0: "file_at 0 d \<Longrightarrow> file_at 1 (stepped 0 d)"
  by (simp add: ladder_simps stepped_def)

lemma made_1: "file_at 1 d \<Longrightarrow> file_at 2 (stepped 1 d)"
  by (simp add: ladder_simps stepped_def numeral_2_eq_2)

lemma made_2: "file_at 2 d \<Longrightarrow> file_at 3 (stepped 2 d)"
  by (simp add: ladder_simps stepped_def numeral_2_eq_2 numeral_3_eq_3)

lemma made_3: "file_at 3 d \<Longrightarrow> file_at 4 (stepped 3 d)"
  by (simp add: ladder_simps stepped_def numeral_3_eq_3)

lemma made_4: "file_at 4 d \<Longrightarrow> file_at 5 (stepped 4 d)"
  by (simp add: ladder_simps stepped_def)

lemma ladder_at: "LADDER ! 0 = STEP_1" "LADDER ! 1 = STEP_2" "LADDER ! 2 = STEP_3" "LADDER ! 3 = STEP_4" "LADDER ! 4 = STEP_5"
  by (simp_all add: LADDER_def)

lemma below_5: "v < 5 \<Longrightarrow> v = 0 \<or> v = 1 \<or> v = 2 \<or> v = 3 \<or> v = (4 :: nat)"
  by auto

lemma step_runs:
  assumes "file_at v d" and "v < 5"
  shows "run_ddl (LADDER ! v) d = Inr (add_objects (made v (schema_of d)) (step_data v d))" and "file_at (Suc v) (stepped v d)"
proof -
  show "run_ddl (LADDER ! v) d = Inr (add_objects (made v (schema_of d)) (step_data v d))"
    using below_5 [OF assms(2)] step_1_runs [of d] step_2_runs [of d] step_3_runs [of d] step_4_runs [of d] step_5_runs [of d]
      assms(1) ladder_at by (elim disjE) (simp_all only:)
  have "Suc 0 = 1" "Suc 1 = 2" "Suc 2 = 3" "Suc 3 = 4" "Suc 4 = 5" by simp_all
  then show "file_at (Suc v) (stepped v d)"
    using below_5 [OF assms(2)] made_0 [of d] made_1 [of d] made_2 [of d] made_3 [of d] made_4 [of d] assms(1)
    by (elim disjE) (simp_all only:)
qed

lemma no_foreign_table:
  assumes "file_at 0 d"
  shows "find foreign_name (table_names (schema_of d)) = None"
proof -
  have "\<not> foreign_name name" if "name \<in> set (table_names (schema_of d))" for name
  proof
    assume "foreign_name name"
    then obtain reserved where reserved: "reserved \<in> set [''events'', ''stream_seq'', ''checkpoints'', ''retention'', ''exports'']"
      "same_identifier reserved name"
      by (auto simp: foreign_name_def RESERVED_TABLES_def list_ex_iff ladder_names_differ)
    have "same_identifier name reserved" using reserved(2) by (simp add: same_identifier_def)
    then have "has_object TableObject reserved (schema_of d)"
      using that by (auto simp: table_names_def has_object_def list_ex_iff)
    moreover have "free_object (schema_of d) (TableObject, reserved)"
      using assms reserved(1) by (auto simp: file_at_def objects_of_def)
    ultimately show False by (simp add: free_object_def name_taken_def)
  qed
  then show ?thesis by (simp add: find_None_iff)
qed

text \<open>One turn of an opener on a file at a version: it waits for nobody and meets no name that is taken.\<close>

lemma rung_at:
  assumes "faults c = []" and "file_at v (conn_db c)" and "k \<le> v" and "k < 5"
  shows "rung (int k) (LADDER ! k) c = (Inr (), if k = v then c\<lparr>conn_db := stepped v (conn_db c)\<rparr> else c)"
proof -
  have v: "file_version (conn_db c) = int v" "v \<le> 5" using assms(2) by (simp_all add: file_at_def)
  show ?thesis
  proof (cases "k = v")
    case True
    then have "run_ddl (LADDER ! k) (conn_db c) = Inr (add_objects (made v (schema_of (conn_db c))) (step_data v (conn_db c)))"
      using step_runs(1) assms(2,4) by blast
    then show ?thesis
      using assms True v no_foreign_table [of "conn_db c"]
      by (cases "v = 0") (simp_all add: rung_calm TARGET_USER_VERSION_def stepped_def)
  next
    case False
    then show ?thesis using assms(1,3) v by (simp add: rung_calm TARGET_USER_VERSION_def)
  qed
qed

section \<open>Openers of one file\<close>

text \<open>
  Any number of openers, each at a turn of its loop; one that has failed is gone. A turn is one transaction,
  so it is one step here; what SQLite answers within it, failing, is arbitrary.
\<close>

inductive openers :: "nat \<Rightarrow> 'm schema database \<Rightarrow> 'm schema database \<Rightarrow> nat list \<Rightarrow> bool" for v d0 where
  before: "openers v d0 d0 []"
| arriving: "openers v d0 d turns \<Longrightarrow> openers v d0 d (0 # turns)"
| climbing: "openers v d0 d (turns @ k # turns') \<Longrightarrow> k < 5 \<Longrightarrow> conn_db c = d \<Longrightarrow>
     rung (int k) (LADDER ! k) c = (Inr (), c') \<Longrightarrow> openers v d0 (conn_db c') (turns @ Suc k # turns')"
| failing: "openers v d0 d (turns @ k # turns') \<Longrightarrow> k < 5 \<Longrightarrow> conn_db c = d \<Longrightarrow>
     rung (int k) (LADDER ! k) c = (Inl e, c') \<Longrightarrow> openers v d0 (conn_db c') (turns @ turns')"

text \<open>The rows after the steps from one version to another.\<close>

fun upgraded :: "nat \<Rightarrow> nat \<Rightarrow> 'm schema database \<Rightarrow> 'm schema database" where
  "upgraded v 0 d = d"
| "upgraded v (Suc n) d = stepped (v + n) (upgraded v n d)"

lemma upgraded_at: "file_at v d \<Longrightarrow> v + n \<le> 5 \<Longrightarrow> file_at (v + n) (upgraded v n d)"
proof (induction n)
  case (Suc n)
  then have "file_at (v + n) (upgraded v n d)" "v + n < 5" by simp_all
  from step_runs(2) [OF this] show ?case by simp
qed simp

lemma openers_at:
  assumes "openers v d0 d turns" and "file_at v d0"
  shows "\<exists>n. v + n \<le> 5 \<and> d = upgraded v n d0 \<and> (\<forall>k \<in> set turns. k \<le> v + n)"
  using assms(1)
proof induction
  case before
  then show ?case using assms(2) by (intro exI [of _ 0]) (simp add: file_at_def)
next
  case (arriving d turns)
  then show ?case by auto
next
  case (climbing d turns k turns' c c')
  then obtain n where n: "v + n \<le> 5" "d = upgraded v n d0" "\<forall>j \<in> set (turns @ k # turns'). j \<le> v + n" by blast
  have here: "file_at (v + n) d" using upgraded_at [OF assms(2) n(1)] n(2) by simp
  have "rung (int k) (LADDER ! k) (calm c) = (Inr (), calm c')" by (rule calm_success [OF transparent_rung climbing.hyps(4)])
  moreover have "rung (int k) (LADDER ! k) (calm c)
      = (Inr (), if k = v + n then (calm c)\<lparr>conn_db := stepped (v + n) d\<rparr> else calm c)"
    using rung_at [of "calm c" "v + n" k] here climbing.hyps(2,3) n(3) by (simp add: calm_def)
  ultimately have c': "conn_db c' = (if k = v + n then stepped (v + n) d else d)"
    using climbing.hyps(3) by (auto simp: calm_def dest!: arg_cong [where f = conn_db])
  show ?case
  proof (cases "k = v + n")
    case True
    then show ?thesis using n climbing.hyps(2) c' by (intro exI [of _ "Suc n"]) (auto simp: le_SucI)
  next
    case False
    then have "Suc k \<le> v + n" using n(3) by (simp add: Suc_le_eq order_less_le)
    then show ?thesis using n c' False by (intro exI [of _ n]) auto
  qed
next
  case (failing d turns k turns' c e c')
  then have "conn_db c' = d" using rung_failure by blast
  then show ?case using failing.IH by auto
qed

text \<open>
  C29. Openers of one file do not collide. However many open it at once, and whatever fails in some of them:
  while one works its way up the ladder a turn of another is never refused for a table that is already
  there, as each reads the version inside its own transaction; and one that has got to the top finds the
  file at this build's version, with the same rows whoever ran the steps and in however many runs.
\<close>

theorem openers_do_not_collide:
  assumes "openers v d0 d turns" and "file_at v d0" and "k \<in> set turns"
  shows "(k < 5 \<and> conn_db c = d \<and> faults c = [] \<longrightarrow> fst (rung (int k) (LADDER ! k) c) = Inr ())
     \<and> (k = 5 \<longrightarrow> d = upgraded v (5 - v) d0 \<and> file_at 5 d)"
proof -
  obtain n where n: "v + n \<le> 5" "d = upgraded v n d0" "\<forall>j \<in> set turns. j \<le> v + n"
    using openers_at [OF assms(1,2)] by blast
  have here: "file_at (v + n) d" using upgraded_at [OF assms(2) n(1)] n(2) by simp
  have "v + n = 5 \<and> 5 - v = n" if "k = 5" using n(1,3) assms(3) that by fastforce
  then show ?thesis using rung_at [of c "v + n" k] here n(2,3) assms(3) by auto
qed

lemma fresh_file_at: "file_at 0 (conn_db (foreign_file 0))"
  by (simp add: file_at_def foreign_file_def file_version_def objects_of_def free_object_def name_taken_def has_object_def)

theorem openers_do_not_collide_witness:
  "fst (rung 0 STEP_1 (foreign_file 0)) = Inr ()"
proof -
  let ?d = "conn_db (foreign_file 0)"
  have "openers 0 ?d ?d [0]" using openers.arriving [OF openers.before [of 0 ?d]] by simp
  from openers_do_not_collide [OF this fresh_file_at, of 0 "foreign_file 0"] show ?thesis
    using ladder_at(1) by (simp add: foreign_file_def)
qed

section \<open>The tables a file ends with\<close>

lemma climb_at:
  assumes "n + k = 5" and "faults c = []" and "file_at v (conn_db c)" and "k \<le> v"
  shows "climb (int k) (drop k LADDER) c = (Inr (), c\<lparr>conn_db := upgraded v (5 - v) (conn_db c)\<rparr>)"
  using assms
proof (induction n arbitrary: k c v)
  case 0
  then have "5 - v = 0" "drop k LADDER = []" by (simp_all add: LADDER_def)
  then show ?case by (simp add: jreturn_def)
next
  case (Suc n)
  have k: "k < 5" "k < length LADDER" using Suc.prems(1) by (simp_all add: LADDER_def)
  have split: "drop k LADDER = LADDER ! k # drop (Suc k) LADDER" by (rule Cons_nth_drop_Suc [OF k(2), symmetric])
  note turn = rung_at [OF Suc.prems(2-4) k(1)]
  show ?case
  proof (cases "k = v")
    case True
    let ?c = "c\<lparr>conn_db := stepped v (conn_db c)\<rparr>"
    have "climb (int (Suc k)) (drop (Suc k) LADDER) ?c = (Inr (), ?c\<lparr>conn_db := upgraded (Suc v) (5 - Suc v) (conn_db ?c)\<rparr>)"
      using Suc.IH [of "Suc k" ?c "Suc v"] Suc.prems True step_runs(2) [OF Suc.prems(3)] k(1) by simp
    moreover have "upgraded (Suc v) (5 - Suc v) (stepped v (conn_db c)) = upgraded v (5 - v) (conn_db c)"
    proof -
      have "upgraded (Suc v) m (stepped v d) = upgraded v (Suc m) d" for m and d :: "'a schema database"
        by (induction m) simp_all
      moreover have "5 - v = Suc (5 - Suc v)" using True k(1) by simp
      ultimately show ?thesis by metis
    qed
    ultimately show ?thesis using turn True by (simp add: split [unfolded True] jbind_def add.commute)
  next
    case False
    then have "climb (int (Suc k)) (drop (Suc k) LADDER) c = (Inr (), c\<lparr>conn_db := upgraded v (5 - v) (conn_db c)\<rparr>)"
      using Suc.IH [of "Suc k" c v] Suc.prems by simp
    then show ?thesis using turn False by (simp add: split jbind_def add.commute)
  qed
qed

lemma migrate_at:
  assumes "faults c = []" and "file_at v (conn_db c)"
  shows "migrate c = (Inr (), c\<lparr>conn_db := upgraded v (5 - v) (conn_db c)\<rparr>)"
    and "file_at 5 (upgraded v (5 - v) (conn_db c))"
  using climb_at [OF _ assms, of 5 0] upgraded_at [OF assms(2), of "5 - v"] assms(2)
  by (simp_all add: migrate_def file_at_def)

text \<open>What older files hold: rows with rising positions, each number of a stream once and rising with them.\<close>

definition rows_ok :: "ext \<Rightarrow> 'm database \<Rightarrow> bool" where
  "rows_ok x d \<longleftrightarrow>
     0 \<le> events_auto d \<and> events_auto d \<le> i64_max \<and> sorted_wrt (<) (map row_position (tbl_events d))
     \<and> sorted_wrt (\<lambda>r r'. row_stream r = row_stream r' \<longrightarrow> row_seq r < row_seq r') (tbl_events d)
     \<and> (\<forall>r \<in> set (tbl_events d). 1 \<le> row_position r \<and> row_position r \<le> events_auto d
          \<and> 1 \<le> row_seq r \<and> row_seq r \<le> events_auto d \<and> row_seq r < i64_max \<and> readable x r)"

definition highest_seq :: "event_row list \<Rightarrow> rust_string \<Rightarrow> i64" where
  "highest_seq rows stream = Max (set (map row_seq (List.filter (\<lambda>r. row_stream r = stream) rows)))"

lemma map_of_counters:
  "map_of (counters_of rows) stream =
     (if stream \<in> row_stream ` set rows then Some (highest_seq rows stream + 1) else None)"
proof -
  have "map_of (map (\<lambda>s. (s, f s)) xs) stream = (if stream \<in> set xs then Some (f stream) else None)"
    for f :: "rust_string \<Rightarrow> i64" and xs
    by (induction xs) auto
  then show ?thesis by (simp add: counters_of_def highest_seq_def)
qed

lemma highest_seq_spec:
  assumes "r \<in> set rows"
  shows "row_seq r \<le> highest_seq rows (row_stream r)"
    and "\<exists>r' \<in> set rows. row_stream r' = row_stream r \<and> row_seq r' = highest_seq rows (row_stream r)"
proof -
  let ?S = "set (map row_seq (List.filter (\<lambda>r'. row_stream r' = row_stream r) rows))"
  have fin: "finite ?S" and mem: "row_seq r \<in> ?S" using assms by auto
  show "row_seq r \<le> highest_seq rows (row_stream r)" unfolding highest_seq_def by (rule Max_ge [OF fin mem])
  have "Max ?S \<in> ?S" using Max_in [OF fin] mem by (metis empty_iff)
  then show "\<exists>r' \<in> set rows. row_stream r' = row_stream r \<and> row_seq r' = highest_seq rows (row_stream r)"
    unfolding highest_seq_def by auto
qed

lemma db_ok_backfilled:
  assumes ok: "rows_ok x d" and counters: "tbl_stream_seq d = counters_of (tbl_events d)"
  shows "db_ok x d"
proof -
  have next_seq: "uint (next_of d (row_stream r)) = highest_seq (tbl_events d) (row_stream r) + 1
      \<and> highest_seq (tbl_events d) (row_stream r) \<le> events_auto d"
    if r: "r \<in> set (tbl_events d)" for r
  proof -
    obtain r' where "r' \<in> set (tbl_events d)" "row_seq r' = highest_seq (tbl_events d) (row_stream r)"
      using highest_seq_spec(2) [OF r] by blast
    then have "1 \<le> highest_seq (tbl_events d) (row_stream r) \<and> highest_seq (tbl_events d) (row_stream r) \<le> events_auto d
        \<and> highest_seq (tbl_events d) (row_stream r) < i64_max"
      using ok by (force simp: rows_ok_def)
    then show ?thesis using r by (simp add: next_of_def counters map_of_counters uint_as_u64)
  qed
  have "1 \<le> uint (next_of d stream) \<and> uint (next_of d stream) \<le> events_auto d + 1" for stream
  proof (cases "stream \<in> row_stream ` set (tbl_events d)")
    case True
    then obtain r where r: "r \<in> set (tbl_events d)" "stream = row_stream r" by blast
    have "1 \<le> row_seq r" using ok r(1) by (simp add: rows_ok_def)
    then show ?thesis using next_seq [OF r(1)] highest_seq_spec(1) [OF r(1)] r(2) by simp
  next
    case False
    then show ?thesis using ok by (simp add: next_of_def counters map_of_counters rows_ok_def)
  qed
  moreover have "row_seq r < uint (next_of d (row_stream r))" if "r \<in> set (tbl_events d)" for r
    using next_seq [OF that] highest_seq_spec(1) [OF that] by simp
  ultimately show ?thesis using ok by (simp add: db_ok_def rows_ok_def row_ok_def)
qed

lemma stepped_rows:
  "tbl_events (stepped v d) = (if v = 0 then [] else tbl_events d)"
  "events_auto (stepped v d) = (if v = 0 then 0 else events_auto d)"
  "tbl_checkpoints (stepped v d) = (if v = 0 then [] else tbl_checkpoints d)"
  "tbl_stream_seq (stepped v d) = (if v = 2 then counters_of (tbl_events d) else tbl_stream_seq d)"
  by (simp_all add: stepped_def set_version_def add_objects_def step_data_def fresh_table_def)

lemma upgraded_rows:
  "tbl_events (upgraded v n d) = (if v = 0 \<and> 0 < n then [] else tbl_events d)"
  "events_auto (upgraded v n d) = (if v = 0 \<and> 0 < n then 0 else events_auto d)"
  "tbl_checkpoints (upgraded v n d) = (if v = 0 \<and> 0 < n then [] else tbl_checkpoints d)"
  by (induction n) (auto simp: stepped_rows)

lemma upgraded_counters:
  "tbl_stream_seq (upgraded v n d) =
     (if v \<le> 2 \<and> 2 < v + n then counters_of (tbl_events (upgraded v n d)) else tbl_stream_seq d)"
proof (induction n)
  case (Suc n)
  consider "v + n < 2" | "v + n = 2" | "2 < v + n" by linarith
  then show ?case using Suc by cases (auto simp: stepped_rows upgraded_rows)
qed auto

text \<open>The rows a file of a version may hold for the ladder to end well.\<close>

definition file_rows_ok :: "ext \<Rightarrow> nat \<Rightarrow> 'm schema database \<Rightarrow> bool" where
  "file_rows_ok x v d \<longleftrightarrow> (v = 1 \<or> v = 2 \<longrightarrow> rows_ok x d) \<and> (3 \<le> v \<longrightarrow> db_ok x d)"

lemma upgraded_db_ok:
  assumes "v \<le> 5" and "file_rows_ok x v d"
  shows "db_ok x (upgraded v (5 - v) d)"
proof (cases "v \<le> 2")
  case True
  let ?d = "upgraded v (5 - v) d"
  have "tbl_stream_seq ?d = counters_of (tbl_events ?d)" using True by (simp add: upgraded_counters)
  moreover have "rows_ok x ?d"
  proof (cases "v = 0")
    case True
    then show ?thesis by (simp add: rows_ok_def upgraded_rows i64_max_def)
  next
    case False
    then have "rows_ok x d" using assms(2) \<open>v \<le> 2\<close> by (auto simp: file_rows_ok_def)
    then show ?thesis using False by (simp add: rows_ok_def upgraded_rows)
  qed
  ultimately show ?thesis by (rule db_ok_backfilled [rotated])
next
  case False
  let ?d = "upgraded v (5 - v) d"
  have "tbl_events ?d = tbl_events d" "events_auto ?d = events_auto d" "tbl_stream_seq ?d = tbl_stream_seq d"
    using False by (simp_all add: upgraded_rows upgraded_counters)
  then show ?thesis using assms(2) False by (simp add: file_rows_ok_def db_ok_def row_ok_def next_of_def)
qed

text \<open>
  C26. A file of any earlier version ends with the tables the store relies on. Where nothing fails,
  \<open>migrate\<close> brings a fresh file, or one that an earlier build left, to this build's version: every object of
  the ladder is there, events and checkpoints are the ones there were, and the store's invariant holds.
  In a file from before the counters every stream goes on above its highest number.
\<close>

theorem migrate_gives_well_formed_tables:
  assumes "faults c = []" and "file_at v (conn_db c)" and "file_rows_ok x v (conn_db c)"
  shows "\<exists>c'. migrate c = (Inr (), c') \<and> file_at 5 (conn_db c') \<and> db_ok x (conn_db c')
     \<and> (if v = 0 then tbl_events (conn_db c') = [] \<and> tbl_checkpoints (conn_db c') = []
        else tbl_events (conn_db c') = tbl_events (conn_db c) \<and> tbl_checkpoints (conn_db c') = tbl_checkpoints (conn_db c))
     \<and> (v \<le> 2 \<longrightarrow> (\<forall>r \<in> set (tbl_events (conn_db c')). row_seq r < uint (next_of (conn_db c') (row_stream r))))"
proof -
  let ?d' = "upgraded v (5 - v) (conn_db c)"
  have v: "v \<le> 5" using assms(2) by (simp add: file_at_def)
  have ok: "db_ok x ?d'" by (rule upgraded_db_ok [OF v assms(3)])
  then have "row_seq r < uint (next_of ?d' (row_stream r))" if "r \<in> set (tbl_events ?d')" for r
    using that by (simp add: db_ok_def row_ok_def)
  then show ?thesis
    using ok migrate_at [OF assms(1,2)] v by (auto simp: upgraded_rows)
qed

theorem migrate_gives_well_formed_tables_witness:
  "\<exists>c'. migrate (foreign_file 0) = (Inr (), c') \<and> db_ok toy_ext (conn_db c')
     \<and> has_object TableObject ''events'' (schema_of (conn_db c'))"
proof -
  have "faults (foreign_file 0) = []" by (simp add: foreign_file_def)
  moreover have "file_rows_ok toy_ext 0 (conn_db (foreign_file 0))" by (simp add: file_rows_ok_def)
  ultimately show ?thesis using migrate_gives_well_formed_tables [OF _ fresh_file_at, of toy_ext]
    by (auto simp: file_at_def objects_of_def)
qed

section \<open>The retry of the pragmas\<close>

text \<open>A clock that does not run backwards: a round ends no earlier than the sleep before it did.\<close>

fun clock_runs :: "nat \<Rightarrow> nat \<Rightarrow> (rusqlite_error option \<times> nat) list \<Rightarrow> nat \<Rightarrow> bool" where
  "clock_runs busy_timeout since [] pause \<longleftrightarrow> True"
| "clock_runs busy_timeout since ((failure, elapsed) # rounds) pause \<longleftrightarrow>
     since \<le> elapsed
     \<and> clock_runs busy_timeout (elapsed + min pause (busy_timeout - elapsed)) rounds (min (pause * 2) 50000000)"

lemma pragma_rounds_bound:
  assumes "clock_runs busy_timeout since rounds pause" and "pragma_rounds busy_timeout rounds pause = Some (r, slept)"
    and "since \<le> busy_timeout"
  shows "since + sum_list slept \<le> busy_timeout"
  using assms
proof (induction busy_timeout rounds pause arbitrary: since slept rule: pragma_rounds.induct)
  case (3 busy_timeout error elapsed rounds pause)
  show ?case
  proof (cases "busy_timeout - elapsed = 0 \<or> \<not> is_contention error")
    case True
    then show ?thesis using "3.prems" by auto
  next
    case False
    let ?left = "busy_timeout - elapsed"
    obtain slept' where rest: "pragma_rounds busy_timeout rounds (min (pause * 2) 50000000) = Some (r, slept')"
      and slept: "slept = min pause ?left # slept'"
      using "3.prems"(2) False by (auto simp: Let_def)
    have "elapsed + min pause ?left \<le> busy_timeout" using False by auto
    from "3.IH" [OF refl False _ rest this] "3.prems"(1) slept show ?thesis by simp
  qed
qed auto

lemma pragma_rounds_over:
  assumes "clock_runs busy_timeout busy_timeout rounds pause" and "rounds \<noteq> []"
  shows "pragma_rounds busy_timeout rounds pause \<noteq> None"
proof -
  obtain failure elapsed rest where "rounds = (failure, elapsed) # rest" using assms(2) by (cases rounds) auto
  then show ?thesis using assms(1) by (cases failure) (simp_all add: Let_def)
qed

lemma pragma_rounds_end:
  assumes "clock_runs busy_timeout since rounds pause" and "1000000 \<le> pause" and "busy_timeout - since < 1000000 * m"
    and "m < length rounds"
  shows "pragma_rounds busy_timeout rounds pause \<noteq> None"
  using assms
proof (induction busy_timeout rounds pause arbitrary: since m rule: pragma_rounds.induct)
  case (3 busy_timeout error elapsed rounds pause)
  show ?case
  proof (cases "busy_timeout - elapsed = 0 \<or> \<not> is_contention error")
    case True
    then show ?thesis by (auto simp: Let_def)
  next
    case False
    let ?left = "busy_timeout - elapsed" and ?pause = "min (pause * 2) 50000000"
    have next_round: "clock_runs busy_timeout (elapsed + min pause ?left) rounds ?pause" and "since \<le> elapsed"
      using "3.prems"(1) by simp_all
    have "pragma_rounds busy_timeout rounds ?pause \<noteq> None"
    proof (cases "?left \<le> pause")
      case True
      then have "clock_runs busy_timeout busy_timeout rounds ?pause" using next_round False by (simp add: min_absorb2)
      moreover have "rounds \<noteq> []" using "3.prems"(3,4) by (cases m) auto
      ultimately show ?thesis by (rule pragma_rounds_over)
    next
      case longer: False
      then obtain m' where m: "m = Suc m'" using "3.prems"(3) by (cases m) auto
      have "1000000 \<le> ?pause" using "3.prems"(2) by simp
      moreover have "busy_timeout - (elapsed + min pause ?left) < 1000000 * m'"
        using longer "3.prems"(2,3) \<open>since \<le> elapsed\<close> m by (simp add: min_def)
      ultimately show ?thesis using "3.IH" [OF refl False next_round] "3.prems"(4) m by simp
    qed
    then show ?thesis using False by (auto simp: Let_def)
  qed
qed auto

text \<open>
  The connection's pragmas are retried within the time the caller set. While a batch fails for contention
  \<open>apply_pragmas\<close> tries again, after pauses that together never exceed the busy timeout; it ends after at
  most one round more for each millisecond of it, and two; and what it answers in the end is \<open>Ok\<close> or the
  failure of its last round.
\<close>

theorem apply_pragmas_keeps_the_timeout:
  assumes "clock_runs busy_timeout 0 rounds 1000000" and "busy_timeout div 1000000 + 1 < length rounds"
  shows "\<exists>r slept. apply_pragmas installed busy_timeout rounds = Some (r, slept) \<and> sum_list slept \<le> busy_timeout
     \<and> (\<forall>e. r = Inl e \<longrightarrow> installed = Inl e \<or> (\<exists>elapsed. (Some e, elapsed) \<in> set rounds))"
proof (cases installed)
  case (Inl e)
  then show ?thesis by (simp add: apply_pragmas_def)
next
  case (Inr u)
  have "busy_timeout - 0 < 1000000 * (busy_timeout div 1000000 + 1)"
    using mult_div_mod_eq [of 1000000 busy_timeout] mod_less_divisor [of 1000000 busy_timeout] by simp
  then have "pragma_rounds busy_timeout rounds 1000000 \<noteq> None"
    using pragma_rounds_end [OF assms(1) _ _ assms(2)] by simp
  then obtain r slept where run: "pragma_rounds busy_timeout rounds 1000000 = Some (r, slept)" by auto
  have "\<exists>elapsed. (Some e, elapsed) \<in> set rounds" if "pragma_rounds t rounds p = Some (Inl e, slept)" for t rounds p e slept
    using that by (induction t rounds p arbitrary: slept rule: pragma_rounds.induct) (auto simp: Let_def split: if_splits)
  then show ?thesis
    using run pragma_rounds_bound [OF assms(1) run] Inr by (auto simp: apply_pragmas_def)
qed

theorem apply_pragmas_keeps_the_timeout_witness:
  "apply_pragmas (Inr ()) 1500000 [(Some (SqliteFailure DatabaseBusy ''locked''), 0),
      (Some (SqliteFailure DatabaseBusy ''locked''), 1000000), (Some (SqliteFailure DatabaseBusy ''locked''), 1500000)]
     = Some (Inl (SqliteFailure DatabaseBusy ''locked''), [1000000, 500000])
   \<and> sum_list [1000000, 500000 :: nat] \<le> 1500000"
proof -
  let ?busy = "Some (SqliteFailure DatabaseBusy ''locked'')"
  let ?rounds = "[(?busy, 0), (?busy, 1000000), (?busy, 1500000)]"
  have run: "apply_pragmas (Inr ()) 1500000 ?rounds = Some (Inl (SqliteFailure DatabaseBusy ''locked''), [1000000, 500000])"
    by (simp add: apply_pragmas_def)
  have "clock_runs 1500000 0 ?rounds 1000000" by simp
  from apply_pragmas_keeps_the_timeout [OF this, of "Inr ()"] run show ?thesis by simp
qed

end
