(* ===== verification/Backup_Theorems.thy ===== *)
theory Backup_Theorems
  imports Backup Schema_Theorems
begin

text \<open>
  What a backup promises: backups that race, with each other and with writes, destroy nothing, and each that
  answers \<open>Ok\<close> is a state the log was in; and the copy opens as the log it is a copy of.
\<close>

section \<open>One call\<close>

text \<open>SQLite's documented word: a step of the whole that is done has left a copy of its source.\<close>

definition copies :: "'m copying \<Rightarrow> bool" where
  "copies k \<longleftrightarrow> (\<forall>d content. step_all k d = (Inr StepDone, content) \<longrightarrow> content = Database d)"

lemma claim_cases:
  assumes "claim k path fs = (r, fs')"
  shows "(\<exists>e. r = Inl e \<and> fs' = fs) \<or> r = Inr () \<and> fs path = None \<and> fs' = fs(path \<mapsto> EmptyFile)"
proof (cases "create_fault k")
  case None
  then show ?thesis using assms by (cases "fs path") (auto simp: claim_def)
next
  case (Some e)
  then show ?thesis using assms by (auto simp: claim_def)
qed

lemma copy_pages_cases:
  assumes "copies k" and "copy_pages k d path fs = (r, fs')"
  shows "(\<exists>e. r = Inl e \<and> (\<forall>p. p \<noteq> path \<longrightarrow> fs' p = fs p) \<and> (fs path \<noteq> None \<longrightarrow> fs' path \<noteq> None))
     \<or> (\<exists>pages. r = Inr pages \<and> fs' = fs(path \<mapsto> Database d))"
  using assms
  by (auto simp: copy_pages_def copies_def Let_def split: option.splits prod.splits sum.splits step_result.splits)

lemma take_copy_cases:
  assumes "copies k" and "take_copy k isle d path fs = (r, fs')"
  shows "(\<exists>e. r = Inl e \<and> (\<forall>p. p \<noteq> path \<longrightarrow> fs' p = fs p)) \<or> r = Inr () \<and> fs' = fs(path \<mapsto> Database d)"
proof (cases isle)
  case None
  obtain r' fs1 where run: "copy_pages k d path fs = (r', fs1)" by force
  from copy_pages_cases [OF assms(1) run] show ?thesis
    using assms(2) None run by (cases r') (auto simp: take_copy_def split: if_splits)
next
  case (Some e)
  then show ?thesis using assms(2) by (auto simp: take_copy_def split: if_splits)
qed

section \<open>Backups in parallel\<close>

text \<open>
  A directory, the log's committed tables, the backups under way with the path each has claimed, and those
  that answered \<open>Ok\<close> with what was committed when they copied.
\<close>

record 'm backups =
  directory :: "'m files"
  committed_now :: "'m database"
  under_way :: "nat \<rightharpoonup> rust_string"
  taken_copies :: "nat \<rightharpoonup> rust_string \<times> 'm database"

inductive backups_step :: "'m backups \<Rightarrow> 'm backups \<Rightarrow> bool" where
  committing: "backups_step w (w\<lparr>committed_now := d\<rparr>)"
| claiming:
    "under_way w i = None \<Longrightarrow> taken_copies w i = None \<Longrightarrow> claim k path (directory w) = (Inr (), fs) \<Longrightarrow>
     backups_step w (w\<lparr>directory := fs, under_way := (under_way w)(i \<mapsto> path)\<rparr>)"
| refused: "claim k path (directory w) = (Inl e, fs) \<Longrightarrow> backups_step w (w\<lparr>directory := fs\<rparr>)"
| copied:
    "under_way w i = Some path \<Longrightarrow> copies k \<Longrightarrow> take_copy k isle (committed_now w) path (directory w) = (Inr (), fs) \<Longrightarrow>
     backups_step w (w\<lparr>directory := fs, under_way := (under_way w)(i := None),
       taken_copies := (taken_copies w)(i \<mapsto> (path, committed_now w))\<rparr>)"
| failed:
    "under_way w i = Some path \<Longrightarrow> copies k \<Longrightarrow> take_copy k isle (committed_now w) path (directory w) = (Inl e, fs) \<Longrightarrow>
     backups_step w (w\<lparr>directory := fs, under_way := (under_way w)(i := None)\<rparr>)"

inductive backups_reachable :: "'m files \<Rightarrow> 'm backups \<Rightarrow> bool" for fs0 where
  start: "backups_reachable fs0 \<lparr> directory = fs0, committed_now = d, under_way = Map.empty, taken_copies = Map.empty \<rparr>"
| further: "backups_reachable fs0 w \<Longrightarrow> backups_step w w' \<Longrightarrow> backups_reachable fs0 w'"

text \<open>Who holds a path: a backup that has claimed it, or one that has filled it. Nobody holds what was there before.\<close>

definition holds_path :: "'m backups \<Rightarrow> nat \<Rightarrow> rust_string \<Rightarrow> bool" where
  "holds_path w i path \<longleftrightarrow> under_way w i = Some path \<or> (\<exists>d. taken_copies w i = Some (path, d))"

definition backups_ok :: "'m files \<Rightarrow> 'm backups \<Rightarrow> bool" where
  "backups_ok fs0 w \<longleftrightarrow>
     (\<forall>path content. fs0 path = Some content \<longrightarrow> directory w path = Some content)
     \<and> (\<forall>i path. holds_path w i path \<longrightarrow> fs0 path = None \<and> directory w path \<noteq> None)
     \<and> (\<forall>i j path. holds_path w i path \<longrightarrow> holds_path w j path \<longrightarrow> i = j)
     \<and> (\<forall>i path. under_way w i = Some path \<longrightarrow> taken_copies w i = None)
     \<and> (\<forall>i path d. taken_copies w i = Some (path, d) \<longrightarrow> directory w path = Some (Database d))"

lemma backups_okI:
  assumes "\<And>path content. fs0 path = Some content \<Longrightarrow> directory w path = Some content"
    and "\<And>i path. holds_path w i path \<Longrightarrow> fs0 path = None \<and> directory w path \<noteq> None"
    and "\<And>i j path. holds_path w i path \<Longrightarrow> holds_path w j path \<Longrightarrow> i = j"
    and "\<And>i path. under_way w i = Some path \<Longrightarrow> taken_copies w i = None"
    and "\<And>i path d. taken_copies w i = Some (path, d) \<Longrightarrow> directory w path = Some (Database d)"
  shows "backups_ok fs0 w"
  using assms by (simp add: backups_ok_def)

lemma backups_okD:
  assumes "backups_ok fs0 w"
  shows "fs0 path = Some content \<Longrightarrow> directory w path = Some content"
    and "holds_path w i path \<Longrightarrow> fs0 path = None \<and> directory w path \<noteq> None"
    and "holds_path w i path \<Longrightarrow> holds_path w j path \<Longrightarrow> i = j"
    and "under_way w i = Some path \<Longrightarrow> taken_copies w i = None"
    and "taken_copies w i = Some (path, d) \<Longrightarrow> directory w path = Some (Database d)"
  using assms unfolding backups_ok_def by blast+

text \<open>Giving a path up, or filling it, keeps the order as long as no other path is touched.\<close>

lemma end_holds:
  assumes ok: "backups_ok fs0 w" and held: "under_way w i = Some path"
    and taken: "t = taken_copies w \<or> t = (taken_copies w)(i \<mapsto> (path, d)) \<and> fs path = Some (Database d)"
    and now: "holds_path (w\<lparr>directory := fs, under_way := (under_way w)(i := None), taken_copies := t\<rparr>) j p"
  shows "holds_path w j p" and "j = i \<Longrightarrow> fs path = Some (Database d)" and "p = path \<Longrightarrow> j = i"
proof -
  show at: "holds_path w j p" and "j = i \<Longrightarrow> fs path = Some (Database d)"
    using now taken backups_okD(4) [OF ok held] held by (auto simp: holds_path_def split: if_splits)
  have "holds_path w i path" using held by (simp add: holds_path_def)
  then show "p = path \<Longrightarrow> j = i" using backups_okD(3) [OF ok at] by simp
qed

lemma backups_ok_end:
  assumes ok: "backups_ok fs0 w" and held: "under_way w i = Some path"
    and others: "\<And>p. p \<noteq> path \<Longrightarrow> fs p = directory w p"
    and taken: "t = taken_copies w \<or> t = (taken_copies w)(i \<mapsto> (path, d)) \<and> fs path = Some (Database d)"
  shows "backups_ok fs0 (w\<lparr>directory := fs, under_way := (under_way w)(i := None), taken_copies := t\<rparr>)" (is "backups_ok fs0 ?w")
proof (rule backups_okI)
  note now = end_holds [where fs = fs, OF ok held taken]
  have i: "holds_path w i path" using held by (simp add: holds_path_def)
  fix p content j k
  show "fs0 p = Some content \<Longrightarrow> directory ?w p = Some content"
    using backups_okD(2) [OF ok i] others [of p] backups_okD(1) [OF ok, of p content] by (cases "p = path") auto
  show "holds_path ?w j p \<Longrightarrow> fs0 p = None \<and> directory ?w p \<noteq> None"
    using now [of j p] others [of p] backups_okD(2) [OF ok, of j p] by (cases "p = path") auto
  show "holds_path ?w j p \<Longrightarrow> holds_path ?w k p \<Longrightarrow> j = k"
    using now(1) [of j p] now(1) [of k p] backups_okD(3) [OF ok, of j p k] by blast
  show "under_way ?w j = Some p \<Longrightarrow> taken_copies ?w j = None"
    using taken backups_okD(4) [OF ok, of j p] by (auto split: if_splits)
  fix d'
  assume t: "taken_copies ?w j = Some (p, d')"
  then have "holds_path ?w j p" unfolding holds_path_def by blast
  show "directory ?w p = Some (Database d')"
  proof (cases "p = path")
    case True
    then have "t i = Some (path, d')" using t now(3) [OF \<open>holds_path ?w j p\<close>] by simp
    then show ?thesis using taken True backups_okD(4) [OF ok held] by auto
  next
    case False
    then have "taken_copies w j = Some (p, d')" using t taken by (auto split: if_splits)
    then show ?thesis using others [OF False] backups_okD(5) [OF ok] by simp
  qed
qed

lemma backups_ok_step: "backups_step w w' \<Longrightarrow> backups_ok fs0 w \<Longrightarrow> backups_ok fs0 w'"
proof (induction rule: backups_step.induct)
  case (committing w d)
  then show ?case by (simp add: backups_ok_def holds_path_def)
next
  case (claiming w i k path fs)
  have free: "directory w path = None" and fs: "fs = (directory w)(path \<mapsto> EmptyFile)"
    using claim_cases [OF claiming.hyps(3)] by simp_all
  let ?w = "w\<lparr>directory := fs, under_way := (under_way w)(i \<mapsto> path)\<rparr>"
  note ok = claiming.prems
  have nobody: "\<not> holds_path w j path" for j using backups_okD(2) [OF ok, of j path] free by auto
  have sub: "holds_path ?w j p \<Longrightarrow> holds_path w j p \<or> j = i \<and> p = path" for j p
    by (auto simp: holds_path_def split: if_splits)
  have not_i: "\<not> holds_path w i p" for p using claiming.hyps(1,2) by (simp add: holds_path_def)
  have before: "fs0 path = None" using backups_okD(1) [OF ok, of path] free by (cases "fs0 path") auto
  show ?case
  proof (rule backups_okI)
    fix p content j k' d
    show "fs0 p = Some content \<Longrightarrow> directory ?w p = Some content" using before fs backups_okD(1) [OF ok] by auto
    show "holds_path ?w j p \<Longrightarrow> fs0 p = None \<and> directory ?w p \<noteq> None" using sub before fs backups_okD(2) [OF ok] by fastforce
    show "holds_path ?w j p \<Longrightarrow> holds_path ?w k' p \<Longrightarrow> j = k'"
      using sub [of j p] sub [of k' p] nobody [of j] nobody [of k'] backups_okD(3) [OF ok, of j p k'] by blast
    show "under_way ?w j = Some p \<Longrightarrow> taken_copies ?w j = None"
      using claiming.hyps(2) backups_okD(4) [OF ok] by (auto split: if_splits)
    assume "taken_copies ?w j = Some (p, d)"
    then show "directory ?w p = Some (Database d)" using nobody [of j] fs backups_okD(5) [OF ok, of j p d] by (auto simp: holds_path_def)
  qed
next
  case (refused k path w e fs)
  then have "fs = directory w" using claim_cases by fastforce
  then show ?case using refused.prems by simp
next
  case (copied w i path k isle fs)
  then have "fs = (directory w)(path \<mapsto> Database (committed_now w))" using take_copy_cases by fastforce
  then show ?case by (intro backups_ok_end [OF copied.prems copied.hyps(1)]) auto
next
  case (failed w i path k isle e fs)
  then have "\<forall>p. p \<noteq> path \<longrightarrow> fs p = directory w p" using take_copy_cases [OF failed.hyps(2,3)] by auto
  then show ?case using backups_ok_end [OF failed.prems failed.hyps(1), of fs "taken_copies w"] by simp
qed

lemma backups_reachable_ok: "backups_reachable fs0 w \<Longrightarrow> backups_ok fs0 w"
proof (induction rule: backups_reachable.induct)
  case (start d)
  then show ?case by (simp add: backups_ok_def holds_path_def)
qed (rule backups_ok_step)

text \<open>
  C38. Backups destroy nothing, however they race. While any number of backups run beside each other and
  beside the log's writes, and whichever of them fail, whatever was at a path before is there as it was,
  no two backups have one path, and the path of one that answered \<open>Ok\<close> holds, from then on, the tables
  the log had committed when its pages were copied.
\<close>

theorem backups_keep_every_file:
  assumes "backups_reachable fs0 w"
  shows "(\<forall>path content. fs0 path = Some content \<longrightarrow> directory w path = Some content)
     \<and> (\<forall>i j path. under_way w i = Some path \<and> under_way w j = Some path \<longrightarrow> i = j)
     \<and> (\<forall>i path d. taken_copies w i = Some (path, d) \<longrightarrow> directory w path = Some (Database d)
          \<and> (\<forall>j. under_way w j \<noteq> Some path) \<and> (\<forall>j d'. taken_copies w j = Some (path, d') \<longrightarrow> j = i))"
proof -
  note ok = backups_reachable_ok [OF assms]
  have "i = j" if "under_way w i = Some path" "under_way w j = Some path" for i j path
    by (rule backups_okD(3) [OF ok, of _ path]) (simp_all add: holds_path_def that)
  moreover have "directory w path = Some (Database d) \<and> (\<forall>j. under_way w j \<noteq> Some path)
      \<and> (\<forall>j d'. taken_copies w j = Some (path, d') \<longrightarrow> j = i)"
    if taken: "taken_copies w i = Some (path, d)" for i path d
  proof (intro conjI allI impI notI)
    have i: "holds_path w i path" using taken by (simp add: holds_path_def)
    show "directory w path = Some (Database d)" by (rule backups_okD(5) [OF ok taken])
    fix j
    show "j = i" if "taken_copies w j = Some (path, d')" for d'
      by (rule backups_okD(3) [OF ok _ i]) (simp add: holds_path_def that)
    assume j: "under_way w j = Some path"
    then have "i = j" by (intro backups_okD(3) [OF ok i]) (simp add: holds_path_def)
    then show False using backups_okD(4) [OF ok j] taken by simp
  qed
  ultimately show ?thesis using backups_okD(1) [OF ok] by blast
qed

definition calm_copying :: "'m copying" where
  "calm_copying = \<lparr> create_fault = None, open_fault = None, start_fault = None,
     step_all = (\<lambda>d. (Inr StepDone, Database d)), page_count = 7, remove_fails = False \<rparr>"

lemma calm_copying_copies: "copies calm_copying"
  by (simp add: copies_def calm_copying_def)

theorem backups_keep_every_file_witness:
  "\<exists>w :: unit backups. backups_reachable (Map.empty(''old.db'' \<mapsto> OtherContent)) w
     \<and> taken_copies w 0 = Some (''new.db'', empty_database ())
     \<and> directory w ''new.db'' = Some (Database (empty_database ())) \<and> directory w ''old.db'' = Some OtherContent"
proof -
  let ?before = "Map.empty(''old.db'' \<mapsto> OtherContent) :: unit files"
  let ?w0 = "\<lparr> directory = ?before, committed_now = empty_database (), under_way = Map.empty, taken_copies = Map.empty \<rparr>"
  let ?w1 = "?w0\<lparr>directory := ?before(''new.db'' \<mapsto> EmptyFile), under_way := (under_way ?w0)(0 \<mapsto> ''new.db'')\<rparr>"
  let ?after = "?before(''new.db'' \<mapsto> Database (empty_database ()))"
  let ?w2 = "?w1\<lparr>directory := ?after, under_way := (under_way ?w1)(0 := None),
      taken_copies := (taken_copies ?w1)(0 \<mapsto> (''new.db'', committed_now ?w1))\<rparr>"
  have claim: "claim calm_copying ''new.db'' (directory ?w0) = (Inr (), ?before(''new.db'' \<mapsto> EmptyFile))"
    by (simp add: claim_def calm_copying_def)
  have copy: "take_copy calm_copying None (committed_now ?w1) ''new.db'' (directory ?w1) = (Inr (), ?after)"
    by (simp add: take_copy_def copy_pages_def calm_copying_def)
  have first: "backups_step ?w0 ?w1" using claiming [of ?w0 0, OF _ _ claim] by simp
  have second: "backups_step ?w1 ?w2" using copied [of ?w1 0, OF _ calm_copying_copies copy] by simp
  have w2: "backups_reachable ?before ?w2"
    by (rule backups_reachable.further [OF backups_reachable.further [OF backups_reachable.start first] second])
  have "taken_copies ?w2 0 = Some (''new.db'', empty_database ())" by simp
  moreover have "directory ?w2 ''new.db'' = Some (Database (empty_database ()))" "directory ?w2 ''old.db'' = Some OtherContent"
    using backups_keep_every_file [OF w2] by simp_all
  ultimately show ?thesis using w2 by blast
qed

section \<open>Opening the copy\<close>

lemma append_store_answer:
  "isle_db s' = isle_db s \<Longrightarrow> fst (append_store x env stream event s') = fst (append_store x env stream event s)"
  by (simp add: append_store_def settle_def split: sum.splits prod.splits)

text \<open>
  C39. A backup is the log it was taken of, or nothing. Where \<open>backup_to\<close> answers \<open>Ok\<close> its path was
  free, and holds now the log's tables; opening them runs no step of the ladder, and an append to the
  copy is answered as one to the log would be, at the same position and number. Where it fails, every other
  path is as it was, and this one too, unless the removal of a partial copy failed.
\<close>

theorem backup_opens_as_the_log:
  assumes "copies k" and "backup_to k isle path s fs = (r, fs')" and "file_at 5 (isle_db s)"
  shows "case r of
     Inr _ \<Rightarrow> \<exists>d. fs path = None \<and> fs' = fs(path \<mapsto> Database d)
       \<and> (\<forall>c. conn_db c = d \<and> faults c = [] \<longrightarrow> migrate c = (Inr (), c))
       \<and> fst (append_store x env stream event (sample_log d)) = fst (append_store x env stream event s)
   | Inl _ \<Rightarrow> (\<forall>p. p \<noteq> path \<longrightarrow> fs' p = fs p) \<and> (fs path \<noteq> None \<or> \<not> remove_fails k \<longrightarrow> fs' = fs)"
proof -
  obtain r1 fs1 where claimed: "claim k path fs = (r1, fs1)" by force
  from claim_cases [OF claimed] show ?thesis
  proof (elim disjE exE conjE)
    fix e
    assume "r1 = Inl e" "fs1 = fs"
    then show ?thesis using assms(2) claimed by (auto simp: backup_to_def)
  next
    assume free: "r1 = Inr ()" "fs path = None" "fs1 = fs(path \<mapsto> EmptyFile)"
    then have run: "take_copy k isle (isle_db s) path fs1 = (r, fs')" using assms(2) claimed by (simp add: backup_to_def)
    from take_copy_cases [OF assms(1) run] show ?thesis
    proof (elim disjE exE conjE)
      fix e
      assume r: "r = Inl e" and others: "\<forall>p. p \<noteq> path \<longrightarrow> fs' p = fs1 p"
      have "fs' path = None" if "\<not> remove_fails k"
        using run r that by (auto simp: take_copy_def Let_def split: prod.splits sum.splits)
      moreover have "fs' = fs" if none: "fs' path = None"
      proof
        fix p
        show "fs' p = fs p" using others free none by (cases "p = path") simp_all
      qed
      moreover have "\<forall>p. p \<noteq> path \<longrightarrow> fs' p = fs p" using others free by simp
      ultimately show ?thesis using r free(2) by simp
    next
      assume r: "r = Inr ()" "fs' = fs1(path \<mapsto> Database (isle_db s))"
      have "migrate c = (Inr (), c)" if "conn_db c = isle_db s" "faults c = []" for c
        using migrate_at(1) [of c 5] assms(3) that by simp
      moreover have "fst (append_store x env stream event (sample_log (isle_db s))) = fst (append_store x env stream event s)"
        by (rule append_store_answer) simp
      ultimately have "fs path = None \<and> fs' = fs(path \<mapsto> Database (isle_db s))
          \<and> (\<forall>c. conn_db c = isle_db s \<and> faults c = [] \<longrightarrow> migrate c = (Inr (), c))
          \<and> fst (append_store x env stream event (sample_log (isle_db s))) = fst (append_store x env stream event s)"
        using r free by simp
      then show ?thesis unfolding r sum.case by blast
    qed
  qed
qed

theorem backup_opens_as_the_log_witness:
  "\<exists>c s. migrate (foreign_file 0) = (Inr (), c) \<and> s = sample_log (conn_db c)
     \<and> (\<exists>d. snd (backup_to calm_copying None ''new.db'' s Map.empty) = Map.empty(''new.db'' \<mapsto> Database d)
          \<and> migrate \<lparr> conn_db = d, faults = [], clock = [] \<rparr> = (Inr (), \<lparr> conn_db = d, faults = [], clock = [] \<rparr>))"
proof -
  let ?d = "upgraded 0 (5 - 0) (conn_db (foreign_file 0))"
  let ?s = "sample_log ?d"
  have "faults (foreign_file 0) = []" by (simp add: foreign_file_def)
  note opened = migrate_at [OF this fresh_file_at]
  have run: "backup_to calm_copying None ''new.db'' ?s Map.empty = (Inr (), Map.empty(''new.db'' \<mapsto> Database ?d))"
    by (simp add: backup_to_def claim_def take_copy_def copy_pages_def calm_copying_def)
  have "file_at 5 (isle_db ?s)" using opened(2) by simp
  from backup_opens_as_the_log [OF calm_copying_copies run this, of toy_ext undefined "[]" "[]", unfolded sum.case]
  have "migrate \<lparr> conn_db = ?d, faults = [], clock = [] \<rparr> = (Inr (), \<lparr> conn_db = ?d, faults = [], clock = [] \<rparr>)"
    by (elim exE conjE) (drule fun_upd_eqD, simp)
  then show ?thesis using opened(1) run
    by (intro exI [of _ "(foreign_file 0)\<lparr>conn_db := ?d\<rparr>"] exI [of _ ?s] conjI) (simp_all, blast?)
qed

end
