(* ===== verification/Lifecycle.thy ===== *)
theory Lifecycle
  imports Retention Schema
begin

text \<open>
  Opening a log, queueing work on it and shutting it down: the constructors, \<open>detach_append\<close>, \<open>shutdown\<close>
  and \<open>close\<close> of \<open>crates/eventsdb-sqlite/src/log.rs\<close>, and \<open>detach_append\<close> of
  \<open>crates/eventsdb-sqlite/src/store.rs\<close> as the queue it is. What spawning a thread, canonicalising a path
  and joining a thread answer is an input.
\<close>

section \<open>Opening\<close>

definition set_busy_timeout :: "u64 \<Rightarrow> open_options \<Rightarrow> open_options" where
  "set_busy_timeout t options = options\<lparr>option_busy_timeout := t\<rparr>"

definition set_poll_interval :: "u64 \<Rightarrow> open_options \<Rightarrow> open_options" where
  "set_poll_interval t options = options\<lparr>option_poll_interval := t\<rparr>"

definition set_upcasters :: "upcast_chain \<Rightarrow> open_options \<Rightarrow> open_options" where
  "set_upcasters chain options = options\<lparr>option_upcasters := chain\<rparr>"

definition set_readers :: "usize \<Rightarrow> open_options \<Rightarrow> open_options" where
  "set_readers n options = options\<lparr>option_readers := n\<rparr>"

text \<open>
  What opening meets: the pragmas' rounds on the writer's connection, a failure of its thread, the path as
  the file system resolves it, a failure of each reader, and the two jobs on the writer.
\<close>

record open_env =
  timeout_installed :: "rusqlite_error + unit"
  pragma_answers :: "(rusqlite_error option \<times> nat) list"
  writer_fault :: "isle_error option"
  canonical_path :: "rust_string option"
  reader_faults :: "isle_error option list"
  ladder_attempt :: attempt
  head_reading :: attempt

fun open_readers :: "nat \<Rightarrow> isle_error option list \<Rightarrow> unit result" where
  "open_readers 0 answers = Inr ()"
| "open_readers (Suc n) [] = Inr ()"
| "open_readers (Suc n) (Some e # answers) = Inl (map_isle e)"
| "open_readers (Suc n) (None # answers) = open_readers n answers"

text \<open>
  An open log: the part its handles share, the detached appends on the writer's queue that its thread has not
  run, whether the log still holds the writer's driver and how many of the readers', whether a shutdown has
  taken the writer's driver and waits for the thread, and whether that thread still serves.
\<close>

record detached =
  detached_attempt :: attempt
  detached_stream :: rust_string
  detached_event :: json_map

record 'm open_log =
  shared_part :: "'m shared"
  queued :: "detached list"
  has_driver :: bool
  reader_drivers :: nat
  leaving :: bool
  serving :: bool

definition opened :: "'m shared \<Rightarrow> 'm open_log" where
  "opened s = \<lparr> shared_part = s, queued = [], has_driver = True, reader_drivers = unat (readers s),
     leaving = False, serving = True \<rparr>"

text \<open>\<open>finish\<close>: the ladder in one job, the head in another. An error leaves what the ladder had committed.\<close>

definition finish_open ::
  "open_env \<Rightarrow> usize \<Rightarrow> rust_string \<Rightarrow> open_options \<Rightarrow> 'm schema database
     \<Rightarrow> 'm schema open_log result \<times> 'm schema database" where
  "finish_open env reader_count database options d =
     (case isle_call (ladder_attempt env) migrate d of
        (Inl e, d') \<Rightarrow> (Inl e, d')
      | (Inr _, d') \<Rightarrow> (rmap opened (finish (head_reading env) reader_count database options d'), d'))"

text \<open>
  \<open>None\<close> is an opening whose pragmas have not ended within the rounds given. The options keep
  milliseconds, the rounds nanoseconds.
\<close>

definition open_with ::
  "open_env \<Rightarrow> rust_string \<Rightarrow> open_options \<Rightarrow> 'm schema database
     \<Rightarrow> ('m schema open_log result \<times> 'm schema database) option" where
  "open_with env path options d =
     (case apply_pragmas (timeout_installed env) (unat (option_busy_timeout options) * 1000000) (pragma_answers env) of
        None \<Rightarrow> None
      | Some (Inl e, _) \<Rightarrow> Some (Inl (map_isle (IsleSqlite e)), d)
      | Some (Inr _, _) \<Rightarrow>
          (case writer_fault env of
             Some e \<Rightarrow> Some (Inl (map_isle e), d)
           | None \<Rightarrow>
               let database = (case canonical_path env of Some canonical \<Rightarrow> canonical | None \<Rightarrow> path)
               in (case open_readers (unat (option_readers options)) (reader_faults env) of
                     Inl e \<Rightarrow> Some (Inl e, d)
                   | Inr _ \<Rightarrow> Some (finish_open env (option_readers options) database options d))))"

definition open_default ::
  "open_env \<Rightarrow> rust_string \<Rightarrow> 'm schema database \<Rightarrow> ('m schema open_log result \<times> 'm schema database) option" where
  "open_default env path d = open_with env path default_options d"

text \<open>The counter that tells in-memory databases apart moves whenever the writer has started.\<close>

definition open_in_memory_with ::
  "open_env \<Rightarrow> open_options \<Rightarrow> 'm schema database \<Rightarrow> u64
     \<Rightarrow> (('m schema open_log result \<times> 'm schema database) \<times> u64) option" where
  "open_in_memory_with env options d counter =
     (case apply_pragmas (timeout_installed env) (unat (option_busy_timeout options) * 1000000) (pragma_answers env) of
        None \<Rightarrow> None
      | Some (Inl e, _) \<Rightarrow> Some ((Inl (map_isle (IsleSqlite e)), d), counter)
      | Some (Inr _, _) \<Rightarrow>
          (case writer_fault env of
             Some e \<Rightarrow> Some ((Inl (map_isle e), d), counter)
           | None \<Rightarrow> Some (finish_open env 0 (''memory:'' @ decimal (unat counter)) options d, counter + 1)))"

definition open_in_memory ::
  "open_env \<Rightarrow> 'm schema database \<Rightarrow> u64 \<Rightarrow> (('m schema open_log result \<times> 'm schema database) \<times> u64) option" where
  "open_in_memory env d counter = open_in_memory_with env default_options d counter"

section \<open>The queue\<close>

text \<open>A detached append when its turn comes: its answer is dropped.\<close>

definition run_detached :: "ext \<Rightarrow> detached \<Rightarrow> 'm database \<Rightarrow> 'm database" where
  "run_detached x j d = snd (isle_call (detached_attempt j) (append_stamped_now x (detached_stream j) (detached_event j)) d)"

definition run_queue :: "ext \<Rightarrow> detached list \<Rightarrow> 'm database \<Rightarrow> 'm database" where
  "run_queue x js d = fold (run_detached x) js d"

definition drained :: "ext \<Rightarrow> 'm open_log \<Rightarrow> 'm open_log" where
  "drained x o1 = o1\<lparr>shared_part := (shared_part o1)\<lparr>isle_db := run_queue x (queued o1) (isle_db (shared_part o1))\<rparr>, queued := []\<rparr>"

text \<open>The gate answers at once; past it the append is on the queue, or nowhere once the thread is gone.\<close>

definition detach :: "attempt \<Rightarrow> rust_string \<Rightarrow> json_map \<Rightarrow> 'm open_log \<Rightarrow> unit result \<times> 'm open_log" where
  "detach a stream event o1 =
     (case validate event of
        Inl e \<Rightarrow> (Inl e, o1)
      | Inr _ \<Rightarrow>
          (Inr (), if serving o1
             then o1\<lparr>queued := queued o1 @ [\<lparr> detached_attempt = a, detached_stream = stream, detached_event = event \<rparr>]\<rparr>
             else o1))"

text \<open>
  A call that waits on the writer: its jobs are behind everything queued before it, and where the thread is gone
  each submission is answered with that.
\<close>

definition closed_attempt :: attempt where
  "closed_attempt = \<lparr> isle_fault = Some IsleClosed, stmt_faults = [], readings = [], engine_aborts = [] \<rparr>"

definition on_writer ::
  "ext \<Rightarrow> ((nat \<Rightarrow> attempt) \<Rightarrow> 'm shared \<Rightarrow> 'a result \<times> 'm shared) \<Rightarrow> (nat \<Rightarrow> attempt) \<Rightarrow> 'm open_log
     \<Rightarrow> 'a result \<times> 'm open_log" where
  "on_writer x call env o1 =
     (if serving o1 then
        (let o2 = drained x o1; (r, s) = call env (shared_part o2) in (r, o2\<lparr>shared_part := s\<rparr>))
      else
        (let (r, s) = call (\<lambda>_. closed_attempt) (shared_part o1) in (r, o1\<lparr>shared_part := s\<rparr>)))"

section \<open>Shutting down\<close>

text \<open>
  What joining meets: a failure of a reader's thread, a failure of the writer's, and how much of the queue the
  writer had run when it stopped.
\<close>

record stop_env =
  stop_readers :: "isle_error option list"
  stop_writer :: "isle_error option"
  stop_ran :: nat

fun join_readers :: "isle_error option list \<Rightarrow> unit result" where
  "join_readers [] = Inr ()"
| "join_readers (None # answers) = join_readers answers"
| "join_readers (Some e # answers) = Inl (map_isle e)"

text \<open>
  The parts of \<open>shutdown\<close>, which takes \<open>&self\<close> and waits in two places: it takes the readers' drivers and joins
  them, then takes the writer's, and joins that if it got it. While it waits anything may happen on the log, a
  second shutdown included; the thread serves until it is joined.
\<close>

definition take_readers :: "'m open_log \<Rightarrow> nat \<times> 'm open_log" where
  "take_readers o1 = (reader_drivers o1, o1\<lparr>reader_drivers := 0\<rparr>)"

definition take_driver :: "'m open_log \<Rightarrow> bool \<times> 'm open_log" where
  "take_driver o1 = (has_driver o1, o1\<lparr>has_driver := False, leaving := leaving o1 \<or> has_driver o1\<rparr>)"

definition join_writer :: "ext \<Rightarrow> stop_env \<Rightarrow> 'm open_log \<Rightarrow> unit result \<times> 'm open_log" where
  "join_writer x stop o1 =
     (let d = run_queue x (take (stop_ran stop) (queued o1)) (isle_db (shared_part o1));
          joined = o1\<lparr>shared_part := (shared_part o1)\<lparr>isle_db := d\<rparr>, queued := [], leaving := False, serving := False\<rparr>
      in (case stop_writer stop of Some e \<Rightarrow> (Inl (map_isle e), joined) | None \<Rightarrow> (Inr (), joined)))"

text \<open>The whole of it where nothing else happens on the log meanwhile; what may is in Lifecycle_Theorems.\<close>

definition shutdown :: "ext \<Rightarrow> stop_env \<Rightarrow> 'm open_log \<Rightarrow> unit result \<times> 'm open_log" where
  "shutdown x stop o1 =
     (let (n, o2) = take_readers o1
      in case join_readers (take n (stop_readers stop)) of
           Inl e \<Rightarrow> (Inl e, o2)
         | Inr _ \<Rightarrow> (let (got, o3) = take_driver o2 in if got then join_writer x stop o3 else (Inr (), o3)))"

definition close :: "ext \<Rightarrow> stop_env \<Rightarrow> 'm open_log \<Rightarrow> unit result" where
  "close x stop o1 = fst (shutdown x stop o1)"

end
