(* ===== verification/Lifecycle_Theorems.thy ===== *)
theory Lifecycle_Theorems
  imports Lifecycle Schema_Theorems Txn_Theorems
begin

text \<open>
  What opening, queueing and shutting down promise: a log that opens is ready and starts at its head, a
  detached append is in its place in the order of writes, shutting down lands what was detached, and a log
  that is shut refuses and does not change.
\<close>

section \<open>Opening\<close>

lemma transparent_climb [transparent_intros]: "transparent surfaced (climb from ladder)"
  by (induction ladder arbitrary: "from") (auto intro: transparent_intros)

lemma transparent_migrate [transparent_intros]: "transparent surfaced migrate"
  unfolding migrate_def by (rule transparent_climb)

lemma migrate_call:
  assumes "isle_call a migrate d = (r, d')"
  shows "case r of
     Inl _ \<Rightarrow> \<exists>k \<le> length LADDER. climbed 0 (take k LADDER) d d'
   | Inr _ \<Rightarrow> \<forall>v. file_at v d \<longrightarrow> d' = upgraded v (5 - v) d"
proof (cases "isle_fault a")
  case (Some e)
  then have "r = Inl (map_isle e)" "d' = d" using assms by (auto simp: isle_call_def)
  then show ?thesis by (auto intro: exI [of _ 0])
next
  case None
  let ?c = "\<lparr> conn_db = d, faults = stmt_faults a, clock = readings a \<rparr>"
  obtain c' where run: "migrate ?c = (r, c')" and d': "d' = conn_db c'"
    using assms None by (auto simp: isle_call_def Let_def split: prod.splits)
  show ?thesis
  proof (cases r)
    case (Inl e)
    obtain k where "k < length LADDER" "climbed 0 (take k LADDER) (conn_db ?c) (conn_db c')"
      using climb_failure [OF run [unfolded Inl migrate_def]] by blast
    then have "\<exists>k \<le> length LADDER. climbed 0 (take k LADDER) d d'" using d' by (intro exI [of _ k]) simp
    then show ?thesis using Inl by simp
  next
    case (Inr u)
    then have "migrate (calm ?c) = (Inr u, calm c')" using calm_success [OF transparent_migrate] run by blast
    then have "d' = upgraded v (5 - v) d" if "file_at v d" for v
      using migrate_at(1) [of "calm ?c" v] that d' by (auto dest: arg_cong [where f = conn_db])
    then show ?thesis using Inr by simp
  qed
qed

text \<open>The head on well-formed tables: the answer is the newest position, or a failure.\<close>

lemma finish_Inr:
  assumes "db_ok x d" and "finish a n database options d = Inr s"
  shows "s = \<lparr> isle_db = d, readers = n, next_reader = 0, database_id = database, upcasters = option_upcasters options,
     notify = position_of_stored (newest d), poll_interval = option_poll_interval options, live_runners = {} \<rparr>"
proof -
  obtain p d' where run: "isle_call a head_position_in d = (Inr p, d')"
    and s: "s = \<lparr> isle_db = d, readers = n, next_reader = 0, database_id = database, upcasters = option_upcasters options,
      notify = p, poll_interval = option_poll_interval options, live_runners = {} \<rparr>"
    using assms(2) by (auto simp: finish_def result_simps) (metis prod.collapse)
  have "calm_run head_position_in (readings a) d = (Inr p, d')"
    using isle_call_calm_or_fault [OF transparent_head atomic_reads_only [OF reads_head], of a d] run by auto
  then have "p = position_of_stored (newest d)" using calm_run_head [OF assms(1), of "readings a"] by auto
  then show ?thesis using s by simp
qed

definition ready ::
  "ext \<Rightarrow> usize \<Rightarrow> rust_string \<Rightarrow> open_options \<Rightarrow> 'm schema database \<Rightarrow> 'm schema open_log \<Rightarrow> bool" where
  "ready x reader_count database options d o1 \<longleftrightarrow>
     file_at 5 d \<and> db_ok x d
     \<and> o1 = opened \<lparr> isle_db = d, readers = reader_count, next_reader = 0, database_id = database,
         upcasters = option_upcasters options, notify = position_of_stored (newest d),
         poll_interval = option_poll_interval options, live_runners = {} \<rparr>"

lemma finish_open_ready:
  assumes "finish_open env n database options d = (r, d')" and "file_at v d" and "file_rows_ok x v d"
  shows "case r of
     Inl _ \<Rightarrow> \<exists>k \<le> length LADDER. climbed 0 (take k LADDER) d d'
   | Inr o1 \<Rightarrow> ready x n database options d' o1 \<and> d' = upgraded v (5 - v) d"
proof -
  have v: "v \<le> 5" using assms(2) by (simp add: file_at_def)
  obtain r1 d1 where run: "isle_call (ladder_attempt env) migrate d = (r1, d1)" by force
  show ?thesis
  proof (cases r1)
    case (Inl e)
    then have "r = Inl e" "d' = d1" using assms(1) run by (auto simp: finish_open_def)
    then show ?thesis using migrate_call [OF run] Inl by simp
  next
    case (Inr u)
    then have d1: "d1 = upgraded v (5 - v) d" using migrate_call [OF run] assms(2) by simp
    then have ok: "db_ok x d1" "file_at 5 d1"
      using upgraded_db_ok [OF v assms(3)] upgraded_at [OF assms(2), of "5 - v"] v by simp_all
    have r: "r = rmap opened (finish (head_reading env) n database options d1)" "d' = d1"
      using assms(1) run Inr by (auto simp: finish_open_def)
    show ?thesis
    proof (cases "finish (head_reading env) n database options d1")
      case (Inl e)
      obtain u' where "migrate \<lparr> conn_db = d, faults = [], clock = [] \<rparr> = (Inr u', \<lparr> conn_db = d1, faults = [], clock = [] \<rparr>)"
        using migrate_at(1) [of "\<lparr> conn_db = d, faults = [], clock = [] \<rparr>" v] assms(2) d1 by simp
      then have "climbed 0 LADDER d d1" using climb_success [of 0 LADDER] by (fastforce simp: migrate_def)
      then show ?thesis using Inl r by (auto intro!: exI [of _ "length LADDER"])
    next
      case (Inr s)
      then show ?thesis using finish_Inr [OF ok(1) Inr] ok r d1 by (simp add: ready_def)
    qed
  qed
qed

text \<open>
  C27. A log that opens is ready. Whatever the pragmas, the threads, the ladder and the file system answer,
  \<open>open_with\<close> on a file of any version this build knows either fails, with the file between two steps of
  the ladder, or gives a log over a file of this build's version and well-formed tables, whose published
  position is the newest event's, with the readers, the chain and the interval of its options, nothing queued,
  and the name its path resolves to.
\<close>

theorem open_gives_a_ready_log:
  assumes "open_with env path options d = Some (r, d')" and "file_at v d" and "file_rows_ok x v d"
  shows "case r of
     Inl _ \<Rightarrow> \<exists>k \<le> length LADDER. climbed 0 (take k LADDER) d d'
   | Inr o1 \<Rightarrow> ready x (option_readers options) (case canonical_path env of Some p \<Rightarrow> p | None \<Rightarrow> path) options d' o1
       \<and> queued o1 = [] \<and> serving o1 \<and> has_driver o1"
proof -
  let ?name = "case canonical_path env of Some p \<Rightarrow> p | None \<Rightarrow> path"
  have start: "climbed 0 (take 0 LADDER) d d" by simp
  consider e where "r = Inl e" "d' = d"
    | "finish_open env (option_readers options) ?name options d = (r, d')"
    using assms(1) by (auto simp: open_with_def Let_def split: option.splits sum.splits prod.splits)
  then show ?thesis
  proof cases
    case 1
    then show ?thesis using start by (auto intro!: exI [of _ 0])
  next
    case 2
    from finish_open_ready [OF this assms(2,3)] show ?thesis
      by (cases r) (auto simp: ready_def opened_def)
  qed
qed

lemma open_calm:
  assumes "file_at v d" and "db_ok x (upgraded v (5 - v) d)"
    and "timeout_installed env = Inr ()" and "pragma_answers env = (None, t) # rest" and "writer_fault env = None"
    and "reader_faults env = []" and "ladder_attempt env = calm_at t1" and "head_reading env = calm_at t2"
  shows "\<exists>o1. open_with env path options d = Some (Inr o1, upgraded v (5 - v) d)"
proof -
  have "isle_call (calm_at t1) migrate d = (Inr (), upgraded v (5 - v) d)"
    using migrate_at(1) [of "\<lparr> conn_db = d, faults = [], clock = [t1] \<rparr>" v] assms(1) by (simp add: isle_call_calm)
  moreover have "fst (isle_call (calm_at t2) head_position_in (upgraded v (5 - v) d)) \<in> range Inr"
    using calm_run_head [OF assms(2)] by (simp add: isle_call_calm_at)
  moreover have "open_readers n [] = Inr ()" for n by (cases n) simp_all
  ultimately show ?thesis using assms(3-)
    by (auto simp: open_with_def apply_pragmas_def finish_open_def finish_def)
qed

definition calm_open :: open_env where
  "calm_open = \<lparr> timeout_installed = Inr (), pragma_answers = [(None, 0)], writer_fault = None,
     canonical_path = Some ''/tmp/a.db'', reader_faults = [], ladder_attempt = calm_at 1, head_reading = calm_at 2 \<rparr>"

definition fresh_file :: "unit schema database" where
  "fresh_file = conn_db (foreign_file 0)"

lemma fresh_file_ok: "file_at 0 fresh_file" "file_rows_ok x 0 fresh_file"
  using fresh_file_at by (simp_all add: fresh_file_def file_rows_ok_def)

lemma open_fresh: "\<exists>o1 d. open_with calm_open path options fresh_file = Some (Inr o1, d)"
  using open_calm [OF fresh_file_ok(1) upgraded_db_ok [OF _ fresh_file_ok(2) [of toy_ext]], where env = calm_open]
  by (fastforce simp: calm_open_def)

theorem open_gives_a_ready_log_witness:
  "\<exists>o1 d. open_with calm_open ''a.db'' default_options fresh_file = Some (Inr o1, d)
     \<and> ready toy_ext DEFAULT_READERS ''/tmp/a.db'' default_options d o1"
proof -
  obtain o1 d where run: "open_with calm_open ''a.db'' default_options fresh_file = Some (Inr o1, d)"
    using open_fresh by blast
  from open_gives_a_ready_log [OF run fresh_file_ok] run show ?thesis by (auto simp: calm_open_def default_options_def)
qed

section \<open>The queue\<close>

abbreviation addressed :: "detached \<Rightarrow> rust_string \<times> json_map" where
  "addressed j \<equiv> (detached_stream j, detached_event j)"

lemma run_detached_cases:
  assumes "db_ok x d" and "storable x (detached_event j)"
  obtains "run_detached x j d = d"
  | e where "run_detached x j d = appended x (detached_stream j) e d" "events_auto d < i64_max"
      "as_stamped (addressed j) e" "stored_form x e" "u64_of FIELD_SEQ e = next_of d (detached_stream j)"
      "db_ok x (run_detached x j d)"
proof -
  obtain r d' where run: "isle_call (detached_attempt j) (append_stamped_now x (detached_stream j) (detached_event j)) d = (r, d')"
    by force
  then have d': "run_detached x j d = d'" by (simp add: run_detached_def)
  from append_job_outcome [OF assms run] show thesis
  proof (elim disjE exE conjE)
    fix t c
    assume "appended_as x (detached_stream j) (detached_event j) t c d d'" and ok: "db_ok x d'"
    then obtain e where e: "stamp (detached_event j) (next_of d (detached_stream j)) t = Inr e" "events_auto d < i64_max"
      "d' = appended x (detached_stream j) e d" by (auto simp: appended_as_def)
    show thesis
      using that(2) [of e] e ok d' stored_form_stamp [OF assms(2) e(1)] by (simp add: as_stamped_def)
  qed (use that(1) d' in simp)
qed

text \<open>A run of the queue lands the appends that did not fail, in the order of the queue.\<close>

lemma run_queue_spec:
  assumes "db_ok x d" and "\<forall>j \<in> set js. storable x (detached_event j)"
  obtains through es where "subseq through js" "list_all2 as_stamped (map addressed through) es"
    "run_queue x js d = appended_all x (zip (map detached_stream through) es) d"
    "consecutive x (zip (map detached_stream through) es) d" "events_auto d + int (length through) \<le> i64_max"
proof -
  have "\<exists>through es. subseq through js \<and> list_all2 as_stamped (map addressed through) es
      \<and> run_queue x js d = appended_all x (zip (map detached_stream through) es) d
      \<and> consecutive x (zip (map detached_stream through) es) d \<and> events_auto d + int (length through) \<le> i64_max"
    using assms
  proof (induction js arbitrary: d)
    case Nil
    then show ?case using db_ok_auto [OF Nil(1)] by (intro exI [of _ "[]"]) (simp add: run_queue_def)
  next
    case (Cons j js)
    have j: "storable x (detached_event j)" using Cons.prems(2) by simp
    from Cons.prems(1) j show ?case
    proof (cases rule: run_detached_cases)
      case 1
      then have "run_queue x (j # js) d = run_queue x js d" by (simp add: run_queue_def)
      then show ?thesis using Cons.IH [OF Cons.prems(1)] Cons.prems(2) by (auto intro: list_emb_Cons)
    next
      case (2 e)
      let ?d = "run_detached x j d"
      obtain through es where IH: "subseq through js" "list_all2 as_stamped (map addressed through) es"
        "run_queue x js ?d = appended_all x (zip (map detached_stream through) es) ?d"
        "consecutive x (zip (map detached_stream through) es) ?d" "events_auto ?d + int (length through) \<le> i64_max"
        using Cons.IH [OF 2(6)] Cons.prems(2) by auto
      have step: "run_queue x (j # js) d = run_queue x js ?d" by (simp add: run_queue_def)
      show ?thesis
        using IH 2 unfolding step by (intro exI [of _ "j # through"] exI [of _ "e # es"]) simp
    qed
  qed
  then show thesis using that by blast
qed

lemma run_queue_calm:
  assumes "db_ok x d" and "\<forall>j \<in> set js. storable x (detached_event j) \<and> well_formed (detached_event j) \<and> (\<exists>t. detached_attempt j = calm_at t)"
    and "events_auto d + int (length js) \<le> i64_max"
  shows "events_auto (run_queue x js d) = events_auto d + int (length js)"
  using assms
proof (induction js arbitrary: d)
  case (Cons j js)
  obtain t where t: "detached_attempt j = calm_at t" using Cons.prems(2) by auto
  have j: "storable x (detached_event j)" "well_formed (detached_event j)" "events_auto d < i64_max" using Cons.prems by auto
  obtain e where e: "stamp (detached_event j) (next_of d (detached_stream j)) (now_ms t) = Inr e"
    and run: "run_detached x j d = appended x (detached_stream j) e d"
    using append_job_calm [OF Cons.prems(1) j, of "detached_stream j" t] t by (auto simp: run_detached_def isle_call_calm_at)
  have "db_ok x (run_detached x j d)"
    using db_ok_appended [OF Cons.prems(1) j(3)] stored_form_stamp [OF j(1) e] run by auto
  from Cons.IH [OF this] Cons.prems(2,3) run show ?case by (simp add: run_queue_def)
qed (simp add: run_queue_def)

definition detach_all :: "detached list \<Rightarrow> 'm open_log \<Rightarrow> 'm open_log" where
  "detach_all js o1 = fold (\<lambda>j. snd \<circ> detach (detached_attempt j) (detached_stream j) (detached_event j)) js o1"

lemma detach_all_serving:
  assumes "serving o1"
  shows "detach_all js o1 = o1\<lparr>queued := queued o1 @ List.filter (\<lambda>j. well_formed (detached_event j)) js\<rparr>"
  using assms
  by (induction js arbitrary: o1)
    (auto simp: detach_all_def detach_def validate_iff [symmetric] split: sum.splits)

text \<open>What a queue leaves behind: the events of \<open>through\<close>, stamped as \<open>es\<close>, at the end of their streams.\<close>

definition landed_in_order ::
  "ext \<Rightarrow> detached list \<Rightarrow> json_map list \<Rightarrow> 'm database \<Rightarrow> 'm database \<Rightarrow> bool" where
  "landed_in_order x through es d d' \<longleftrightarrow>
     list_all2 as_stamped (map addressed through) es
     \<and> (\<forall>stream. contents x d' stream = contents x d stream
          @ map snd (List.filter (\<lambda>p. fst p = stream) (zip (map detached_stream through) es)))
     \<and> map row_stream (drop (length (tbl_events d)) (tbl_events d')) = map detached_stream through
     \<and> events_auto d' = events_auto d + int (length through)
     \<and> db_ok x d'"

lemma new_rows_appended_all:
  "length ss = length es \<Longrightarrow>
     \<exists>rows. tbl_events (appended_all x (zip ss es) d) = tbl_events d @ rows \<and> map row_stream rows = ss"
proof (induction ss es arbitrary: d rule: list_induct2)
  case (Cons s ss e es)
  obtain rows where rows: "tbl_events (appended_all x (zip ss es) (appended x s e d)) = tbl_events (appended x s e d) @ rows"
    "map row_stream rows = ss" using Cons.IH by blast
  then show ?case by (intro exI [of _ "row_of x s e (events_auto d + 1) # rows"]) (simp add: row_of_def)
qed simp

lemma landed_in_orderI:
  assumes "list_all2 as_stamped (map addressed through) es" and "db_ok x d"
    and "d' = appended_all x (zip (map detached_stream through) es) d"
    and "consecutive x (zip (map detached_stream through) es) d" and "events_auto d + int (length through) \<le> i64_max"
  shows "landed_in_order x through es d d'"
proof -
  have len: "length (map detached_stream through) = length es" using assms(1) by (auto dest: list_all2_lengthD)
  obtain rows where "tbl_events d' = tbl_events d @ rows" "map row_stream rows = map detached_stream through"
    using new_rows_appended_all [OF len, of x d] assms(3) by auto
  then show ?thesis
    using assms len by (simp add: landed_in_order_def contents_appended_all db_ok_appended_all)
qed

lemma run_queue_lands:
  assumes "db_ok x d" and "\<forall>j \<in> set js. storable x (detached_event j)"
  obtains through es where "subseq through js" "landed_in_order x through es d (run_queue x js d)"
  using assms by (rule run_queue_spec) (blast intro: landed_in_orderI assms(1))

lemmas shutdown_parts = shutdown_def take_readers_def take_driver_def join_writer_def Let_def

text \<open>
  C20. Shutting down lands what was detached. After any appends were detached on a log, a shutdown whose joins
  succeed answers \<open>Ok\<close> and leaves tables that hold, after what they got, events the queue was given, in the
  order they were detached: each at the end of its stream with the stream's next number. When nothing fails
  on the writer and there is room, none is missing, except those the envelope's gate had refused.
\<close>

theorem shutdown_lands_what_was_detached:
  assumes "db_ok x (isle_db (shared_part o1))" and "serving o1" and "has_driver o1" and "queued o1 = []"
    and "\<forall>j \<in> set js. storable x (detached_event j)"
    and "join_readers (take (reader_drivers o1) (stop_readers stop)) = Inr ()" and "stop_writer stop = None"
    and "length js \<le> stop_ran stop"
  shows "\<exists>o2 through es. shutdown x stop (detach_all js o1) = (Inr (), o2)
     \<and> subseq through (List.filter (\<lambda>j. well_formed (detached_event j)) js)
     \<and> landed_in_order x through es (isle_db (shared_part o1)) (isle_db (shared_part o2))
     \<and> ((\<forall>j \<in> set js. \<exists>t. detached_attempt j = calm_at t) \<and> events_auto (isle_db (shared_part o1)) + int (length js) \<le> i64_max
          \<longrightarrow> through = List.filter (\<lambda>j. well_formed (detached_event j)) js)"
proof -
  let ?d = "isle_db (shared_part o1)"
  let ?js = "List.filter (\<lambda>j. well_formed (detached_event j)) js"
  let ?d' = "run_queue x ?js ?d"
  have len: "length ?js \<le> length js" by simp
  have take: "take (stop_ran stop) ?js = ?js" using assms(8) len by (intro take_all) linarith
  obtain o2 where down: "shutdown x stop (detach_all js o1) = (Inr (), o2)" "isle_db (shared_part o2) = ?d'"
    using assms(2-4,6,7) by (simp add: shutdown_parts detach_all_serving take)
  have st: "\<forall>j \<in> set ?js. storable x (detached_event j)" using assms(5) by simp
  obtain through es where through: "subseq through ?js" "landed_in_order x through es ?d ?d'"
    using run_queue_lands [OF assms(1) st] by blast
  have "through = ?js" if "\<forall>j \<in> set js. \<exists>t. detached_attempt j = calm_at t" "events_auto ?d + int (length js) \<le> i64_max"
  proof -
    have "events_auto ?d' = events_auto ?d + int (length ?js)"
      using that assms(5) len by (intro run_queue_calm [OF assms(1)]) (auto intro: order_trans [rotated])
    then have "length through = length ?js" using through(2) by (simp add: landed_in_order_def)
    then show ?thesis using subseq_same_length [OF through(1)] by simp
  qed
  then show ?thesis using down through by auto
qed

definition sample_open_log :: "unit open_log" where
  "sample_open_log = opened (sample_log (empty_database ()))"

definition sample_detached :: "detached list" where
  "sample_detached = map (\<lambda>s. \<lparr> detached_attempt = calm_at 9, detached_stream = s, detached_event = sample_event ''closed'' \<rparr>)
     [''a'', ''b'']"

definition clean_stop :: stop_env where
  "clean_stop = \<lparr> stop_readers = [], stop_writer = None, stop_ran = 10 \<rparr>"

theorem shutdown_lands_what_was_detached_witness:
  "\<exists>o2. shutdown toy_ext clean_stop (detach_all sample_detached sample_open_log) = (Inr (), o2)
     \<and> map row_stream (tbl_events (isle_db (shared_part o2))) = [''a'', ''b'']"
proof -
  note sel = sample_open_log_def opened_def sample_log_def empty_database_def
  have "db_ok toy_ext (isle_db (shared_part sample_open_log))" by (simp add: sample_open_log_def opened_def)
  moreover have "\<forall>j \<in> set sample_detached. storable toy_ext (detached_event j)" by (simp add: sample_detached_def)
  ultimately obtain o2 through es where o2: "shutdown toy_ext clean_stop (detach_all sample_detached sample_open_log) = (Inr (), o2)"
    "landed_in_order toy_ext through es (isle_db (shared_part sample_open_log)) (isle_db (shared_part o2))"
    "through = List.filter (\<lambda>j. well_formed (detached_event j)) sample_detached"
    using shutdown_lands_what_was_detached [of toy_ext sample_open_log sample_detached clean_stop]
    by (auto simp: sel clean_stop_def sample_detached_def i64_max_def)
  then show ?thesis by (simp add: landed_in_order_def sel sample_detached_def)
qed

lemma awaited_append_calm:
  assumes "db_ok x (isle_db (shared_part o1))" and "serving o1" and "queued o1 = []"
    and "\<forall>j \<in> set js. storable x (detached_event j)" and "storable x event" and "well_formed event"
    and "events_auto (isle_db (shared_part o1)) + int (length js) < i64_max"
  shows "\<exists>c o2. on_writer x (\<lambda>env. append_store x env stream event) (\<lambda>_. calm_at t) (detach_all js o1) = (Inr c, o2)"
proof -
  let ?d = "isle_db (shared_part o1)"
  let ?js = "List.filter (\<lambda>j. well_formed (detached_event j)) js"
  let ?s = "(shared_part o1)\<lparr>isle_db := run_queue x ?js ?d\<rparr>"
  have st: "\<forall>j \<in> set ?js. storable x (detached_event j)" using assms(4) by simp
  obtain through es where through: "subseq through ?js" "landed_in_order x through es ?d (run_queue x ?js ?d)"
    using run_queue_lands [OF assms(1) st] by blast
  have "length through \<le> length js"
    using list_emb_length [OF through(1)] length_filter_le [of _ js] order_trans by blast
  then have s: "db_ok x (isle_db ?s)" "events_auto (isle_db ?s) < i64_max"
    using through(2) assms(7) by (simp_all add: landed_in_order_def)
  obtain c d' where "append_store x (\<lambda>_. calm_at t) stream event ?s = (Inr c, d')"
    using append_calm [OF s(1) assms(5,6) s(2)] by blast
  then show ?thesis using assms(2,3) by (simp add: on_writer_def drained_def detach_all_serving Let_def)
qed

text \<open>
  An awaited append comes after everything detached before it. The tables it finds are those the queue left,
  so its event is behind every detached one that landed, in the order of positions and in its own stream, and
  its answer names that place.
\<close>

theorem awaited_append_follows_detached:
  assumes "db_ok x (isle_db (shared_part o1))" and "serving o1" and "queued o1 = []"
    and "\<forall>j \<in> set js. storable x (detached_event j)" and "storable x event"
    and "on_writer x (\<lambda>env. append_store x env stream event) env (detach_all js o1) = (Inr c, o2)"
  shows "\<exists>through es d e. subseq through js \<and> landed_in_order x through es (isle_db (shared_part o1)) d
     \<and> stamp event (committed_seq c) (committed_epoch_ms c) = Inr e
     \<and> (\<forall>s. contents x (isle_db (shared_part o2)) s = (if s = stream then contents x d s @ [e] else contents x d s))
     \<and> committed_seq c = next_of d stream
     \<and> committed_position c = Some (position_of_stored (events_auto (isle_db (shared_part o1)) + int (length through) + 1))
     \<and> queued o2 = []"
proof -
  let ?d = "isle_db (shared_part o1)"
  let ?js = "List.filter (\<lambda>j. well_formed (detached_event j)) js"
  let ?s = "(shared_part o1)\<lparr>isle_db := run_queue x ?js ?d\<rparr>"
  obtain s' where run: "append_store x env stream event ?s = (Inr c, s')" and o2: "shared_part o2 = s'" "queued o2 = []"
    using assms(2,3,6) by (auto simp: on_writer_def drained_def detach_all_serving Let_def split: prod.splits)
  have st: "\<forall>j \<in> set ?js. storable x (detached_event j)" using assms(4) by simp
  obtain through es where through: "subseq through ?js" "landed_in_order x through es ?d (run_queue x ?js ?d)"
    using run_queue_lands [OF assms(1) st] by blast
  have ok: "db_ok x (isle_db ?s)" using through(2) by (simp add: landed_in_order_def)
  obtain t d' where c: "appended_as x stream event t c (isle_db ?s) d'" "isle_db s' = d'"
    using append_outcome [OF ok assms(5), where env = env and stream = stream] run by auto
  note facts = appended_as_facts [OF c(1) ok assms(5)]
  obtain e where e: "stamp event (committed_seq c) (committed_epoch_ms c) = Inr e" "contents x d' stream = contents x (isle_db ?s) stream @ [e]"
    using facts(7) by blast
  have others: "contents x d' s = contents x (isle_db ?s) s" if "s \<noteq> stream" for s using facts(6) that by blast
  have "subseq through js" using through(1) subseq_filter_left subseq_order.trans by blast
  moreover have "events_auto (isle_db ?s) = events_auto ?d + int (length through)" using through(2) by (simp add: landed_in_order_def)
  ultimately show ?thesis
    using through(2) e others facts(2,4) c(2) o2
    by (intro exI [of _ through] exI [of _ es] exI [of _ "run_queue x ?js ?d"] exI [of _ e]) simp
qed

theorem awaited_append_follows_detached_witness:
  "\<exists>c o2. on_writer toy_ext (\<lambda>env. append_store toy_ext env ''a'' (sample_event ''paid'')) (\<lambda>_. calm_at 11)
       (detach_all sample_detached sample_open_log) = (Inr c, o2) \<and> queued o2 = []"
proof -
  have o1: "db_ok toy_ext (isle_db (shared_part sample_open_log))" "serving sample_open_log" "queued sample_open_log = []"
    "events_auto (isle_db (shared_part sample_open_log)) + int (length sample_detached) < i64_max"
    by (simp_all add: sample_open_log_def opened_def sample_detached_def i64_max_def)
  have js: "\<forall>j \<in> set sample_detached. storable toy_ext (detached_event j)" by (simp add: sample_detached_def)
  have e: "storable toy_ext (sample_event ''paid'')" "well_formed (sample_event ''paid'')" by simp_all
  obtain c o2 where run: "on_writer toy_ext (\<lambda>env. append_store toy_ext env ''a'' (sample_event ''paid'')) (\<lambda>_. calm_at 11)
      (detach_all sample_detached sample_open_log) = (Inr c, o2)"
    using awaited_append_calm [OF o1(1-3) js e o1(4)] by blast
  then show ?thesis using awaited_append_follows_detached [OF o1(1-3) js e(1) run] by blast
qed

section \<open>A log in use\<close>

text \<open>
  What happens to a log between its opening and whenever: appends are detached, its thread runs the first of the
  queue, a call is awaited on the writer, and shutdowns go through their parts, with any failure in each. The
  answer of the call is of no account here.
\<close>

inductive log_step :: "ext \<Rightarrow> 'm open_log \<Rightarrow> 'm open_log \<Rightarrow> bool" for x where
  detaching: "detach a stream event o1 = (r, o2) \<Longrightarrow> log_step x o1 o2"
| thread_runs: "serving o1 \<Longrightarrow> queued o1 = j # js \<Longrightarrow>
     log_step x o1 (o1\<lparr>shared_part := (shared_part o1)\<lparr>isle_db := run_detached x j (isle_db (shared_part o1))\<rparr>, queued := js\<rparr>)"
| appending: "on_writer x (\<lambda>env. append_store x env stream event) env o1 = (r, o2) \<Longrightarrow> log_step x o1 o2"
| submitting: "on_writer x (\<lambda>env. writer_job (env 0) (job :: ('m, error, unit) job)) env o1 = (r, o2) \<Longrightarrow> log_step x o1 o2"
| taking_readers: "take_readers o1 = (n, o2) \<Longrightarrow> log_step x o1 o2"
| taking_driver: "take_driver o1 = (got, o2) \<Longrightarrow> log_step x o1 o2"
| joining: "leaving o1 \<Longrightarrow> join_writer x stop o1 = (r, o2) \<Longrightarrow> log_step x o1 o2"

inductive_cases log_stepE: "log_step x o1 o2"

abbreviation log_steps :: "ext \<Rightarrow> 'm open_log \<Rightarrow> 'm open_log \<Rightarrow> bool" where
  "log_steps x \<equiv> (log_step x)\<^sup>*\<^sup>*"

text \<open>
  One shutdown with whatever else happens while it waits, a second one included. The flag says whether it was the
  one to take the writer's driver; the answer is \<open>Ok\<close> at once where that was gone.
\<close>

inductive shutdown_amid ::
  "ext \<Rightarrow> stop_env \<Rightarrow> 'm open_log \<Rightarrow> bool \<Rightarrow> unit result \<Rightarrow> 'm open_log \<Rightarrow> bool" for x stop where
  reader_fails: "take_readers o1 = (n, o2) \<Longrightarrow> log_steps x o2 o3 \<Longrightarrow> join_readers (take n (stop_readers stop)) = Inl e \<Longrightarrow>
     shutdown_amid x stop o1 False (Inl e) o3"
| driver_gone: "take_readers o1 = (n, o2) \<Longrightarrow> log_steps x o2 o3 \<Longrightarrow> join_readers (take n (stop_readers stop)) = Inr () \<Longrightarrow>
     take_driver o3 = (False, o4) \<Longrightarrow> shutdown_amid x stop o1 False (Inr ()) o4"
| driver_held: "take_readers o1 = (n, o2) \<Longrightarrow> log_steps x o2 o3 \<Longrightarrow> join_readers (take n (stop_readers stop)) = Inr () \<Longrightarrow>
     take_driver o3 = (True, o4) \<Longrightarrow> log_steps x o4 o5 \<Longrightarrow> join_writer x stop o5 = (r, o6) \<Longrightarrow>
     shutdown_amid x stop o1 True r o6"

lemma shutdown_undisturbed:
  assumes "shutdown x stop o1 = (r, o2)"
  shows "\<exists>got. shutdown_amid x stop o1 got r o2"
proof -
  obtain n o3 where n: "take_readers o1 = (n, o3)" by force
  show ?thesis
  proof (cases "join_readers (take n (stop_readers stop))")
    case (Inl e)
    then have "r = Inl e" "o2 = o3" using assms n by (simp_all add: shutdown_def)
    then show ?thesis using shutdown_amid.reader_fails [OF n rtranclp.rtrancl_refl Inl] by blast
  next
    case (Inr u)
    then have ok: "join_readers (take n (stop_readers stop)) = Inr ()" by simp
    obtain got o4 where h: "take_driver o3 = (got, o4)" by force
    show ?thesis
    proof (cases got)
      case True
      then have h': "take_driver o3 = (True, o4)" and "join_writer x stop o4 = (r, o2)"
        using assms n ok h by (simp_all add: shutdown_def)
      from shutdown_amid.driver_held [OF n rtranclp.rtrancl_refl ok h' rtranclp.rtrancl_refl this(2)]
      show ?thesis by (rule exI)
    next
      case False
      then have h': "take_driver o3 = (False, o4)" and "r = Inr ()" "o2 = o4"
        using assms n ok h by (simp_all add: shutdown_def)
      with shutdown_amid.driver_gone [OF n rtranclp.rtrancl_refl ok h'] show ?thesis by blast
    qed
  qed
qed

text \<open>
  The thread serves as long as the log, or a shutdown that has not joined it, holds its driver, and nothing is
  queued on a thread that is gone.
\<close>

definition log_ok :: "'m open_log \<Rightarrow> bool" where
  "log_ok o1 \<longleftrightarrow> (serving o1 \<longleftrightarrow> has_driver o1 \<or> leaving o1) \<and> \<not> (has_driver o1 \<and> leaving o1) \<and> (\<not> serving o1 \<longrightarrow> queued o1 = [])"

lemma on_writer_frame:
  "on_writer x call env o1 = (r, o2) \<Longrightarrow> serving o2 = serving o1 \<and> has_driver o2 = has_driver o1 \<and> leaving o2 = leaving o1
     \<and> queued o2 = (if serving o1 then [] else queued o1)"
  by (auto simp: on_writer_def drained_def Let_def split: prod.splits if_splits)

lemma log_ok_opened: "log_ok (opened s)"
  by (simp add: log_ok_def opened_def)

lemma join_writer_leaves:
  "join_writer x stop o1 = (r, o2) \<Longrightarrow> \<not> serving o2 \<and> \<not> leaving o2 \<and> has_driver o2 = has_driver o1 \<and> queued o2 = []"
  by (auto simp: join_writer_def Let_def split: option.splits)

lemma log_ok_taken: "take_readers o1 = (n, o2) \<Longrightarrow> log_ok o1 \<Longrightarrow> log_ok o2"
  and log_ok_driverless: "take_driver o1 = (got, o2) \<Longrightarrow> log_ok o1 \<Longrightarrow> log_ok o2 \<and> \<not> has_driver o2"
  by (auto simp: take_readers_def take_driver_def log_ok_def)

lemma log_ok_step:
  assumes "log_step x o1 o2" and "log_ok o1"
  shows "log_ok o2"
  using assms(1)
proof (cases rule: log_step.cases)
  case (detaching a stream event r)
  then show ?thesis using assms(2) by (auto simp: log_ok_def detach_def split: sum.splits if_splits)
next
  case (joining stop r)
  then show ?thesis using assms(2) by (auto simp: log_ok_def dest: join_writer_leaves)
qed (use assms(2) in \<open>auto simp: log_ok_def take_readers_def take_driver_def dest: on_writer_frame\<close>)

lemma log_ok_steps: "log_steps x o1 o2 \<Longrightarrow> log_ok o1 \<Longrightarrow> log_ok o2"
  by (induction rule: rtranclp_induct) (auto intro: log_ok_step)

lemma driver_stays_gone: "log_steps x o1 o2 \<Longrightarrow> \<not> has_driver o1 \<Longrightarrow> \<not> has_driver o2"
proof (induction rule: rtranclp_induct)
  case (step o2 o3)
  from step.hyps(2) show ?case
  proof (cases rule: log_step.cases)
    case (detaching a stream event r)
    then show ?thesis using step by (auto simp: detach_def split: sum.splits if_splits)
  next
    case (joining stop r)
    then show ?thesis using step join_writer_leaves by blast
  qed (use step in \<open>auto simp: take_readers_def take_driver_def dest: on_writer_frame\<close>)
qed

lemma closed_submission: "isle_call closed_attempt job d = (Inl (Storage (Engine StoreClosed)), d)"
  by (simp add: isle_call_def closed_attempt_def map_isle_def)

lemma closed_write: "write_retrying (\<lambda>_. closed_attempt) job d = (Inl (Storage (Engine StoreClosed)), d)"
  by (simp add: write_retrying_def write_retrying_from.simps closed_submission)

text \<open>What a log whose thread is gone answers, and that it stays as it is.\<close>

definition refuses :: "ext \<Rightarrow> 'm open_log \<Rightarrow> bool" where
  "refuses x o1 \<longleftrightarrow>
     (\<forall>stream event env. on_writer x (\<lambda>env. append_store x env stream event) env o1 =
        (case validate event of Inl e \<Rightarrow> Inl e | Inr _ \<Rightarrow> Inl (Storage (Engine StoreClosed)), o1))
     \<and> (\<forall>(job :: ('m, error, unit) job) env. on_writer x (\<lambda>env. writer_job (env 0) job) env o1
          = (Inl (Storage (Engine StoreClosed)), o1))
     \<and> (\<forall>stream event a. snd (detach a stream event o1) = o1)
     \<and> (\<forall>stop. stop_readers stop = [] \<longrightarrow> fst (shutdown x stop o1) = Inr ())"

lemma closed_on_writer:
  assumes "\<not> serving o1"
  shows "on_writer x (\<lambda>env. append_store x env stream event) env o1 =
      (case validate event of Inl e \<Rightarrow> Inl e | Inr _ \<Rightarrow> Inl (Storage (Engine StoreClosed)), o1)"
    and "on_writer x (\<lambda>env. writer_job (env 0) job) env o1 = (Inl (Storage (Engine StoreClosed)), o1)"
  using assms
  by (simp_all add: on_writer_def append_store_def closed_write settle_def writer_job_def closed_submission Let_def split: sum.splits)

lemma closed_refuses:
  assumes "\<not> serving o1" and "log_ok o1"
  shows "refuses x o1"
  using assms
  by (auto simp: refuses_def closed_on_writer detach_def shutdown_parts log_ok_def split: sum.splits)

lemma closed_step:
  assumes "log_step x o1 o2" and "\<not> serving o1" and "log_ok o1"
  shows "\<not> serving o2 \<and> shared_part o2 = shared_part o1"
  using assms(1)
proof (cases rule: log_step.cases)
  case (detaching a stream event r)
  then show ?thesis using assms(2) by (auto simp: detach_def split: sum.splits)
next
  case (joining stop r)
  then show ?thesis using assms(2,3) by (simp add: log_ok_def)
qed (use assms(2) in \<open>auto simp: closed_on_writer take_readers_def take_driver_def\<close>)

lemma closed_steps:
  assumes "log_steps x o1 o2" and "\<not> serving o1" and "log_ok o1"
  shows "\<not> serving o2 \<and> log_ok o2 \<and> shared_part o2 = shared_part o1"
  using assms(1) by (induction rule: rtranclp_induct) (use assms(2,3) closed_step log_ok_step in \<open>metis+\<close>)

lemma shutdown_amid_outcome:
  assumes "shutdown_amid x stop o1 got r o2" and "log_ok o1"
  shows "log_ok o2 \<and> (got \<longrightarrow> \<not> serving o2) \<and> (r = Inr () \<longrightarrow> serving o2 \<longrightarrow> leaving o2)"
  using assms(1)
proof cases
  case (reader_fails n o3 e)
  then show ?thesis using log_ok_taken assms(2) log_ok_steps by blast
next
  case (driver_gone n o3 o4)
  then have "log_ok o4" using log_ok_taken assms(2) log_ok_steps by blast
  then show ?thesis using driver_gone log_ok_driverless by (auto simp: log_ok_def)
next
  case (driver_held n p1 p2 p3 p4)
  then have "log_ok p4 \<and> \<not> has_driver p4"
    using log_ok_taken assms(2) log_ok_steps log_ok_driverless driver_stays_gone by metis
  then show ?thesis using join_writer_leaves [OF driver_held(7)] by (auto simp: log_ok_def)
qed

text \<open>
  C32. A log that is shut stays shut. When a shutdown of a log in use answers \<open>Ok\<close>, whatever else was going on
  while it waited, then the writer's thread is gone if this shutdown was the one to join it; and once
  the thread is gone, whatever is called later leaves the tables, and everything else the handles share, as they
  were, and the log goes on refusing: an append is answered with the gate's refusal or with the store being
  closed, so is every other job on the writer, one that is detached goes nowhere, and another shutdown is \<open>Ok\<close>.
  Only where another shutdown had taken the thread's driver and is still waiting for it may the thread go on
  serving after the \<open>Ok\<close>.
\<close>

theorem shutdown_is_final:
  assumes "log_steps x (opened s) o1" and "shutdown_amid x stop o1 got (Inr ()) o2" and "log_steps x o2 o3"
  shows "(got \<longrightarrow> \<not> serving o2)
     \<and> (\<not> serving o2 \<longrightarrow> shared_part o3 = shared_part o2 \<and> refuses x o3)
     \<and> (serving o2 \<longrightarrow> \<not> got \<and> leaving o2)"
proof -
  have down: "log_ok o2" "got \<longrightarrow> \<not> serving o2" "serving o2 \<longrightarrow> leaving o2"
    using shutdown_amid_outcome [OF assms(2) log_ok_steps [OF assms(1) log_ok_opened]] by simp_all
  have "shared_part o3 = shared_part o2 \<and> refuses x o3" if "\<not> serving o2"
    using closed_steps [OF assms(3) that down(1)] closed_refuses by blast
  then show ?thesis using down by blast
qed

theorem shutdown_is_final_witness:
  "\<exists>o2. shutdown_amid toy_ext clean_stop sample_open_log True (Inr ()) o2 \<and> refuses toy_ext o2"
proof -
  let ?o = "snd (take_driver (snd (take_readers sample_open_log)))"
  obtain o2 where down: "join_writer toy_ext clean_stop ?o = (Inr (), o2)"
    by (simp add: join_writer_def clean_stop_def Let_def)
  have readers: "take_readers sample_open_log = (0, snd (take_readers sample_open_log))"
    and joined: "join_readers (take 0 (stop_readers clean_stop)) = Inr ()"
    and driver: "take_driver (snd (take_readers sample_open_log)) = (True, ?o)"
    by (simp_all add: take_readers_def take_driver_def sample_open_log_def opened_def sample_log_def)
  have "shutdown_amid toy_ext clean_stop sample_open_log True (Inr ()) o2"
    by (rule shutdown_amid.driver_held [OF readers rtranclp.rtrancl_refl joined driver rtranclp.rtrancl_refl down])
  then show ?thesis
    using shutdown_is_final [of toy_ext "sample_log (empty_database ())" sample_open_log clean_stop True o2 o2]
    by (auto simp: sample_open_log_def)
qed

text \<open>
  A second shutdown does not wait for the first. While one has taken the writer's driver and waits, another
  answers \<open>Ok\<close> with the queue as it was and the thread serving; what was detached lands afterwards, when the
  first comes to its end.
\<close>

theorem second_shutdown_does_not_wait:
  assumes "has_driver o1" and "serving o1"
  shows "\<exists>o2. take_driver (snd (take_readers o1)) = (True, o2) \<and> shutdown x stop o2 = (Inr (), o2)
     \<and> serving o2 \<and> queued o2 = queued o1 \<and> isle_db (shared_part o2) = isle_db (shared_part o1)
     \<and> isle_db (shared_part (snd (join_writer x stop' o2)))
         = run_queue x (take (stop_ran stop') (queued o1)) (isle_db (shared_part o1))"
  using assms by (simp add: shutdown_parts split: option.splits)

end
