(* ===== verification/Trust.thy ===== *)
theory Trust
  imports Guarded
begin

text \<open>
  The trust the authorizer asks about: \<open>Trusted\<close> and \<open>Untrusted\<close> of \<open>crates/eventsdb-sqlite/src/txn.rs\<close>,
  and where \<open>txn.rs\<close>, \<open>hatch.rs\<close> and \<open>project.rs\<close> put them. The flag belongs to one call under the guard; the
  crate raises it around its own writes, and the runner of a projection lowers it around each call into
  the projection. Kept beside the flag is who asked SQLite for what and what the authorizer answered.
\<close>

section \<open>The flag and its scopes\<close>

datatype speaker = Caller | Crate

record trust =
  trusted :: bool
  asked :: "(speaker \<times> auth_action \<times> authorization) list"

text \<open>SQLite asks when it prepares a statement, and the authorizer answers by the flag as it is then.\<close>

definition prepares :: "speaker \<Rightarrow> auth_action \<Rightarrow> trust \<Rightarrow> trust" where
  "prepares who action t = t\<lparr>asked := asked t @ [(who, action, authorize action (trusted t))]\<rparr>"

text \<open>How a scope is left: to its end, by an error on its way out, or by a panic.\<close>

datatype exit = To_its_end | By_error | By_panic

type_synonym scoped = "trust \<Rightarrow> exit \<times> trust"

text \<open>
  Both guards swap the flag on the way in and restore what they found when they are dropped, which is
  on every way out.
\<close>

definition raised :: "scoped \<Rightarrow> scoped" where
  "raised body t = (let found = trusted t; (out, t') = body (t\<lparr>trusted := True\<rparr>) in (out, t'\<lparr>trusted := found\<rparr>))"

definition lowered :: "scoped \<Rightarrow> scoped" where
  "lowered body t = (let found = trusted t; (out, t') = body (t\<lparr>trusted := False\<rparr>) in (out, t'\<lparr>trusted := found\<rparr>))"

section \<open>A closure of the caller\<close>

text \<open>
  What a closure of \<open>with_transaction\<close> or a statement of \<open>query\<close> does, in order: statements of its own; calls of
  the context, each some reads of the crate before its scope, what it prepares inside it, and its way out of
  it; and a panic. An error is the closure's to swallow, so it goes on after one.
\<close>

datatype deed =
    Own_statement auth_action
  | Context_call "auth_action list" "auth_action list" exit
  | Panic

definition crate_code :: "auth_action list \<Rightarrow> exit \<Rightarrow> scoped" where
  "crate_code actions out t = (out, fold (prepares Crate) actions t)"

definition context_call :: "auth_action list \<Rightarrow> auth_action list \<Rightarrow> exit \<Rightarrow> scoped" where
  "context_call reads writes out t = raised (crate_code writes out) (fold (prepares Crate) reads t)"

fun closure_body :: "deed list \<Rightarrow> scoped" where
  "closure_body [] t = (To_its_end, t)"
| "closure_body (Own_statement action # deeds) t = closure_body deeds (prepares Caller action t)"
| "closure_body (Context_call reads writes out # deeds) t =
     (case context_call reads writes out t of
        (By_panic, t') \<Rightarrow> (By_panic, t')
      | (_, t') \<Rightarrow> closure_body deeds t')"
| "closure_body (Panic # deeds) t = (By_panic, t)"

text \<open>The guard of one call: a flag of its own, and lowered for good at the end.\<close>

definition guarded_call :: "scoped \<Rightarrow> exit \<times> trust" where
  "guarded_call body = (let (out, t) = body \<lparr> trusted = False, asked = [] \<rparr> in (out, t\<lparr>trusted := False\<rparr>))"

section \<open>A runner and its projection\<close>

text \<open>
  A runner's transaction is trusted throughout, except inside \<open>callback\<close>. The projection is handed the raw
  transaction, so what it does is statements of its own; an error of it ends the transaction.
\<close>

datatype runner_deed =
    Runner_statement auth_action
  | Callback "auth_action list" exit

definition callback_call :: "auth_action list \<Rightarrow> exit \<Rightarrow> scoped" where
  "callback_call actions out = lowered (\<lambda>t. (out, fold (prepares Caller) actions t))"

fun runner_body :: "runner_deed list \<Rightarrow> scoped" where
  "runner_body [] t = (To_its_end, t)"
| "runner_body (Runner_statement action # deeds) t = runner_body deeds (prepares Crate action t)"
| "runner_body (Callback actions out # deeds) t =
     (case callback_call actions out t of
        (To_its_end, t') \<Rightarrow> runner_body deeds t'
      | left \<Rightarrow> left)"

definition transaction_call :: "deed list \<Rightarrow> exit \<times> trust" where
  "transaction_call deeds = guarded_call (closure_body deeds)"

definition runner_call :: "runner_deed list \<Rightarrow> exit \<times> trust" where
  "runner_call deeds = guarded_call (raised (runner_body deeds))"

section \<open>Lemmas\<close>

text \<open>What a scope asks, added to what was asked before, with the flag left as it was found.\<close>

definition well_scoped :: "((speaker \<times> auth_action \<times> authorization) \<Rightarrow> bool) \<Rightarrow> scoped \<Rightarrow> bool \<Rightarrow> bool" where
  "well_scoped good body up \<longleftrightarrow>
     (\<forall>t out t'. trusted t = up \<longrightarrow> body t = (out, t') \<longrightarrow>
        trusted t' = up \<and> (\<exists>more. asked t' = asked t @ more \<and> list_all good more))"

lemma prepares_sel [simp]:
  "trusted (prepares who action t) = trusted t"
  "asked (prepares who action t) = asked t @ [(who, action, authorize action (trusted t))]"
  by (simp_all add: prepares_def)

lemma fold_prepares [simp]:
  "trusted (fold (prepares who) actions t) = trusted t"
  "asked (fold (prepares who) actions t) = asked t @ map (\<lambda>a. (who, a, authorize a (trusted t))) actions"
  by (induction actions arbitrary: t) simp_all

lemma well_scopedD:
  "well_scoped good body up \<Longrightarrow> trusted t = up \<Longrightarrow> body t = (out, t') \<Longrightarrow>
     trusted t' = up \<and> (\<exists>more. asked t' = asked t @ more \<and> list_all good more)"
  unfolding well_scoped_def by blast

lemma well_scoped_raised:
  assumes "well_scoped good body True"
  shows "well_scoped good (raised body) up"
  unfolding well_scoped_def
proof (intro allI impI)
  fix t out t'
  assume up: "trusted t = up" and run: "raised body t = (out, t')"
  obtain t1 where t1: "body (t\<lparr>trusted := True\<rparr>) = (out, t1)" "t' = t1\<lparr>trusted := trusted t\<rparr>"
    using run by (auto simp: raised_def Let_def split: prod.splits)
  from well_scopedD [OF assms _ t1(1)] show "trusted t' = up \<and> (\<exists>more. asked t' = asked t @ more \<and> list_all good more)"
    using t1(2) up by auto
qed

lemma well_scoped_lowered:
  assumes "well_scoped good body False"
  shows "well_scoped good (lowered body) up"
  unfolding well_scoped_def
proof (intro allI impI)
  fix t out t'
  assume up: "trusted t = up" and run: "lowered body t = (out, t')"
  obtain t1 where t1: "body (t\<lparr>trusted := False\<rparr>) = (out, t1)" "t' = t1\<lparr>trusted := trusted t\<rparr>"
    using run by (auto simp: lowered_def Let_def split: prod.splits)
  from well_scopedD [OF assms _ t1(1)] show "trusted t' = up \<and> (\<exists>more. asked t' = asked t @ more \<and> list_all good more)"
    using t1(2) up by auto
qed

text \<open>The answer each speaker gets: a caller's is the untrusted one, the crate is always allowed.\<close>

fun proper :: "speaker \<times> auth_action \<times> authorization \<Rightarrow> bool" where
  "proper (Caller, action, answer) \<longleftrightarrow> answer = authorize action False"
| "proper (Crate, action, answer) \<longleftrightarrow> answer = Allow"

text \<open>What a call of the context prepares before its scope is the reading of a counter, of a stream or of its head.\<close>

fun is_read :: "auth_action \<Rightarrow> bool" where
  "is_read AuthSelect = True"
| "is_read (AuthRead _ _) = True"
| "is_read (AuthFunction _) = True"
| "is_read _ = False"

fun reads_before :: "deed \<Rightarrow> bool" where
  "reads_before (Context_call reads writes out) \<longleftrightarrow> list_all is_read reads"
| "reads_before _ \<longleftrightarrow> True"

lemma authorize_trusted [simp]: "authorize action True = Allow"
  by (simp add: authorize_def)

lemma authorize_read [simp]: "is_read action \<Longrightarrow> authorize action up = Allow"
  by (cases action) (simp_all add: authorize_def)

lemma list_all_proper_crate [simp]:
  "list_all is_read reads \<Longrightarrow> list_all proper (map (\<lambda>a. (Crate, a, authorize a up)) reads)"
  by (auto simp: list_all_iff)

lemma list_all_proper_caller [simp]: "list_all proper (map (\<lambda>a. (Caller, a, authorize a False)) actions)"
  by (auto simp: list_all_iff)

lemma list_all_proper_trusted [simp]: "list_all proper (map (\<lambda>a. (Crate, a, Allow)) actions)"
  by (auto simp: list_all_iff)

lemma well_scoped_crate: "well_scoped proper (crate_code actions out) True"
  by (simp add: well_scoped_def crate_code_def)

lemma well_scoped_context_call:
  assumes "list_all is_read reads"
  shows "well_scoped proper (context_call reads writes out) False"
  unfolding well_scoped_def
proof (intro allI impI)
  fix t left t'
  assume down: "trusted t = False" and run: "context_call reads writes out t = (left, t')"
  from well_scopedD [OF well_scoped_raised [OF well_scoped_crate] _ run [unfolded context_call_def], of False] down
  show "trusted t' = False \<and> (\<exists>more. asked t' = asked t @ more \<and> list_all proper more)" using assms by auto
qed

lemma well_scoped_callback: "well_scoped proper (callback_call actions out) up"
  unfolding callback_call_def by (rule well_scoped_lowered) (simp add: well_scoped_def)

text \<open>Scopes in sequence: one, and where it lets the rest go on, the rest.\<close>

lemma well_scoped_then:
  assumes "well_scoped good first up" and "well_scoped good rest up"
    and "\<And>t out t'. first t = (out, t') \<Longrightarrow> both t = (out, t') \<or> both t = rest t'"
  shows "well_scoped good both up"
  unfolding well_scoped_def
proof (intro allI impI)
  fix t out t'
  assume t: "trusted t = up" and run: "both t = (out, t')"
  obtain left t1 where one: "first t = (left, t1)" by force
  from well_scopedD [OF assms(1) t one] obtain more
    where t1: "trusted t1 = up" "asked t1 = asked t @ more" "list_all good more" by blast
  show "trusted t' = up \<and> (\<exists>more. asked t' = asked t @ more \<and> list_all good more)"
  proof (cases "both t = rest t1")
    case True
    then have "rest t1 = (out, t')" using run by simp
    from well_scopedD [OF assms(2) t1(1) this] show ?thesis using t1(2,3) by auto
  next
    case False
    then show ?thesis using assms(3) [OF one] run t1 by auto
  qed
qed

lemma well_scoped_statement:
  "well_scoped proper (\<lambda>t. (To_its_end, prepares Caller action t)) False"
  "well_scoped proper (\<lambda>t. (To_its_end, prepares Crate action t)) True"
  by (simp_all add: well_scoped_def)

lemma well_scoped_closure: "list_all reads_before deeds \<Longrightarrow> well_scoped proper (closure_body deeds) False"
proof (induction deeds)
  case (Cons deed deeds)
  then have rest: "well_scoped proper (closure_body deeds) False" by simp
  show ?case
  proof (cases deed)
    case (Own_statement action)
    show ?thesis
      by (rule well_scoped_then [OF well_scoped_statement(1) [of action] rest]) (simp add: Own_statement)
  next
    case (Context_call reads writes out)
    then have "list_all is_read reads" using Cons.prems by simp
    from well_scoped_context_call [OF this, of writes out] rest show ?thesis
      by (rule well_scoped_then) (auto simp: Context_call split: exit.splits)
  qed (simp add: well_scoped_def)
qed (simp add: well_scoped_def)

lemma well_scoped_runner: "well_scoped proper (runner_body deeds) True"
proof (induction deeds)
  case (Cons deed deeds)
  show ?case
  proof (cases deed)
    case (Runner_statement action)
    show ?thesis
      by (rule well_scoped_then [OF well_scoped_statement(2) [of action] Cons]) (simp add: Runner_statement)
  next
    case (Callback actions out)
    from well_scoped_callback [of actions out] Cons show ?thesis
      by (rule well_scoped_then) (auto simp: Callback split: exit.splits)
  qed
qed (simp add: well_scoped_def)

lemma guarded_call_proper:
  assumes "well_scoped proper body False" and "guarded_call body = (out, t)"
  shows "\<not> trusted t" and "list_all proper (asked t)"
proof -
  obtain t1 where t1: "body \<lparr> trusted = False, asked = [] \<rparr> = (out, t1)" "t = t1\<lparr>trusted := False\<rparr>"
    using assms(2) by (auto simp: guarded_call_def split: prod.splits)
  from well_scopedD [OF assms(1) _ t1(1)] show "\<not> trusted t" "list_all proper (asked t)"
    using t1(2) by auto
qed

text \<open>The tables of the log, in any spelling, are not what an allowed statement of a caller writes.\<close>

lemma allowed_untrusted: "authorize action False = Allow \<Longrightarrow> writes_table action = Some t \<Longrightarrow> \<not> is_reserved t"
  by (cases action rule: writes_table.cases) (auto simp: authorize_def split: if_splits)

text \<open>
  C28. Trust is never the caller's. Whatever a closure of a transaction or a projection does, in whatever
  order, swallowing errors or panicking wherever it likes, every statement of its own is answered as
  untrusted, so none that is let through writes a table of the log; every statement of the crate is let
  through, in a closure and around the callbacks of a runner; and the flag is down when the call is over.
\<close>

theorem callers_are_never_trusted:
  assumes "transaction_call deeds = (out, t) \<and> list_all reads_before deeds \<or> runner_call runs = (out, t)"
  shows "\<not> trusted t
     \<and> (\<forall>action answer. (Caller, action, answer) \<in> set (asked t) \<longrightarrow>
          answer = authorize action False \<and> (answer = Allow \<longrightarrow> (\<forall>table. writes_table action = Some table \<longrightarrow> \<not> is_reserved table)))
     \<and> (\<forall>action answer. (Crate, action, answer) \<in> set (asked t) \<longrightarrow> answer = Allow)"
proof -
  have "\<not> trusted t \<and> list_all proper (asked t)"
    using assms
  proof (elim disjE conjE)
    assume "transaction_call deeds = (out, t)" and "list_all reads_before deeds"
    then show ?thesis using guarded_call_proper [OF well_scoped_closure] by (simp add: transaction_call_def)
  next
    assume "runner_call runs = (out, t)"
    then show ?thesis
      using guarded_call_proper [OF well_scoped_raised [OF well_scoped_runner]] by (simp add: runner_call_def)
  qed
  then have down: "\<not> trusted t" and each: "\<And>entry. entry \<in> set (asked t) \<Longrightarrow> proper entry"
    by (simp_all add: list_all_iff)
  show ?thesis using down allowed_untrusted [OF sym] by (auto dest!: each)
qed

theorem callers_are_never_trusted_witness:
  "\<exists>out t. transaction_call
       [Own_statement (AuthInsert ''orders''), Context_call [AuthRead ''stream_seq'' ''next_seq''] [AuthInsert ''events''] By_panic,
        Own_statement (AuthDelete ''events'')] = (out, t) \<and> \<not> trusted t"
proof -
  let ?deeds = "[Own_statement (AuthInsert ''orders''), Context_call [AuthRead ''stream_seq'' ''next_seq''] [AuthInsert ''events''] By_panic,
     Own_statement (AuthDelete ''events'')]"
  obtain out t where run: "transaction_call ?deeds = (out, t)" by force
  have "list_all reads_before ?deeds" by simp
  with run have "\<not> trusted t" using callers_are_never_trusted [of ?deeds out t "[]"] by blast
  then show ?thesis using run by blast
qed

text \<open>What a projection that writes the log is answered, and the runner around it.\<close>

lemma a_projection_is_denied_and_its_runner_is_not:
  "runner_call [Callback [AuthInsert ''events''] To_its_end, Runner_statement (AuthInsert ''checkpoints'')] =
     (To_its_end, \<lparr> trusted = False, asked = [(Caller, AuthInsert ''events'', Deny), (Crate, AuthInsert ''checkpoints'', Allow)] \<rparr>)"
  by (simp add: runner_call_def guarded_call_def raised_def callback_call_def lowered_def prepares_def authorize_def
      is_reserved_def RESERVED_TABLES_def same_identifier_def)

end
