(* ===== verification/Log_Spi.thy ===== *)
theory Log_Spi
  imports Log_Transfer Cursor_Pages
begin

text \<open>
  The interface of a log: the trait \<open>EventLog\<close> of \<open>crates/eventsdb-core/src/log.rs\<close> as a locale with the laws its
  documentation promises, and its default methods. A backend takes, with each call, what the call will
  meet, and its state; one call may fail where the next does not. What a consumer gets that reads, records how far
  it has got, and comes back, is proved once, here.
\<close>

section \<open>The default methods\<close>

definition default_export :: "position \<Rightarrow> filter \<Rightarrow> usize \<Rightarrow> exported_event list result" where
  "default_export from f limit = Inl (Unsupported (Spi NoStoredForm))"

definition default_import :: "exported_event list \<Rightarrow> import_report result" where
  "default_import events = Inl (Unsupported (Spi NoImportAsOneWrite))"

section \<open>The laws\<close>

text \<open>
  \<open>history\<close> is what the log holds for a filter, in position order; \<open>askable\<close> are the filters it can ask at all, and
  \<open>asked\<close> the cursors.
\<close>

locale event_log =
  fixes ok :: "'s \<Rightarrow> bool" and askable :: "filter \<Rightarrow> bool" and asked :: "position \<Rightarrow> bool" and calm :: "'env \<Rightarrow> bool"
    and history :: "filter \<Rightarrow> 's \<Rightarrow> recorded list"
    and read_all :: "'env \<Rightarrow> position \<Rightarrow> filter \<Rightarrow> usize \<Rightarrow> 's \<Rightarrow> recorded list result"
    and head_position :: "'env \<Rightarrow> 's \<Rightarrow> position result"
    and checkpoint_load :: "'env \<Rightarrow> rust_string \<Rightarrow> 's \<Rightarrow> position result"
    and checkpoint_save :: "'env \<Rightarrow> rust_string \<Rightarrow> position \<Rightarrow> 's \<Rightarrow> unit result \<times> 's"
  assumes ordered: "ok s \<Longrightarrow> sorted_wrt (<) (map recorded_position (history f s))"
    and asked_position: "ok s \<Longrightarrow> event \<in> set (history f s) \<Longrightarrow> asked (recorded_position event)"
    and read_all_exact: "ok s \<Longrightarrow> askable f \<Longrightarrow> asked c \<Longrightarrow> read_all env c f n s = Inr events \<Longrightarrow>
      events = take (unat n) (filter (\<lambda>event. c < recorded_position event) (history f s))"
    and read_all_answers: "ok s \<Longrightarrow> askable f \<Longrightarrow> asked c \<Longrightarrow> calm env \<Longrightarrow> \<exists>events. read_all env c f n s = Inr events"
    and head_is_last: "ok s \<Longrightarrow> head_position env s = Inr tip \<Longrightarrow> event \<in> set (history f s) \<Longrightarrow> recorded_position event \<le> tip"
    and save_keeps: "ok s \<Longrightarrow> checkpoint_save env name at s = (Inr (), s') \<Longrightarrow> ok s' \<and> history f s' = history f s"
    and load_after_save: "ok s \<Longrightarrow> checkpoint_save env name at s = (Inr (), s') \<Longrightarrow>
      checkpoint_load env' name' s' = Inr p \<Longrightarrow> name' = name \<and> p = at \<or> name' \<noteq> name \<and> checkpoint_load env' name' s = Inr p"
    and save_fails: "checkpoint_save env name at s = (Inl e, s') \<Longrightarrow> s' = s"

text \<open>With nothing failing, the pages of one filter are pages by an exclusive cursor.\<close>

sublocale event_log \<subseteq> pages: cursor_pages "\<lambda>s. ok s \<and> askable f \<and> calm env" "history f" recorded_position asked
    "\<lambda>s c n. read_all env c f n s" for f env
proof
  fix s c n
  assume s: "ok s \<and> askable f \<and> calm env"
  show "sorted_wrt (<) (map recorded_position (history f s))" using s ordered by blast
  show "asked (recorded_position event)" if "event \<in> set (history f s)" for event using s that asked_position by blast
  show "read_all env c f n s = Inr (take (unat n) (filter (\<lambda>event. c < recorded_position event) (history f s)))" if "asked c"
    using s that read_all_exact read_all_answers by blast
qed

section \<open>A consumer that comes back\<close>

context event_log
begin

lemma nothing_after_head:
  assumes "ok s" and "askable f" and "asked tip" and "head_position env s = Inr tip"
    and "read_all env' tip f n s = Inr events"
  shows "events = []"
proof -
  have "filter (\<lambda>event. tip < recorded_position event) (history f s) = []"
    using head_is_last [OF assms(1,4)] by (auto simp: filter_empty_conv not_less)
  then show ?thesis using read_all_exact [OF assms(1-3,5)] by simp
qed

text \<open>A page, the checkpoint saved at its last event, and a page from the checkpoint as it is loaded: two pages in one.\<close>

lemma resumed_read:
  assumes s: "ok s" and f: "askable f" and c: "asked c" and first: "read_all env1 c f n s = Inr events" and ne: "events \<noteq> []"
    and save: "checkpoint_save env2 name (recorded_position (last events)) s = (Inr (), s')"
    and load: "checkpoint_load env3 name s' = Inr p" and more: "read_all env4 p f m s' = Inr events'"
  shows "events @ events' = take (length events + unat m) (filter (\<lambda>event. c < recorded_position event) (history f s))"
proof -
  let ?above = "filter (\<lambda>event. c < recorded_position event) (history f s)"
  have events: "events = take (unat n) ?above" by (rule read_all_exact [OF s f c first])
  then have prefix: "events = take (length events) ?above" by (simp add: min_def)
  have last: "last events \<in> set (history f s)" "c < recorded_position (last events)"
    using last_in_set [OF ne] events by (auto dest: in_set_takeD)
  have s': "ok s'" "history f s' = history f s" using save_keeps [OF s save] by blast+
  have p: "p = recorded_position (last events)" using load_after_save [OF s save load] by blast
  let ?rest = "filter (\<lambda>event. p < recorded_position event) (history f s)"
  have "events' = take (unat m) ?rest"
    using read_all_exact [OF s'(1) f _ more] asked_position [OF s last(1)] s'(2) p by simp
  moreover have "?rest = drop (length events) ?above"
  proof -
    have sorted: "sorted_wrt (<) (map recorded_position ?above)" by (rule sorted_wrt_filter_map [OF ordered [OF s]])
    have "0 < length events" using ne by simp
    have "length events \<le> length ?above" using events by simp
    from take_is_prefix_range [OF sorted \<open>0 < length events\<close> this]
    have "events = filter (\<lambda>event. recorded_position event \<le> p) ?above" using prefix p by simp
    then have "events = filter (\<lambda>event. c < recorded_position event \<and> recorded_position event \<le> p) (history f s)"
      by (simp add: conj_commute)
    then have "events @ ?rest = ?above"
      using filter_above_append [OF ordered [OF s], of c p f] last(2) p by simp
    then show ?thesis by (metis append_eq_conv_conj)
  qed
  ultimately show ?thesis using prefix by (simp add: take_add)
qed

end

end
