(* ===== verification/Log_Backend.thy ===== *)
theory Log_Backend
  imports Log_Spi Paging Log_Transfer_Theorems
begin

text \<open>
  The SQLite log is an \<open>event_log\<close>: the interpretation discharges the trait's laws from the theorems on its reads
  and its checkpoints.
\<close>

section \<open>The log as an instance of the trait\<close>

text \<open>What a chain cannot read, a read of it cannot answer; the states of the interface are those a chain can read.\<close>

definition log_ok :: "ext \<Rightarrow> 'm shared \<Rightarrow> bool" where
  "log_ok x s \<longleftrightarrow> db_ok x (isle_db s) \<and> (\<forall>row \<in> set (tbl_events (isle_db s)). is_ok (record_row x (upcasters s) row))"

definition in_signed_range :: "position \<Rightarrow> bool" where
  "in_signed_range p \<longleftrightarrow> uint (get p) \<le> i64_max"

definition calm_attempt :: "attempt \<Rightarrow> bool" where
  "calm_attempt a \<longleftrightarrow> (\<exists>t. a = calm_at t)"

definition log_history :: "ext \<Rightarrow> filter \<Rightarrow> 'm shared \<Rightarrow> recorded list" where
  "log_history x f s = oks (map (record_row x (upcasters s)) (matching x f (isle_db s)))"

lemma traverse_oks: "\<forall>a \<in> set as. is_ok (g a) \<Longrightarrow> traverse g as = Inr (oks (map g as))"
  by (induction as) (auto simp: is_ok_iff result_simps)

lemma log_history_page:
  assumes "log_ok x s"
  shows "log_page x (upcasters s) c f n (isle_db s) = Inr (take n (List.filter (\<lambda>event. c < recorded_position event) (log_history x f s)))"
proof -
  have all_ok: "\<forall>row \<in> set (matching x f (isle_db s)). is_ok (record_row x (upcasters s) row)"
    using assms by (auto simp: log_ok_def matching_def)
  have above: "oks (map g (List.filter (\<lambda>row. c < row_place row) rows)) = List.filter (\<lambda>event. c < recorded_position event) (oks (map g rows))"
    if "\<forall>row \<in> set rows. is_ok (g row)" and "\<And>row event. g row = Inr event \<Longrightarrow> recorded_position event = row_place row" for g rows
    using that by (induction rows) (auto simp: is_ok_iff)
  have cut: "oks (map g (take n rows)) = take n (oks (map g rows))" if "\<forall>row \<in> set rows. is_ok (g row)" for g :: "event_row \<Rightarrow> recorded result" and n rows
    using that by (induction rows arbitrary: n) (auto simp: is_ok_iff take_Cons')
  have "traverse (record_row x (upcasters s)) (take n (List.filter (\<lambda>r. c < row_place r) (matching x f (isle_db s))))
      = Inr (oks (map (record_row x (upcasters s)) (take n (List.filter (\<lambda>r. c < row_place r) (matching x f (isle_db s))))))"
    using all_ok by (intro traverse_oks) (auto dest: in_set_takeD)
  then show ?thesis
    using all_ok above [OF all_ok record_row_position] cut [of "List.filter (\<lambda>r. c < row_place r) (matching x f (isle_db s))"]
    by (simp add: log_page_def log_history_def)
qed

lemma log_history_positions:
  assumes "log_ok x s"
  shows "map recorded_position (log_history x f s) = map row_place (matching x f (isle_db s))"
proof -
  have "traverse (record_row x (upcasters s)) (matching x f (isle_db s)) = Inr (log_history x f s)"
    using assms unfolding log_history_def by (intro traverse_oks) (auto simp: log_ok_def matching_def)
  then show ?thesis by (rule traverse_record_positions)
qed

lemma checkpoint_load_cursor: "checkpoint_load a name s = Inr p \<Longrightarrow> p = cursor_of (isle_db s) name"
  using read_job_calm_or_fault [OF transparent_load_checkpoint atomic_reads_only [OF reads_load_checkpoint], of a name s]
  by (auto simp: checkpoint_load_def calm_run_def job_simps)

text \<open>The laws, one by one.\<close>

lemma log_history_at:
  assumes "log_ok x s" and "event \<in> set (log_history x f s)"
  obtains row where "row \<in> set (tbl_events (isle_db s))" "recorded_position event = row_place row"
proof -
  have "recorded_position event \<in> set (map row_place (matching x f (isle_db s)))"
    using assms(2) log_history_positions [OF assms(1), of f] by (metis image_eqI set_map)
  then show thesis using that by (auto simp: matching_def)
qed

lemma log_read:
  assumes "log_ok x s" and "askable f" and "in_signed_range c"
  shows "read_all x a c f n s = Inr events \<Longrightarrow>
      events = take (unat n) (List.filter (\<lambda>event. c < recorded_position event) (log_history x f s))"
    and "calm_attempt a \<Longrightarrow> \<exists>events. read_all x a c f n s = Inr events"
proof -
  obtain at where at: "build_read c f = Inr at" using assms(2,3) by (auto simp: askable_def in_signed_range_def is_ok_iff)
  have ok: "db_ok x (isle_db s)" using assms(1) by (simp add: log_ok_def)
  show "events = take (unat n) (List.filter (\<lambda>event. c < recorded_position event) (log_history x f s))"
    if "read_all x a c f n s = Inr events"
    using read_all_outcome [OF ok at, of a n] that log_history_page [OF assms(1)] by auto
  show "\<exists>events. read_all x a c f n s = Inr events" if "calm_attempt a"
    using read_all_calm [OF ok at] that log_history_page [OF assms(1)] by (auto simp: calm_attempt_def)
qed

lemma log_head:
  assumes "log_ok x s" and "head_position a s = Inr tip" and "event \<in> set (log_history x f s)"
  shows "recorded_position event \<le> tip"
proof -
  have ok: "db_ok x (isle_db s)" using assms(1) by (simp add: log_ok_def)
  have "tip = position_of_stored (newest (isle_db s))"
    using read_job_calm_or_fault [OF transparent_head atomic_reads_only [OF reads_head], of a s] calm_run_head [OF ok] assms(2)
    by (auto simp: head_position_def)
  then show ?thesis using log_history_at [OF assms(1,3)] newest_above [OF ok] by metis
qed

lemma log_save:
  assumes "checkpoint_save a name at s = (Inr (), s')"
  obtains at' now where "s' = s\<lparr>isle_db := upsert_checkpoint name at' now (isle_db s)\<rparr>" "Position (as_u64 at') = at"
  using checkpoint_save_outcome [OF assms] that by (cases at) (auto simp: as_u64_def)

lemma log_load_after_save:
  assumes save: "checkpoint_save a name at s = (Inr (), s')" and load: "checkpoint_load a' name' s' = Inr p"
  shows "name' = name \<and> p = at \<or> name' \<noteq> name \<and> checkpoint_load a' name' s = Inr p"
proof -
  obtain at' now where s': "s' = s\<lparr>isle_db := upsert_checkpoint name at' now (isle_db s)\<rparr>" and at: "Position (as_u64 at') = at"
    using save by (rule log_save)
  show ?thesis
  proof (cases "name' = name")
    case True
    then show ?thesis using checkpoint_load_cursor [OF load] at by (simp add: s' cursor_of_upsert)
  next
    case False
    then have "checkpoint_load a' name' s' = checkpoint_load a' name' s"
      by (simp add: s' checkpoint_load_def read_job_def isle_call_def load_checkpoint_def or_else_def query_row_def
          statement_def next_fault_def upsert_checkpoint_def map_of_update split: option.splits list.splits prod.splits)
    then show ?thesis using load False by simp
  qed
qed

interpretation sqlite_log: event_log "log_ok x" askable in_signed_range calm_attempt "log_history x" "read_all x" head_position
    checkpoint_load checkpoint_save for x
proof
  fix s s' :: "'m shared" and f name at p e event env
  show "sorted_wrt (<) (map recorded_position (log_history x f s))" if "log_ok x s"
    using that by (simp add: log_history_positions log_ok_def matching_place_sorted)
  show "in_signed_range (recorded_position event)" if "log_ok x s" "event \<in> set (log_history x f s)"
    using log_history_at [OF that] row_place_small that(1) by (metis in_signed_range_def log_ok_def)
  show "log_ok x s' \<and> log_history x f s' = log_history x f s" if "log_ok x s" "checkpoint_save env name at s = (Inr (), s')"
    using that(2) by (rule log_save) (use that(1) in \<open>auto simp: log_ok_def log_history_def matching_def db_ok_upsert_checkpoint\<close>)
  show "s' = s" if "checkpoint_save env name at s = (Inl e, s')"
    using checkpoint_save_outcome [OF that] by simp
qed (fact log_read(1) log_read(2) log_head | rule log_load_after_save)+

text \<open>
  C21. A consumer that comes back at its checkpoint misses nothing and sees nothing twice. A page is read, its last position is
  saved as the consumer's checkpoint, and a page is read from the checkpoint as it is loaded, whatever failed and was repeated
  in between and whichever chain reads: the two pages together are one page of the history, and the end of it where the second comes
  back short.
\<close>

theorem resumed_consumer_misses_nothing:
  assumes "log_ok x s" and "askable f" and "uint (get c) \<le> i64_max"
    and "read_all x a1 c f n s = Inr events" and "events \<noteq> []"
    and "checkpoint_save a2 name (recorded_position (last events)) s = (Inr (), s')"
    and "checkpoint_load a3 name s' = Inr p" and "read_all x a4 p f m s' = Inr events'"
  shows "let above = List.filter (\<lambda>event. c < recorded_position event) (log_history x f s)
     in events @ events' = take (length events + unat m) above \<and> (length events' < unat m \<longrightarrow> events @ events' = above)"
proof -
  have "events @ events' = take (length events + unat m) (List.filter (\<lambda>event. c < recorded_position event) (log_history x f s))"
    using sqlite_log.resumed_read [OF assms(1,2) _ assms(4-8)] assms(3) by (simp add: in_signed_range_def)
  moreover from this have "length events' < unat m \<longrightarrow>
      length (List.filter (\<lambda>event. c < recorded_position event) (log_history x f s)) \<le> length events + unat m"
    by (metis length_append length_take min_def nat_add_left_cancel_less nat_le_linear not_le)
  ultimately show ?thesis by (simp add: Let_def)
qed

lemma one_event_log:
  "log_ok toy_ext (sample_log one_event_db)"
  "List.filter (\<lambda>event. BEGINNING < recorded_position event) (log_history toy_ext filter_all (sample_log one_event_db)) \<noteq> []"
  "length (log_history toy_ext filter_all (sample_log one_event_db)) = 1"
proof -
  obtain recs where "traverse (record_row toy_ext []) (tbl_events one_event_db) = Inr recs"
    using one_event_records [of "\<lambda>_. True"] by auto
  then show ok: "log_ok toy_ext (sample_log one_event_db)"
    by (auto simp: log_ok_def traverse_Inr is_ok_iff list_all2_conv_all_nth in_set_conv_nth)
  have "map recorded_position (log_history toy_ext filter_all (sample_log one_event_db)) = [Position 1]"
    unfolding log_history_positions [OF ok]
    by (simp add: matching_def one_event_db_def empty_database_def row_place_def position_of_stored_def as_u64_def
        row_matches_def filter_all_def kind_in_def row_of_def in_prefix_range_def)
  then obtain event where "log_history toy_ext filter_all (sample_log one_event_db) = [event]" "recorded_position event = Position 1"
    by auto
  then show "List.filter (\<lambda>event. BEGINNING < recorded_position event) (log_history toy_ext filter_all (sample_log one_event_db)) \<noteq> []"
    "length (log_history toy_ext filter_all (sample_log one_event_db)) = 1"
    by (simp_all add: BEGINNING_def less_position_def)
qed

theorem resumed_consumer_misses_nothing_witness:
  "\<exists>events events' s' p. read_all toy_ext (calm_at 1) BEGINNING filter_all 1 (sample_log one_event_db) = Inr events
     \<and> checkpoint_save (calm_at 2) ''totals'' (recorded_position (last events)) (sample_log one_event_db) = (Inr (), s')
     \<and> checkpoint_load (calm_at 3) ''totals'' s' = Inr p
     \<and> read_all toy_ext (calm_at 4) p filter_all 5 s' = Inr events' \<and> length (events @ events') = 1"
proof -
  let ?s = "sample_log one_event_db"
  let ?above = "List.filter (\<lambda>event. BEGINNING < recorded_position event) (log_history toy_ext filter_all ?s)"
  have small: "uint (get BEGINNING) \<le> i64_max" by (simp add: BEGINNING_def i64_max_def)
  have calm: "calm_attempt (calm_at t)" for t by (auto simp: calm_attempt_def)
  obtain events where events: "read_all toy_ext (calm_at 1) BEGINNING filter_all 1 ?s = Inr events" "events = take 1 ?above"
    using sqlite_log.read_all_answers [OF one_event_log(1) askable_all _ calm] sqlite_log.read_all_exact [OF one_event_log(1) askable_all] small
    by (fastforce simp: in_signed_range_def)
  have ne: "events \<noteq> []" using events(2) one_event_log(2) by auto
  then have "last events \<in> set (log_history toy_ext filter_all ?s)" using events(2) by (metis filter_is_subset in_set_takeD last_in_set subsetD)
  then have range: "in_signed_range (recorded_position (last events))" by (rule sqlite_log.asked_position [OF one_event_log(1)])
  then obtain at where "stored_position (recorded_position (last events)) = Inr at"
    by (auto simp: stored_position_iff in_signed_range_def)
  then obtain s' where save: "checkpoint_save (calm_at 2) ''totals'' (recorded_position (last events)) ?s = (Inr (), s')"
    by (simp add: checkpoint_save_def writer_job_def isle_call_calm job_simps)
  obtain p where load: "checkpoint_load (calm_at 3) ''totals'' s' = Inr p"
    by (simp add: checkpoint_load_def read_job_def isle_call_calm job_simps)
  have p: "p = recorded_position (last events)" using sqlite_log.load_after_save [OF one_event_log(1) save load] by simp
  obtain events' where more: "read_all toy_ext (calm_at 4) p filter_all 5 s' = Inr events'"
    using sqlite_log.read_all_answers [OF _ askable_all _ calm] sqlite_log.save_keeps [OF one_event_log(1) save] range p by blast
  have "events @ events' = take (length events + unat (5 :: u64)) ?above"
    using resumed_consumer_misses_nothing [OF one_event_log(1) askable_all small events(1) ne save load more] by (simp add: Let_def)
  moreover have "length ?above = 1"
    using one_event_log(2,3) length_filter_le [of "\<lambda>event. BEGINNING < recorded_position event" "log_history toy_ext filter_all ?s"]
    by (cases ?above) auto
  ultimately have "length (events @ events') = 1" using ne by (cases events) auto
  then show ?thesis using events(1) save load more by blast
qed

end
