(* ===== verification/Trace.thy ===== *)
theory Trace
  imports Retention Schema Utf8
begin

text \<open>
  Instrumentation, and the call that reads it most: \<open>crates/eventsdb-sqlite/src/trace.rs\<close>, the job of \<open>finish\<close> and the
  ones of \<open>index_meta\<close> and \<open>reclaim\<close> that ask it for a number. Everything is there twice, for the build with the
  feature and the one without, and \<open>on\<close> says which build it is. What a subscriber would see is a list of lines.
\<close>

section \<open>Lines\<close>

datatype line =
    Woke rust_string u64
  | Hatch_statement rust_string
  | Refused rust_string error

definition SQL_LIMIT :: nat where
  "SQL_LIMIT = 256"

definition ELLIPSIS :: nat where
  "ELLIPSIS = 8230"

definition clipped :: "rust_string \<Rightarrow> rust_string" where
  "clipped sql =
     (let out = utf8 (take SQL_LIMIT (chars sql))
      in if length (chars out) < length (chars sql) then out @ utf8 [ELLIPSIS] else out)"

definition woke :: "bool \<Rightarrow> rust_string \<Rightarrow> u64 \<Rightarrow> line list" where
  "woke on woken_by cursor = (if on then [Woke woken_by cursor] else [])"

definition hatch_statement :: "bool \<Rightarrow> rust_string \<Rightarrow> line list" where
  "hatch_statement on sql = (if on then [Hatch_statement (clipped sql)] else [])"

text \<open>
  The texts of \<open>Unsupported\<close> are the constructors of its reason; the one that begins with the words the code
  looks for is the denial of the hatch.
\<close>

definition refused :: "bool \<Rightarrow> error \<Rightarrow> line list" where
  "refused on e =
     (if on then
        (case e of
           Truncated _ _ \<Rightarrow> [Refused ''truncated'' e]
         | NotExported _ _ \<Rightarrow> [Refused ''not_exported'' e]
         | ConsumerBehind _ _ _ \<Rightarrow> [Refused ''consumer_behind'' e]
         | Unsupported (InHatch NotAuthorizedInHatch) \<Rightarrow> [Refused ''denied'' e]
         | _ \<Rightarrow> [])
      else [])"

definition refusal :: "bool \<Rightarrow> 'a result \<Rightarrow> 'a result \<times> line list" where
  "refusal on outcome = (outcome, case outcome of Inl e \<Rightarrow> refused on e | Inr _ \<Rightarrow> [])"

section \<open>Numbers that cost a query\<close>

text \<open>A failure of the query is the constant of the build without it.\<close>

definition asked_only_if :: "bool \<Rightarrow> ('m, rusqlite_error, 'a) job \<Rightarrow> 'a \<Rightarrow> ('m, error, 'a) job" where
  "asked_only_if on query constant = (if on then or_else query (\<lambda>_. Inr constant) else jreturn constant)"

definition traced_version :: "bool \<Rightarrow> ('m schema, error, i64) job" where
  "traced_version on = asked_only_if on (query_row (\<lambda>d. Some (user_version (schema_of d)))) (-1)"

text \<open>\<open>sqlite_master\<close> is compared by the name as it is written, the statement's \<open>IF NOT EXISTS\<close> without regard to case.\<close>

definition index_exists :: "bool \<Rightarrow> rust_string \<Rightarrow> ('m schema, error, bool) job" where
  "index_exists on name =
     asked_only_if on (query_row (\<lambda>d. Some (list_ex (\<lambda>(kind, n). kind = IndexObject \<and> n = name) (master (schema_of d))))) False"

text \<open>The job of \<open>finish\<close>: the ladder, with the version read on either side of it.\<close>

definition traced_ladder :: "bool \<Rightarrow> ('m schema, error, i64 \<times> i64) job" where
  "traced_ladder on =
     jbind (traced_version on) (\<lambda>before.
     (\<lambda>c. let (migrated, c1) = migrate c; (later, c2) = traced_version on c1
          in (rbind migrated (\<lambda>_. rmap (Pair before) later), c2)))"

section \<open>Giving pages back\<close>

text \<open>
  A file beside its tables, as far as \<open>reclaim\<close> goes: how many pages are on the free list, and whether the file was made
  to be vacuumed by increments. A step of the pragma fails, frees a page and says there is more, or finds the list
  empty; on another file it says at once that there is no more. The pragma is one statement outside any transaction, so
  a step of it that fails undoes the steps before it: \<open>start\<close> is the file as the statement found it.
\<close>

record pages =
  free_pages :: nat
  incremental :: bool

type_synonym fault = "rusqlite_error option"

definition fault_now :: "fault list \<Rightarrow> fault \<times> fault list" where
  "fault_now fs = (case fs of [] \<Rightarrow> (None, []) | f # rest \<Rightarrow> (f, rest))"

definition freelist_count :: "bool \<Rightarrow> fault list \<Rightarrow> pages \<Rightarrow> i64 \<times> fault list" where
  "freelist_count on fs p =
     (if on then (case fault_now fs of (Some _, rest) \<Rightarrow> (-1, rest) | (None, rest) \<Rightarrow> (int (free_pages p), rest))
      else (-1, fs))"

function vacuum_steps :: "pages \<Rightarrow> fault list \<Rightarrow> pages \<Rightarrow> unit result \<times> fault list \<times> pages" where
  "vacuum_steps start fs p =
     (case fault_now fs of
        (Some e, rest) \<Rightarrow> (Inl (classify e), rest, start)
      | (None, rest) \<Rightarrow>
          if incremental p \<and> 0 < free_pages p then vacuum_steps start rest (p\<lparr>free_pages := free_pages p - 1\<rparr>)
          else (Inr (), rest, p))"
  by pat_completeness auto
termination
  by (relation "measure (free_pages \<circ> snd \<circ> snd)") auto

declare vacuum_steps.simps [simp del]

text \<open>The pragma is prepared, and then stepped to its end; the difference of the two counts is what the span carries.\<close>

definition reclaim_job :: "bool \<Rightarrow> fault list \<Rightarrow> pages \<Rightarrow> i64 result \<times> pages" where
  "reclaim_job on fs p =
     (let (before, fs1) = freelist_count on fs p
      in case fault_now fs1 of
           (Some e, _) \<Rightarrow> (Inl (classify e), p)
         | (None, fs2) \<Rightarrow>
             (case vacuum_steps p fs2 p of
                (Inl e, _, p') \<Rightarrow> (Inl e, p')
              | (Inr _, fs3, p') \<Rightarrow> (Inr (before - fst (freelist_count on fs3 p')), p')))"

definition reclaim :: "bool \<Rightarrow> isle_error option \<Rightarrow> fault list \<Rightarrow> pages \<Rightarrow> unit result \<times> pages" where
  "reclaim on isle fs p =
     (case isle of
        Some e \<Rightarrow> (Inl (map_isle e), p)
      | None \<Rightarrow> map_prod (rmap (\<lambda>_. ())) id (reclaim_job on fs p))"

section \<open>What instrumentation may show and may not change\<close>

text \<open>A clipped statement is text, of bounded length, and the beginning of what it was.\<close>

lemma clipped_utf8:
  assumes "\<forall>c \<in> set cs. scalar_value c"
  shows "clipped (utf8 cs) = utf8 (take SQL_LIMIT cs) @ (if SQL_LIMIT < length cs then utf8 [ELLIPSIS] else [])"
proof -
  have "\<forall>c \<in> set (take SQL_LIMIT cs). scalar_value c" using assms by (auto dest: in_set_takeD)
  then show ?thesis using assms by (simp add: clipped_def chars_utf8 Let_def)
qed

text \<open>
  A statement is clipped between characters. For every text, what the log line carries is text again, it has at most 257
  characters, a short statement is carried whole, and a long one is its first 256 characters, byte for byte, with an ellipsis
  after them: no character is cut, wherever the bytes of it lie.
\<close>

theorem clipped_cuts_no_character:
  assumes "is_utf8 sql"
  shows "is_utf8 (clipped sql) \<and> length (chars (clipped sql)) \<le> 257
     \<and> (if length (chars sql) \<le> 256 then clipped sql = sql
        else \<exists>shown hidden. sql = shown @ hidden \<and> length (chars shown) = 256 \<and> is_utf8 hidden \<and> hidden \<noteq> []
               \<and> clipped sql = shown @ utf8 [ELLIPSIS])"
proof -
  obtain cs where sql: "sql = utf8 cs" and cs: "\<forall>c \<in> set cs. scalar_value c" using assms by (auto simp: is_utf8_def)
  have taken: "\<forall>c \<in> set (take 256 cs). scalar_value c" and dropped: "\<forall>c \<in> set (drop 256 cs). scalar_value c"
    using cs by (auto dest: in_set_takeD in_set_dropD)
  have ellipsis: "\<forall>c \<in> set [ELLIPSIS]. scalar_value c" by (simp add: ELLIPSIS_def scalar_value_def)
  show ?thesis
  proof (cases "length cs \<le> 256")
    case True
    then have "clipped sql = sql" using clipped_utf8 [OF cs] by (simp add: sql SQL_LIMIT_def)
    then show ?thesis using True cs sql by (auto simp: chars_utf8 intro: is_utf8I)
  next
    case False
    let ?shown = "utf8 (take 256 cs)"
    have clip: "clipped sql = utf8 (take 256 cs @ [ELLIPSIS])"
      using clipped_utf8 [OF cs] False by (simp add: sql SQL_LIMIT_def)
    have whole: "\<forall>c \<in> set (take 256 cs @ [ELLIPSIS]). scalar_value c" using taken ellipsis by auto
    have "is_utf8 (clipped sql)" "length (chars (clipped sql)) \<le> 257"
      unfolding clip using whole by (simp_all only: chars_utf8 is_utf8I) simp
    moreover have "sql = ?shown @ utf8 (drop 256 cs)" by (simp add: sql flip: utf8_simps(3))
    moreover have "length (chars ?shown) = 256" using taken False by (simp add: chars_utf8)
    moreover have "utf8 (drop 256 cs) \<noteq> []"
      using False dropped chars_utf8 [OF dropped] by (auto simp: chars_def)
    moreover have "is_utf8 (utf8 (drop 256 cs))" using dropped by (rule is_utf8I)
    moreover have "clipped sql = ?shown @ utf8 [ELLIPSIS]" by (simp add: clip)
    moreover have "\<not> length (chars sql) \<le> 256" using False cs by (simp add: sql chars_utf8)
    ultimately show ?thesis by (simp only: if_False simp_thms) blast
  qed
qed

theorem clipped_cuts_no_character_witness:
  "is_utf8 (clipped (utf8 (replicate 300 26085))) \<and> length (chars (clipped (utf8 (replicate 300 26085)))) \<le> 257"
proof -
  have "is_utf8 (utf8 (replicate 300 26085))" by (rule is_utf8I) (simp add: scalar_value_def)
  from clipped_cuts_no_character [OF this] show ?thesis by blast
qed

lemma asked_query: "asked_only_if True (query_row (\<lambda>d. Some (g d))) constant c = (r, c') \<Longrightarrow>
     c' = c\<lparr>faults := tl (faults c)\<rparr> \<and> (\<exists>v. r = Inr v \<and> (faults c = [] \<longrightarrow> v = g (conn_db c)))"
  by (cases c; cases "faults c")
    (auto simp: asked_only_if_def or_else_def query_row_def statement_def next_fault_def split: option.splits prod.splits)

lemma traced_ladder_runs:
  "\<exists>before later c'. traced_ladder on c = (rmap (\<lambda>_. (before, later)) (fst (migrate (c\<lparr>faults := if on then tl (faults c) else faults c\<rparr>))), c')
     \<and> conn_db c' = conn_db (snd (migrate (c\<lparr>faults := if on then tl (faults c) else faults c\<rparr>)))"
proof (cases on)
  case True
  let ?c1 = "c\<lparr>faults := tl (faults c)\<rparr>"
  obtain r1 c1 where one: "traced_version True c = (r1, c1)" by force
  then obtain before where before: "r1 = Inr before" "c1 = ?c1"
    using asked_query [of "\<lambda>d. user_version (schema_of d)" "-1" c] by (auto simp: traced_version_def)
  obtain r2 c2 where two: "migrate ?c1 = (r2, c2)" by force
  obtain r3 c3 where three: "traced_version True c2 = (r3, c3)" by force
  then obtain later where later: "r3 = Inr later" "conn_db c3 = conn_db c2"
    using asked_query [of "\<lambda>d. user_version (schema_of d)" "-1" c2] by (auto simp: traced_version_def)
  show ?thesis
    using True one two three before later
    by (intro exI [of _ before] exI [of _ later] exI [of _ c3]) (cases r2, simp_all add: traced_ladder_def jbind_def Let_def)
next
  case False
  obtain r2 c2 where two: "migrate c = (r2, c2)" by force
  then show ?thesis
    using False
    by (intro exI [of _ "-1"] exI [of _ c2])
      (cases r2, simp_all add: traced_ladder_def traced_version_def asked_only_if_def jbind_def jreturn_def Let_def)
qed

lemma reclaim_shift: "reclaim True isle fs p = reclaim False isle (snd (fault_now fs)) p"
  by (cases isle; cases fs rule: list.exhaust)
    (auto simp: reclaim_def reclaim_job_def freelist_count_def fault_now_def split: option.splits list.splits prod.splits sum.splits)

text \<open>
  Instrumentation changes no answer. In the build with the feature a refusal is handed back as it was, and it leaves a line
  exactly where it is one of the four refusals an operator is to see; opening runs the same ladder, and reclaiming frees the same pages, with the same answers, as in
  the build without, except that a statement of the instrumentation may be the one to meet a failure meant for the next, which it swallows.
\<close>

theorem instrumentation_changes_nothing:
  shows "fst (refusal on outcome) = outcome
     \<and> (snd (refusal on outcome) \<noteq> [] \<longleftrightarrow> on \<and>
          ((\<exists>a b. outcome = Inl (Truncated a b) \<or> outcome = Inl (NotExported a b))
           \<or> (\<exists>name a b. outcome = Inl (ConsumerBehind name a b)) \<or> outcome = Inl denied))
     \<and> rmap (\<lambda>_. ()) (fst (traced_ladder True c)) = rmap (\<lambda>_. ()) (fst (traced_ladder False (c\<lparr>faults := tl (faults c)\<rparr>)))
     \<and> conn_db (snd (traced_ladder True c)) = conn_db (snd (traced_ladder False (c\<lparr>faults := tl (faults c)\<rparr>)))
     \<and> reclaim True isle fs p = reclaim False isle (tl fs) p"
proof -
  let ?c1 = "c\<lparr>faults := tl (faults c)\<rparr>"
  obtain b1 l1 c1 where runs: "traced_ladder True c = (rmap (\<lambda>_. (b1, l1)) (fst (migrate ?c1)), c1)"
    "conn_db c1 = conn_db (snd (migrate ?c1))"
    using traced_ladder_runs [of True c] by auto
  obtain b2 l2 c2 where off: "traced_ladder False ?c1 = (rmap (\<lambda>_. (b2, l2)) (fst (migrate ?c1)), c2)"
    "conn_db c2 = conn_db (snd (migrate ?c1))"
    using traced_ladder_runs [of False ?c1] by auto
  have "snd (fault_now fs) = tl fs" by (cases fs) (simp_all add: fault_now_def)
  moreover have "snd (refusal on outcome) \<noteq> [] \<longleftrightarrow> on \<and>
          ((\<exists>a b. outcome = Inl (Truncated a b) \<or> outcome = Inl (NotExported a b))
           \<or> (\<exists>name a b. outcome = Inl (ConsumerBehind name a b)) \<or> outcome = Inl denied)"
    by (auto simp: refusal_def refused_def denied_def split: sum.splits error.splits reason.splits hatch_reason.splits)
  ultimately show ?thesis
    using runs off reclaim_shift [of isle fs p] by (cases "fst (migrate ?c1)") (simp_all add: refusal_def)
qed

text \<open>
  The line of an index may say that it was made where nothing was: the name is looked up as it is written, and the statement finds an
  index whose name differs in case.
\<close>

lemma an_index_in_another_case_is_not_seen:
  assumes "master (schema_of d) = [(IndexObject, ''events_meta_KEY'')]"
  shows "fst (index_exists True ''events_meta_key'' \<lparr>conn_db = d, faults = [], clock = []\<rparr>) = Inr False
     \<and> has_object IndexObject ''events_meta_key'' (schema_of d)"
proof -
  have "same_identifier ''events_meta_KEY'' ''events_meta_key''" by code_simp
  then show ?thesis using assms by (simp add: index_exists_def asked_only_if_def job_simps has_object_def)
qed

section \<open>Reclaiming\<close>

lemma vacuum_steps_spec:
  assumes "vacuum_steps start fs p = (r, rest, p')" and "free_pages p \<le> free_pages start" and "incremental p = incremental start"
  shows "(case r of Inl e \<Rightarrow> p' = start | Inr _ \<Rightarrow> (if incremental start then p' = start\<lparr>free_pages := 0\<rparr> else p' = p))
     \<and> (fs = [] \<longrightarrow> r = Inr () \<and> rest = [])"
  using assms
proof (induction start fs p arbitrary: rest rule: vacuum_steps.induct)
  case (1 start fs p)
  obtain f fs' where now: "fault_now fs = (f, fs')" by force
  show ?case
  proof (cases f)
    case (Some e)
    then show ?thesis using 1(2) now by (subst (asm) vacuum_steps.simps) (auto simp: fault_now_def split: list.splits)
  next
    case None
    have nil: "fs = [] \<longrightarrow> fs' = []" using now by (auto simp: fault_now_def)
    show ?thesis
    proof (cases "incremental p \<and> 0 < free_pages p")
      case True
      let ?p = "p\<lparr>free_pages := free_pages p - 1\<rparr>"
      have steps: "vacuum_steps start fs' ?p = (r, rest, p')"
        using 1(2) now None True by (subst (asm) vacuum_steps.simps) simp
      have "free_pages ?p \<le> free_pages start" "incremental ?p = incremental start" using 1(3,4) by simp_all
      note rest = 1(1) [OF now [symmetric] None True steps this]
      have inc: "incremental start" using True 1(4) by simp
      show ?thesis
      proof (cases r)
        case (Inl e)
        then show ?thesis using rest nil by simp
      next
        case (Inr u)
        then show ?thesis using rest nil inc by simp
      qed
    next
      case False
      then have "r = Inr ()" "rest = fs'" "p' = p" using 1(2) now None by (subst (asm) vacuum_steps.simps, auto)+
      then show ?thesis using False nil 1(4) by auto
    qed
  qed
qed

text \<open>
  C34. Reclaiming gives back every page or none. Where it answers \<open>Ok\<close> on a file made to be vacuumed by increments the
  free list is empty; where it answers an error, of whatever step, the free list is what it was, since the
  statement that failed is undone as a whole; another file is left as it is. Where nothing fails the answer
  is \<open>Ok\<close>, however long the list was, and the number the span carries is the number of pages freed.
\<close>

theorem reclaim_empties_the_free_list:
  assumes "reclaim on isle fs p = (r, p')"
  shows "(case r of Inl e \<Rightarrow> p' = p | Inr _ \<Rightarrow> p' = (if incremental p then p\<lparr>free_pages := 0\<rparr> else p))
     \<and> (isle = None \<and> fs = [] \<longrightarrow> r = Inr () \<and> fst (reclaim_job True fs p) = Inr (int (free_pages p) - int (free_pages p')))"
proof (cases isle)
  case (Some e)
  then show ?thesis using assms by (auto simp: reclaim_def)
next
  case None
  obtain before gs0 where count: "freelist_count on fs p = (before, gs0)" by force
  obtain f gs where now: "fault_now gs0 = (f, gs)" by force
  have nil: "fs = [] \<longrightarrow> f = None \<and> gs = []"
    using count now by (auto simp: freelist_count_def fault_now_def split: if_splits)
  show ?thesis
  proof (cases f)
    case (Some e)
    then show ?thesis using assms None count now nil by (auto simp: reclaim_def reclaim_job_def)
  next
    case None
    obtain q rest p1 where steps: "vacuum_steps p gs p = (q, rest, p1)" by (metis prod_cases3)
    then have "r = rmap (\<lambda>_. ()) q" "p' = p1"
      using assms \<open>isle = None\<close> count now None by (auto simp: reclaim_def reclaim_job_def split: sum.splits)
    moreover note vacuum_steps_spec [OF steps]
    moreover have "fst (reclaim_job True [] p) = Inr (int (free_pages p) - int (free_pages p1))" if "gs = []"
      using vacuum_steps_spec [OF steps] steps that
      by (simp add: reclaim_job_def freelist_count_def fault_now_def)
    ultimately show ?thesis using nil by (cases q) auto
  qed
qed

theorem reclaim_empties_the_free_list_witness:
  "\<exists>p'. reclaim True None [] \<lparr> free_pages = 3, incremental = True \<rparr> = (Inr (), p') \<and> free_pages p' = 0"
proof -
  obtain r p' where run: "reclaim True None [] \<lparr> free_pages = 3, incremental = True \<rparr> = (r, p')" by force
  have "r = Inr ()" "p' = \<lparr> free_pages = 0, incremental = True \<rparr>"
    using reclaim_empties_the_free_list [OF run] by auto
  then show ?thesis using run by simp
qed

end
