(* ===== verification/Wake.thy ===== *)
theory Wake
  imports Whole_Log Paging
begin

text \<open>
  What wakes a parked reader: \<open>publish\<close> of \<open>crates/eventsdb-sqlite/src/shared.rs\<close> as a channel sees it, and every
  write of the log in its two halves. A write commits first and publishes after, and any number of other
  commits, publications and reads may fall in between. What a reader that waits can rely on is the locale
  \<open>waiter\<close>; a projection that follows (\<open>Wake_Follow\<close>) and a subscription (\<open>Wake_Subscription\<close>) are its instances.
\<close>

section \<open>The channel\<close>

text \<open>
  The \<open>watch\<close> channel is tokio's. As one receiver sees it: a send makes \<open>changed()\<close> complete at once; taking
  the receiver, \<open>borrow_and_update()\<close>, and the completion of \<open>changed()\<close> mark the current value as seen,
  after which it does not.
\<close>

record 'c channel =
  sent :: "'c \<Rightarrow> 'c"
  seen_now :: "'c \<Rightarrow> 'c"
  has_changed :: "'c \<Rightarrow> bool"

definition watch_documented :: "'c channel \<Rightarrow> bool" where
  "watch_documented ch \<longleftrightarrow> (\<forall>c. has_changed ch (sent ch c)) \<and> (\<forall>c. \<not> has_changed ch (seen_now ch c))"

text \<open>\<open>send_if_modified\<close>: the value is replaced, and sent, where it is higher.\<close>

definition publish_sending :: "'c channel \<Rightarrow> position \<Rightarrow> 'm shared \<times> 'c \<Rightarrow> 'm shared \<times> 'c" where
  "publish_sending ch position =
     (\<lambda>(s, c). if position > notify s then (s\<lparr>notify := position\<rparr>, sent ch c) else (s, c))"

lemma publish_sending_store: "fst (publish_sending ch p (s, c)) = publish p s"
  by (simp add: publish_sending_def publish_def)

section \<open>Everyone else\<close>

text \<open>
  The shared log, the channel, the awaited writes that have committed and not yet published, each with the
  positions its answer will carry, and the positions that answers have carried.
\<close>

record ('m, 'c) world =
  world_log :: "'m shared"
  world_channel :: 'c
  world_owed :: "(position \<times> position list) list"
  world_told :: "position list"

abbreviation with_log :: "'m shared \<Rightarrow> ('m, 'c) world \<Rightarrow> ('m, 'c) world" where
  "with_log s w \<equiv> w\<lparr>world_log := s\<rparr>"

abbreviation marked :: "'c channel \<Rightarrow> ('m, 'c) world \<Rightarrow> ('m, 'c) world" where
  "marked ch w \<equiv> w\<lparr>world_channel := seen_now ch (world_channel w)\<rparr>"

text \<open>
  A write of anyone commits; if it has a position to publish it owes that, and answers after. The two
  halves together are the write.
\<close>

inductive others_step ::
  "ext \<Rightarrow> ('m, 'q) projection set \<Rightarrow> 'c channel \<Rightarrow> ('m database \<Rightarrow> 'm database \<Rightarrow> bool)
     \<Rightarrow> ('m, 'c) world \<Rightarrow> ('m, 'c) world \<Rightarrow> bool" for x codes ch keeps where
  committing: "log_write x codes (world_log w) ps s' \<Longrightarrow> keeps (isle_db (world_log w)) (isle_db s') \<Longrightarrow>
     s' = publish p ((world_log w)\<lparr>isle_db := isle_db s'\<rparr>) \<Longrightarrow>
     others_step x codes ch keeps w
       (w\<lparr>world_log := (world_log w)\<lparr>isle_db := isle_db s'\<rparr>, world_owed := world_owed w @ [(p, ps)]\<rparr>)"
| committing_silently: "log_write x codes (world_log w) ps s' \<Longrightarrow> keeps (isle_db (world_log w)) (isle_db s') \<Longrightarrow>
     s' = (world_log w)\<lparr>isle_db := isle_db s'\<rparr> \<Longrightarrow>
     others_step x codes ch keeps w (w\<lparr>world_log := s', world_told := world_told w @ ps\<rparr>)"
| publishing: "world_owed w = us @ (p, ps) # vs \<Longrightarrow> publish_sending ch p (world_log w, world_channel w) = (s', c') \<Longrightarrow>
     others_step x codes ch keeps w
       (w\<lparr>world_log := s', world_channel := c', world_owed := us @ vs, world_told := world_told w @ ps\<rparr>)"

text \<open>Every write of Whole_Log has these two halves, so every one of them is such steps.\<close>

definition in_halves :: "'m shared \<Rightarrow> 'm shared \<Rightarrow> bool" where
  "in_halves s s' \<longleftrightarrow> (\<exists>published. s' = publish_committed published (s\<lparr>isle_db := isle_db s'\<rparr>))"

lemma in_halves_silent [simp]: "in_halves s (s\<lparr>isle_db := d\<rparr>)"
  unfolding in_halves_def by (rule exI [of _ None]) (simp add: publish_committed_def)

lemma in_halves_refl [simp]: "in_halves s s"
  using in_halves_silent [of s "isle_db s"] by simp

lemma in_halves_publish [simp]: "in_halves s (publish_committed published (s\<lparr>isle_db := d\<rparr>))"
  unfolding in_halves_def by (rule exI [of _ published]) simp

lemma in_halves_settle: "settle lands outcome s = (r, s') \<Longrightarrow> in_halves s s'"
  by (auto simp: settle_def split: prod.splits sum.splits)

lemma in_halves_writer: "writer_job a job s = (r, s') \<Longrightarrow> in_halves s s'"
  by (auto simp: writer_job_def split: prod.splits)

lemma in_halves_runner: "runner_transaction g a body w s = (r, w', s') \<Longrightarrow> in_halves s s'"
  by (auto simp: runner_transaction_def split: option.splits prod.splits sum.splits)

lemma in_halves_transaction: "with_transaction g a body s = (r, s') \<Longrightarrow> in_halves s s'"
  by (auto simp: with_transaction_def split: prod.splits sum.splits)

lemmas in_halves_ways = in_halves_settle in_halves_writer in_halves_runner in_halves_transaction

lemma plain_write_in_halves: "plain_write x codes s ps s' \<Longrightarrow> in_halves s s'"
  by (induction rule: plain_write.induct)
    (auto simp: append_store_def append_at_def append_expecting_def append_many_def append_if_def detach_append_def
      log_import_def checkpoint_save_def retain_def apply_plan_def run_once_def runner_init_def
      split: sum.splits prod.splits option.splits if_splits intro: in_halves_ways)

lemma log_write_in_halves: "log_write x codes s ps s' \<Longrightarrow> in_halves s s'"
  by (induction rule: log_write.induct)
    (auto simp: write_receipt_def confirm_export_def split: sum.splits prod.splits option.splits if_splits
      intro: in_halves_ways plain_write_in_halves)

lemma every_write_is_steps:
  assumes wrote: "log_write x codes (world_log w) ps s'" and keeps: "keeps (isle_db (world_log w)) (isle_db s')"
  shows "\<exists>c'. (others_step x codes ch keeps)\<^sup>*\<^sup>* w (w\<lparr>world_log := s', world_channel := c', world_told := world_told w @ ps\<rparr>)"
proof -
  obtain published where halves: "s' = publish_committed published ((world_log w)\<lparr>isle_db := isle_db s'\<rparr>)"
    using log_write_in_halves [OF wrote] unfolding in_halves_def by blast
  show ?thesis
  proof (cases published)
    case None
    then have "s' = (world_log w)\<lparr>isle_db := isle_db s'\<rparr>" using halves by (simp add: publish_committed_def)
    from others_step.committing_silently [where ch = ch and w = w and keeps = keeps, OF wrote keeps this] show ?thesis
      by (intro exI [of _ "world_channel w"] r_into_rtranclp) simp
  next
    case (Some p)
    then have s': "s' = publish p ((world_log w)\<lparr>isle_db := isle_db s'\<rparr>)" using halves by (simp add: publish_committed_def)
    let ?s = "(world_log w)\<lparr>isle_db := isle_db s'\<rparr>"
    let ?w = "w\<lparr>world_log := ?s, world_owed := world_owed w @ [(p, ps)]\<rparr>"
    have commit: "others_step x codes ch keeps w ?w" by (rule others_step.committing [where s' = s' and w = w and keeps = keeps, OF wrote keeps s'])
    obtain c' where send: "publish_sending ch p (world_log ?w, world_channel ?w) = (s', c')"
      using publish_sending_store [of ch p ?s "world_channel w"] s' by (cases "publish_sending ch p (?s, world_channel w)") auto
    have "others_step x codes ch keeps ?w (?w\<lparr>world_log := s', world_channel := c', world_owed := world_owed w @ [],
        world_told := world_told ?w @ ps\<rparr>)"
      by (rule others_step.publishing [OF _ send, where vs = "[]"]) simp
    with commit have "(others_step x codes ch keeps)\<^sup>*\<^sup>* w (?w\<lparr>world_log := s', world_channel := c',
        world_owed := world_owed w @ [], world_told := world_told ?w @ ps\<rparr>)"
      by (meson converse_rtranclp_into_rtranclp r_into_rtranclp)
    then show ?thesis by (intro exI [of _ c']) simp
  qed
qed

definition world_start :: "ext \<Rightarrow> ('m, 'c) world \<Rightarrow> bool" where
  "world_start x w \<longleftrightarrow>
     db_ok x (isle_db (world_log w)) \<and> uint (get (notify (world_log w))) \<le> events_auto (isle_db (world_log w))
     \<and> world_owed w = [] \<and> world_told w = []"

text \<open>What is owed and what was told, against what is committed and what is published.\<close>

definition world_ok :: "ext \<Rightarrow> ('m, 'c) world \<Rightarrow> bool" where
  "world_ok x w \<longleftrightarrow>
     (let s = world_log w
      in db_ok x (isle_db s) \<and> uint (get (notify s)) \<le> events_auto (isle_db s)
         \<and> (\<forall>(p, ps) \<in> set (world_owed w). uint (get p) \<le> events_auto (isle_db s) \<and> (\<forall>q \<in> set ps. q \<le> max p (notify s)))
         \<and> (\<forall>q \<in> set (world_told w). q \<le> notify s))"

lemma world_ok_start: "world_start x w \<Longrightarrow> world_ok x w"
  by (simp add: world_start_def world_ok_def Let_def)

lemma world_ok_marked [simp]: "world_ok x (marked ch w) = world_ok x w"
  by (simp add: world_ok_def)

lemma publish_notify: "notify (publish p s) = max p (notify s)" "isle_db (publish p s) = isle_db s"
  by (auto simp: publish_def max_def not_less)

lemma settled_bounds:
  assumes "settled x s ps s'"
  shows "db_ok x (isle_db s')" and "evolves (isle_db s) (isle_db s')" and "\<forall>q \<in> set ps. q \<le> notify s'"
    and "uint (get (notify s)) \<le> events_auto (isle_db s) \<Longrightarrow> uint (get (notify s')) \<le> events_auto (isle_db s')"
  using assms by (simp_all add: settled_def)

lemma world_ok_committed:
  assumes ok: "world_ok x w" and settled: "settled x (world_log w) ps s'"
    and owed: "uint (get (notify s')) \<le> events_auto (isle_db s') \<Longrightarrow>
      \<forall>(p, qs) \<in> set new. uint (get p) \<le> events_auto (isle_db s') \<and> (\<forall>q \<in> set qs. q \<le> max p (notify (world_log w)))"
    and told: "\<forall>q \<in> set heard. q \<le> notify (world_log w)"
  shows "world_ok x (w\<lparr>world_log := (world_log w)\<lparr>isle_db := isle_db s'\<rparr>, world_owed := world_owed w @ new,
      world_told := world_told w @ heard\<rparr>)"
proof -
  let ?d = "isle_db (world_log w)"
  have "uint (get (notify (world_log w))) \<le> events_auto ?d" using ok by (simp add: world_ok_def Let_def)
  note bounds = settled_bounds(1,2) [OF settled] settled_bounds(4) [OF settled this]
  have grown: "events_auto ?d \<le> events_auto (isle_db s')" using bounds(2) by (simp add: evolves_def)
  show ?thesis
    using ok bounds owed [OF bounds(3)] told grown by (fastforce simp: world_ok_def Let_def)
qed

lemma world_ok_others:
  assumes "others_step x codes ch keeps w w'" and ok: "world_ok x w" and "well_behaved codes"
  shows "world_ok x w'"
  using assms(1)
proof cases
  case (committing ps s' p)
  have settled: "settled x (world_log w) ps s'"
    using log_write_settled [OF committing(2) _ assms(3)] ok by (simp add: world_ok_def Let_def)
  have n: "notify s' = max p (notify (world_log w))" by (subst committing(4)) (simp add: publish_notify)
  have "world_ok x (w\<lparr>world_log := (world_log w)\<lparr>isle_db := isle_db s'\<rparr>, world_owed := world_owed w @ [(p, ps)],
      world_told := world_told w @ []\<rparr>)"
    by (rule world_ok_committed [OF ok settled])
      (use settled_bounds(3) [OF settled] in \<open>simp_all add: n max_def position_le_uint split: if_splits\<close>)
  then show ?thesis by (simp add: committing(1))
next
  case (committing_silently ps s')
  have settled: "settled x (world_log w) ps s'"
    using log_write_settled [OF committing_silently(2) _ assms(3)] ok by (simp add: world_ok_def Let_def)
  have n: "notify s' = notify (world_log w)" by (subst committing_silently(4)) simp
  have "world_ok x (w\<lparr>world_log := (world_log w)\<lparr>isle_db := isle_db s'\<rparr>, world_owed := world_owed w @ [],
      world_told := world_told w @ ps\<rparr>)"
    by (rule world_ok_committed [OF ok settled]) (use settled_bounds(3) [OF settled] n in simp_all)
  then show ?thesis using committing_silently(4) by (simp add: committing_silently(1))
next
  case (publishing us p ps vs s' c')
  have s': "s' = publish p (world_log w)"
    using publish_sending_store [of ch p "world_log w" "world_channel w"] publishing(3) by simp
  have higher: "q \<le> max p' n \<Longrightarrow> q \<le> max p' (max p n)" for q p' n :: position
    by (auto simp: le_max_iff_disj)
  have p: "uint (get p) \<le> events_auto (isle_db (world_log w))" "\<forall>q \<in> set ps. q \<le> max p (notify (world_log w))"
    using ok publishing(2) by (simp_all add: world_ok_def Let_def)
  have "uint (get (max p (notify (world_log w)))) \<le> events_auto (isle_db (world_log w))"
    using ok p(1) by (simp add: world_ok_def Let_def max_def)
  moreover have "\<forall>q \<in> set (world_told w @ ps). q \<le> max p (notify (world_log w))"
    using ok p(2) by (auto simp: world_ok_def Let_def le_max_iff_disj)
  ultimately show ?thesis
    using ok higher unfolding world_ok_def Let_def publishing(1)
    by (simp add: s' publish_notify publishing(2)) fast
qed

section \<open>A reader that waits\<close>

text \<open>
  What a reader has still to see, of the tables as they are. Others may add to it only events above every
  position given so far.
\<close>

locale waiter =
  fixes keeps :: "'m database \<Rightarrow> 'm database \<Rightarrow> bool" and left_over :: "'m database \<Rightarrow> event_row set"
  assumes left_stored: "r \<in> left_over d \<Longrightarrow> r \<in> set (tbl_events d)"
    and left_kept: "keeps d d' \<Longrightarrow> r \<in> left_over d' \<Longrightarrow> r \<in> set (tbl_events d) \<Longrightarrow> r \<in> left_over d"

text \<open>None of it lies at or below the published position.\<close>

definition nothing_announced :: "('m database \<Rightarrow> event_row set) \<Rightarrow> ('m, 'c) world \<Rightarrow> bool" where
  "nothing_announced left_over w \<longleftrightarrow>
     (\<forall>r \<in> left_over (isle_db (world_log w)). notify (world_log w) < row_place r)"

lemma above_published:
  assumes "db_ok x d'" and "r \<in> set (tbl_events d')" and "uint (get n) \<le> events_auto d" and "events_auto d < row_position r"
  shows "n < row_place r"
  using assms uint_row_place [OF assms(1,2)] by (simp add: position_less_uint)

context waiter begin

lemma commit_keeps_quiet:
  assumes ok: "world_ok x w" and settled: "settled x (world_log w) ps s'" and keeps: "keeps (isle_db (world_log w)) (isle_db s')"
    and quiet: "nothing_announced left_over w" and r: "r \<in> left_over (isle_db s')"
  shows "notify (world_log w) < row_place r"
proof (cases "r \<in> set (tbl_events (isle_db (world_log w)))")
  case True
  then show ?thesis using quiet left_kept [OF keeps r] by (simp add: nothing_announced_def)
next
  case False
  then have "events_auto (isle_db (world_log w)) < row_position r"
    using settled_bounds(2) [OF settled] left_stored [OF r] by (auto simp: evolves_def)
  moreover have "uint (get (notify (world_log w))) \<le> events_auto (isle_db (world_log w))"
    using ok by (simp add: world_ok_def Let_def)
  ultimately show ?thesis
    by (intro above_published [OF settled_bounds(1) [OF settled] left_stored [OF r]])
qed

lemma others_keep_quiet:
  assumes "others_step x codes ch keeps w w'" and ok: "world_ok x w" and codes: "well_behaved codes"
    and ch: "watch_documented ch" and quiet: "\<not> has_changed ch (world_channel w) \<longrightarrow> nothing_announced left_over w"
  shows "\<not> has_changed ch (world_channel w') \<longrightarrow> nothing_announced left_over w'"
proof
  assume still: "\<not> has_changed ch (world_channel w')"
  have db: "db_ok x (isle_db (world_log w))" using ok by (simp add: world_ok_def Let_def)
  from assms(1) show "nothing_announced left_over w'"
  proof cases
    case (committing ps s' p)
    then have "nothing_announced left_over w" using quiet still by simp
    from commit_keeps_quiet [OF ok log_write_settled [OF committing(2) db codes] committing(3) this]
    show ?thesis by (simp add: nothing_announced_def committing(1))
  next
    case (committing_silently ps s')
    then have "nothing_announced left_over w" using quiet still by simp
    note left = commit_keeps_quiet [OF ok log_write_settled [OF committing_silently(2) db codes] committing_silently(3) this]
    have "notify s' = notify (world_log w)" by (subst committing_silently(4)) simp
    then show ?thesis using left by (simp add: nothing_announced_def committing_silently(1))
  next
    case (publishing us p ps vs s' c')
    then have same: "s' = world_log w" "c' = world_channel w"
      using still ch by (auto simp: publish_sending_def watch_documented_def split: if_splits)
    then show ?thesis using quiet still publishing(1) by (simp add: nothing_announced_def)
  qed
qed

end

section \<open>One event, told and seen\<close>

text \<open>A channel as one receiver sees it, and a log in which an append has been committed, published and answered.\<close>

definition flag :: "bool channel" where
  "flag = \<lparr> sent = (\<lambda>_. True), seen_now = (\<lambda>_. False), has_changed = (\<lambda>c. c) \<rparr>"

lemma flag_documented [simp]: "watch_documented flag"
  by (simp add: watch_documented_def flag_def)

lemma told_once:
  fixes codes :: "('m, 'q) projection set"
  assumes "\<And>d. tbl_checkpoints d = tbl_checkpoints (empty_database m) \<Longrightarrow> keeps (empty_database m) d"
  shows "\<exists>w0 w e. world_start toy_ext w0 \<and> marked flag w0 = w0 \<and> (others_step toy_ext codes flag keeps)\<^sup>*\<^sup>* w0 w \<and> world_told w = [Position 1]
     \<and> isle_db (world_log w) = appended toy_ext ''s'' e (empty_database m) \<and> db_ok toy_ext (isle_db (world_log w))
     \<and> upcasters (world_log w) = []"
proof -
  let ?s = "sample_log (empty_database m)"
  define w0 where "w0 = \<lparr> world_log = ?s, world_channel = False, world_owed = [], world_told = [] \<rparr>"
  have auto0: "events_auto (empty_database m) = 0" by (simp add: empty_database_def)
  have start: "world_start toy_ext w0"
    by (simp add: world_start_def w0_def) (simp add: sample_log_def BEGINNING_def auto0)
  obtain c e s' where app: "append_store toy_ext (\<lambda>_. calm_at 9) ''s'' (sample_event ''paid'') ?s = (Inr c, s')"
    and s': "isle_db s' = appended toy_ext ''s'' e (isle_db ?s)" "db_ok toy_ext (isle_db s')" "upcasters s' = upcasters ?s"
    and c: "committed_position c = Some (position_of_stored (events_auto (isle_db ?s) + 1))"
    by (rule sample_append [of ?s]) (simp_all add: auto0 i64_max_def)
  have ps: "answers (\<lambda>c. positions_of [c]) (Inr c) = [Position 1]"
    using c by (simp add: answers_def auto0 position_of_stored_def as_u64_def)
  have "log_write toy_ext codes (world_log w0) [Position 1] s'"
    using log_write.plain [OF plain_write.appending [OF sample_event_ok(1) app, of codes]] unfolding ps by (simp add: w0_def)
  moreover have "keeps (isle_db (world_log w0)) (isle_db s')"
    using assms [of "isle_db s'"] s'(1) by (simp add: w0_def)
  ultimately obtain c' where "(others_step toy_ext codes flag keeps)\<^sup>*\<^sup>* w0
      (w0\<lparr>world_log := s', world_channel := c', world_told := world_told w0 @ [Position 1]\<rparr>)"
    using every_write_is_steps [where w = w0 and keeps = keeps and ch = flag and codes = codes and s' = s'] by blast
  then show ?thesis
    using start s' by (intro exI [of _ w0] exI [of _ "w0\<lparr>world_log := s', world_channel := c', world_told := world_told w0 @ [Position 1]\<rparr>"]
        exI [of _ e]) (simp add: w0_def flag_def)
qed

lemma traverse_plain: "\<exists>recs. traverse (record_row x []) rows = Inr recs \<and> length recs = length rows"
proof (induction rows)
  case (Cons row rows)
  then show ?case using record_row_plain [of x row] by (auto simp: result_simps)
qed simp

end
