(* ===== verification/Wake_Follow.thy ===== *)
theory Wake_Follow
  imports Wake
begin

text \<open>
  The loop of \<open>follow\<close> in \<open>crates/eventsdb-sqlite/src/project.rs\<close>: the receiver taken before the first
  catch-up, marked before the reads and never after them, the rounds of \<open>catch_up\<close>, and the wait for a
  change or the interval, beside every other write of the log. Nothing a caller has been told of waits for the interval.
\<close>

section \<open>The loop of a projection\<close>














section \<open>A follower at rest\<close>




end
