(* ===== verification/Wake_Subscription.thy ===== *)
theory Wake_Subscription
  imports Wake
begin

text \<open>
  The loop of \<open>paged\<close> in \<open>crates/eventsdb-sqlite/src/log.rs\<close> as a subscription runs it: a turn's two reads apart,
  the wait, and every write of the log, removals included, in between. What it has delivered is what was
  there to deliver, and nothing a caller has been told of waits for the interval.
\<close>

section \<open>The wait of a subscription\<close>

datatype 'm tail_at = Looping | Headed attempt "'m shared" | Resting | Over

record ('m, 'c) tailing =
  tail_world :: "('m, 'c) world"
  tail_cursor :: position
  tail_items :: "recorded result list"
  tail_at :: "'m tail_at"

text \<open>
  A turn is two reads with others between them; a full page is followed by another turn, a short one by
  the wait. The receiver was taken when the subscription was made.
\<close>

inductive tail_step ::
  "ext \<Rightarrow> ('m, 'q) projection set \<Rightarrow> 'c channel \<Rightarrow> filter \<Rightarrow> ('m, 'c) tailing \<Rightarrow> ('m, 'c) tailing \<Rightarrow> bool"
  for x codes ch f where
  heading: "tail_at v = Looping \<Longrightarrow>
     tail_step x codes ch f v (v\<lparr>tail_at := Headed a (world_log (tail_world v))\<rparr>)"
| paging: "tail_at v = Headed a s \<Longrightarrow>
     paged_turn x Wait f \<lparr> head_attempt = a, head_state = s, batch_attempt = b, batch_state = world_log (tail_world v) \<rparr>
       (tail_cursor v) = (items, Some c') \<Longrightarrow>
     tail_step x codes ch f v (v\<lparr>tail_cursor := c', tail_items := tail_items v @ items,
       tail_at := if length items = unat BATCH then Looping else Resting\<rparr>)"
| ending: "tail_at v = Headed a s \<Longrightarrow>
     paged_turn x Wait f \<lparr> head_attempt = a, head_state = s, batch_attempt = b, batch_state = world_log (tail_world v) \<rparr>
       (tail_cursor v) = (items, None) \<Longrightarrow>
     tail_step x codes ch f v (v\<lparr>tail_items := tail_items v @ items, tail_at := Over\<rparr>)"
| waking: "tail_at v = Resting \<Longrightarrow> has_changed ch (world_channel (tail_world v)) \<Longrightarrow>
     tail_step x codes ch f v (v\<lparr>tail_world := marked ch (tail_world v), tail_at := Looping\<rparr>)"
| timing_out: "tail_at v = Resting \<Longrightarrow> tail_step x codes ch f v (v\<lparr>tail_at := Looping\<rparr>)"
| others: "others_step x codes ch (\<lambda>_ _. True) (tail_world v) w \<Longrightarrow> tail_step x codes ch f v (v\<lparr>tail_world := w\<rparr>)"

inductive tail_reachable ::
  "ext \<Rightarrow> ('m, 'q) projection set \<Rightarrow> 'c channel \<Rightarrow> filter \<Rightarrow> position \<Rightarrow> ('m, 'c) tailing \<Rightarrow> bool"
  for x codes ch f "from" where
  start: "world_start x w \<Longrightarrow>
     tail_reachable x codes ch f from \<lparr> tail_world = marked ch w, tail_cursor = from, tail_items = [], tail_at = Looping \<rparr>"
| step: "tail_reachable x codes ch f from v \<Longrightarrow> tail_step x codes ch f v v' \<Longrightarrow> tail_reachable x codes ch f from v'"

text \<open>What a subscription at a cursor has still to deliver.\<close>

definition undelivered :: "ext \<Rightarrow> filter \<Rightarrow> position \<Rightarrow> 'm database \<Rightarrow> event_row set" where
  "undelivered x f cursor d = {row \<in> set (matching x f d). cursor < row_place row}"

interpretation tail: waiter "\<lambda>_ _. True" "undelivered x f cursor"
  by unfold_locales (auto simp: undelivered_def matching_def)

text \<open>
  What it has delivered: records of rows its filter selects, in order, between where it began and its
  cursor, and of every such row that is stored.
\<close>

definition kept_up ::
  "ext \<Rightarrow> filter \<Rightarrow> position \<Rightarrow> position \<Rightarrow> 'm shared \<Rightarrow> event_row list \<Rightarrow> recorded result list \<Rightarrow> bool" where
  "kept_up x f from cursor s rows items \<longleftrightarrow>
     delivered x (upcasters s) rows items \<and> sorted_wrt (<) (map row_place rows)
     \<and> (\<forall>r \<in> set rows. row_matches x f r \<and> from < row_place r \<and> row_place r \<le> cursor)
     \<and> (\<forall>r \<in> set (matching x f (isle_db s)). from < row_place r \<longrightarrow> row_place r \<le> cursor \<longrightarrow> r \<in> set rows)
     \<and> from \<le> cursor \<and> cursor \<le> max from (position_of_stored (events_auto (isle_db s)))"

lemma kept_up_start: "kept_up x f from from s [] []"
  by (auto simp: kept_up_def)

lemma kept_up_written:
  assumes kept: "kept_up x f from cursor s rows items" and ok: "db_ok x (isle_db s)" "db_ok x (isle_db s')"
    and written: "evolves (isle_db s) (isle_db s')" "upcasters s' = upcasters s"
  shows "kept_up x f from cursor s' rows items"
proof -
  let ?d = "isle_db s" and ?d' = "isle_db s'"
  have high: "position_of_stored (events_auto ?d) \<le> position_of_stored (events_auto ?d')"
    using written(1) db_ok_auto [OF ok(1)] db_ok_auto [OF ok(2)] by (simp add: evolves_def position_of_stored_le)
  have "r \<in> set rows" if r: "r \<in> set (matching x f ?d')" "from < row_place r" "row_place r \<le> cursor" for r
  proof (cases "r \<in> set (tbl_events ?d)")
    case True
    then show ?thesis using kept r by (simp add: kept_up_def matching_def)
  next
    case False
    then have "events_auto ?d < row_position r" using written(1) r(1) by (auto simp: evolves_def matching_def)
    moreover have "uint (get (position_of_stored (events_auto ?d))) \<le> events_auto ?d"
      using db_ok_auto [OF ok(1)] by (simp add: position_of_stored_def uint_as_u64)
    moreover have "r \<in> set (tbl_events ?d')" using r(1) by (simp add: matching_def)
    ultimately have "position_of_stored (events_auto ?d) < row_place r"
      by (intro above_published [OF ok(2)])
    then have "cursor < row_place r"
      using kept r(2) by (auto simp: kept_up_def le_max_iff_disj)
    then show ?thesis using r(3) by simp
  qed
  then show ?thesis
    using kept written(2) order_trans [OF _ max.mono [OF order_refl high]] by (auto simp: kept_up_def)
qed

lemma kept_up_paged:
  assumes kept: "kept_up x f from c s rows items" and ok: "db_ok x (isle_db s)"
    and page: "c \<le> c'" "c' \<le> max c (position_of_stored (events_auto (isle_db s)))"
      "delivered x (upcasters s) (range_rows x f c c' (isle_db s)) new"
  shows "kept_up x f from c' s (rows @ range_rows x f c c' (isle_db s)) (items @ new)"
proof -
  let ?more = "range_rows x f c c' (isle_db s)"
  have more: "row_matches x f r" "c < row_place r" "row_place r \<le> c'" if "r \<in> set ?more" for r
    using that by (simp_all add: range_rows_def matching_def)
  have old: "row_matches x f r" "from < row_place r" "row_place r \<le> c" if "r \<in> set rows" for r
    using kept that by (simp_all add: kept_up_def)
  have ends: "from \<le> c" "c \<le> max from (position_of_stored (events_auto (isle_db s)))"
    using kept by (simp_all add: kept_up_def)
  have "row_place r < row_place q" if "r \<in> set rows" "q \<in> set ?more" for r q
    using old(3) [OF that(1)] more(2) [OF that(2)] by simp
  then have sorted: "sorted_wrt (<) (map row_place (rows @ ?more))"
    using kept range_rows_sorted [OF ok, of f c c'] by (simp add: kept_up_def sorted_wrt_append)
  have "row_matches x f r \<and> from < row_place r \<and> row_place r \<le> c'" if "r \<in> set (rows @ ?more)" for r
  proof (cases "r \<in> set rows")
    case True
    then show ?thesis using old [OF True] page(1) by simp
  next
    case False
    then have "r \<in> set ?more" using that by simp
    then show ?thesis using more ends(1) by (blast intro: order_le_less_trans)
  qed
  moreover have "r \<in> set (rows @ ?more)"
    if "r \<in> set (matching x f (isle_db s))" "from < row_place r" "row_place r \<le> c'" for r
  proof (cases "row_place r \<le> c")
    case True
    then show ?thesis using kept that(1,2) by (simp add: kept_up_def)
  qed (use that in \<open>simp add: range_rows_def not_le\<close>)
  moreover have "from \<le> c'" "c' \<le> max from (position_of_stored (events_auto (isle_db s)))"
    using ends page(1,2) by (auto simp: le_max_iff_disj)
  moreover have "delivered x (upcasters s) (rows @ ?more) (items @ new)"
    using kept page(3) delivered_append by (simp add: kept_up_def)
  ultimately show ?thesis using sorted unfolding kept_up_def by blast
qed

definition tailing_ok :: "ext \<Rightarrow> 'c channel \<Rightarrow> filter \<Rightarrow> position \<Rightarrow> ('m, 'c) tailing \<Rightarrow> bool" where
  "tailing_ok x ch f from v \<longleftrightarrow>
     world_ok x (tail_world v) \<and> uint (get (tail_cursor v)) \<le> i64_max
     \<and> (tail_at v \<noteq> Over \<longrightarrow> (\<exists>rows. kept_up x f from (tail_cursor v) (world_log (tail_world v)) rows (tail_items v)))
     \<and> (case tail_at v of
          Headed a s \<Rightarrow> db_ok x (isle_db s) \<and> events_auto (isle_db s) \<le> events_auto (isle_db (world_log (tail_world v)))
        | Resting \<Rightarrow> \<not> has_changed ch (world_channel (tail_world v)) \<longrightarrow>
            nothing_announced (undelivered x f (tail_cursor v)) (tail_world v)
        | _ \<Rightarrow> True)"

lemma short_page_delivers:
  assumes ok: "db_ok x d" and page: "log_page x chain c f n d = Inr recs" "length recs \<noteq> n" and n: "0 < n"
  shows "undelivered x f (reached_by n recs c h) d = {}"
proof -
  let ?c1 = "fold (\<lambda>rec _. recorded_position rec) recs c"
  have "row_place row \<le> ?c1" if "row \<in> set (matching x f d)" "c < row_place row" for row
  proof -
    have "row \<in> set (List.filter (\<lambda>r. c < row_place r) (matching x f d))" using that by simp
    then have "row \<in> set (range_rows x f c ?c1 d)"
      by (simp only: page_range(3) [OF ok page(1) n refl page(2)])
    then show ?thesis by (simp add: range_rows_def)
  qed
  moreover have "c \<le> ?c1" by (rule page_range(1) [OF ok page(1) n refl])
  ultimately show ?thesis
    using page(2) by (fastforce simp: undelivered_def reached_by_def Let_def)
qed

lemma others_evolve:
  assumes "others_step x codes ch keeps w w'" and "world_ok x w" and "well_behaved codes"
  shows "evolves (isle_db (world_log w)) (isle_db (world_log w'))" and "upcasters (world_log w') = upcasters (world_log w)"
proof -
  have db: "db_ok x (isle_db (world_log w))" using assms(2) by (simp add: world_ok_def Let_def)
  from assms(1) show "evolves (isle_db (world_log w)) (isle_db (world_log w'))"
  proof cases
    case (committing ps s' p)
    then show ?thesis using settled_bounds(2) [OF log_write_settled [OF committing(2) db assms(3)]] by simp
  next
    case (committing_silently ps s')
    then show ?thesis using settled_bounds(2) [OF log_write_settled [OF committing_silently(2) db assms(3)]] by simp
  next
    case (publishing us p ps vs s' c')
    then show ?thesis by (auto simp: publish_sending_def split: if_splits)
  qed
  from assms(1) show "upcasters (world_log w') = upcasters (world_log w)"
  proof cases
    case (committing_silently ps s')
    have "upcasters s' = upcasters (world_log w)" by (subst committing_silently(4)) simp
    then show ?thesis by (simp add: committing_silently(1))
  qed (auto simp: publish_sending_def split: if_splits)
qed

lemma tailing_ok_paged:
  assumes ok: "tailing_ok x ch f from v" and ask: "askable f" and at: "tail_at v = Headed a s"
    and turn: "paged_turn x Wait f \<lparr> head_attempt = a, head_state = s, batch_attempt = b,
      batch_state = world_log (tail_world v) \<rparr> (tail_cursor v) = (items, Some c')"
  shows "tailing_ok x ch f from (v\<lparr>tail_cursor := c', tail_items := tail_items v @ items,
      tail_at := if length items = unat BATCH then Looping else Resting\<rparr>)"
proof -
  let ?s = "world_log (tail_world v)"
  let ?d = "isle_db ?s"
  let ?turn = "\<lparr> head_attempt = a, head_state = s, batch_attempt = b, batch_state = ?s \<rparr>"
  have world: "world_ok x (tail_world v)" and small: "uint (get (tail_cursor v)) \<le> i64_max"
    and db: "db_ok x ?d" and head: "db_ok x (isle_db s)" "events_auto (isle_db s) \<le> events_auto ?d"
    using ok at by (simp_all add: tailing_ok_def world_ok_def Let_def)
  obtain rows where rows: "kept_up x f from (tail_cursor v) ?s rows (tail_items v)"
    using ok at by (auto simp: tailing_ok_def)
  have later: "position_of_stored (events_auto (isle_db s)) \<le> position_of_stored (events_auto ?d)"
    using head db_ok_auto [OF head(1)] db_ok_auto [OF db] by (simp add: position_of_stored_le)
  obtain recs h where page: "log_page x (upcasters ?s) (tail_cursor v) f (unat BATCH) ?d = Inr recs"
    "items = map Inr recs" "c' = reached_by (unat BATCH) recs (tail_cursor v) h" "h \<le> position_of_stored (events_auto ?d)"
    using turn_reads [of x ?turn, OF _ _ _ ask small turn] head(1) db later by auto
  note reached = page_reached [OF db page(1) BATCH_pos page(4,3)]
  have "uint (get c') \<le> i64_max" using reached(2) small_max place_small [OF db] small by blast
  moreover have "length recs \<noteq> unat BATCH \<Longrightarrow> undelivered x f c' ?d = {}"
    unfolding page(3) by (rule short_page_delivers [OF db page(1) _ BATCH_pos])
  moreover have "kept_up x f from c' ?s (rows @ range_rows x f (tail_cursor v) c' ?d) (tail_items v @ items)"
    unfolding page(2) by (rule kept_up_paged [OF rows db reached])
  ultimately show ?thesis
    using world page(2) by (auto simp: tailing_ok_def nothing_announced_def)
qed

lemma tailing_ok_others:
  assumes ok: "tailing_ok x ch f from v" and others: "others_step x codes ch (\<lambda>_ _. True) (tail_world v) w"
    and codes: "well_behaved codes" and ch: "watch_documented ch"
  shows "tailing_ok x ch f from (v\<lparr>tail_world := w\<rparr>)"
proof -
  have world: "world_ok x (tail_world v)" using ok by (simp add: tailing_ok_def)
  note world' = world_ok_others [OF others world codes] and evolve = others_evolve [OF others world codes]
  have quiet: "tail_at v = Resting \<Longrightarrow> \<not> has_changed ch (world_channel w) \<longrightarrow> nothing_announced (undelivered x f (tail_cursor v)) w"
    by (rule tail.others_keep_quiet [OF others world codes ch]) (use ok in \<open>simp add: tailing_ok_def\<close>)
  have kept: "kept_up x f from (tail_cursor v) (world_log w) rows (tail_items v)"
    if "kept_up x f from (tail_cursor v) (world_log (tail_world v)) rows (tail_items v)" for rows
    by (rule kept_up_written [OF that _ _ evolve]) (use world world' in \<open>simp_all add: world_ok_def Let_def\<close>)
  have grow: "events_auto (isle_db (world_log (tail_world v))) \<le> events_auto (isle_db (world_log w))"
    using evolve(1) by (simp add: evolves_def)
  show ?thesis
    using ok world' quiet kept grow by (cases "tail_at v") (auto simp: tailing_ok_def)
qed

lemma tailing_ok_step:
  assumes step: "tail_step x codes ch f v v'" and ok: "tailing_ok x ch f from v"
    and codes: "well_behaved codes" and ch: "watch_documented ch" and ask: "askable f"
  shows "tailing_ok x ch f from v'"
proof -
  have db: "db_ok x (isle_db (world_log (tail_world v)))" using ok by (simp add: tailing_ok_def world_ok_def Let_def)
  from step show ?thesis
  proof cases
    case (paging a s b items c')
    then show ?thesis using tailing_ok_paged [OF ok ask] by simp
  next
    case (others w)
    then show ?thesis using tailing_ok_others [OF ok _ codes ch] by simp
  qed (use ok db in \<open>auto simp: tailing_ok_def\<close>)
qed

lemma tail_reachable_ok:
  assumes "tail_reachable x codes ch f from v" and "well_behaved codes" and "watch_documented ch"
    and "askable f" and "uint (get from) \<le> i64_max"
  shows "tailing_ok x ch f from v"
  using assms(1)
proof induction
  case (start w)
  then show ?case
    using assms(5) by (auto simp: tailing_ok_def world_ok_start intro!: exI [of _ "[]"] kept_up_start)
next
  case (step v v')
  show ?case by (rule tailing_ok_step [OF step.hyps(2) step.IH assms(2,3,4)])
qed


text \<open>
  C7. A subscription delivers every event it is for exactly once and in order, whatever everyone else does.
  In any interleaving of its reads with every write of the log (closures in transactions being those that hand
  their errors on), each committing and publishing as two acts with anything in between, removals included: as long as it has not ended, what it has yielded are the
  records of rows that the filter selects, in strictly increasing position, above where it started and up
  to its cursor, and of every such row that is stored; so a commit that lands between the read of
  the head and the read of the page is neither skipped by the step to the head nor delivered twice.
\<close>

theorem subscription_delivers_beside_every_write:
  assumes "tail_reachable x codes ch f from v" and "well_behaved codes" and "watch_documented ch"
    and "askable f" and "uint (get from) \<le> i64_max" and "tail_at v \<noteq> Over"
  shows "\<exists>rows recs. tail_items v = map Inr recs
     \<and> traverse (record_row x (upcasters (world_log (tail_world v)))) rows = Inr recs
     \<and> sorted_wrt (<) (map row_place rows)
     \<and> (\<forall>row \<in> set rows. row_matches x f row \<and> from < row_place row \<and> row_place row \<le> tail_cursor v)
     \<and> (\<forall>row \<in> set (matching x f (isle_db (world_log (tail_world v)))).
          from < row_place row \<and> row_place row \<le> tail_cursor v \<longrightarrow> row \<in> set rows)"
  using tail_reachable_ok [OF assms(1-5)] assms(6) by (auto simp: tailing_ok_def kept_up_def delivered_def)


section \<open>A subscription at rest\<close>

lemma tail_reachable_others:
  assumes "(others_step x codes ch (\<lambda>_ _. True))\<^sup>*\<^sup>* (tail_world v) w" and "tail_reachable x codes ch f from v"
  shows "tail_reachable x codes ch f from (v\<lparr>tail_world := w\<rparr>)"
  using assms(1)
proof induction
  case (step w w')
  from tail_reachable.step [OF step.IH tail_step.others [where w = w']] step.hyps(2) show ?case by simp
qed (use assms(2) in simp)

text \<open>A turn over a short log, with nothing failing: the page comes up short, and the reader waits.\<close>

lemma tail_reachable_turn:
  assumes reach: "tail_reachable x codes ch filter_all from v" and at: "tail_at v = Looping" "uint (get (tail_cursor v)) \<le> i64_max"
    and s: "db_ok x (isle_db (world_log (tail_world v)))" "upcasters (world_log (tail_world v)) = []"
      "length (tbl_events (isle_db (world_log (tail_world v)))) < unat BATCH"
  shows "\<exists>c items. tail_reachable x codes ch filter_all from (v\<lparr>tail_cursor := c, tail_items := items, tail_at := Resting\<rparr>)"
proof -
  let ?s = "world_log (tail_world v)"
  let ?rows = "take (unat BATCH) (List.filter (\<lambda>r. tail_cursor v < row_place r) (matching x filter_all (isle_db ?s)))"
  obtain recs where recs: "traverse (record_row x []) ?rows = Inr recs" "length recs = length ?rows"
    using traverse_plain by blast
  have "length ?rows \<le> length (tbl_events (isle_db ?s))"
    unfolding matching_def length_take
    by (rule min.coboundedI1 [OF order_trans [OF length_filter_le length_filter_le]])
  then have short: "length recs \<noteq> unat BATCH" using recs(2) s(3) by simp
  obtain built where "build_read (tail_cursor v) filter_all = Inr built"
    using askable_all at(2) unfolding askable_def is_ok_iff by blast
  from read_all_calm [OF s(1) this, of 0 BATCH] have "read_all x (calm_at 0) (tail_cursor v) filter_all BATCH ?s = Inr recs"
    using recs(1) s(2) by (simp add: log_page_def)
  then have turn: "paged_turn x Wait filter_all \<lparr> head_attempt = calm_at 0, head_state = ?s, batch_attempt = calm_at 0,
      batch_state = ?s \<rparr> (tail_cursor v) = (map Inr recs, Some (max (fold (\<lambda>rec _. recorded_position rec) recs (tail_cursor v))
        (position_of_stored (newest (isle_db ?s)))))"
    using short head_shared_still [OF s(1)] by (simp add: paged_turn_def)
  let ?v = "v\<lparr>tail_at := Headed (calm_at 0) ?s\<rparr>"
  have "tail_reachable x codes ch filter_all from ?v"
    by (rule tail_reachable.step [OF reach tail_step.heading [OF at(1)]])
  from tail_reachable.step [OF this tail_step.paging [where v = ?v and a = "calm_at 0" and s = ?s and b = "calm_at 0"]]
    turn short show ?thesis by fastforce
qed

lemma tail_rested:
  "\<exists>v. tail_reachable toy_ext ({} :: (unit, unit) projection set) flag filter_all BEGINNING v \<and> tail_at v = Resting
     \<and> \<not> has_changed flag (world_channel (tail_world v)) \<and> world_told (tail_world v) = [Position 1]"
proof -
  let ?none = "{} :: (unit, unit) projection set"
  let ?reach = "tail_reachable toy_ext ?none flag filter_all BEGINNING"
  obtain w0 w e where w0: "world_start toy_ext w0"
    and steps: "(others_step toy_ext ?none flag (\<lambda>_ _. True))\<^sup>*\<^sup>* (marked flag w0) w"
    and w: "world_told w = [Position 1]" "isle_db (world_log w) = appended toy_ext ''s'' e (empty_database ())"
      "db_ok toy_ext (isle_db (world_log w))" "upcasters (world_log w) = []"
    using told_once [where m = "()" and keeps = "\<lambda>_ _. True" and codes = ?none] by metis
  have few: "length (tbl_events (isle_db (world_log w))) < unat BATCH" by (simp add: w(2) empty_database_def BATCH_def)
  have quiet: "well_behaved ?none" by (simp add: well_behaved_def)
  have small: "uint (get BEGINNING) \<le> i64_max" by (simp add: BEGINNING_def i64_max_def)
  let ?v0 = "\<lparr> tail_world = w, tail_cursor = BEGINNING, tail_items = [], tail_at = Looping \<rparr>"
  have "?reach ?v0"
    using tail_reachable_others [OF _ tail_reachable.start [OF w0]] steps by simp
  from tail_reachable_turn [OF this] small w(3,4) few obtain c items where
    one: "?reach (?v0\<lparr>tail_cursor := c, tail_items := items, tail_at := Resting\<rparr>)"
    by auto
  show ?thesis
  proof (cases "has_changed flag (world_channel w)")
    case True
    let ?v1 = "?v0\<lparr>tail_cursor := c, tail_items := items, tail_world := marked flag w, tail_at := Looping\<rparr>"
    have two: "?reach ?v1"
      using tail_reachable.step [OF one tail_step.waking] True by simp
    have "uint (get c) \<le> i64_max"
      using tail_reachable_ok [OF one quiet flag_documented askable_all small] by (simp add: tailing_ok_def)
    from tail_reachable_turn [OF two] this w(3,4) few obtain c' items' where
      "?reach (?v1\<lparr>tail_cursor := c', tail_items := items', tail_at := Resting\<rparr>)"
      by auto
    then show ?thesis using w(1) by (intro exI conjI) (assumption, simp_all add: flag_def)
  qed (use one w(1) in \<open>auto intro!: exI\<close>)
qed

theorem subscription_delivers_beside_every_write_witness:
  "\<exists>v rows recs. tail_reachable toy_ext ({} :: (unit, unit) projection set) flag filter_all BEGINNING v
     \<and> world_told (tail_world v) = [Position 1] \<and> tail_items v = map Inr recs
     \<and> traverse (record_row toy_ext (upcasters (world_log (tail_world v)))) rows = Inr recs"
proof -
  have quiet: "well_behaved ({} :: (unit, unit) projection set)" by (simp add: well_behaved_def)
  have small: "uint (get BEGINNING) \<le> i64_max" by (simp add: BEGINNING_def i64_max_def)
  obtain v where v: "tail_reachable toy_ext ({} :: (unit, unit) projection set) flag filter_all BEGINNING v"
    "tail_at v = Resting" "world_told (tail_world v) = [Position 1]"
    using tail_rested by blast
  from subscription_delivers_beside_every_write [OF v(1) quiet flag_documented askable_all small] v show ?thesis
    by auto
qed


end
