(* ===== verification/Archive_Into_Log.thy ===== *)
theory Archive_Into_Log
  imports Archive_Loop
begin

text \<open>
  "Archive into another eventsdb file": \<open>archive_then_retain\<close> of \<open>crates/eventsdb-sqlite/src/retention.rs\<close> with the
  \<open>LogSink\<close> of \<open>crates/eventsdb-core/src/transfer.rs\<close> over a second log. What the first log loses, the second holds.
\<close>

section \<open>Copies\<close>

text \<open>A row that reads as an exported event does, but for the number its own stream gave it.\<close>

definition copy_of :: "ext \<Rightarrow> exported_event \<Rightarrow> event_row \<Rightarrow> bool" where
  "copy_of x ev copy \<longleftrightarrow>
     row_stream copy = exported_stream ev
     \<and> row_object x copy = map_insert FIELD_SEQ (from_u64 (as_u64 (row_seq copy))) (exported_object ev)"

lemma restamped_copy:
  assumes "as_restamped ev e" and "storable x (exported_object ev)" and "exported_object ev = event_object k m d s t v"
  shows "copy_of x ev (row_of x (exported_stream ev) e p)"
proof -
  have ok: "map_ok (exported_object ev)" using assms(2) by (simp add: storable_def)
  then have e: "e = event_object k m d (u64_of FIELD_SEQ e) t v"
    using assms(1,3) restamp_eq [OF ok, of "u64_of FIELD_SEQ e" e]
    by (simp add: as_restamped_def kind_of_def object_of_def u64_of_def version_of_def map_of_event_object)
  have "round_trips x m" "round_trips x d"
    using assms(2,3) by (simp_all add: storable_def object_of_def map_of_event_object)
  then have "row_object x (row_of x (exported_stream ev) e p) = e"
    by (subst (1 2) e) (rule row_of_event_object(2))
  moreover have "map_insert FIELD_SEQ (from_u64 (u64_of FIELD_SEQ e)) (exported_object ev) = e"
    by (subst (2) e) (simp add: assms(3) event_object_def)
  ultimately show ?thesis by (simp add: copy_of_def)
qed

section \<open>The sink over the receiving log\<close>

text \<open>A \<open>LogSink\<close> whose writes meet one thing after another.\<close>

definition into_log ::
  "ext \<Rightarrow> (nat \<Rightarrow> attempt) \<Rightarrow> exported_event list \<Rightarrow> nat \<times> 'm log_sink \<Rightarrow> unit result \<times> nat \<times> 'm log_sink" where
  "into_log x env page = (\<lambda>(n, sink). let (r, sink') = log_sink_write x quiet (env n) page sink in (r, Suc n, sink'))"

definition holds_copies :: "ext \<Rightarrow> 'm database \<Rightarrow> 'm log_sink \<Rightarrow> exported_event list list \<Rightarrow> bool" where
  "holds_copies x before sink seen \<longleftrightarrow>
     (let d = isle_db (sink_target sink)
      in db_ok x d \<and> set (tbl_events before) \<subseteq> set (tbl_events d)
         \<and> (\<forall>ev \<in> set (concat seen). \<exists>copy \<in> set (tbl_events d). copy_of x ev copy
              \<and> (sink_reproduced sink \<longrightarrow> exported_position ev = Some (row_place copy))))"

lemma imported_copies:
  assumes "list_all2 as_restamped page es" and "ev \<in> set page"
    and page: "\<forall>ev \<in> set page. storable x (exported_object ev) \<and> (\<exists>k m d s t v. exported_object ev = event_object k m d s t v)"
  shows "\<exists>copy \<in> set (rows_of x (zip (map exported_stream page) es) p). copy_of x ev copy
     \<and> (reproduced (landings es p) page \<longrightarrow> exported_position ev = Some (row_place copy))"
proof -
  have len: "length es = length page" using assms(1) by (simp add: list_all2_lengthD)
  obtain i where i: "i < length page" "ev = page ! i" using assms(2) by (metis in_set_conv_nth)
  let ?copy = "row_of x (exported_stream ev) (es ! i) (p + int i + 1)"
  have nth: "rows_of x (zip (map exported_stream page) es) p ! i = ?copy" using i len by (simp add: rows_of_nth)
  have "?copy \<in> set (rows_of x (zip (map exported_stream page) es) p)"
    unfolding nth [symmetric] by (rule nth_mem) (use i(1) len in simp)
  moreover have "copy_of x ev ?copy"
  proof -
    obtain k m d s t v where form: "exported_object ev = event_object k m d s t v" using page assms(2) by blast
    have "as_restamped ev (es ! i)" using list_all2_nthD [OF assms(1) i(1)] i(2) by simp
    moreover have "storable x (exported_object ev)" using page assms(2) by blast
    ultimately show ?thesis using form by (rule restamped_copy)
  qed
  moreover have "exported_position ev = Some (row_place ?copy)" if "reproduced (landings es p) page"
  proof -
    have "case exported_position (page ! i) of None \<Rightarrow> False
        | Some q \<Rightarrow> committed_position (landings es p ! i) = Some q"
      using that i(1) len by (simp add: reproduced_def list_all_length)
    then show ?thesis
      using i len by (simp add: landings_nth landed_def row_place_def algebra_simps split: option.splits)
  qed
  ultimately show ?thesis by blast
qed

lemma holds_copies_write:
  assumes held: "holds_copies x before sink seen" and run: "log_sink_write x quiet a page sink = (r, sink')"
    and page: "\<forall>ev \<in> set page. storable x (exported_object ev) \<and> (\<exists>k m d s t v. exported_object ev = event_object k m d s t v)"
  shows "case r of Inl e \<Rightarrow> sink' = sink | Inr _ \<Rightarrow> holds_copies x before sink' (seen @ [page])"
proof (cases "page = []")
  case True
  then show ?thesis using held run by (auto simp: log_sink_write_def holds_copies_def)
next
  case False
  let ?s = "sink_target sink"
  let ?d = "isle_db ?s"
  have ok: "db_ok x ?d" using held by (simp add: holds_copies_def Let_def)
  obtain r1 target where import: "log_import x quiet a page ?s = (r1, target)" by force
  have st: "\<forall>ev \<in> set page. storable x (exported_object ev)" using page by blast
  note out = log_import_outcome [OF ok st import]
  show ?thesis
  proof (cases r1)
    case (Inl e)
    then have "target = ?s" using out by simp
    then show ?thesis using run import Inl False by (auto simp: log_sink_write_def)
  next
    case (Inr report)
    then obtain es where es: "list_all2 as_restamped page es" "consecutive x (zip (map exported_stream page) es) ?d"
      "events_auto ?d + int (length page) \<le> i64_max" "report = report_of (landings es (events_auto ?d)) page"
      "isle_db target = appended_all x (zip (map exported_stream page) es) ?d"
      using out by auto
    have sink': "r = Inr ()" "sink' = sink\<lparr>sink_target := target, sink_reports := sink_reports sink @ [report]\<rparr>"
      using run import Inr False by (auto simp: log_sink_write_def)
    let ?rows = "rows_of x (zip (map exported_stream page) es) (events_auto ?d)"
    have rows: "tbl_events (isle_db (sink_target sink')) = tbl_events ?d @ ?rows"
      by (simp add: sink'(2) es(5) tbl_events_appended_all)
    have "db_ok x (isle_db (sink_target sink'))"
      using es(3) list_all2_lengthD [OF es(1)] by (simp add: sink'(2) es(5) db_ok_appended_all [OF ok es(2)])
    moreover have all: "sink_reproduced sink' \<longleftrightarrow> sink_reproduced sink \<and> reproduced (landings es (events_auto ?d)) page"
      by (simp add: sink_reproduced_def sink'(2) es(4) report_of_def)
    have "\<exists>copy \<in> set (tbl_events (isle_db (sink_target sink'))). copy_of x ev copy
        \<and> (sink_reproduced sink' \<longrightarrow> exported_position ev = Some (row_place copy))"
      if "ev \<in> set (concat (seen @ [page]))" for ev
    proof (cases "ev \<in> set page")
      case True
      from imported_copies [OF es(1) this page] show ?thesis unfolding rows all by auto
    next
      case False
      then have "ev \<in> set (concat seen)" using that by simp
      then show ?thesis using held unfolding rows all holds_copies_def Let_def set_append by blast
    qed
    moreover have "set (tbl_events before) \<subseteq> set (tbl_events (isle_db (sink_target sink')))"
      using held unfolding rows holds_copies_def Let_def by auto
    ultimately show ?thesis unfolding sink'(1) holds_copies_def Let_def by simp
  qed
qed

section \<open>The loop\<close>

text \<open>Whatever every write of the sink keeps, the loop keeps; its pages hold what the log holds.\<close>

lemma archive_pages_keeps:
  assumes run: "archive_pages x write limit target passes cursor sink s = Some (r, sink', s')"
    and ok: "db_ok x (isle_db s)" "receipts_ok (isle_db s)" and inv: "I sink"
    and step: "\<And>page sink r sink'. set page \<subseteq> exported_of x ` set (tbl_events (isle_db s)) \<Longrightarrow> I sink \<Longrightarrow>
      write page sink = (r, sink') \<Longrightarrow> I sink'"
  shows "I sink'"
  using run ok inv step
proof (induction passes arbitrary: cursor sink s)
  case Nil
  then show ?case by (auto simp: archive_pages.simps split: if_splits)
next
  case (Cons w passes)
  have page: "set events \<subseteq> exported_of x ` set (tbl_events (isle_db s))"
    if "export_recorded x (pass_export w) (pass_receipt w) (pass_taken w) cursor filter_all limit s = (Inr (events, receipt), s1)"
    for events receipt s1
  proof -
    have "export x (pass_export w) cursor filter_all limit s = Inr events"
      using export_recorded_outcome [OF Cons.prems(2,3) that] by simp
    from export_page [OF Cons.prems(2) this] show ?thesis
      using set_take_subset by (fastforce simp: matching_def)
  qed
  show ?case
  proof (cases "cursor < target")
    case False
    then show ?thesis using Cons.prems by (auto simp: archive_pages.simps)
  next
    case True
    from Cons.prems(1) True show ?thesis
    proof (cases rule: archive_pass_cases)
      case (refused e)
      then show ?thesis using Cons.prems(4) by simp
    next
      case (stopped events receipt)
      then show ?thesis using Cons.prems(4,5) page [OF stopped(1)] by blast
    next
      case (unconfirmed events receipt s1 u e)
      then show ?thesis using Cons.prems(4,5) page [OF unconfirmed(1)] by blast
    next
      case (confirmed events receipt s1 u sink2 v s2)
      note next_page = confirmed_page(1-3) [OF Cons.prems(2,3) confirmed(1,3)]
      have "I sink2" using Cons.prems(4,5) page [OF confirmed(1)] confirmed(2) by blast
      moreover have "tbl_events (isle_db s2) = tbl_events (isle_db s)" using next_page(1) by (simp add: only_receipts_def)
      ultimately show ?thesis
        using Cons.IH [OF confirmed(4) next_page(2,3)] Cons.prems(5) by simp
    qed
  qed
qed

text \<open>A sink that is watched does what it does unwatched.\<close>

lemma shown_write:
  "write events sink = (Inl e, sink') \<Longrightarrow> shown write events (sink, seen) = (Inl e, sink', seen)"
  "write events sink = (Inr u, sink') \<Longrightarrow> shown write events (sink, seen) = (Inr u, sink', seen @ [events])"
  by (simp_all add: shown_def)

lemma archive_pages_shown:
  "archive_pages x write limit target passes cursor sink s = Some (r, sink', s') \<Longrightarrow>
     \<exists>seen'. archive_pages x (shown write) limit target passes cursor (sink, seen) s = Some (r, (sink', seen'), s')"
proof (induction passes arbitrary: cursor sink seen s)
  case Nil
  then show ?case by (auto simp: archive_pages.simps split: if_splits)
next
  case (Cons w passes)
  show ?case
  proof (cases "cursor < target")
    case False
    then show ?thesis using Cons.prems by (auto simp: archive_pages.simps)
  next
    case True
    note simps = archive_pages.simps [of _ _ _ _ "w # passes"]
    obtain r1 s1 where ex: "export_recorded x (pass_export w) (pass_receipt w) (pass_taken w) cursor filter_all limit s = (r1, s1)"
      by force
    show ?thesis
    proof (cases r1)
      case (Inl e)
      then show ?thesis using Cons.prems True by (auto simp: simps ex)
    next
      case (Inr handed)
      obtain events receipt where handed: "handed = (events, receipt)" by (cases handed)
      obtain r2 sink2 where wr: "write events sink = (r2, sink2)" by force
      obtain r3 s2 where conf: "confirm_export (pass_confirm w) (pass_landed w) (receipt_id receipt) s1 = (r3, s2)" by force
      note run = Cons.prems [unfolded simps, simplified True ex Inr handed wr conf, simplified]
      show ?thesis
        using run True Cons.IH [of "receipt_through receipt" sink2 s2 "seen @ [events]"]
        by (cases "events = []"; cases r2; cases r3) (auto simp: simps ex Inr handed wr conf shown_write)
    qed
  qed
qed

lemma archive_then_retain_loop:
  assumes "archive_then_retain x write a b passes c plan limit sink s = Some (r, sink', s')"
  obtains (refused) "sink' = sink" "s' = s"
    | (stopped) at cursor e where "archive_pages x write limit at passes cursor sink s = Some (Inl e, sink', s')"
    | (applied) at cursor s1 where "archive_pages x write limit at passes cursor sink s = Some (Inr (), sink', s1)"
        "apply_plan c plan Exported (describe_archived plan) s1 = (r, s')"
  using assms unfolding archive_then_retain_def
  by (auto split: if_splits sum.splits option.splits prod.splits)

text \<open>The loop over the sink: its copies, whatever it answers.\<close>

lemma archived_copies:
  assumes ok: "db_ok x (isle_db s)" "receipts_ok (isle_db s)" "db_ok x (isle_db (sink_target sink))"
    and storable: "\<forall>row \<in> set (tbl_events (isle_db s)). storable x (row_object x row)"
    and loop: "archive_pages x (shown (into_log x env)) limit at passes cursor ((n, sink), []) s = Some (r, ((n', sink'), seen), s')"
  shows "holds_copies x (isle_db (sink_target sink)) sink' seen"
proof -
  let ?held = "\<lambda>w. holds_copies x (isle_db (sink_target sink)) (snd (fst w)) (snd w)"
  have "?held ((n', sink'), seen)"
  proof (rule archive_pages_keeps [OF loop ok(1,2), where I = ?held])
    show "?held ((n, sink), [])" using ok(3) by (simp add: holds_copies_def)
  next
    fix page w q w'
    assume page: "set page \<subseteq> exported_of x ` set (tbl_events (isle_db s))" and held: "?held w"
      and wrote: "shown (into_log x env) page w = (q, w')"
    obtain k held_sink so_far where w: "w = ((k, held_sink), so_far)" by (metis surj_pair)
    obtain q1 sink1 where one: "log_sink_write x quiet (env k) page held_sink = (q1, sink1)" by force
    have "\<forall>ev \<in> set page. storable x (exported_object ev) \<and> (\<exists>k m d s t v. exported_object ev = event_object k m d s t v)"
      using page storable by (fastforce simp: exported_of_def row_object_def)
    from holds_copies_write [OF _ one this, of "isle_db (sink_target sink)" so_far] held wrote one show "?held w'"
      by (cases q1) (auto simp: w shown_def into_log_def)
  qed
  then show ?thesis by simp
qed

text \<open>
  C18. What archiving into another log removes is in the other log. Whatever fails on either side: the receiving
  log is well formed and still holds every event it held; and every event that is gone from the first log
  was covered by a confirmed export before the run, or is held by the receiving log, in its stream and
  reading the same but for the number it has there; and, when the sink says that it reproduced the
  coordinates, at its very position.
\<close>

theorem archived_events_are_in_the_receiving_log:
  assumes ok: "db_ok x (isle_db s)" "receipts_ok (isle_db s)" "db_ok x (isle_db (sink_target sink))"
    and storable: "\<forall>row \<in> set (tbl_events (isle_db s)). storable x (row_object x row)"
    and run: "archive_then_retain x (into_log x env) a b passes c plan limit (n, sink) s = Some (r, (n', sink'), s')"
  shows "db_ok x (isle_db (sink_target sink'))
     \<and> set (tbl_events (isle_db (sink_target sink))) \<subseteq> set (tbl_events (isle_db (sink_target sink')))
     \<and> (\<forall>row \<in> set (tbl_events (isle_db s)). row \<notin> set (tbl_events (isle_db s')) \<longrightarrow>
          row_position row \<in> vouched (isle_db s)
          \<or> (\<exists>copy \<in> set (tbl_events (isle_db (sink_target sink'))). copy_of x (exported_of x row) copy
               \<and> (sink_reproduced sink' \<longrightarrow> row_place copy = row_place row)))"
  using run
proof (cases rule: archive_then_retain_loop)
  case refused
  then show ?thesis using ok(3) by simp
next
  case (stopped at cursor e)
  obtain seen where loop: "archive_pages x (shown (into_log x env)) limit at passes cursor ((n, sink), []) s
      = Some (Inl e, ((n', sink'), seen), s')"
    using archive_pages_shown [OF stopped] by blast
  have "tbl_events (isle_db s') = tbl_events (isle_db s)"
    using archive_pages_seen [OF loop ok(1,2)] by (simp add: only_receipts_def)
  then show ?thesis using archived_copies [OF ok storable loop] by (simp add: holds_copies_def Let_def)
next
  case (applied at cursor s1)
  obtain seen where loop: "archive_pages x (shown (into_log x env)) limit at passes cursor ((n, sink), []) s
      = Some (Inr (), ((n', sink'), seen), s1)"
    using archive_pages_shown [OF applied(1)] by blast
  have "only_receipts (isle_db s) (isle_db s1)" using archive_pages_seen [OF loop ok(1,2)] by blast
  then have same: "tbl_events (isle_db s1) = tbl_events (isle_db s)" "db_ok x (isle_db s1)"
    using only_receipts_ok [of "isle_db s" "isle_db s1" x] ok(1) by (simp_all add: only_receipts_def)
  have "exported_of x row \<in> set (concat seen) \<or> row_position row \<in> vouched (isle_db s)"
    if row: "row \<in> set (tbl_events (isle_db s))" "row \<notin> set (tbl_events (isle_db s'))" for row
  proof -
    obtain rep where "apply_plan c plan Exported (describe_archived plan) s1 = (Inr rep, s')"
      using applied(2) row same(1) apply_plan_outcome [OF same(2) applied(2)] by (cases r) auto
    from archived_removal [OF ok(1,2) loop this] row show ?thesis by auto
  qed
  then show ?thesis
    using archived_copies [OF ok storable loop] unfolding holds_copies_def Let_def by fastforce
qed

theorem archived_events_are_in_the_receiving_log_witness:
  "\<exists>r n' sink' s'. archive_then_retain toy_ext (into_log toy_ext (\<lambda>_. calm_at 0)) (calm_at 0) (calm_at 0) [calm_one, calm_one] (calm_at 0)
       (Before (Position 1)) 10 (0, \<lparr>sink_target = sample_log (empty_database ()), sink_reports = []\<rparr>) (sample_log one_event_db)
       = Some (r, (n', sink'), s')
     \<and> db_ok toy_ext (isle_db (sink_target sink'))
     \<and> (\<forall>row \<in> set (tbl_events one_event_db). row \<notin> set (tbl_events (isle_db s')) \<longrightarrow>
          row_position row \<in> vouched one_event_db \<or> (\<exists>copy \<in> set (tbl_events (isle_db (sink_target sink'))).
            copy_of toy_ext (exported_of toy_ext row) copy))"
proof -
  let ?sink = "\<lparr>sink_target = sample_log (empty_database ()), sink_reports = []\<rparr>"
  have ok: "db_ok toy_ext (isle_db (sample_log one_event_db))" "receipts_ok (isle_db (sample_log one_event_db))"
    "db_ok toy_ext (isle_db (sink_target ?sink))"
    by (simp_all add: one_event_facts)
  have storable: "\<forall>row \<in> set (tbl_events (isle_db (sample_log one_event_db))). storable toy_ext (row_object toy_ext row)"
    by (simp add: one_event_db_def empty_database_def row_of_event_object(2) storable_def object_of_def map_of_event_object)
  obtain r n' sink' s' where run: "archive_then_retain toy_ext (into_log toy_ext (\<lambda>_. calm_at 0)) (calm_at 0) (calm_at 0)
       [calm_one, calm_one] (calm_at 0) (Before (Position 1)) 10 (0, ?sink) (sample_log one_event_db) = Some (r, (n', sink'), s')"
    using archive_then_retain_some [OF ok(1,2), of "[calm_one, calm_one]" "into_log toy_ext (\<lambda>_. calm_at 0)" "calm_at 0" "calm_at 0"
        "calm_at 0" "Before (Position 1)" 10 "(0, ?sink)"] by (auto simp: one_event_facts)
  from archived_events_are_in_the_receiving_log [OF ok storable run] run show ?thesis by auto
qed

section \<open>What the sink says\<close>

text \<open>
  The report compares positions and nothing else. A page of another log taken into a log that holds as many events
  as came before it lands on its positions, and its streams are numbered anew: an event that was the
  second of its stream is the first of it here, and the report says that the coordinates were reproduced.
\<close>

definition second_record :: exported_event where
  "second_record = \<lparr> exported_stream = ''t'', exported_position = Some (Position 2),
     exported_object = event_object ''k'' (JObject []) (JObject []) 2 9 1 \<rparr>"

lemma second_record_ok:
  "storable toy_ext (exported_object second_record)" "validate_stored (exported_object second_record) = Inr ()"
  by (simp add: second_record_def storable_def object_of_def map_of_event_object,
      simp add: second_record_def validate_stored_iff well_formed_stored_def event_object_def entry_ok_def meta_ok_def has_kind_def)

theorem reproduced_positions_may_be_renumbered:
  "\<exists>report s' row. log_import toy_ext quiet (calm_at 0) [second_record] (sample_log one_event_db) = (Inr report, s')
     \<and> reproduced_coordinates report \<and> tbl_events (isle_db s') = tbl_events one_event_db @ [row]
     \<and> copy_of toy_ext second_record row \<and> row_position row = 2
     \<and> u64_of FIELD_SEQ (exported_object second_record) = 2 \<and> row_seq row = 1"
proof -
  let ?s = "sample_log one_event_db"
  have auto1: "events_auto one_event_db = 1" by (simp add: one_event_db_def empty_database_def)
  obtain r s' where run: "log_import toy_ext quiet (calm_at 0) [second_record] ?s = (r, s')" by force
  have "is_ok r" using log_import_runs [of toy_ext ?s "[second_record]" 0] run second_record_ok by (simp add: auto1 i64_max_def)
  then obtain report where r: "r = Inr report" by (auto simp: is_ok_iff)
  have "\<forall>ev \<in> set [second_record]. storable toy_ext (exported_object ev)" using second_record_ok by simp
  from log_import_outcome [OF _ this run] r obtain e where e: "as_restamped second_record e"
    "u64_of FIELD_SEQ e = next_of one_event_db ''t''" "report = report_of [landed e 1] [second_record]"
    "isle_db s' = appended toy_ext ''t'' e one_event_db"
    by (auto simp: list_all2_Cons1 auto1 second_record_def)
  have first: "u64_of FIELD_SEQ e = 1"
    using e(2) by (simp add: one_event_db_def) (simp add: empty_database_def next_of_def)
  let ?row = "row_of toy_ext (exported_stream second_record) e 2"
  have "copy_of toy_ext second_record ?row"
    by (rule restamped_copy [OF e(1) second_record_ok(1)]) (simp add: second_record_def)
  moreover have "reproduced_coordinates report"
    by (simp add: e(3) report_of_def reproduced_def landed_def second_record_def position_of_stored_def as_u64_def)
  moreover have "tbl_events (isle_db s') = tbl_events one_event_db @ [?row]"
    by (simp add: e(4) auto1 second_record_def)
  moreover have "u64_of FIELD_SEQ (exported_object second_record) = 2"
    by (simp add: second_record_def u64_of_def map_of_event_object)
  ultimately show ?thesis using run r by (intro exI [of _ report] exI [of _ s'] exI [of _ ?row]) (simp add: first as_i64_def)
qed

end
