(* ===== verification/Spec2Isabelle.thy ===== *)
theory Spec2Isabelle
  imports Backends Paging Archive_Loop Projection_Session Catalog_Theorems Query_Theorems Backup_Theorems
    Lifecycle_Theorems Trust Log_Backend Trace Whole_Log Log_Session Wake_Follow Wake_Subscription
    Archive_Into_Log
begin

text \<open>
  A verification development for \<open>eventsdb\<close>, an append-only event store that lives in a process, on
  SQLite. The program is the two crates \<open>crates/eventsdb-core\<close> (the envelope, the traits, the in-memory
  backend) and \<open>crates/eventsdb-sqlite\<close> (the durable backend); paths below are relative to them.

  The program and how its parts interact.

  A stream handle appends events and reads one stream; a log reads across streams, hands out pages,
  subscriptions and projections, moves events in and out, and removes history. Everything durable is in
  the tables of one SQLite file: the events with their global positions, one counter for each stream, the
  checkpoints of consumers, the ledger of removals and the receipts of exports. One writer connection and some readers run
  on threads of their own; a call submits a job to a thread and gets its answer. A committed write
  publishes its position, which wakes subscriptions. An append validates, takes the counter, inserts and
  moves the counter in one transaction that is retried while it meets contention. Removal decides, checks
  its guard, deletes and writes the ledger in one transaction; the guards read the checkpoints and the
  chain of confirmed exports. A projection's batch reads, folds and moves its cursor in one transaction on
  the same connection as its tables. The caller's own SQL runs behind an authorizer that keeps it off
  the log's tables. A caller's closure works in one transaction; it should leave that open, and nothing but
  the types of the handle makes it: the SQL that ends a transaction is let through, and SQLite may roll one back by
  itself where a statement fails.

  Theories and code.

  Prelude (machine integers, results, lists), Errors (core \<open>error.rs\<close>; sqlite \<open>shared.rs\<close>: classify,
  map_isle), Json (the values and maps of serde_json), Event (core \<open>event.rs\<close>), Upcast (core
  \<open>upcast.rs\<close>), Coordinates (core \<open>position.rs\<close>), Utf8 and Utf8_Decode (the encoding the string ranges and
  the readers of text rest on).

  Store_Spi (core \<open>store.rs\<close>: the trait as the locale event_store, its laws, its default methods),
  Mem_Store (core \<open>mem.rs\<close>, interpreted as that locale), Backends (the durable backend interpreted as it).

  Sql (tables, statements with failures, transactions, the connection thread), Rows (sqlite \<open>row.rs\<close>),
  Shared (sqlite \<open>shared.rs\<close> and the submission of jobs), Sqlite_Store (sqlite \<open>store.rs\<close>), with
  Store_Invariant and Stream_Theorems about it.

  Log_Filter (core \<open>log.rs\<close>: filters, the range of a name prefix), Sqlite_Log and Paging (sqlite
  \<open>log.rs\<close>), Log_Theorems, and Cursor_Pages (the locale of paging by an exclusive cursor, interpreted for
  the export and the five listings).

  Guarded, Txn (closures over the connection and the state of its transaction: the record scope) and Hatch_Query
  (sqlite \<open>hatch.rs\<close> and \<open>txn.rs\<close>, core \<open>params.rs\<close>), Txn_Theorems and Query_Theorems; Log_Transfer (core and sqlite \<open>transfer.rs\<close>) and Log_Transfer_Theorems.

  Retention (sqlite \<open>retention.rs\<close>), Retention_Theorems, Archive (receipts, their confirmation, the stretch a page
  holds), Archive_Loop (archive_then_retain), Archive_Into_Log (the same with the \<open>LogSink\<close> of core \<open>transfer.rs\<close> over a second log); Catalog (sqlite \<open>catalog.rs\<close>) and Catalog_Theorems;
  Projection (sqlite \<open>project.rs\<close>), Projection_Theorems, Projection_Run, and Projection_Session (a runner beside every write of others); Schema (sqlite
  \<open>schema.rs\<close>) and Schema_Theorems; Backup (sqlite \<open>backup.rs\<close>) and Backup_Theorems.

  Lifecycle (the constructors, \<open>detach_append\<close>, \<open>shutdown\<close> in the parts between its two waits, and \<open>close\<close> of sqlite
  \<open>log.rs\<close>) and Lifecycle_Theorems, with the log in use as an inductive session and a shutdown amid it; Trust (the flag of sqlite \<open>txn.rs\<close> the authorizer reads, and the scopes that move it);
  Log_Spi (core \<open>log.rs\<close>: the trait \<open>EventLog\<close> as the locale event_log, its laws, its default methods) and Log_Backend, where the SQLite log
  is interpreted as it; Trace (sqlite \<open>trace.rs\<close>, and \<open>reclaim\<close> of \<open>retention.rs\<close>, which asks it for a number); Abstract_Log (no code:
  a log that records and forgets, the specification the tables refine); Whole_Log (no code of its own: every operation above that
  writes, as one inductive step relation, a caller's closure being any sequence of operations of its context and own
  statements that hands its errors on: the inductive predicate built); Log_Session (these writes beside exports,
  confirmations and removals, from an empty file); Wake (\<open>publish\<close> of sqlite \<open>shared.rs\<close> as a channel sees it, every write as a commit and a
  publication apart, and the locale of a reader that waits), Wake_Follow (\<open>follow\<close> of \<open>project.rs\<close>) and Wake_Subscription
  (\<open>paged\<close> of \<open>log.rs\<close> with its wait), the two readers it is interpreted on.

  How state and effects correspond.

  A table is a list of rows, in the order of its key where SQLite keeps one; what a caller keeps in the same file is a
  type parameter. A statement is a function on the tables; the failures statements meet, the clock, what a thread answers
  in place of running a job, and the answers of the file system are inputs, so a theorem over all inputs
  covers every place a failure can come. A call takes the shared state and returns it with its answer. An
  error is a value of the type error, with one constructor for each format string of the code; a panic is None or an
  outcome of its own. Integers that are bound or cast keep their width: a u64 is a 64-bit word, an i64 an int with the
  casts written out. Other handles' commits come between two reads as the state each read finds, and
  between calls as steps of an inductive session (Log_Session, Projection_Session, Backup_Theorems, Whole_Log), a
  write's commit and its publication apart where it matters (Wake).

  What the lemmas show.

  Store_Invariant: what the transactions do to well-formed tables. Stream_Theorems: every operation of a stream, on every
  branch and failure. Log_Theorems: the read is the abstract selection. Paging: replays and subscriptions yield every event
  once. Txn_Theorems: a caller's transaction is all or nothing where its closure leaves it open, and what stays where it
  does not. Retention_Theorems, Archive, Archive_Loop: a removal takes what its plan and guard say; Log_Session: under
  the guard of exports only what a confirmed page holds, and every table stays well formed; archived into another log, what is gone from one is in the
  other (Archive_Into_Log). Projection_*: the read model is the fold of the
  history up to the cursor. Schema_Theorems: what opening does to a file. Catalog_Theorems: listings are complete. Query_Theorems: a query changes nothing and answers what the cells hold. Backup_Theorems: backups destroy
  nothing and open as the log. Lifecycle_Theorems: an open log is ready, a queue lands in order, a log whose
  thread was joined stays shut, and a second shutdown does not wait for the first. Trust: no
  statement of a caller is answered as trusted. Log_Backend: a consumer that comes back at its checkpoint misses nothing. Trace:
  instrumentation changes no answer, \<open>reclaim\<close> empties the free list or leaves it. Whole_Log: any run of every write
  refines a log that records without a gap and forgets, events are never rewritten, no number is given twice, and the published
  position covers what was answered and is committed. Wake_Follow, Wake_Subscription: beside every write nobody waits for the
  interval while something a caller was told of is unfolded or undelivered, and a subscription delivers once and in order.

  Bounds and fuel.

  A write is retried at most four times (MAX_BUSY_RETRIES), by a function that ends by its own measure. A walk
  over pages takes fuel, and more fuel than rows is enough; a replay and archive_then_retain
  take a list of what each turn meets, and more turns than there are pages are enough; catch_up takes rounds likewise; the
  retry of the pragmas takes what its rounds meet, and one for each millisecond of the timeout and two more are
  enough. Each of these is proved to give an answer then.

  Not modelled.

  Spans, beyond the lines and the numbers of Trace: they are of the tracing crate, and no answer or state depends on them. The crate roots: re-exports.
  The text of error messages and of SQL the program writes, beyond what its meaning needs. Reads of handles that outlive a shutdown: what a reader's
  thread answers then is its library's. Closures of the whole-log theorems that swallow an error or end their own
  transaction: what these can do is shown in Txn_Theorems. Callbacks of a projection that end the
  transaction they are given. The side files of a database, which are taken with their database's path: SQLite deletes
  what lies at a backup's path with \<open>-journal\<close> or \<open>-wal\<close> after it. Writes of other handles between the pages of one
  \<open>archive_then_retain\<close>; between the three acts of an export by hand they are steps of Log_Session.
  What is not under the repository is a parameter with its documented behaviour as named hypotheses: SQLite's reading of a caller's
  statement, serde_json's text, the file system, the connection threads, tokio's watch channel.
\<close>

end
